(* ===== verification/Prelude.thy ===== *)
theory Prelude
  imports Main "HOL-Library.Word" "HOL-Library.Monad_Syntax" "HOL-Library.Multiset"
begin

text \<open>
  Shared vocabulary of the development: Rust's machine integers and their casts, vectors with
  Rust's partial indexing, slices, in-place removal and insertion, three-way comparison and the
  binary search of the standard library, and the generic facts the component theories use.

  Conventions. A value of type \<open>'a option\<close> that a Rust function would not return (a panic such
  as an index out of bounds, an \<open>unreachable!\<close>, or a walk that never ends) is \<^term>\<open>None\<close>; a
  Rust \<open>Result<T, E>\<close> is a value of \<open>'e + 'a\<close> with \<^term>\<open>Inl\<close> for the error.
  \<open>usize\<close> is a \<^typ>\<open>nat\<close>; a \<open>u32\<close> obtained by the cast \<open>as u32\<close> is written with \<open>as_u32\<close>, which
  truncates.
\<close>

section \<open>Machine integers\<close>

type_synonym u8 = "8 word"
type_synonym u16 = "16 word"
type_synonym u32 = "32 word"
type_synonym u64 = "64 word"

definition as_u32 :: "nat \<Rightarrow> nat" where
  "as_u32 n = n mod 2 ^ 32"

lemma as_u32_id [simp]: "n < 2 ^ 32 \<Longrightarrow> as_u32 n = n"
  by (simp add: as_u32_def)

lemma as_u32_less: "as_u32 n < 2 ^ 32"
  by (simp add: as_u32_def)

section \<open>Results\<close>

text \<open>The \<open>?\<close> operator, and \<open>collect\<close> of an iterator of results: the first error ends the iteration.\<close>

definition and_then :: "('e + 'a) option \<Rightarrow> ('a \<Rightarrow> ('e + 'b) option) \<Rightarrow> ('e + 'b) option" where
  "and_then r k = Option.bind r (\<lambda>x. case x of Inl e \<Rightarrow> Some (Inl e) | Inr a \<Rightarrow> k a)"

lemma and_then_simps [simp]: "and_then (Some (Inr a)) k = k a" "and_then (Some (Inl e)) k = Some (Inl e)" "and_then None k = None"
  by (simp_all add: and_then_def)

fun try_map :: "('a \<Rightarrow> ('e + 'b) option) \<Rightarrow> 'a list \<Rightarrow> ('e + 'b list) option" where
  "try_map f [] = Some (Inr [])"
| "try_map f (x # xs) = and_then (f x) (\<lambda>y. and_then (try_map f xs) (\<lambda>ys. Some (Inr (y # ys))))"

lemma try_map_ok: "(\<And>x. x \<in> set xs \<Longrightarrow> f x = Some (Inr (g x))) \<Longrightarrow> try_map f xs = Some (Inr (map g xs))"
  by (induction xs) simp_all

lemma try_map_error:
  assumes "\<And>x. x \<in> set xs \<Longrightarrow> p x \<Longrightarrow> f x = Some (Inr (g x))" "\<And>x. x \<in> set xs \<Longrightarrow> \<not> p x \<Longrightarrow> \<exists>e. f x = Some (Inl e) \<and> q e"
    "\<exists>x \<in> set xs. \<not> p x"
  shows "\<exists>e. try_map f xs = Some (Inl e) \<and> q e"
  using assms
proof (induction xs)
  case (Cons x xs)
  show ?case
  proof (cases "p x")
    case True
    then have "\<exists>e. try_map f xs = Some (Inl e) \<and> q e" using Cons.prems by (intro Cons.IH) auto
    then show ?thesis using True Cons.prems(1) [of x] by auto
  next
    case False
    then show ?thesis using Cons.prems(2) [of x] by auto
  qed
qed simp

section \<open>Vectors\<close>

definition vec_get :: "'a list \<Rightarrow> nat \<Rightarrow> 'a option" where
  "vec_get xs i = (if i < length xs then Some (xs ! i) else None)"

definition vec_set :: "'a list \<Rightarrow> nat \<Rightarrow> 'a \<Rightarrow> 'a list option" where
  "vec_set xs i x = (if i < length xs then Some (xs[i := x]) else None)"

definition vec_slice :: "'a list \<Rightarrow> nat \<Rightarrow> nat \<Rightarrow> 'a list option" where
  "vec_slice xs lo hi = (if lo \<le> hi \<and> hi \<le> length xs then Some (take (hi - lo) (drop lo xs)) else None)"

definition vec_remove :: "nat \<Rightarrow> 'a list \<Rightarrow> 'a list" where
  "vec_remove i xs = take i xs @ drop (Suc i) xs"

definition vec_insert :: "nat \<Rightarrow> 'a \<Rightarrow> 'a list \<Rightarrow> 'a list" where
  "vec_insert i x xs = take i xs @ x # drop i xs"

definition vec_resize :: "nat \<Rightarrow> 'a \<Rightarrow> 'a list \<Rightarrow> 'a list" where
  "vec_resize n x xs = take n xs @ replicate (n - length xs) x"

fun position :: "('a \<Rightarrow> bool) \<Rightarrow> 'a list \<Rightarrow> nat option" where
  "position p [] = None"
| "position p (x # xs) = (if p x then Some 0 else map_option Suc (position p xs))"

text \<open>\<open>IndexMap::insert\<close>: the value of a present key is replaced in place.\<close>

fun assoc_insert :: "'k \<Rightarrow> 'v \<Rightarrow> ('k \<times> 'v) list \<Rightarrow> ('k \<times> 'v) list" where
  "assoc_insert k v [] = [(k, v)]"
| "assoc_insert k v ((k', v') # es) = (if k' = k then (k', v) # es else (k', v') # assoc_insert k v es)"

lemma vec_get_Some_iff [simp]: "vec_get xs i = Some x \<longleftrightarrow> i < length xs \<and> xs ! i = x"
  by (simp add: vec_get_def)

lemma vec_get_None_iff [simp]: "vec_get xs i = None \<longleftrightarrow> length xs \<le> i"
  by (simp add: vec_get_def not_less)

lemma vec_remove_append [simp]: "vec_remove (length ys) (ys @ x # zs) = ys @ zs"
  by (simp add: vec_remove_def)

lemma vec_remove_append_Suc [simp]:
  "vec_remove (Suc (length ys)) (ys @ x # y # zs) = ys @ x # zs"
  by (simp add: vec_remove_def)

lemma vec_insert_append [simp]: "vec_insert (length ys) x (ys @ zs) = ys @ x # zs"
  by (simp add: vec_insert_def)

lemma length_vec_remove [simp]: "i < length xs \<Longrightarrow> length (vec_remove i xs) = length xs - 1"
  by (simp add: vec_remove_def)

lemma length_vec_insert [simp]: "i \<le> length xs \<Longrightarrow> length (vec_insert i x xs) = Suc (length xs)"
  by (simp add: vec_insert_def)

lemma set_vec_insert: "set (vec_insert i x xs) = insert x (set xs)"
  by (simp add: vec_insert_def) (metis append_take_drop_id set_append)

text \<open>Pools that store lists one after the other and remember where each starts.\<close>

lemma concat_split: "i < length ss \<Longrightarrow> concat ss = concat (take i ss) @ ss ! i @ concat (drop (Suc i) ss)"
  by (metis append.assoc concat.simps(2) concat_append id_take_nth_drop)

lemma vec_slice_concat:
  assumes "i < length ss"
  shows "vec_slice (concat ss) (length (concat (take i ss))) (length (concat (take i ss)) + length (ss ! i)) = Some (ss ! i)"
proof -
  note c = concat_split [OF assms]
  have "length (concat (take i ss)) + length (ss ! i) \<le> length (concat ss)" using arg_cong [OF c, of length] by simp
  moreover have "take (length (ss ! i)) (drop (length (concat (take i ss))) (concat ss)) = ss ! i" by (subst c) simp
  ultimately show ?thesis by (simp add: vec_slice_def)
qed

lemma position_Some: "position p xs = Some i \<Longrightarrow> i < length xs \<and> p (xs ! i)"
  by (induction xs arbitrary: i) (auto split: if_splits)

lemma position_first: "position p xs = Some i \<Longrightarrow> j < i \<Longrightarrow> \<not> p (xs ! j)"
  by (induction xs arbitrary: i j) (auto simp: nth_Cons split: if_splits nat.splits)

lemma position_ex: "\<exists>x \<in> set xs. p x \<Longrightarrow> \<exists>i. position p xs = Some i"
  by (induction xs) auto

section \<open>Comparison and binary search\<close>

datatype ordering = Less | Equal | Greater

definition ord_cmp :: "'a::linorder \<Rightarrow> 'a \<Rightarrow> ordering" where
  "ord_cmp x y = (if x < y then Less else if x = y then Equal else Greater)"

definition then_with :: "ordering \<Rightarrow> ordering \<Rightarrow> ordering" where
  "then_with a b = (case a of Equal \<Rightarrow> b | _ \<Rightarrow> a)"

lemma ord_cmp_simps [simp]:
  "ord_cmp x y = Less \<longleftrightarrow> x < y"
  "ord_cmp x y = Equal \<longleftrightarrow> x = y"
  "ord_cmp x y = Greater \<longleftrightarrow> y < x"
  by (auto simp: ord_cmp_def)

text \<open>
  \<open>slice::binary_search_by\<close>: \<^term>\<open>Inr i\<close> is \<open>Ok(i)\<close>, \<^term>\<open>Inl i\<close> is \<open>Err(i)\<close>, the insertion
  point. The comparison tells where the probe lies relative to what is sought.
\<close>

function binary_search_loop :: "('a \<Rightarrow> ordering) \<Rightarrow> 'a list \<Rightarrow> nat \<Rightarrow> nat \<Rightarrow> nat + nat" where
  "binary_search_loop f xs lo hi =
     (if lo < hi then
        (let mid = lo + (hi - lo) div 2 in
         case f (xs ! mid) of
           Less \<Rightarrow> binary_search_loop f xs (Suc mid) hi
         | Greater \<Rightarrow> binary_search_loop f xs lo mid
         | Equal \<Rightarrow> Inr mid)
      else Inl lo)"
  by pat_completeness auto
termination
  by (relation "measure (\<lambda>(f, xs, lo, hi). hi - lo)") auto

declare binary_search_loop.simps [simp del]

definition binary_search_by :: "('a \<Rightarrow> ordering) \<Rightarrow> 'a list \<Rightarrow> nat + nat" where
  "binary_search_by f xs = binary_search_loop f xs 0 (length xs)"

definition cmp_sorted :: "('a \<Rightarrow> ordering) \<Rightarrow> 'a list \<Rightarrow> bool" where
  "cmp_sorted f xs \<longleftrightarrow> sorted_wrt (\<lambda>x y. (f y = Less \<longrightarrow> f x = Less) \<and> (f x = Greater \<longrightarrow> f y = Greater)) xs"

definition search_spec :: "('a \<Rightarrow> ordering) \<Rightarrow> 'a list \<Rightarrow> nat + nat \<Rightarrow> bool" where
  "search_spec f xs r = (case r of
     Inr i \<Rightarrow> i < length xs \<and> f (xs ! i) = Equal
   | Inl i \<Rightarrow> i \<le> length xs \<and> (\<forall>j < i. f (xs ! j) = Less) \<and> (\<forall>j. i \<le> j \<and> j < length xs \<longrightarrow> f (xs ! j) = Greater))"

lemma cmp_sorted_nth:
  assumes "cmp_sorted f xs" "i < j" "j < length xs"
  shows "f (xs ! j) = Less \<Longrightarrow> f (xs ! i) = Less"
    and "f (xs ! i) = Greater \<Longrightarrow> f (xs ! j) = Greater"
  using assms by (auto simp: cmp_sorted_def sorted_wrt_iff_nth_less)

lemma binary_search_loop_spec:
  assumes "cmp_sorted f xs" "lo \<le> hi" "hi \<le> length xs"
    and "\<forall>j < lo. f (xs ! j) = Less"
    and "\<forall>j. hi \<le> j \<and> j < length xs \<longrightarrow> f (xs ! j) = Greater"
  shows "search_spec f xs (binary_search_loop f xs lo hi)"
  using assms
proof (induction f xs lo hi rule: binary_search_loop.induct)
  case (1 f xs lo hi)
  show ?case
  proof (cases "lo < hi")
    case False
    then have "binary_search_loop f xs lo hi = Inl lo"
      by (subst binary_search_loop.simps) simp
    with False "1.prems" show ?thesis by (auto simp: search_spec_def)
  next
    case True
    define mid where "mid = lo + (hi - lo) div 2"
    have mid: "lo \<le> mid" "mid < hi" "mid < length xs"
      using True "1.prems"(3) by (auto simp: mid_def)
    show ?thesis
    proof (cases "f (xs ! mid)")
      case Less
      have "\<forall>j < Suc mid. f (xs ! j) = Less"
        using cmp_sorted_nth(1) [OF "1.prems"(1) _ mid(3)] Less by (auto simp: less_Suc_eq)
      with Less True mid "1.prems" show ?thesis
        using "1.IH"(1) [OF True mid_def] by (simp add: binary_search_loop.simps [of f xs lo hi] mid_def [symmetric] Let_def)
    next
      case Greater
      have "\<forall>j. mid \<le> j \<and> j < length xs \<longrightarrow> f (xs ! j) = Greater"
        using cmp_sorted_nth(2) [OF "1.prems"(1)] Greater by (auto simp: le_less)
      with Greater True mid "1.prems" show ?thesis
        using "1.IH"(2) [OF True mid_def] by (simp add: binary_search_loop.simps [of f xs lo hi] mid_def [symmetric] Let_def)
    next
      case Equal
      with True mid show ?thesis
        by (simp add: binary_search_loop.simps [of f xs lo hi] mid_def [symmetric] Let_def search_spec_def)
    qed
  qed
qed

lemma binary_search_by_spec: "cmp_sorted f xs \<Longrightarrow> search_spec f xs (binary_search_by f xs)"
  unfolding binary_search_by_def by (rule binary_search_loop_spec) auto

section \<open>Comparison functions\<close>

text \<open>
  What sorting and deduplication rely on: a three-way comparison that is reflexive, antisymmetric,
  transitive and a congruence for its own equality. Comparisons compose with \<open>then_with\<close> and along
  projections, the way derived and hand-written \<open>Ord\<close> implementations do it.
\<close>

locale comparison =
  fixes c :: "'a \<Rightarrow> 'a \<Rightarrow> ordering"
    and dm :: "'a \<Rightarrow> bool"
  assumes refl: "dm x \<Longrightarrow> c x x = Equal"
    and flip: "dm x \<Longrightarrow> dm y \<Longrightarrow> c x y = Less \<Longrightarrow> c y x = Greater"
    and flip': "dm x \<Longrightarrow> dm y \<Longrightarrow> c x y = Greater \<Longrightarrow> c y x = Less"
    and subst: "dm x \<Longrightarrow> dm y \<Longrightarrow> dm z \<Longrightarrow> c x y = Equal \<Longrightarrow> c x z = c y z"
    and trans: "dm x \<Longrightarrow> dm y \<Longrightarrow> dm z \<Longrightarrow> c x y = Less \<Longrightarrow> c y z = Less \<Longrightarrow> c x z = Less"
begin

lemma sym: "dm x \<Longrightarrow> dm y \<Longrightarrow> c x y = Equal \<Longrightarrow> c y x = Equal"
  using flip [of y x] flip' [of y x] by (cases "c y x") auto

lemma subst_right:
  assumes "dm x" "dm y" "dm z" "c x y = Equal"
  shows "c z x = c z y"
  using assms subst [OF assms] flip [of x z] flip [of y z] flip' [of x z] flip' [of y z] sym [of x z] sym [of y z]
  by (cases "c x z") simp_all

end

lemma then_with_simps [simp]:
  "then_with a b = Equal \<longleftrightarrow> a = Equal \<and> b = Equal"
  "then_with a b = Less \<longleftrightarrow> a = Less \<or> a = Equal \<and> b = Less"
  "then_with a b = Greater \<longleftrightarrow> a = Greater \<or> a = Equal \<and> b = Greater"
  by (cases a; simp add: then_with_def)+

lemma comparison_then_with:
  assumes a: "comparison a dm" and b: "comparison b dm"
  shows "comparison (\<lambda>x y. then_with (a x y) (b x y)) dm"
proof (rule comparison.intro)
  fix x y z
  assume d: "dm x" "dm y"
  show "then_with (a x y) (b x y) = Less \<Longrightarrow> then_with (a y x) (b y x) = Greater"
    unfolding then_with_simps
    using comparison.flip [OF a d] comparison.flip [OF b d] comparison.sym [OF a d] by blast
  show "then_with (a x y) (b x y) = Greater \<Longrightarrow> then_with (a y x) (b y x) = Less"
    unfolding then_with_simps
    using comparison.flip' [OF a d] comparison.flip' [OF b d] comparison.sym [OF a d] by blast
  assume "dm z"
  note d3 = d this
  show "then_with (a x y) (b x y) = Equal \<Longrightarrow> then_with (a x z) (b x z) = then_with (a y z) (b y z)"
    unfolding then_with_simps using comparison.subst [OF a d3] comparison.subst [OF b d3] by metis
  show "then_with (a x y) (b x y) = Less \<Longrightarrow> then_with (a y z) (b y z) = Less \<Longrightarrow> then_with (a x z) (b x z) = Less"
    unfolding then_with_simps
    using comparison.subst [OF a d3] comparison.subst_right [OF a d3(2,3,1)] comparison.trans [OF a d3]
      comparison.trans [OF b d3] by metis
next
  fix x
  assume "dm x"
  then show "then_with (a x x) (b x x) = Equal"
    using comparison.refl [OF a] comparison.refl [OF b] by simp
qed

lemma comparison_on:
  assumes c: "comparison c dm" and f: "\<And>x. dm' x \<Longrightarrow> dm (f x)"
  shows "comparison (\<lambda>x y. c (f x) (f y)) dm'"
proof (rule comparison.intro)
  fix x y z
  assume d: "dm' x" "dm' y"
  note d2 = f [OF d(1)] f [OF d(2)]
  show "c (f x) (f y) = Less \<Longrightarrow> c (f y) (f x) = Greater" by (rule comparison.flip [OF c d2])
  show "c (f x) (f y) = Greater \<Longrightarrow> c (f y) (f x) = Less" by (rule comparison.flip' [OF c d2])
  assume "dm' z"
  note d3 = d2 f [OF this]
  show "c (f x) (f y) = Equal \<Longrightarrow> c (f x) (f z) = c (f y) (f z)" by (rule comparison.subst [OF c d3])
  show "c (f x) (f y) = Less \<Longrightarrow> c (f y) (f z) = Less \<Longrightarrow> c (f x) (f z) = Less" by (rule comparison.trans [OF c d3])
next
  fix x
  assume "dm' x"
  then show "c (f x) (f x) = Equal" by (intro comparison.refl [OF c] f)
qed

interpretation ord_cmp: comparison "ord_cmp :: 'a::linorder \<Rightarrow> 'a \<Rightarrow> ordering" "\<lambda>_. True"
  by unfold_locales (auto simp: ord_cmp_def split: if_splits)

text \<open>Sorting with a comparison function (\<open>sort_unstable_by\<close>, \<open>sort_by\<close>), as an insertion sort.\<close>

fun insort_cmp :: "('a \<Rightarrow> 'a \<Rightarrow> ordering) \<Rightarrow> 'a \<Rightarrow> 'a list \<Rightarrow> 'a list" where
  "insort_cmp c x [] = [x]"
| "insort_cmp c x (y # ys) = (if c x y = Greater then y # insort_cmp c x ys else x # y # ys)"

definition sort_by_cmp :: "('a \<Rightarrow> 'a \<Rightarrow> ordering) \<Rightarrow> 'a list \<Rightarrow> 'a list" where
  "sort_by_cmp c xs = foldr (insort_cmp c) xs []"

lemma mset_insort_cmp: "mset (insort_cmp c x ys) = add_mset x (mset ys)"
  by (induction ys) auto

lemma mset_sort_by_cmp [simp]: "mset (sort_by_cmp c xs) = mset xs"
  by (induction xs) (simp_all add: sort_by_cmp_def mset_insort_cmp)

lemma set_sort_by_cmp [simp]: "set (sort_by_cmp c xs) = set xs"
  by (metis mset_sort_by_cmp set_mset_mset)

text \<open>\<open>binary_search\<close> on a sorted vector followed by an insertion when the element is missing.\<close>

definition insert_sorted :: "'a::linorder \<Rightarrow> 'a list \<Rightarrow> 'a list" where
  "insert_sorted x xs = (case binary_search_by (\<lambda>y. ord_cmp y x) xs of Inr _ \<Rightarrow> xs | Inl j \<Rightarrow> vec_insert j x xs)"

lemma insert_sorted_correct:
  assumes "sorted_wrt (<) xs"
  shows "sorted_wrt (<) (insert_sorted x xs)" "set (insert_sorted x xs) = insert x (set xs)"
proof -
  have "cmp_sorted (\<lambda>y. ord_cmp y x) xs"
    using assms unfolding cmp_sorted_def by (rule sorted_wrt_mono_rel [rotated]) auto
  note spec = binary_search_by_spec [OF this]
  have "sorted_wrt (<) (insert_sorted x xs) \<and> set (insert_sorted x xs) = insert x (set xs)"
  proof (cases "binary_search_by (\<lambda>y. ord_cmp y x) xs")
    case (Inl j)
    then have j: "j \<le> length xs" "\<forall>k < j. xs ! k < x" "\<forall>k. j \<le> k \<and> k < length xs \<longrightarrow> x < xs ! k"
      using spec by (auto simp: search_spec_def)
    have "sorted_wrt (<) (take j xs @ drop j xs)" using assms by simp
    moreover have "\<forall>y \<in> set (take j xs). y < x" "\<forall>y \<in> set (drop j xs). x < y"
      using j by (auto simp: in_set_conv_nth)
    ultimately have "sorted_wrt (<) (take j xs @ x # drop j xs)"
      by (auto simp only: sorted_wrt_append sorted_wrt.simps) auto
    then show ?thesis using Inl set_vec_insert [of j x xs] by (simp add: insert_sorted_def vec_insert_def)
  next
    case (Inr i)
    then show ?thesis using spec assms by (auto simp: insert_sorted_def search_spec_def)
  qed
  then show "sorted_wrt (<) (insert_sorted x xs)" "set (insert_sorted x xs) = insert x (set xs)" by auto
qed

section \<open>Building a set by insertions\<close>

text \<open>
  A container whose insertion adds the elements an item stands for: every fold of insertions over
  items that are admissible keeps the invariant and collects exactly the items' elements.
\<close>

locale set_builder =
  fixes emp :: 's
    and ins :: "'i \<Rightarrow> 's \<Rightarrow> 's"
    and elems :: "'s \<Rightarrow> 'a set"
    and invar :: "'s \<Rightarrow> bool"
    and item :: "'i \<Rightarrow> 'a set"
    and ok :: "'i \<Rightarrow> bool"
  assumes elems_emp: "elems emp = {}"
    and invar_emp: "invar emp"
    and elems_ins: "invar s \<Longrightarrow> ok i \<Longrightarrow> elems (ins i s) = elems s \<union> item i"
    and invar_ins: "invar s \<Longrightarrow> ok i \<Longrightarrow> invar (ins i s)"
begin

lemma fold_ins:
  "invar s \<Longrightarrow> list_all ok is \<Longrightarrow> invar (fold ins is s) \<and> elems (fold ins is s) = elems s \<union> (\<Union>i \<in> set is. item i)"
  by (induction "is" arbitrary: s) (auto simp: elems_ins invar_ins)

lemma fold_ins_emp:
  "list_all ok is \<Longrightarrow> invar (fold ins is emp) \<and> elems (fold ins is emp) = (\<Union>i \<in> set is. item i)"
  using fold_ins [OF invar_emp] elems_emp by simp

end

end
