(* ===== verification/Char_Set.thy ===== *)
theory Char_Set
  imports Prelude "HOL-Library.Product_Lexorder" "HOL-Library.List_Lexorder"
begin

text \<open>
  \<^verbatim>\<open>crates/generate/src/nfa.rs\<close>, \<open>CharacterSet\<close>: a set of Unicode code points stored as a
  vector of half-open ranges. The struct has the one field \<open>ranges\<close>, so the model is that
  vector. The operations are the source's index loops, with the vector rewritten in place;
  \<open>chars_of\<close> is the set a vector denotes and \<open>canon\<close> the representation invariant (ranges
  nonempty, ascending, and never touching). Code points are at most \<open>END\<close>, so no \<open>u32\<close> arithmetic
  wraps and they are natural numbers here.
\<close>

section \<open>Operations\<close>

type_synonym range = "nat \<times> nat"
type_synonym CharacterSet = "range list"

definition END :: nat where
  "END = 1114112"

definition empty :: CharacterSet where
  "empty = []"

definition from_range :: "nat \<Rightarrow> nat \<Rightarrow> CharacterSet" where
  "from_range first last' = (if last' < first then [(last', Suc first)] else [(first, Suc last')])"

definition from_char :: "nat \<Rightarrow> CharacterSet" where
  "from_char c = [(c, Suc c)]"

text \<open>The loop of \<open>negate\<close>: the range at \<open>i\<close> is overwritten by the gap before it, or removed.\<close>

function negate_loop :: "CharacterSet \<Rightarrow> nat \<Rightarrow> nat \<Rightarrow> CharacterSet \<times> nat" where
  "negate_loop rs i previous_end =
     (if i < length rs then
        (let start = previous_end; rng = rs ! i in
         if start < fst rng
         then negate_loop (rs[i := (start, fst rng)]) (Suc i) (snd rng)
         else negate_loop (vec_remove i rs) i (snd rng))
      else (rs, previous_end))"
  by pat_completeness auto
termination
  by (relation "measure (\<lambda>(rs, i, p). length rs - i)") auto

definition negate :: "CharacterSet \<Rightarrow> CharacterSet" where
  "negate self = (case negate_loop self 0 0 of (rs, previous_end) \<Rightarrow>
     if previous_end < END then rs @ [(previous_end, END)] else rs)"

text \<open>The inner loop of \<open>add_int_range\<close>: join the range at \<open>i\<close> with its successors while they touch.\<close>

function join_next :: "CharacterSet \<Rightarrow> nat \<Rightarrow> CharacterSet" where
  "join_next rs i =
     (if Suc i < length rs \<and> fst (rs ! Suc i) \<le> snd (rs ! i)
      then join_next (vec_remove (Suc i) (rs[i := (fst (rs ! i), max (snd (rs ! i)) (snd (rs ! Suc i)))])) i
      else rs)"
  by pat_completeness auto
termination
  by (relation "measure (\<lambda>(rs, i). length rs)") auto

function add_int_range :: "CharacterSet \<Rightarrow> nat \<Rightarrow> nat \<Rightarrow> nat \<Rightarrow> CharacterSet \<times> nat" where
  "add_int_range rs i start end' =
     (if i < length rs then
        (let rng = rs ! i in
         if fst rng > end' then (vec_insert i (start, end') rs, i)
         else if snd rng \<ge> start
           then (join_next (rs[i := (min (fst rng) start, max (snd rng) end')]) i, i)
         else add_int_range rs (Suc i) start end')
      else (rs @ [(start, end')], i))"
  by pat_completeness auto
termination
  by (relation "measure (\<lambda>(rs, i, s, e). length rs - i)") auto

declare negate_loop.simps [simp del] join_next.simps [simp del] add_int_range.simps [simp del]

definition add_char :: "CharacterSet \<Rightarrow> nat \<Rightarrow> CharacterSet" where
  "add_char self c = fst (add_int_range self 0 c (Suc c))"

definition add_range :: "CharacterSet \<Rightarrow> nat \<Rightarrow> nat \<Rightarrow> CharacterSet" where
  "add_range self start end' = fst (add_int_range self 0 start (Suc end'))"

fun add_loop :: "CharacterSet \<Rightarrow> nat \<Rightarrow> CharacterSet \<Rightarrow> CharacterSet" where
  "add_loop self index [] = self"
| "add_loop self index (rng # others) =
     (case add_int_range self index (fst rng) (snd rng) of
        (self', index') \<Rightarrow> add_loop self' index' others)"

definition add :: "CharacterSet \<Rightarrow> CharacterSet \<Rightarrow> CharacterSet" where
  "add self other = add_loop self 0 other"

definition assign :: "CharacterSet \<Rightarrow> CharacterSet \<Rightarrow> CharacterSet" where
  "assign self other = [] @ other"

fun does_intersect :: "CharacterSet \<Rightarrow> CharacterSet \<Rightarrow> bool" where
  "does_intersect (left # ls) (right # rs) =
     (if snd left \<le> fst right then does_intersect ls (right # rs)
      else if fst left \<ge> snd right then does_intersect (left # ls) rs
      else True)"
| "does_intersect _ _ = False"

text \<open>
  \<open>remove_intersection\<close>: both operands are rewritten in place and the common part is collected.
  One pass through the body of the \<open>while\<close> loop takes the loop's state (\<open>self\<close>, \<open>left_i\<close>, \<open>other\<close>,
  \<open>right_i\<close>, \<open>intersection\<close>) to the next.
\<close>

type_synonym intersection_state = "CharacterSet \<times> nat \<times> CharacterSet \<times> nat \<times> CharacterSet"

definition remove_intersection_step ::
    "CharacterSet \<Rightarrow> nat \<Rightarrow> CharacterSet \<Rightarrow> nat \<Rightarrow> CharacterSet \<Rightarrow> intersection_state" where
  "remove_intersection_step self left_i other right_i intersection =
     (let ls = fst (self ! left_i); le = snd (self ! left_i);
          rs = fst (other ! right_i); re = snd (other ! right_i) in
      case ord_cmp ls rs of
        Less \<Rightarrow>
          if le \<le> rs then (self, Suc left_i, other, right_i, intersection)
          else (case ord_cmp le re of
              Less \<Rightarrow> (self[left_i := (ls, rs)], Suc left_i,
                       other[right_i := (le, re)], right_i, intersection @ [(rs, le)])
            | Equal \<Rightarrow> (self[left_i := (ls, rs)], left_i,
                        vec_remove right_i other, right_i, intersection @ [(rs, re)])
            | Greater \<Rightarrow> (vec_insert left_i (ls, rs) (self[left_i := (re, le)]), Suc left_i,
                          vec_remove right_i other, right_i, intersection @ [(rs, re)]))
      | Equal \<Rightarrow>
          if le < re then (vec_remove left_i self, left_i,
                           other[right_i := (le, re)], right_i, intersection @ [(ls, le)])
          else if le = re then (vec_remove left_i self, left_i,
                                vec_remove right_i other, right_i, intersection @ [(ls, le)])
          else (self[left_i := (re, le)], left_i,
                vec_remove right_i other, right_i, intersection @ [(rs, re)])
      | Greater \<Rightarrow>
          if ls \<ge> re then (self, left_i, other, Suc right_i, intersection)
          else (case ord_cmp le re of
              Less \<Rightarrow> (vec_remove left_i self, left_i,
                       vec_insert right_i (rs, ls) (other[right_i := (le, re)]), Suc right_i,
                       intersection @ [(ls, le)])
            | Equal \<Rightarrow> (vec_remove left_i self, left_i,
                        other[right_i := (rs, ls)], right_i, intersection @ [(ls, le)])
            | Greater \<Rightarrow> (self[left_i := (re, le)], left_i,
                          other[right_i := (rs, ls)], Suc right_i, intersection @ [(ls, re)])))"

lemma remove_intersection_step_decreases:
  assumes "left_i < length self" "right_i < length other"
    and "(l', li', r', ri', x') = remove_intersection_step self left_i other right_i x"
  shows "(length l' - li') + (length r' - ri') < (length self - left_i) + (length other - right_i)"
  using assms
  by (simp add: remove_intersection_step_def Let_def split: ordering.splits if_splits) arith?

function remove_intersection_loop :: "intersection_state \<Rightarrow> CharacterSet \<times> CharacterSet \<times> CharacterSet" where
  "remove_intersection_loop (self, left_i, other, right_i, intersection) =
     (if left_i < length self \<and> right_i < length other
      then remove_intersection_loop (remove_intersection_step self left_i other right_i intersection)
      else (self, other, intersection))"
  by pat_completeness auto
termination
proof (relation "measure (\<lambda>(l, li, r, ri, x). (length l - li) + (length r - ri))", goal_cases)
  case 1
  show ?case by simp
next
  case (2 self left_i other right_i intersection)
  obtain l' li' r' ri' x' where st:
    "remove_intersection_step self left_i other right_i intersection = (l', li', r', ri', x')"
    by (rule prod_cases5)
  show ?case
    using remove_intersection_step_decreases [OF _ _ st [symmetric]] 2
    by (simp only: st in_measure case_prod_conv)
qed

declare remove_intersection_loop.simps [simp del]

definition remove_intersection :: "CharacterSet \<Rightarrow> CharacterSet \<Rightarrow> CharacterSet \<times> CharacterSet \<times> CharacterSet" where
  "remove_intersection self other = remove_intersection_loop (self, 0, other, 0, [])"

definition difference :: "CharacterSet \<Rightarrow> CharacterSet \<Rightarrow> CharacterSet" where
  "difference self other = fst (remove_intersection self other)"

definition symmetric_difference :: "CharacterSet \<Rightarrow> CharacterSet \<Rightarrow> CharacterSet" where
  "symmetric_difference self other =
     (case remove_intersection self other of (self', other', _) \<Rightarrow> add self' other')"

definition char_codes :: "CharacterSet \<Rightarrow> nat list" where
  "char_codes self = concat (map (\<lambda>rng. [fst rng..<snd rng]) self)"

text \<open>\<open>char::from_u32\<close>: surrogates and values above \<open>char::MAX\<close> are no characters.\<close>

definition char_from_u32 :: "nat \<Rightarrow> nat option" where
  "char_from_u32 n = (if n < 55296 \<or> 57343 < n \<and> n < END then Some n else None)"

definition chars :: "CharacterSet \<Rightarrow> nat list" where
  "chars self = List.map_filter char_from_u32 (char_codes self)"

definition range_count :: "CharacterSet \<Rightarrow> nat" where
  "range_count self = length self"

fun find_map :: "('a \<Rightarrow> 'b option) \<Rightarrow> 'a list \<Rightarrow> 'b option" where
  "find_map f [] = None"
| "find_map f (x # xs) = (case f x of None \<Rightarrow> find_map f xs | Some y \<Rightarrow> Some y)"

definition ranges :: "CharacterSet \<Rightarrow> (nat \<times> nat) list" where
  "ranges self = List.map_filter (\<lambda>rng.
     do { start \<leftarrow> find_map char_from_u32 [fst rng..<snd rng];
          end' \<leftarrow> find_map char_from_u32 (rev [fst rng..<snd rng]);
          Some (start, end') }) self"

definition is_empty :: "CharacterSet \<Rightarrow> bool" where
  "is_empty self = (self = [])"

text \<open>
  The comparison \<open>contains_codepoint_range\<close> hands to the binary search, and the search itself.
\<close>

definition probe_cmp :: "nat \<Rightarrow> range \<Rightarrow> ordering" where
  "probe_cmp seek_start probe =
     (if snd probe \<le> seek_start then Less
      else if fst probe > seek_start then Greater
      else Equal)"

definition contains_codepoint_range :: "CharacterSet \<Rightarrow> range \<Rightarrow> bool" where
  "contains_codepoint_range self seek_range =
     (let ix = (case binary_search_by (probe_cmp (fst seek_range)) self of Inr ix \<Rightarrow> ix | Inl ix \<Rightarrow> ix) in
      case vec_get self ix of
        None \<Rightarrow> False
      | Some rng \<Rightarrow> fst rng \<le> fst seek_range \<and> snd rng \<ge> snd seek_range)"

definition contains :: "CharacterSet \<Rightarrow> nat \<Rightarrow> bool" where
  "contains self c = contains_codepoint_range self (c, Suc c)"

text \<open>
  \<open>simplify_ignoring\<close>: the closure's captured \<open>prev_range\<close> is threaded through the fold over
  the ranges; the chained \<open>None\<close> at the end flushes it.
\<close>

fun simplify_loop :: "CharacterSet \<Rightarrow> range option \<Rightarrow> CharacterSet \<Rightarrow> CharacterSet" where
  "simplify_loop ruled_out prev_range [] = (case prev_range of None \<Rightarrow> [] | Some r \<Rightarrow> [r])"
| "simplify_loop ruled_out prev_range (rng # rest) =
     (if contains_codepoint_range ruled_out rng then simplify_loop ruled_out prev_range rest
      else (case prev_range of
          Some prev \<Rightarrow>
            if contains_codepoint_range ruled_out (snd prev, fst rng)
            then simplify_loop ruled_out (Some (fst prev, snd rng)) rest
            else prev # simplify_loop ruled_out (Some rng) rest
        | None \<Rightarrow> simplify_loop ruled_out (Some rng) rest))"

definition simplify_ignoring :: "CharacterSet \<Rightarrow> CharacterSet \<Rightarrow> CharacterSet" where
  "simplify_ignoring self ruled_out_characters = simplify_loop ruled_out_characters None self"

text \<open>\<open>impl Ord for CharacterSet\<close>.\<close>

definition range_len :: "range \<Rightarrow> nat" where
  "range_len r = snd r - fst r"

fun zip_cmp :: "nat list \<Rightarrow> nat list \<Rightarrow> ordering" where
  "zip_cmp (l # ls) (r # rs) = then_with (ord_cmp l r) (zip_cmp ls rs)"
| "zip_cmp _ _ = Equal"

fun ranges_cmp :: "CharacterSet \<Rightarrow> CharacterSet \<Rightarrow> ordering" where
  "ranges_cmp (l # ls) (r # rs) =
     then_with (ord_cmp (range_len l) (range_len r))
       (then_with (zip_cmp [fst l..<snd l] [fst r..<snd r]) (ranges_cmp ls rs))"
| "ranges_cmp _ _ = Equal"

definition cmp :: "CharacterSet \<Rightarrow> CharacterSet \<Rightarrow> ordering" where
  "cmp self other =
     then_with (ord_cmp (sum_list (map range_len self)) (sum_list (map range_len other)))
       (ranges_cmp self other)"

section \<open>Meaning and invariant\<close>

definition chars_of :: "CharacterSet \<Rightarrow> nat set" where
  "chars_of rs = (\<Union>r \<in> set rs. {fst r..<snd r})"

fun canon_from :: "nat \<Rightarrow> CharacterSet \<Rightarrow> bool" where
  "canon_from lo [] = True"
| "canon_from lo (r # rs) = (lo \<le> fst r \<and> fst r < snd r \<and> canon_from (Suc (snd r)) rs)"

definition canon :: "CharacterSet \<Rightarrow> bool" where
  "canon rs = canon_from 0 rs"

lemma chars_of_Nil [simp]: "chars_of [] = {}"
  by (simp add: chars_of_def)

lemma chars_of_Cons [simp]: "chars_of (r # rs) = {fst r..<snd r} \<union> chars_of rs"
  by (simp add: chars_of_def)

lemma chars_of_append [simp]: "chars_of (rs @ ss) = chars_of rs \<union> chars_of ss"
  by (simp add: chars_of_def)

lemma canon_from_mono: "canon_from lo rs \<Longrightarrow> lo' \<le> lo \<Longrightarrow> canon_from lo' rs"
  by (cases rs) auto

lemma canon_from_lower: "canon_from lo rs \<Longrightarrow> x \<in> chars_of rs \<Longrightarrow> lo \<le> x"
  by (induction lo rs rule: canon_from.induct) fastforce+

lemma canon_from_below: "canon_from lo rs \<Longrightarrow> x < lo \<Longrightarrow> x \<notin> chars_of rs"
  using canon_from_lower not_less by blast

subsection \<open>negate\<close>

fun gaps :: "nat \<Rightarrow> CharacterSet \<Rightarrow> CharacterSet" where
  "gaps p [] = (if p < END then [(p, END)] else [])"
| "gaps p (r # rs) = (if p < fst r then (p, fst r) # gaps (snd r) rs else gaps (snd r) rs)"

lemma negate_loop_gaps:
  "(case negate_loop (done @ rs) (length done) p of (ss, q) \<Rightarrow> if q < END then ss @ [(q, END)] else ss)
     = done @ gaps p rs"
proof (induction p rs arbitrary: "done" rule: gaps.induct)
  case (1 p)
  then show ?case by (simp add: negate_loop.simps)
next
  case (2 p r rs)
  show ?case
  proof (cases "p < fst r")
    case True
    then show ?thesis
      using "2.IH"(1) [OF True, of "done @ [(p, fst r)]"]
      by (simp add: negate_loop.simps [of "done @ r # rs"])
  next
    case False
    then show ?thesis
      using "2.IH"(2) [OF False, of "done"] by (simp add: negate_loop.simps [of "done @ r # rs"])
  qed
qed

lemma negate_gaps: "negate rs = gaps 0 rs"
  using negate_loop_gaps [of "[]" rs 0] by (simp add: negate_def)

lemma chars_of_gaps:
  "canon_from lo rs \<Longrightarrow> p \<le> lo \<Longrightarrow> chars_of rs \<subseteq> {..<END} \<Longrightarrow> chars_of (gaps p rs) = {p..<END} - chars_of rs"
proof (induction p rs arbitrary: lo rule: gaps.induct)
  case (1 p)
  then show ?case by simp
next
  case (2 p r rs)
  from "2.prems" have rs: "canon_from (Suc (snd r)) rs" and r: "p \<le> fst r" "fst r < snd r"
    by auto
  have "snd r - 1 \<in> chars_of (r # rs)" using r by auto
  then have "snd r \<le> END" using "2.prems"(3) by auto
  have IH: "chars_of (gaps (snd r) rs) = {snd r..<END} - chars_of rs"
    using 2 rs by (cases "p < fst r") auto
  show ?case using r IH \<open>snd r \<le> END\<close> canon_from_below [OF rs] by (auto simp: not_less)
qed

lemma canon_gaps: "canon_from lo rs \<Longrightarrow> p \<le> lo \<Longrightarrow> canon_from p (gaps p rs)"
proof (induction p rs arbitrary: lo rule: gaps.induct)
  case (1 p)
  then show ?case by simp
next
  case (2 p r rs)
  then have "canon_from (snd r) (gaps (snd r) rs)" by (cases "p < fst r") auto
  then show ?case using "2.prems" by (auto intro: canon_from_mono)
qed

subsection \<open>add\<close>

text \<open>What the in-place loops compute, read off the part of the vector from the index on.\<close>

fun absorb :: "range \<Rightarrow> CharacterSet \<Rightarrow> CharacterSet" where
  "absorb r [] = [r]"
| "absorb r (t # rs) = (if fst t \<le> snd r then absorb (fst r, max (snd r) (snd t)) rs else r # t # rs)"

lemma join_next_absorb: "join_next (done @ r # rs) (length done) = done @ absorb r rs"
proof (induction r rs rule: absorb.induct)
  case (1 r)
  then show ?case by (simp add: join_next.simps)
next
  case (2 r t rs)
  then show ?case by (simp add: join_next.simps [of "done @ r # t # rs"] nth_append)
qed

fun insert_from :: "nat \<Rightarrow> nat \<Rightarrow> CharacterSet \<Rightarrow> CharacterSet" where
  "insert_from s e [] = [(s, e)]"
| "insert_from s e (r # rs) =
     (if e < fst r then (s, e) # r # rs
      else if s \<le> snd r then absorb (min (fst r) s, max (snd r) e) rs
      else r # insert_from s e rs)"

text \<open>The number of ranges \<open>add_int_range\<close> skips, which is how far the returned index moves.\<close>

fun skipped :: "nat \<Rightarrow> nat \<Rightarrow> CharacterSet \<Rightarrow> nat" where
  "skipped s e [] = 0"
| "skipped s e (r # rs) = (if e < fst r \<or> s \<le> snd r then 0 else Suc (skipped s e rs))"

lemma add_int_range_insert_from:
  "add_int_range (done @ rs) (length done) s e = (done @ insert_from s e rs, length done + skipped s e rs)"
proof (induction s e rs arbitrary: "done" rule: insert_from.induct)
  case (1 s e)
  then show ?case by (simp add: add_int_range.simps)
next
  case (2 s e r rs)
  show ?case
  proof (cases "e < fst r \<or> s \<le> snd r")
    case True
    then show ?thesis by (auto simp: add_int_range.simps [of "done @ r # rs"] join_next_absorb)
  next
    case False
    then show ?thesis using "2.IH" [of "done @ [r]"]
      by (auto simp: add_int_range.simps [of "done @ r # rs"])
  qed
qed

lemma interval_union:
  assumes "(a::nat) \<le> d" "c \<le> b" "a < b" "c < d"
  shows "{a..<b} \<union> {c..<d} = {min a c..<max b d}"
proof (rule set_eqI)
  fix x
  show "x \<in> {a..<b} \<union> {c..<d} \<longleftrightarrow> x \<in> {min a c..<max b d}"
    using assms by (simp add: min_le_iff_disj less_max_iff_disj) arith
qed

lemma chars_of_absorb:
  "canon_from lo rs \<Longrightarrow> fst r \<le> lo \<Longrightarrow> fst r < snd r \<Longrightarrow> chars_of (absorb r rs) = chars_of (r # rs)"
proof (induction r rs arbitrary: lo rule: absorb.induct)
  case (2 r t rs)
  show ?case
  proof (cases "fst t \<le> snd r")
    case True
    then have "chars_of (absorb (fst r, max (snd r) (snd t)) rs) = {fst r..<max (snd r) (snd t)} \<union> chars_of rs"
      using "2.prems" "2.IH" [OF True, of "Suc (snd t)"] by (simp add: less_max_iff_disj)
    moreover have "{fst r..<snd r} \<union> {fst t..<snd t} = {fst r..<max (snd r) (snd t)}"
      using interval_union [of "fst r" "snd t" "fst t" "snd r"] True "2.prems" by (simp add: min_absorb1)
    ultimately show ?thesis using True by (simp flip: Un_assoc)
  qed simp
qed simp

lemma canon_absorb:
  "canon_from lo rs \<Longrightarrow> fst r \<le> lo \<Longrightarrow> fst r < snd r \<Longrightarrow> canon_from (fst r) (absorb r rs)"
proof (induction r rs arbitrary: lo rule: absorb.induct)
  case (2 r t rs)
  show ?case
  proof (cases "fst t \<le> snd r")
    case True
    then show ?thesis using "2.prems" "2.IH" [OF True, of "Suc (snd t)"] by auto
  qed (use "2.prems" in auto)
qed simp

lemma chars_of_insert_from:
  "canon_from lo rs \<Longrightarrow> s < e \<Longrightarrow> chars_of (insert_from s e rs) = {s..<e} \<union> chars_of rs"
proof (induction s e rs arbitrary: lo rule: insert_from.induct)
  case (2 s e r rs)
  consider (before) "e < fst r" | (touching) "fst r \<le> e" "s \<le> snd r" | (after) "fst r \<le> e" "snd r < s"
    by linarith
  then show ?case
  proof cases
    case touching
    then have "chars_of (insert_from s e (r # rs)) = {min (fst r) s..<max (snd r) e} \<union> chars_of rs"
      using "2.prems" chars_of_absorb [of "Suc (snd r)" rs "(min (fst r) s, max (snd r) e)"]
      by (simp add: min_le_iff_disj min_less_iff_disj less_max_iff_disj)
    moreover have "{s..<e} \<union> {fst r..<snd r} = {min (fst r) s..<max (snd r) e}"
      using interval_union [of s "snd r" "fst r" e] touching "2.prems" by (simp add: min.commute max.commute)
    ultimately show ?thesis by (simp flip: Un_assoc)
  next
    case after
    then show ?thesis using "2.IH" [of "Suc (snd r)"] "2.prems" by (simp add: Un_left_commute)
  qed simp
qed simp

lemma canon_insert_from:
  "canon_from lo rs \<Longrightarrow> s < e \<Longrightarrow> canon_from (min lo s) (insert_from s e rs)"
proof (induction s e rs arbitrary: lo rule: insert_from.induct)
  case (2 s e r rs)
  consider (before) "e < fst r" | (touching) "fst r \<le> e" "s \<le> snd r" | (after) "fst r \<le> e" "snd r < s"
    by linarith
  then show ?case
  proof cases
    case touching
    moreover have "canon_from (min (fst r) s) (absorb (min (fst r) s, max (snd r) e) rs)"
      using "2.prems" canon_absorb [of "Suc (snd r)" rs "(min (fst r) s, max (snd r) e)"]
      by (simp add: min_le_iff_disj min_less_iff_disj less_max_iff_disj)
    ultimately show ?thesis
      using "2.prems" canon_from_mono [of "min (fst r) s" _ "min lo s"] by (simp add: min_le_iff_disj)
  next
    case after
    then show ?thesis using "2.prems" "2.IH" [of "Suc (snd r)"] by (simp add: min_absorb1)
  qed (use "2.prems" in auto)
qed simp

lemma canon_from_append:
  "canon_from lo (rs @ ss) \<longleftrightarrow> canon_from lo rs \<and> canon_from (if rs = [] then lo else Suc (snd (last rs))) ss"
  by (induction lo rs rule: canon_from.induct) auto

lemma take_insert_from_skipped: "take (skipped s e rs) (insert_from s e rs) = take (skipped s e rs) rs"
  by (induction s e rs rule: insert_from.induct) auto

lemma skipped_less: "s < e \<Longrightarrow> r \<in> set (take (skipped s e rs) rs) \<Longrightarrow> snd r < s"
  by (induction s e rs rule: skipped.induct) (auto split: if_splits)

lemma skipped_le: "skipped s e rs \<le> length (insert_from s e rs)"
  by (induction s e rs rule: insert_from.induct) auto

lemma add_int_range_split:
  assumes "i \<le> length rs"
  shows "add_int_range rs i s e =
    (take i rs @ insert_from s e (drop i rs), i + skipped s e (drop i rs))"
  using add_int_range_insert_from [of "take i rs" "drop i rs" s e] assms by (simp add: min_absorb2)

definition below :: "nat \<Rightarrow> CharacterSet \<Rightarrow> bool" where
  "below s rs \<longleftrightarrow> (\<forall>r \<in> set rs. snd r < s)"

lemma add_int_range_correct:
  assumes canon: "canon rs" and i: "i \<le> length rs" and below: "below s (take i rs)" and se: "s < e"
    and res: "add_int_range rs i s e = (rs', i')"
  shows "canon rs' \<and> chars_of rs' = chars_of rs \<union> {s..<e} \<and> i' \<le> length rs' \<and> below s (take i' rs')"
proof -
  let ?d = "take i rs" and ?t = "drop i rs"
  have eq: "rs' = ?d @ insert_from s e ?t" "i' = i + skipped s e ?t"
    using res add_int_range_split [OF i] by simp_all
  have split: "canon_from 0 ?d" "canon_from (if ?d = [] then 0 else Suc (snd (last ?d))) ?t"
    using canon canon_from_append [of 0 ?d ?t] by (simp_all add: canon_def)
  have lo: "(if ?d = [] then 0 else Suc (snd (last ?d))) \<le> s"
    using below last_in_set [of ?d] by (auto simp: below_def Suc_le_eq)
  have "canon_from (if ?d = [] then 0 else Suc (snd (last ?d))) (insert_from s e ?t)"
    using canon_insert_from [OF split(2) se] lo by (simp add: min_absorb1)
  then have "canon rs'" using split(1) by (simp add: eq canon_def canon_from_append)
  moreover have "chars_of rs' = chars_of rs \<union> {s..<e}"
    using chars_of_insert_from [OF split(2) se] chars_of_append [of ?d ?t] by (auto simp: eq)
  moreover have "i' \<le> length rs'" using skipped_le i by (auto simp: eq min_absorb2)
  moreover have "below s (take i' rs')"
    using below skipped_less [OF se] i by (auto simp: eq below_def min_absorb2 take_insert_from_skipped)
  ultimately show ?thesis by simp
qed

lemma add_loop_correct:
  assumes "canon rs" "i \<le> length rs" "canon_from s others" "below s (take i rs)"
  shows "canon (add_loop rs i others) \<and> chars_of (add_loop rs i others) = chars_of rs \<union> chars_of others"
  using assms
proof (induction rs i others arbitrary: s rule: add_loop.induct)
  case (2 rs i r others)
  obtain rs' i' where res: "add_int_range rs i (fst r) (snd r) = (rs', i')" by fastforce
  have "below (fst r) (take i rs)" using "2.prems" by (auto simp: below_def)
  then have step: "canon rs'" "chars_of rs' = chars_of rs \<union> {fst r..<snd r}" "i' \<le> length rs'"
      "below (fst r) (take i' rs')"
    using add_int_range_correct [OF "2.prems"(1,2) _ _ res] "2.prems"(3) by auto
  moreover have "below (Suc (snd r)) (take i' rs')"
    using step(4) "2.prems"(3) by (auto simp: below_def)
  ultimately show ?case
    using "2.IH" [OF res [symmetric], of "Suc (snd r)"] "2.prems"(3) by (auto simp: res)
qed simp

lemma add_correct:
  assumes "canon a" "canon b"
  shows "canon (add a b)" "chars_of (add a b) = chars_of a \<union> chars_of b"
  using add_loop_correct [of a 0 0 b] assms by (auto simp: add_def below_def canon_def)

lemma add_range_correct:
  assumes "canon a" "s \<le> e"
  shows "canon (add_range a s e)" "chars_of (add_range a s e) = chars_of a \<union> {s..e}"
proof -
  obtain a' i' where res: "add_int_range a 0 s (Suc e) = (a', i')" by fastforce
  from add_int_range_correct [OF assms(1) _ _ _ res] assms(2)
  show "canon (add_range a s e)" "chars_of (add_range a s e) = chars_of a \<union> {s..e}"
    by (auto simp: add_range_def below_def res)
qed

lemma add_char_correct:
  assumes "canon a"
  shows "canon (add_char a c)" "chars_of (add_char a c) = insert c (chars_of a)"
  using add_range_correct [OF assms, of c c] by (simp_all add: add_char_def add_range_def)

subsection \<open>remove_intersection\<close>

text \<open>The loop read off the two suffixes that are still to be walked: what is left of both, and the common part.\<close>

function split_common :: "CharacterSet \<Rightarrow> CharacterSet \<Rightarrow> CharacterSet \<times> CharacterSet \<times> CharacterSet" where
  "split_common [] R = ([], R, [])"
| "split_common (l # L) [] = (l # L, [], [])"
| "split_common ((ls, le) # L) ((rs, re) # R) =
     (if ls < rs then
        (if le \<le> rs then map_prod (Cons (ls, le)) id (split_common L ((rs, re) # R))
         else if le < re then map_prod (Cons (ls, rs)) (map_prod id (Cons (rs, le))) (split_common L ((le, re) # R))
         else if le = re then map_prod id (map_prod id (Cons (rs, re))) (split_common ((ls, rs) # L) R)
         else map_prod (Cons (ls, rs)) (map_prod id (Cons (rs, re))) (split_common ((re, le) # L) R))
      else if ls = rs then
        (if le < re then map_prod id (map_prod id (Cons (ls, le))) (split_common L ((le, re) # R))
         else if le = re then map_prod id (map_prod id (Cons (ls, le))) (split_common L R)
         else map_prod id (map_prod id (Cons (rs, re))) (split_common ((re, le) # L) R))
      else
        (if ls \<ge> re then map_prod id (map_prod (Cons (rs, re)) id) (split_common ((ls, le) # L) R)
         else if le < re then map_prod id (map_prod (Cons (rs, ls)) (Cons (ls, le))) (split_common L ((le, re) # R))
         else if le = re then map_prod id (map_prod id (Cons (ls, le))) (split_common L ((rs, ls) # R))
         else map_prod id (map_prod (Cons (rs, ls)) (Cons (ls, re))) (split_common ((re, le) # L) R)))"
  by pat_completeness auto
termination
  by (relation "measure (\<lambda>(L, R). length L + length R)") auto

lemma remove_intersection_loop_split_common:
  "remove_intersection_loop (dl @ L, length dl, dr @ R, length dr, x) =
     map_prod ((@) dl) (map_prod ((@) dr) ((@) x)) (split_common L R)"
proof (induction L R arbitrary: dl dr x rule: split_common.induct)
  case (3 ls le L rs re R)
  note IH = "3.IH"(1) [of "dl @ [(ls, le)]" dr x] "3.IH"(2) [of "dl @ [(ls, rs)]" dr "x @ [(rs, le)]"]
    "3.IH"(3) [of dl dr "x @ [(rs, re)]"] "3.IH"(4) [of "dl @ [(ls, rs)]" dr "x @ [(rs, re)]"]
    "3.IH"(5) [of dl dr "x @ [(ls, le)]"] "3.IH"(6) [of dl dr "x @ [(ls, le)]"]
    "3.IH"(7) [of dl dr "x @ [(rs, re)]"] "3.IH"(8) [of dl "dr @ [(rs, re)]" x]
    "3.IH"(9) [of dl "dr @ [(rs, ls)]" "x @ [(ls, le)]"] "3.IH"(10) [of dl dr "x @ [(ls, le)]"]
    "3.IH"(11) [of dl "dr @ [(rs, ls)]" "x @ [(ls, re)]"]
  have step: "remove_intersection_loop (dl @ (ls, le) # L, length dl, dr @ (rs, re) # R, length dr, x) =
      remove_intersection_loop (remove_intersection_step (dl @ (ls, le) # L) (length dl) (dr @ (rs, re) # R) (length dr) x)"
    by (simp add: remove_intersection_loop.simps)
  consider "ls < rs" | "ls = rs" | "rs < ls" by linarith
  then show ?case
  proof cases
    case 1
    then show ?thesis unfolding step using IH(1-4)
      by (auto simp: remove_intersection_step_def ord_cmp_def prod.map_comp o_def id_def)
  next
    case 2
    then show ?thesis unfolding step using IH(5-7)
      by (auto simp: remove_intersection_step_def ord_cmp_def prod.map_comp o_def id_def)
  next
    case 3
    then show ?thesis unfolding step using IH(8-11)
      by (auto simp: remove_intersection_step_def ord_cmp_def prod.map_comp o_def id_def)
  qed
qed (simp_all add: remove_intersection_loop.simps)

lemma canon_split_common:
  "canon_from a L \<Longrightarrow> canon_from b R \<Longrightarrow> canon_from a (fst (split_common L R)) \<and>
     canon_from b (fst (snd (split_common L R))) \<and> canon_from (max a b) (snd (snd (split_common L R)))"
proof (induction L R arbitrary: a b rule: split_common.induct)
  case (3 ls le L rs re R)
  have L: "a \<le> ls" "ls < le" "canon_from (Suc le) L" and R: "b \<le> rs" "rs < re" "canon_from (Suc re) R"
    using "3.prems" by auto
  have mono: "rs \<le> le \<Longrightarrow> canon_from (Suc rs) L" "ls \<le> re \<Longrightarrow> canon_from (Suc ls) R"
    using L(3) R(3) by (auto intro: canon_from_mono)
  consider "ls < rs" | "ls = rs" | "rs < ls" by linarith
  then show ?case
  proof cases
    case 1
    then show ?thesis using L R mono
      "3.IH"(1) [of "Suc le" b] "3.IH"(2) [of "Suc le" le] "3.IH"(3) [of ls "Suc re"] "3.IH"(4) [of re "Suc re"]
      by (auto intro: canon_from_mono)
  next
    case 2
    then show ?thesis using L R
      "3.IH"(5) [of "Suc le" le] "3.IH"(6) [of "Suc le" "Suc re"] "3.IH"(7) [of re "Suc re"]
      by (auto intro: canon_from_mono)
  next
    case 3
    then show ?thesis using L R mono
      "3.IH"(8) [of a "Suc re"] "3.IH"(9) [of "Suc le" le] "3.IH"(10) [of "Suc le" rs] "3.IH"(11) [of re "Suc re"]
      by (auto intro: canon_from_mono)
  qed
qed (auto intro: canon_from_mono)

lemma chars_of_split_common:
  "canon_from a L \<Longrightarrow> canon_from b R \<Longrightarrow> 
     (x \<in> chars_of (fst (split_common L R)) \<longleftrightarrow> x \<in> chars_of L \<and> x \<notin> chars_of R) \<and>
     (x \<in> chars_of (fst (snd (split_common L R))) \<longleftrightarrow> x \<in> chars_of R \<and> x \<notin> chars_of L) \<and>
     (x \<in> chars_of (snd (snd (split_common L R))) \<longleftrightarrow> x \<in> chars_of L \<and> x \<in> chars_of R)"
proof (induction L R arbitrary: a b rule: split_common.induct)
  case (3 ls le L rs re R)
  have L: "a \<le> ls" "ls < le" "canon_from (Suc le) L" and R: "b \<le> rs" "rs < re" "canon_from (Suc re) R"
    using "3.prems" by auto
  have x: "x \<in> chars_of L \<Longrightarrow> le < x" "x \<in> chars_of R \<Longrightarrow> re < x"
    using canon_from_lower [OF L(3)] canon_from_lower [OF R(3)] by force+
  have mono: "rs \<le> le \<Longrightarrow> canon_from (Suc rs) L" "ls \<le> re \<Longrightarrow> canon_from (Suc ls) R"
    using L(3) R(3) by (auto intro: canon_from_mono)
  consider "ls < rs" | "ls = rs" | "rs < ls" by linarith
  then show ?case
  proof cases
    case 1
    then show ?thesis using L R x mono
      "3.IH"(1) [of "Suc le" b] "3.IH"(2) [of "Suc le" le] "3.IH"(3) [of ls "Suc re"] "3.IH"(4) [of re "Suc re"]
      by (auto)
  next
    case 2
    then show ?thesis using L R x
      "3.IH"(5) [of "Suc le" le] "3.IH"(6) [of "Suc le" "Suc re"] "3.IH"(7) [of re "Suc re"]
      by (auto)
  next
    case 3
    then show ?thesis using L R x mono
      "3.IH"(8) [of a "Suc re"] "3.IH"(9) [of "Suc le" le] "3.IH"(10) [of "Suc le" rs] "3.IH"(11) [of re "Suc re"]
      by (auto)
  qed
qed auto

subsection \<open>Searching\<close>

lemma remove_intersection_spec:
  assumes "canon A" "canon B" "remove_intersection A B = (A', B', I)"
  shows "canon A' \<and> canon B' \<and> canon I \<and> chars_of A' = chars_of A - chars_of B \<and>
    chars_of B' = chars_of B - chars_of A \<and> chars_of I = chars_of A \<inter> chars_of B"
proof -
  have "split_common A B = (A', B', I)"
    using assms(3) remove_intersection_loop_split_common [of "[]" A "[]" B "[]"]
    by (simp add: remove_intersection_def map_prod_def split_beta prod_eq_iff)
  then show ?thesis
    using canon_split_common [of 0 A 0 B] chars_of_split_common [of 0 A 0 B] assms(1,2)
    by (simp add: canon_def) blast
qed

lemma canon_iff:
  "canon_from lo rs \<longleftrightarrow> sorted_wrt (\<lambda>a b. snd a < fst b) rs \<and> (\<forall>r \<in> set rs. lo \<le> fst r \<and> fst r < snd r)"
proof (induction lo rs rule: canon_from.induct)
  case (2 lo r rs)
  show ?case
  proof
    assume "canon_from lo (r # rs)"
    then show "sorted_wrt (\<lambda>a b. snd a < fst b) (r # rs) \<and> (\<forall>q \<in> set (r # rs). lo \<le> fst q \<and> fst q < snd q)"
      using 2 by fastforce
  next
    assume "sorted_wrt (\<lambda>a b. snd a < fst b) (r # rs) \<and> (\<forall>q \<in> set (r # rs). lo \<le> fst q \<and> fst q < snd q)"
    then show "canon_from lo (r # rs)" using 2 by auto
  qed
qed simp

lemma canon_nth:
  assumes "canon rs"
  shows "i < length rs \<Longrightarrow> fst (rs ! i) < snd (rs ! i)"
    and "i < j \<Longrightarrow> j < length rs \<Longrightarrow> snd (rs ! i) < fst (rs ! j)"
  using assms by (auto simp: canon_def canon_iff sorted_wrt_iff_nth_less)

lemma probe_cmp_sorted: "canon rs \<Longrightarrow> cmp_sorted (probe_cmp s) rs"
  unfolding cmp_sorted_def canon_def canon_iff
  by (rule sorted_wrt_mono_rel [where P = "\<lambda>a b. snd a < fst b"]) (force simp: probe_cmp_def split: if_splits)+

lemma mem_chars_of_nth: "x \<in> chars_of rs \<longleftrightarrow> (\<exists>i < length rs. fst (rs ! i) \<le> x \<and> x < snd (rs ! i))"
proof -
  have "x \<in> chars_of rs \<longleftrightarrow> (\<exists>r \<in> set rs. fst r \<le> x \<and> x < snd r)"
    by (simp add: chars_of_def)
  then show ?thesis by (metis in_set_conv_nth)
qed

lemma covered_run:
  assumes c: "canon rs" and i: "i < length rs" and s: "fst (rs ! i) \<le> s" "s < snd (rs ! i)" and e: "s < e"
  shows "{s..<e} \<subseteq> chars_of rs \<longleftrightarrow> e \<le> snd (rs ! i)"
proof
  assume sub: "{s..<e} \<subseteq> chars_of rs"
  show "e \<le> snd (rs ! i)"
  proof (rule ccontr)
    assume "\<not> e \<le> snd (rs ! i)"
    then have "snd (rs ! i) \<in> chars_of rs" using sub s by auto
    then obtain j where j: "j < length rs" "fst (rs ! j) \<le> snd (rs ! i)" "snd (rs ! i) < snd (rs ! j)"
      by (auto simp: mem_chars_of_nth)
    then show False
      using canon_nth(2) [OF c, of i j] canon_nth(2) [OF c, of j i] canon_nth(1) [OF c i] i
      by (cases i j rule: linorder_cases) auto
  qed
next
  assume "e \<le> snd (rs ! i)"
  then show "{s..<e} \<subseteq> chars_of rs"
    using i s by (meson atLeastLessThan_iff mem_chars_of_nth order_trans less_le_trans subsetI)
qed

lemma contains_codepoint_range_correct:
  assumes c: "canon rs" and e: "s < e"
  shows "contains_codepoint_range rs (s, e) \<longleftrightarrow> {s..<e} \<subseteq> chars_of rs"
proof (cases "binary_search_by (probe_cmp s) rs")
  case (Inr i)
  then have i: "i < length rs" "fst (rs ! i) \<le> s" "s < snd (rs ! i)"
    using binary_search_by_spec [OF probe_cmp_sorted [OF c], of s]
    by (auto simp: search_spec_def probe_cmp_def split: if_splits)
  then show ?thesis
    using covered_run [OF c i e] Inr by (simp add: contains_codepoint_range_def vec_get_def)
next
  case (Inl i)
  then have i: "\<forall>j < i. snd (rs ! j) \<le> s" "\<forall>j. i \<le> j \<and> j < length rs \<longrightarrow> s < fst (rs ! j)"
    using binary_search_by_spec [OF probe_cmp_sorted [OF c], of s]
    by (auto simp: search_spec_def probe_cmp_def split: if_splits)
  then have "s \<notin> chars_of rs"
    unfolding mem_chars_of_nth by (metis not_le)
  then have "\<not> {s..<e} \<subseteq> chars_of rs" using e by auto
  moreover have "\<not> contains_codepoint_range rs (s, e)"
    using i(2) Inl by (auto simp: contains_codepoint_range_def vec_get_def)
  ultimately show ?thesis by simp
qed

lemma contains_correct: "canon rs \<Longrightarrow> contains rs c \<longleftrightarrow> c \<in> chars_of rs"
  using contains_codepoint_range_correct [of rs c "Suc c"] by (auto simp: contains_def)

lemma does_intersect_correct:
  "canon_from a L \<Longrightarrow> canon_from b R \<Longrightarrow> does_intersect L R \<longleftrightarrow> chars_of L \<inter> chars_of R \<noteq> {}"
proof (induction L R arbitrary: a b rule: does_intersect.induct)
  case (1 left L right R)
  have lower: "\<And>x. x \<in> chars_of L \<Longrightarrow> snd left < x" "\<And>x. x \<in> chars_of R \<Longrightarrow> snd right < x"
    using canon_from_lower [of "Suc (snd left)" L] canon_from_lower [of "Suc (snd right)" R] "1.prems"
    by (force simp: Suc_le_eq)+
  consider "snd left \<le> fst right" | "snd right \<le> fst left" | "fst right < snd left" "fst left < snd right"
    by linarith
  then show ?case
  proof cases
    case 1
    then have "{fst left..<snd left} \<inter> chars_of (right # R) = {}" using lower(2) "1.prems" by fastforce
    then show ?thesis using "1.IH"(1) [OF 1, of "Suc (snd left)" b] "1.prems" 1 by auto
  next
    case 2
    then have "chars_of (left # L) \<inter> {fst right..<snd right} = {}" using lower(1) "1.prems" by fastforce
    moreover have "\<not> snd left \<le> fst right" using 2 "1.prems" by auto
    ultimately show ?thesis using "1.IH"(2) [OF _ 2, of a "Suc (snd right)"] "1.prems" 2 by auto
  next
    case 3
    then have "max (fst left) (fst right) \<in> chars_of (left # L) \<inter> chars_of (right # R)"
      using "1.prems" by simp
    with 3 show ?thesis by (metis does_intersect.simps(1) empty_iff not_less)
  qed
qed auto

subsection \<open>Canonical representation\<close>

lemma chars_of_empty_iff: "canon_from lo rs \<Longrightarrow> chars_of rs = {} \<longleftrightarrow> rs = []"
  by (cases rs) auto

lemma canon_from_head:
  assumes "canon_from a (l # L)" "canon_from b (r # R)" "chars_of (l # L) = chars_of (r # R)"
  shows "l = r"
proof -
  have c: "canon (l # L)" "canon (r # R)" using assms by (auto simp: canon_def intro: canon_from_mono)
  have "fst l \<in> chars_of (l # L)" "fst r \<in> chars_of (r # R)" using assms(1,2) by auto
  then have "fst l \<in> chars_of (r # R)" "fst r \<in> chars_of (l # L)" by (simp_all only: assms(3))
  then have f: "fst l = fst r"
    using canon_from_lower [of "fst l" "l # L" "fst r"] canon_from_lower [of "fst r" "r # R" "fst l"] assms(1,2)
    by (auto simp del: chars_of_Cons)
  have "{fst l..<snd l} \<subseteq> chars_of (l # L)" "{fst r..<snd r} \<subseteq> chars_of (r # R)" by auto
  then have "{fst l..<snd l} \<subseteq> chars_of (r # R)" "{fst r..<snd r} \<subseteq> chars_of (l # L)"
    by (simp_all only: assms(3))
  then have "snd l = snd r"
    using covered_run [OF c(2), of 0 "fst r" "snd l"] covered_run [OF c(1), of 0 "fst l" "snd r"] assms(1,2) f
    by auto
  with f show ?thesis by (simp add: prod_eq_iff)
qed

lemma canon_unique_from: "canon_from a L \<Longrightarrow> canon_from b R \<Longrightarrow> chars_of L = chars_of R \<Longrightarrow> L = R"
proof (induction L arbitrary: a b R)
  case Nil
  then show ?case using chars_of_empty_iff by force
next
  case (Cons l L)
  then obtain r R' where R: "R = r # R'" using chars_of_empty_iff by (metis neq_Nil_conv)
  have lr: "l = r" using canon_from_head Cons.prems R by blast
  have "x \<in> chars_of L \<longleftrightarrow> x \<in> chars_of R'" for x
    using arg_cong [OF Cons.prems(3), of "\<lambda>S. x \<in> S"] Cons.prems(1,2)
      canon_from_lower [of "Suc (snd l)" L x] canon_from_lower [of "Suc (snd l)" R' x]
    unfolding R lr by auto
  then have "chars_of L = chars_of R'" by blast
  with Cons.IH Cons.prems R lr show ?case by auto
qed

subsection \<open>simplify_ignoring\<close>

lemma simplify_loop_correct:
  assumes "canon x" "canon_from lo (case prev of None \<Rightarrow> rest | Some p \<Rightarrow> p # rest)"
  shows "canon_from lo (simplify_loop x prev rest) \<and>
    chars_of (simplify_loop x prev rest) - chars_of x =
      chars_of (case prev of None \<Rightarrow> rest | Some p \<Rightarrow> p # rest) - chars_of x"
  using assms
proof (induction x prev rest arbitrary: lo rule: simplify_loop.induct)
  case (1 x prev)
  then show ?case by (cases prev) auto
next
  case (2 x prev r rest)
  have r: "fst r < snd r" using "2.prems" by (auto split: option.splits)
  show ?case
  proof (cases "contains_codepoint_range x r")
    case True
    then have "{fst r..<snd r} \<subseteq> chars_of x"
      using contains_codepoint_range_correct [OF "2.prems"(1) r] by simp
    moreover have "canon_from lo (case prev of None \<Rightarrow> rest | Some p \<Rightarrow> p # rest)"
      using "2.prems"(2) by (auto split: option.splits intro: canon_from_mono)
    ultimately show ?thesis
      using "2.IH"(1) [OF True "2.prems"(1)] True by (auto split: option.splits)
  next
    case False
    show ?thesis
    proof (cases prev)
      case None
      then show ?thesis using "2.IH"(2) [OF False None "2.prems"(1)] "2.prems"(2) False by auto
    next
      case (Some p)
      have gap: "snd p < fst r" "fst p < snd p" using "2.prems"(2) Some by auto
      show ?thesis
      proof (cases "contains_codepoint_range x (snd p, fst r)")
        case True
        then have "{snd p..<fst r} \<subseteq> chars_of x"
          using contains_codepoint_range_correct [OF "2.prems"(1) gap(1)] by simp
        moreover have "{fst p..<snd r} = {fst p..<snd p} \<union> {snd p..<fst r} \<union> {fst r..<snd r}"
          using gap r by (simp add: ivl_disj_un_two)
        ultimately show ?thesis
          using "2.IH"(3) [OF False Some True "2.prems"(1), of lo] "2.prems"(2) False Some True gap by auto
      next
        case False': False
        then show ?thesis
          using "2.IH"(4) [OF False Some False' "2.prems"(1), of "Suc (snd p)"] "2.prems"(2) False Some
          by auto
      qed
    qed
  qed
qed

lemma length_simplify_loop: "length (simplify_loop x prev rest) \<le> (case prev of None \<Rightarrow> 0 | Some _ \<Rightarrow> 1) + length rest"
proof (induction x prev rest rule: simplify_loop.induct)
  case (2 x prev r rest)
  then show ?case by (cases prev) auto
qed (auto split: option.splits)

subsection \<open>The order on character sets\<close>

lemma then_with_ord_cmp: "then_with (ord_cmp a b) (ord_cmp x y) = ord_cmp (a, x) (b, y)"
  by (auto simp: then_with_def ord_cmp_def)

lemma zip_cmp_upt: "0 < n \<Longrightarrow> zip_cmp [a..<a + n] [b..<b + n] = ord_cmp a b"
proof (induction n arbitrary: a b)
  case (Suc n)
  have "[a..<a + Suc n] = a # [Suc a..<Suc a + n]" "[b..<b + Suc n] = b # [Suc b..<Suc b + n]"
    by (simp_all add: upt_conv_Cons)
  then show ?case
    using Suc.IH [of "Suc a" "Suc b"] by (cases "n = 0") (auto simp: then_with_def ord_cmp_def)
qed simp

definition range_key :: "range \<Rightarrow> nat \<times> nat" where
  "range_key r = (range_len r, fst r)"

definition cmp_key :: "CharacterSet \<Rightarrow> nat \<times> (nat \<times> nat) list" where
  "cmp_key rs = (sum_list (map range_len rs), map range_key rs)"

lemma range_cmp_key:
  assumes "fst l < snd l" "fst r < snd r"
  shows "then_with (ord_cmp (range_len l) (range_len r)) (then_with (zip_cmp [fst l..<snd l] [fst r..<snd r]) c)
    = then_with (ord_cmp (range_key l) (range_key r)) c"
proof (cases "range_len l = range_len r")
  case True
  then have "zip_cmp [fst l..<snd l] [fst r..<snd r] = ord_cmp (fst l) (fst r)"
    using zip_cmp_upt [of "range_len r" "fst l" "fst r"] assms
    by (metis add_diff_inverse_nat not_less_iff_gr_or_eq range_len_def zero_less_diff)
  then show ?thesis using True by (auto simp: range_key_def ord_cmp_def then_with_def)
next
  case False
  then show ?thesis by (auto simp: range_key_def ord_cmp_def then_with_def)
qed

lemma no_ranges: "\<forall>r \<in> set rs. range_len r = 0 \<Longrightarrow> \<forall>r \<in> set rs. fst r < snd r \<Longrightarrow> rs = []"
  by (cases rs) (auto simp: range_len_def)

lemma ranges_cmp_key:
  "\<forall>r \<in> set L \<union> set R. fst r < snd r \<Longrightarrow> sum_list (map range_len L) = sum_list (map range_len R) \<Longrightarrow>
     ranges_cmp L R = ord_cmp (map range_key L) (map range_key R)"
proof (induction L R rule: ranges_cmp.induct)
  case (1 l L r R)
  then have IH: "range_len l = range_len r \<Longrightarrow> ranges_cmp L R = ord_cmp (map range_key L) (map range_key R)"
    by simp
  have "ranges_cmp (l # L) (r # R) = then_with (ord_cmp (range_key l) (range_key r)) (ranges_cmp L R)"
    using range_cmp_key "1.prems"(1) by simp
  also have "\<dots> = ord_cmp (map range_key (l # L)) (map range_key (r # R))"
    using IH by (auto simp: then_with_def ord_cmp_def range_key_def split: ordering.splits)
  finally show ?case .
qed (auto simp: ord_cmp_def dest: no_ranges)

lemma cmp_cmp_key: "canon L \<Longrightarrow> canon R \<Longrightarrow> cmp L R = ord_cmp (cmp_key L) (cmp_key R)"
  using ranges_cmp_key [of L R]
  by (fastforce simp: cmp_def cmp_key_def canon_def canon_iff then_with_def ord_cmp_def)

lemma range_key_inj: "fst l < snd l \<Longrightarrow> fst r < snd r \<Longrightarrow> range_key l = range_key r \<Longrightarrow> l = r"
  by (auto simp: range_key_def range_len_def prod_eq_iff)

lemma cmp_key_inj: "canon L \<Longrightarrow> canon R \<Longrightarrow> cmp_key L = cmp_key R \<Longrightarrow> L = R"
proof -
  assume "canon L" "canon R" "cmp_key L = cmp_key R"
  then have eq: "map range_key L = map range_key R" and ne: "\<forall>r \<in> set L \<union> set R. fst r < snd r"
    by (auto simp: cmp_key_def canon_def canon_iff)
  have "inj_on range_key (set L \<union> set R)"
    by (rule inj_onI) (use ne range_key_inj in blast)
  with eq show "L = R" by (rule map_inj_on)
qed

subsection \<open>Enumeration\<close>

lemma set_char_codes: "set (char_codes rs) = chars_of rs"
  by (simp add: char_codes_def chars_of_def)

lemma strict_sorted_char_codes: "canon_from lo rs \<Longrightarrow> sorted_wrt (<) (char_codes rs)"
proof (induction lo rs rule: canon_from.induct)
  case (2 lo r rs)
  then have "\<forall>x \<in> set (char_codes rs). snd r < x"
    using canon_from_lower [of "Suc (snd r)" rs] by (auto simp: set_char_codes Suc_le_eq)
  moreover have "sorted_wrt (<) (char_codes rs)" using 2 by simp
  ultimately show ?case by (fastforce simp: char_codes_def sorted_wrt_append)
qed (simp add: char_codes_def)

lemma finite_chars_of [simp]: "finite (chars_of rs)"
  by (simp add: chars_of_def)

lemma char_codes_sorted_list: "canon rs \<Longrightarrow> char_codes rs = sorted_list_of_set (chars_of rs)"
  using strict_sorted_char_codes [of 0 rs]
  by (metis canon_def set_char_codes strict_sorted_iff sorted_list_of_set.idem_if_sorted_distinct)

section \<open>Properties\<close>

text \<open>Building a set by a fold of insertions, for every representation with these laws.\<close>

interpretation char_sets: set_builder empty "\<lambda>(s, e) self. add_range self s e" chars_of canon
    "\<lambda>(s, e). {s..e}" "\<lambda>(s, e). s \<le> e"
  by unfold_locales (auto simp: empty_def canon_def add_range_correct [unfolded canon_def])

text \<open>C24. \<open>CharacterSet::negate\<close>: the in-place loop over a canonical set computes the complement within
  the Unicode code space, again in canonical form, and applying it twice gives back the very
  same vector of ranges.\<close>

theorem negate_complement:
  assumes "canon A" "chars_of A \<subseteq> {..<END}"
  shows "canon (negate A) \<and> chars_of (negate A) = {..<END} - chars_of A \<and> negate (negate A) = A"
proof -
  have neg: "canon (negate R) \<and> chars_of (negate R) = {..<END} - chars_of R"
    if "canon R" "chars_of R \<subseteq> {..<END}" for R
    using that canon_gaps [of 0 R 0] chars_of_gaps [of 0 R 0] by (auto simp: canon_def negate_gaps)
  then have "canon (negate (negate A))" "chars_of (negate (negate A)) = chars_of A"
    using assms neg [OF assms] neg [of "negate A"] by auto
  then show ?thesis using neg [OF assms] assms canon_unique_from [of 0 "negate (negate A)" 0 A]
    by (simp add: canon_def)
qed

theorem negate_complement_witness:
  "canon (negate [(97, 123)]) \<and> chars_of (negate [(97, 123)]) = {..<END} - chars_of [(97, 123)]
    \<and> negate (negate [(97, 123)]) = [(97, 123)]"
  by (rule negate_complement) (auto simp: canon_def END_def)

text \<open>C23. \<open>CharacterSet::add\<close>: inserting the ranges of the other set one after the other, each search
  starting at the index where the previous insertion ended, yields the canonical form of the union.\<close>

theorem add_union:
  assumes "canon A" "canon B"
  shows "canon (add A B) \<and> chars_of (add A B) = chars_of A \<union> chars_of B"
  using add_correct [OF assms] by simp

theorem add_union_witness:
  "canon (add [(0, 5), (9, 12)] [(3, 7), (7 + 1, 9)]) \<and>
   chars_of (add [(0, 5), (9, 12)] [(3, 7), (7 + 1, 9)]) = chars_of [(0, 5), (9, 12)] \<union> chars_of [(3, 7), (7 + 1, 9)]"
  by (rule add_union) (auto simp: canon_def)

text \<open>C13. \<open>CharacterSet::remove_intersection\<close>: the simultaneous in-place walk over two canonical sets
  leaves the two set differences in the operands and returns the intersection, all three canonical.\<close>

theorem remove_intersection_correct:
  assumes "canon A" "canon B" "remove_intersection A B = (A', B', I)"
  shows "canon A' \<and> canon B' \<and> canon I \<and> chars_of A' = chars_of A - chars_of B \<and>
    chars_of B' = chars_of B - chars_of A \<and> chars_of I = chars_of A \<inter> chars_of B"
  by (rule remove_intersection_spec [OF assms])

theorem remove_intersection_correct_witness:
  "remove_intersection [(0, 10), (20, 30)] [(5, 25)] = ([(0, 5), (25, 30)], [(10, 20)], [(5, 10), (20, 25)]) \<and>
   chars_of [(10, 20)] = chars_of [(5, 25)] - chars_of [(0, 10), (20, 30)]"
proof
  show r: "remove_intersection [(0, 10), (20, 30)] [(5, 25)] = ([(0, 5), (25, 30)], [(10, 20)], [(5, 10), (20, 25)])"
    by code_simp
  show "chars_of [(10, 20)] = chars_of [(5, 25)] - chars_of [(0, 10), (20, 30)]"
    using remove_intersection_correct [OF _ _ r] by (simp add: canon_def)
qed

text \<open>C25. \<open>CharacterSet::contains_codepoint_range\<close> and \<open>contains\<close>: the binary search over the ranges
  answers membership of a nonempty code point range, and of a single character, exactly; and
  \<open>does_intersect\<close> answers whether two sets share a character.\<close>

theorem membership_correct:
  assumes "canon A" "canon B" "s < e"
  shows "(contains_codepoint_range A (s, e) \<longleftrightarrow> {s..<e} \<subseteq> chars_of A) \<and>
    (contains A c \<longleftrightarrow> c \<in> chars_of A) \<and>
    (does_intersect A B \<longleftrightarrow> chars_of A \<inter> chars_of B \<noteq> {})"
  using contains_codepoint_range_correct [OF assms(1,3)] contains_correct [OF assms(1)]
    does_intersect_correct [of 0 A 0 B] assms(1,2) by (simp add: canon_def)

theorem membership_correct_witness:
  "(contains_codepoint_range [(1, 4), (6, 9)] (6, 8) \<longleftrightarrow> {6..<8} \<subseteq> chars_of [(1, 4), (6, 9)]) \<and>
   (contains [(1, 4), (6, 9)] 5 \<longleftrightarrow> 5 \<in> chars_of [(1, 4), (6, 9)]) \<and>
   (does_intersect [(1, 4), (6, 9)] [(4, 6)] \<longleftrightarrow> chars_of [(1, 4), (6, 9)] \<inter> chars_of [(4, 6)] \<noteq> {})"
  by (rule membership_correct) (auto simp: canon_def)

text \<open>Canonical sets are equal as vectors of ranges exactly when they contain the same characters, so
  the derived equality is set equality; \<open>char_codes\<close> lists them in ascending order, once each.\<close>

theorem canonical_representation:
  assumes "canon A" "canon B"
  shows "(A = B \<longleftrightarrow> chars_of A = chars_of B) \<and> (is_empty A \<longleftrightarrow> chars_of A = {}) \<and>
    char_codes A = sorted_list_of_set (chars_of A)"
  using canon_unique_from [of 0 A 0 B] chars_of_empty_iff [of 0 A] char_codes_sorted_list assms
  by (auto simp: canon_def is_empty_def)

theorem canonical_representation_witness:
  "([(1, 3)] = add_char [(1, 2)] 2 \<longleftrightarrow> chars_of [(1, 3)] = chars_of (add_char [(1, 2)] 2)) \<and>
   (is_empty [(1, 3)] \<longleftrightarrow> chars_of [(1, 3)] = {}) \<and> char_codes [(1, 3)] = sorted_list_of_set (chars_of [(1, 3)])"
  by (rule canonical_representation) (auto simp: canon_def add_char_correct [unfolded canon_def])

text \<open>C26. \<open>CharacterSet::simplify_ignoring\<close>: the shortened list of ranges is canonical, no longer than the
  original, and differs from it only on characters that are ruled out.\<close>

theorem simplify_ignoring_correct:
  assumes "canon A" "canon X"
  shows "canon (simplify_ignoring A X) \<and> length (simplify_ignoring A X) \<le> length A \<and>
    chars_of (simplify_ignoring A X) - chars_of X = chars_of A - chars_of X"
  using simplify_loop_correct [OF assms(2), where lo = 0 and prev = None and rest = A] length_simplify_loop [of X None A] assms(1)
  by (simp add: simplify_ignoring_def canon_def)

theorem simplify_ignoring_correct_witness:
  "canon (simplify_ignoring [(1, 3), (5, 8), (9, 11)] [(3, 5), (8, 12)]) \<and>
   length (simplify_ignoring [(1, 3), (5, 8), (9, 11)] [(3, 5), (8, 12)]) \<le> length [(1, 3), (5, 8), (9::nat, 11::nat)] \<and>
   chars_of (simplify_ignoring [(1, 3), (5, 8), (9, 11)] [(3, 5), (8, 12)]) - chars_of [(3, 5), (8, 12)]
     = chars_of [(1, 3), (5, 8), (9, 11)] - chars_of [(3, 5), (8, 12)]"
  by (rule simplify_ignoring_correct) (auto simp: canon_def)

text \<open>\<open>CharacterSet::cmp\<close> (the order the transitions are sorted by) is a linear order on canonical sets
  that agrees with equality: antisymmetric, transitive, and \<open>Equal\<close> only on equal sets.\<close>

theorem cmp_linear_order:
  assumes "canon A" "canon B" "canon C"
  shows "(cmp A B = Equal \<longleftrightarrow> A = B) \<and> (cmp A B = Less \<longleftrightarrow> cmp B A = Greater) \<and>
    (cmp A B = Less \<and> cmp B C = Less \<longrightarrow> cmp A C = Less)"
  using assms cmp_key_inj [of A B] by (auto simp: cmp_cmp_key)

theorem cmp_linear_order_witness:
  "cmp [(1, 2)] [(5, 7)] = Less \<and> cmp [(5, 7)] [(1, 2), (4, 6)] = Less \<and> cmp [(1, 2)] [(1, 2), (4, 6)] = Less"
proof -
  have "cmp [(1, 2)] [(5, 7)] = Less" "cmp [(5, 7)] [(1, 2), (4, 6)] = Less" by code_simp+
  then show ?thesis
    using cmp_linear_order [of "[(1, 2)]" "[(5, 7)]" "[(1, 2), (4, 6)]"] by (simp add: canon_def)
qed

end
