(* ===== verification/Bit_Vec.thy ===== *)
theory Bit_Vec
  imports Prelude
begin

unbundle bit_operations_syntax

text \<open>
  \<^verbatim>\<open>crates/generate/src/bitvec.rs\<close>: \<open>BitVec\<close>, the growable bit vector behind \<open>TokenSet\<close>. A value's
  storage \<open>data[0..capacity]\<close> is the list \<open>words\<close> (its length is \<open>capacity\<close>), \<open>num_bits\<close> is the
  length in bits. Memory from the arena is zeroed, so a fresh region is a list of zero words.
  \<open>bits_of\<close> is the set of set bits and \<open>bv_inv\<close> the invariant the source states in comments: the
  words in use fit the capacity and no bit at or beyond \<open>num_bits\<close> is set.
\<close>

section \<open>Operations\<close>

record BitVec =
  words :: "u64 list"
  num_bits :: nat

definition capacity :: "BitVec \<Rightarrow> nat" where
  "capacity bv = length (words bv)"

definition div_ceil_64 :: "nat \<Rightarrow> nat" where
  "div_ceil_64 n = (n + 63) div 64"

definition arena_alloc :: "nat \<Rightarrow> u64 list" where
  "arena_alloc n_words = replicate n_words 0"

definition new :: BitVec where
  "new = \<lparr>words = [], num_bits = 0\<rparr>"

definition with_capacity :: "nat \<Rightarrow> BitVec" where
  "with_capacity n_bits =
     (let n_words = div_ceil_64 n_bits in
      if n_words = 0 then new else \<lparr>words = arena_alloc n_words, num_bits = 0\<rparr>)"

definition words_in_use :: "BitVec \<Rightarrow> nat" where
  "words_in_use bv = div_ceil_64 (num_bits bv)"

definition as_slice :: "BitVec \<Rightarrow> u64 list" where
  "as_slice bv = take (words_in_use bv) (words bv)"

definition len :: "BitVec \<Rightarrow> nat" where
  "len bv = num_bits bv"

definition test_bit64 :: "u64 \<Rightarrow> nat \<Rightarrow> bool" where
  "test_bit64 w i = (drop_bit i w AND 1 \<noteq> 0)"

definition get :: "BitVec \<Rightarrow> nat \<Rightarrow> bool option" where
  "get bv index =
     (if index \<ge> num_bits bv then None
      else Some (test_bit64 (as_slice bv ! (index div 64)) (index mod 64)))"

definition set_bit_at :: "BitVec \<Rightarrow> nat \<Rightarrow> bool \<Rightarrow> BitVec option" where
  "set_bit_at bv index val =
     (let word_idx = index div 64; bit_idx = index mod 64 in
      if word_idx < capacity bv then
        Some (bv\<lparr>words := (words bv)[word_idx :=
          (if val then words bv ! word_idx OR push_bit bit_idx 1
           else words bv ! word_idx AND NOT (push_bit bit_idx 1))]\<rparr>)
      else None)"

definition ensure_words :: "BitVec \<Rightarrow> nat \<Rightarrow> BitVec" where
  "ensure_words bv n_words =
     (if n_words > capacity bv then
        (let new_cap = max n_words (capacity bv * 2);
             new_data = arena_alloc new_cap;
             old = words_in_use bv in
         bv\<lparr>words := as_slice bv @ drop old new_data\<rparr>)
      else bv)"

definition fill :: "'a list \<Rightarrow> nat \<Rightarrow> nat \<Rightarrow> 'a \<Rightarrow> 'a list" where
  "fill xs lo hi x = take lo xs @ replicate (hi - lo) x @ drop hi xs"

definition resize :: "BitVec \<Rightarrow> nat \<Rightarrow> bool \<Rightarrow> BitVec" where
  "resize bv new_len val =
     (let new_words = div_ceil_64 new_len;
          old_words = words_in_use bv;
          grown = ensure_words bv new_words;
          ws = words grown;
          ws' = (if new_words > old_words then
                   (let filled = fill ws old_words new_words (if val then NOT 0 else 0) in
                    if val \<and> new_len mod 64 \<noteq> 0
                    then filled[new_words - 1 := filled ! (new_words - 1) AND (push_bit (new_len mod 64) 1 - 1)]
                    else filled)
                 else if new_words < old_words then fill ws new_words old_words 0
                 else ws) in
      \<lparr>words = ws', num_bits = as_u32 new_len\<rparr>)"

definition last_bit :: "BitVec \<Rightarrow> bool option" where
  "last_bit bv = (if num_bits bv = 0 then None else get bv (num_bits bv - 1))"

definition pop :: "BitVec \<Rightarrow> bool option \<times> BitVec" where
  "pop bv =
     (if num_bits bv = 0 then (None, bv)
      else
        (let n = num_bits bv - 1;
             word_idx = n div 64; bit_idx = n mod 64;
             new_words_in_use = div_ceil_64 n;
             val = test_bit64 (words bv ! word_idx) bit_idx;
             ws = (if val then (words bv)[word_idx := words bv ! word_idx AND NOT (push_bit bit_idx 1)] else words bv);
             ws' = (if word_idx \<ge> new_words_in_use then ws[word_idx := 0] else ws) in
         (Some val, \<lparr>words = ws', num_bits = n\<rparr>)))"

definition or_words :: "u64 list \<Rightarrow> u64 list \<Rightarrow> u64 list" where
  "or_words sws ows = map2 (\<lambda>sw ow. sw OR ow) sws ows"

definition new_bits :: "u64 list \<Rightarrow> u64 list \<Rightarrow> u64" where
  "new_bits sws ows = foldl (OR) 0 (map2 (\<lambda>sw ow. ow AND NOT sw) sws ows)"

definition insert_all :: "BitVec \<Rightarrow> BitVec \<Rightarrow> BitVec \<times> bool" where
  "insert_all self other =
     (let other_words = words_in_use other in
      if other_words = 0 then (self, False)
      else
        (let self_words = words_in_use self;
             ws = (if other_words > capacity self
                   then as_slice self @ drop self_words (arena_alloc other_words)
                   else if other_words > self_words then fill (words self) self_words other_words 0
                   else words self);
             other_slice = as_slice other;
             self_slice = take other_words ws in
         (\<lparr>words = or_words self_slice other_slice @ drop other_words ws,
           num_bits = max (num_bits self) (num_bits other)\<rparr>,
          new_bits self_slice other_slice \<noteq> 0)))"

definition clone :: "BitVec \<Rightarrow> BitVec" where
  "clone bv = (if words_in_use bv = 0 then new else \<lparr>words = as_slice bv, num_bits = num_bits bv\<rparr>)"

definition word_or_zero :: "u64 list \<Rightarrow> nat \<Rightarrow> u64" where
  "word_or_zero a i = (if i < length a then a ! i else 0)"

definition eq :: "BitVec \<Rightarrow> BitVec \<Rightarrow> bool" where
  "eq self other =
     (let a = as_slice self; b = as_slice other in
      list_all (\<lambda>i. word_or_zero a i = word_or_zero b i) [0..<max (length a) (length b)])"

text \<open>\<open>Hash for BitVec\<close>: the words that are hashed, without the trailing zero words.\<close>

definition hashed_words :: "BitVec \<Rightarrow> u64 list" where
  "hashed_words bv = rev (dropWhile (\<lambda>w. w = 0) (rev (as_slice bv)))"

definition trailing_zeros :: "u64 \<Rightarrow> nat" where
  "trailing_zeros w = length (takeWhile (\<lambda>i. \<not> bit w i) [0..<64])"

definition count_ones :: "u64 \<Rightarrow> nat" where
  "count_ones w = length (filter (bit w) [0..<64])"

fun cmp_words :: "u64 list \<Rightarrow> u64 list \<Rightarrow> nat list \<Rightarrow> ordering" where
  "cmp_words a b [] = Equal"
| "cmp_words a b (i # is) =
     (let aw = word_or_zero a i; bw = word_or_zero b i in
      if aw \<noteq> bw then
        (let first_diff = trailing_zeros (aw XOR bw) in
         if test_bit64 aw first_diff then Greater else Less)
      else cmp_words a b is)"

definition cmp_bits :: "BitVec \<Rightarrow> BitVec \<Rightarrow> ordering" where
  "cmp_bits self other =
     (let a = as_slice self; b = as_slice other in
      cmp_words a b [0..<max (length a) (length b)])"

text \<open>\<open>Index<usize> for BitVec\<close>: panics beyond the words in use.\<close>

definition index :: "BitVec \<Rightarrow> nat \<Rightarrow> bool option" where
  "index bv i = map_option (\<lambda>w. test_bit64 w (i mod 64)) (vec_get (as_slice bv) (i div 64))"

text \<open>\<open>SetBitsIter\<close>: the state is the slice, the index of the current word and what is left of it.\<close>

record SetBitsIter =
  iter_data :: "u64 list"
  word_idx :: nat
  current_word :: u64

definition iter_new :: "u64 list \<Rightarrow> SetBitsIter" where
  "iter_new ws = \<lparr>iter_data = ws, word_idx = 0, current_word = (case ws of [] \<Rightarrow> 0 | w # _ \<Rightarrow> w)\<rparr>"

function skip_zero_words :: "SetBitsIter \<Rightarrow> bool \<times> SetBitsIter" where
  "skip_zero_words it =
     (if current_word it = 0 then
        (if Suc (word_idx it) \<ge> length (iter_data it) then (False, it\<lparr>word_idx := Suc (word_idx it)\<rparr>)
         else skip_zero_words (it\<lparr>word_idx := Suc (word_idx it), current_word := iter_data it ! Suc (word_idx it)\<rparr>))
      else (True, it))"
  by pat_completeness auto
termination
  by (relation "measure (\<lambda>it. length (iter_data it) - word_idx it)") auto

declare skip_zero_words.simps [simp del]

definition iter_next :: "SetBitsIter \<Rightarrow> nat option \<times> SetBitsIter" where
  "iter_next it =
     (case skip_zero_words it of
        (False, it') \<Rightarrow> (None, it')
      | (True, it') \<Rightarrow>
          (let bit = trailing_zeros (current_word it') in
           (Some (word_idx it' * 64 + bit),
            it'\<lparr>current_word := current_word it' AND (current_word it' - 1)\<rparr>)))"


section \<open>Meaning and invariant\<close>

definition bits_of_words :: "u64 list \<Rightarrow> nat set" where
  "bits_of_words ws = {i. i div 64 < length ws \<and> bit (ws ! (i div 64)) (i mod 64)}"

definition bits_of :: "BitVec \<Rightarrow> nat set" where
  "bits_of bv = bits_of_words (words bv)"

definition bv_inv :: "BitVec \<Rightarrow> bool" where
  "bv_inv bv \<longleftrightarrow> words_in_use bv \<le> capacity bv \<and> bits_of bv \<subseteq> {..<num_bits bv} \<and> num_bits bv < 2 ^ 32"

lemma test_bit64_bit: "test_bit64 w i = bit w i"
  by (simp add: test_bit64_def bit_iff_odd_drop_bit and_one_eq odd_iff_mod_2_eq_one)

lemma div_ceil_64_less: "i < n \<Longrightarrow> i div 64 < div_ceil_64 n"
  using div_le_mono [of "i + 64" "n + 63" 64] by (simp add: div_ceil_64_def)

lemma div_ceil_64_mono: "m \<le> n \<Longrightarrow> div_ceil_64 m \<le> div_ceil_64 n"
  by (simp add: div_ceil_64_def div_le_mono)

lemma div_ceil_64_le: "div_ceil_64 n \<le> k \<longleftrightarrow> n \<le> 64 * k"
proof -
  have "(n + 63) div 64 < Suc k \<longleftrightarrow> n + 63 < Suc k * 64" by (rule div_less_iff_less_mult) simp
  then show ?thesis by (simp add: div_ceil_64_def less_Suc_eq_le) linarith
qed

lemma mem_bits_of_words:
  "i \<in> bits_of_words ws \<longleftrightarrow> i div 64 < length ws \<and> bit (ws ! (i div 64)) (i mod 64)"
  by (simp add: bits_of_words_def)

lemma word_bit_index: "k < length ws \<Longrightarrow> bit (ws ! k) j \<Longrightarrow> k * 64 + j \<in> bits_of_words ws"
  using bit_imp_le_length [of "ws ! k" j] by (simp add: mem_bits_of_words)

lemma bits_of_words_update:
  "k < length ws \<Longrightarrow> bits_of_words (ws[k := w]) =
     {i. if i div 64 = k then bit w (i mod 64) else i \<in> bits_of_words ws}"
  by (auto simp: bits_of_words_def nth_list_update)

lemma zero_words:
  assumes "bits_of_words ws \<subseteq> {..<n}" "div_ceil_64 n \<le> k" "k < length ws"
  shows "ws ! k = 0"
proof (rule bit_eqI)
  fix j
  assume "possible_bit TYPE(64 word) j"
  show "bit (ws ! k) j = bit 0 j"
    using word_bit_index [OF assms(3), of j] assms(1,2) by (auto simp: div_ceil_64_le)
qed

lemma bits_of_words_take:
  assumes "bits_of_words ws \<subseteq> {..<n}" "div_ceil_64 n \<le> m"
  shows "bits_of_words (take m ws) = bits_of_words ws"
proof -
  have "i div 64 < m" if "i \<in> bits_of_words ws" for i
    using that assms div_ceil_64_less [of i n] by (auto intro: less_le_trans)
  then show ?thesis by (auto simp: mem_bits_of_words)
qed

lemma bits_of_words_zeros: "bits_of_words (ws @ replicate n 0) = bits_of_words ws"
  by (auto simp: mem_bits_of_words nth_append split: if_splits)

lemma drop_arena_alloc [simp]: "drop k (arena_alloc n) = replicate (n - k) 0"
  by (simp add: arena_alloc_def)

lemma bits_of_words_pad: "bits_of_words (take k ws @ drop k (arena_alloc n)) = bits_of_words (take k ws)"
  by (simp add: bits_of_words_zeros)

lemma fill_zero_same:
  assumes "\<And>k. lo \<le> k \<Longrightarrow> k < hi \<Longrightarrow> ws ! k = 0" "hi \<le> length ws" "lo \<le> hi"
  shows "fill ws lo hi (0 :: u64) = ws"
  by (rule nth_equalityI) (use assms in \<open>auto simp: fill_def nth_append min_def\<close>)

lemma bv_inv_zero: "bv_inv bv \<Longrightarrow> words_in_use bv \<le> k \<Longrightarrow> k < length (words bv) \<Longrightarrow> words bv ! k = 0"
  using zero_words [of "words bv" "num_bits bv" k] by (simp add: bv_inv_def bits_of_def words_in_use_def)

lemma bits_of_as_slice: "bv_inv bv \<Longrightarrow> bits_of_words (as_slice bv) = bits_of bv"
  unfolding as_slice_def bits_of_def
  by (rule bits_of_words_take [of _ "num_bits bv"]) (auto simp: bv_inv_def bits_of_def words_in_use_def)

lemma length_as_slice: "bv_inv bv \<Longrightarrow> length (as_slice bv) = words_in_use bv"
  by (simp add: as_slice_def bv_inv_def capacity_def)

subsection \<open>Reading\<close>

lemma new_correct: "bv_inv new" "bits_of new = {}"
  by (simp_all add: new_def bv_inv_def bits_of_def words_in_use_def div_ceil_64_def capacity_def bits_of_words_def)

lemma with_capacity_correct: "bv_inv (with_capacity n)" "bits_of (with_capacity n) = {}"
proof -
  have z: "bits_of_words (replicate m 0) = {}" for m by (auto simp: mem_bits_of_words)
  have "bv_inv (with_capacity n) \<and> bits_of (with_capacity n) = {}"
    by (cases "div_ceil_64 n = 0")
      (simp_all add: with_capacity_def new_correct Let_def bv_inv_def [of "\<lparr>words = _, num_bits = _\<rparr>"]
        bits_of_def [of "\<lparr>words = _, num_bits = _\<rparr>"] words_in_use_def capacity_def arena_alloc_def z, simp add: div_ceil_64_def)
  then show "bv_inv (with_capacity n)" "bits_of (with_capacity n) = {}" by auto
qed

lemma get_correct:
  assumes "bv_inv bv"
  shows "get bv i = (if i < num_bits bv then Some (i \<in> bits_of bv) else None)"
proof (cases "i < num_bits bv")
  case True
  then have "i div 64 < words_in_use bv" by (simp add: words_in_use_def div_ceil_64_less)
  with assms True show ?thesis
    by (simp add: get_def as_slice_def test_bit64_bit bits_of_def mem_bits_of_words bv_inv_def capacity_def)
qed (simp add: get_def)

lemma index_correct: "bv_inv bv \<Longrightarrow> i < num_bits bv \<Longrightarrow> index bv i = Some (i \<in> bits_of bv)"
proof -
  assume inv: "bv_inv bv" and i: "i < num_bits bv"
  have "i div 64 < words_in_use bv" using i by (simp add: words_in_use_def div_ceil_64_less)
  then show ?thesis using inv
    by (simp add: index_def vec_get_def as_slice_def test_bit64_bit bits_of_def mem_bits_of_words bv_inv_def capacity_def)
qed

lemma last_bit_correct:
  "bv_inv bv \<Longrightarrow> last_bit bv = (if num_bits bv = 0 then None else Some (num_bits bv - 1 \<in> bits_of bv))"
  by (simp add: last_bit_def get_correct)

subsection \<open>Writing\<close>

lemma set_bit_at_correct:
  assumes "bv_inv bv" "i < num_bits bv"
  shows "\<exists>bv'. set_bit_at bv i val = Some bv' \<and> bv_inv bv' \<and> num_bits bv' = num_bits bv \<and>
    bits_of bv' = (if val then insert i (bits_of bv) else bits_of bv - {i})"
proof -
  have k: "i div 64 < length (words bv)"
    using assms div_ceil_64_less [of i "num_bits bv"] by (simp add: bv_inv_def words_in_use_def capacity_def)
  define w where "w = (if val then words bv ! (i div 64) OR push_bit (i mod 64) 1
    else words bv ! (i div 64) AND NOT (push_bit (i mod 64) 1))"
  define bv' where "bv' = bv\<lparr>words := (words bv)[i div 64 := w]\<rparr>"
  have set: "set_bit_at bv i val = Some bv'"
    using k by (simp add: set_bit_at_def Let_def capacity_def bv'_def w_def)
  have w: "bit w (j mod 64) = (if j mod 64 = i mod 64 then val else bit (words bv ! (i div 64)) (j mod 64))" for j
    by (auto simp: w_def bit_simps)
  have bits: "bits_of bv' = (if val then insert i (bits_of bv) else bits_of bv - {i})"
  proof (rule set_eqI)
    fix j
    have "j = i \<longleftrightarrow> j div 64 = i div 64 \<and> j mod 64 = i mod 64" by (metis div_mod_decomp)
    then show "j \<in> bits_of bv' \<longleftrightarrow> j \<in> (if val then insert i (bits_of bv) else bits_of bv - {i})"
      using k w [of j] by (auto simp: bv'_def bits_of_def bits_of_words_update mem_bits_of_words)
  qed
  have "bv_inv bv'"
    using assms bits by (auto simp: bv_inv_def bv'_def words_in_use_def capacity_def)
  then show ?thesis using set bits by (auto simp: bv'_def)
qed

lemma ensure_words_correct:
  assumes "bv_inv bv"
  shows "bv_inv (ensure_words bv n)" "bits_of (ensure_words bv n) = bits_of bv"
    "num_bits (ensure_words bv n) = num_bits bv" "n \<le> length (words (ensure_words bv n))"
proof -
  show bits: "bits_of (ensure_words bv n) = bits_of bv"
    using bits_of_as_slice [OF assms]
    by (simp add: ensure_words_def Let_def bits_of_def as_slice_def bits_of_words_zeros)
  have "words_in_use bv \<le> capacity bv" using assms by (simp add: bv_inv_def)
  then have cap: "words_in_use bv \<le> capacity (ensure_words bv n)" "n \<le> capacity (ensure_words bv n)"
    by (auto simp: ensure_words_def Let_def capacity_def as_slice_def)
  show num: "num_bits (ensure_words bv n) = num_bits bv" by (simp add: ensure_words_def Let_def)
  show "n \<le> length (words (ensure_words bv n))" using cap by (simp add: capacity_def)
  show "bv_inv (ensure_words bv n)"
    using assms cap bits num by (simp add: bv_inv_def words_in_use_def)
qed

lemma resize_grow:
  assumes inv: "bv_inv bv" and n: "num_bits bv \<le> n" "n < 2 ^ 32"
  shows "bv_inv (resize bv n False)" "bits_of (resize bv n False) = bits_of bv" "num_bits (resize bv n False) = n"
proof -
  let ?g = "ensure_words bv (div_ceil_64 n)"
  note g = ensure_words_correct [OF inv, of "div_ceil_64 n"]
  have use: "words_in_use bv \<le> div_ceil_64 n" using n(1) by (simp add: words_in_use_def div_ceil_64_mono)
  have z: "words ?g ! k = 0" if "words_in_use bv \<le> k" "k < div_ceil_64 n" for k
    using bv_inv_zero [OF g(1), of k] that g(3,4) by (simp add: words_in_use_def)
  have ws: "words (resize bv n False) = words ?g"
    using use fill_zero_same [of "words_in_use bv" "div_ceil_64 n" "words ?g", OF z g(4) use]
    by (simp add: resize_def Let_def)
  show num: "num_bits (resize bv n False) = n" using n by (simp add: resize_def Let_def)
  show bits: "bits_of (resize bv n False) = bits_of bv" using g(2) ws by (simp add: bits_of_def)
  show "bv_inv (resize bv n False)"
    using g(4) n bits num ws inv by (auto simp: bv_inv_def words_in_use_def capacity_def)
qed

lemma pop_correct:
  assumes inv: "bv_inv bv" and n: "num_bits bv \<noteq> 0"
  shows "fst (pop bv) = Some (num_bits bv - 1 \<in> bits_of bv)" "bv_inv (snd (pop bv))"
    "num_bits (snd (pop bv)) = num_bits bv - 1" "bits_of (snd (pop bv)) = bits_of bv - {num_bits bv - 1}"
proof -
  let ?n = "num_bits bv - 1"
  define k where "k = ?n div 64"
  define v where "v = test_bit64 (words bv ! k) (?n mod 64)"
  have k: "k < length (words bv)"
    using inv n div_ceil_64_less [of ?n "num_bits bv"] by (simp add: bv_inv_def words_in_use_def capacity_def k_def)
  have v: "v \<longleftrightarrow> ?n \<in> bits_of bv"
    using k by (simp add: v_def k_def test_bit64_bit bits_of_def mem_bits_of_words)
  show "fst (pop bv) = Some (?n \<in> bits_of bv)"
    using n v by (simp add: pop_def Let_def v_def k_def)
  show num: "num_bits (snd (pop bv)) = ?n" using n by (simp add: pop_def Let_def)
  define ws where "ws = (if v then (words bv)[k := words bv ! k AND NOT (push_bit (?n mod 64) 1)] else words bv)"
  have ws: "bits_of_words ws = bits_of bv - {?n}"
  proof (rule set_eqI)
    fix j
    have "j = ?n \<longleftrightarrow> j div 64 = k \<and> j mod 64 = ?n mod 64" unfolding k_def by (metis div_mod_decomp)
    then show "j \<in> bits_of_words ws \<longleftrightarrow> j \<in> bits_of bv - {?n}"
      using k v by (auto simp: ws_def bits_of_def nth_list_update mem_bits_of_words bit_simps)
  qed
  have sub: "bits_of bv \<subseteq> {..<num_bits bv}" using inv by (simp add: bv_inv_def)
  then have sub': "bits_of_words ws \<subseteq> {..<?n}" using ws n by auto
  have pop_words: "words (snd (pop bv)) = (if k \<ge> div_ceil_64 ?n then ws[k := 0] else ws)"
    using n by (simp add: pop_def Let_def ws_def v_def k_def)
  have "ws ! k = 0" if "div_ceil_64 ?n \<le> k" using zero_words [OF sub' that] k by (simp add: ws_def)
  then have same: "words (snd (pop bv)) = ws" using pop_words by (metis list_update_id)
  show bits: "bits_of (snd (pop bv)) = bits_of bv - {?n}" using same ws by (simp add: bits_of_def)
  have "length (words (snd (pop bv))) = length (words bv)" unfolding same by (simp add: ws_def)
  moreover have "div_ceil_64 ?n \<le> div_ceil_64 (num_bits bv)" by (simp add: div_ceil_64_mono)
  ultimately show "bv_inv (snd (pop bv))"
    using inv bits num sub' ws by (auto simp: bv_inv_def words_in_use_def capacity_def)
qed



subsection \<open>Union\<close>

lemma bit_nth_bits: "k < length ws \<Longrightarrow> bit (ws ! k) j \<longleftrightarrow> j < 64 \<and> k * 64 + j \<in> bits_of_words ws"
  using bit_imp_le_length [of "ws ! k" j] by (auto simp: mem_bits_of_words)

lemma foldl_or_eq_0: "foldl (OR) a ws = (0 :: u64) \<longleftrightarrow> a = 0 \<and> (\<forall>w \<in> set ws. w = 0)"
  by (induction ws arbitrary: a) (auto simp: or_eq_0_iff)

lemma and_not_eq_0: "b AND NOT a = (0 :: u64) \<longleftrightarrow> (\<forall>j. bit b j \<longrightarrow> bit a j)"
proof -
  have "b AND NOT a = 0 \<longleftrightarrow> (\<forall>j < 64. bit b j \<longrightarrow> bit a j)" by (auto simp: bit_eq_iff bit_simps)
  also have "\<dots> \<longleftrightarrow> (\<forall>j. bit b j \<longrightarrow> bit a j)" using bit_imp_le_length [of b] by auto
  finally show ?thesis .
qed

lemma bits_or_words:
  assumes "length os \<le> length ws"
  shows "bits_of_words (or_words (take (length os) ws) os @ drop (length os) ws) = bits_of_words ws \<union> bits_of_words os"
  using assms by (auto simp: mem_bits_of_words or_words_def nth_append bit_or_iff split: if_splits)

lemma new_bits_eq_0:
  assumes "length os \<le> length ws"
  shows "new_bits (take (length os) ws) os = 0 \<longleftrightarrow> bits_of_words os \<subseteq> bits_of_words ws"
proof -
  have "new_bits (take (length os) ws) os = 0 \<longleftrightarrow> (\<forall>k < length os. \<forall>j. bit (os ! k) j \<longrightarrow> bit (ws ! k) j)"
    using assms by (simp add: new_bits_def foldl_or_eq_0 all_set_conv_all_nth and_not_eq_0)
  also have "\<dots> \<longleftrightarrow> bits_of_words os \<subseteq> bits_of_words ws"
  proof
    assume "\<forall>k < length os. \<forall>j. bit (os ! k) j \<longrightarrow> bit (ws ! k) j"
    then show "bits_of_words os \<subseteq> bits_of_words ws" using assms by (auto simp: mem_bits_of_words)
  next
    assume "bits_of_words os \<subseteq> bits_of_words ws"
    then show "\<forall>k < length os. \<forall>j. bit (os ! k) j \<longrightarrow> bit (ws ! k) j"
      using assms by (auto simp: bit_nth_bits)
  qed
  finally show ?thesis .
qed

text \<open>The storage \<open>insert_all\<close> works on, after it made room for the other vector's words.\<close>

definition make_room :: "BitVec \<Rightarrow> nat \<Rightarrow> u64 list" where
  "make_room self n =
     (if n > capacity self then as_slice self @ drop (words_in_use self) (arena_alloc n)
      else if n > words_in_use self then fill (words self) (words_in_use self) n 0
      else words self)"

lemma make_room_correct:
  assumes "bv_inv self"
  shows "bits_of_words (make_room self n) = bits_of self" "n \<le> length (make_room self n)"
    "words_in_use self \<le> length (make_room self n)"
proof -
  have use: "words_in_use self \<le> length (words self)" using assms by (simp add: bv_inv_def capacity_def)
  have "fill (words self) (words_in_use self) n 0 = words self" if "n \<le> capacity self" "n > words_in_use self"
    using that by (intro fill_zero_same bv_inv_zero [OF assms]) (auto simp: capacity_def)
  then show "bits_of_words (make_room self n) = bits_of self"
    using bits_of_as_slice [OF assms] by (auto simp: make_room_def bits_of_words_zeros bits_of_def)
  show "n \<le> length (make_room self n)" "words_in_use self \<le> length (make_room self n)"
    using use by (auto simp: make_room_def capacity_def as_slice_def fill_def)
qed

lemma insert_all_correct:
  assumes inv: "bv_inv self" "bv_inv other"
  shows "bv_inv (fst (insert_all self other))"
    "bits_of (fst (insert_all self other)) = bits_of self \<union> bits_of other"
    "snd (insert_all self other) \<longleftrightarrow> \<not> bits_of other \<subseteq> bits_of self"
    "num_bits (fst (insert_all self other)) = max (num_bits self) (num_bits other)"
proof -
  let ?os = "as_slice other"
  let ?n = "words_in_use other"
  let ?ws = "make_room self ?n"
  have n: "length ?os = ?n" using length_as_slice [OF inv(2)] .
  have os: "bits_of_words ?os = bits_of other" using bits_of_as_slice [OF inv(2)] .
  note room = make_room_correct [OF inv(1), of ?n]
  have le: "length ?os \<le> length ?ws" using room(2) n by simp
  have none: "?n = 0 \<Longrightarrow> bits_of other = {} \<and> num_bits other = 0"
    using os n by (auto simp: mem_bits_of_words words_in_use_def div_ceil_64_def)
  have eq: "insert_all self other =
     (if ?n = 0 then (self, False)
      else (\<lparr>words = or_words (take ?n ?ws) ?os @ drop ?n ?ws, num_bits = max (num_bits self) (num_bits other)\<rparr>,
        new_bits (take ?n ?ws) ?os \<noteq> 0))"
    by (simp add: insert_all_def make_room_def Let_def)
  show bits: "bits_of (fst (insert_all self other)) = bits_of self \<union> bits_of other"
    using none bits_or_words [OF le] by (auto simp: eq bits_of_def [of "\<lparr>words = _, num_bits = _\<rparr>"] n room(1) os)
  show "snd (insert_all self other) \<longleftrightarrow> \<not> bits_of other \<subseteq> bits_of self"
    using none new_bits_eq_0 [OF le] by (auto simp: eq n room(1) os)
  show num: "num_bits (fst (insert_all self other)) = max (num_bits self) (num_bits other)"
    using none by (auto simp: eq)
  have "words_in_use (fst (insert_all self other)) \<le> capacity (fst (insert_all self other))"
    using room(2,3) n inv(1) by (auto simp: eq words_in_use_def capacity_def or_words_def bv_inv_def max_def)
  then show "bv_inv (fst (insert_all self other))"
    using inv bits num by (auto simp: bv_inv_def)
qed

lemma clone_correct:
  assumes "bv_inv bv"
  shows "bv_inv (clone bv)" "bits_of (clone bv) = bits_of bv" "num_bits (clone bv) = num_bits bv"
proof -
  have none: "words_in_use bv = 0 \<Longrightarrow> bits_of bv = {} \<and> num_bits bv = 0"
    using assms by (auto simp: bv_inv_def words_in_use_def div_ceil_64_def)
  show num: "num_bits (clone bv) = num_bits bv" using none by (simp add: clone_def new_def)
  show bits: "bits_of (clone bv) = bits_of bv"
    using none new_correct bits_of_as_slice [OF assms] by (simp add: clone_def bits_of_def [of "\<lparr>words = _, num_bits = _\<rparr>"])
  show "bv_inv (clone bv)"
    using assms new_correct bits num length_as_slice [OF assms]
    by (auto simp: bv_inv_def clone_def words_in_use_def capacity_def)
qed

subsection \<open>Equality, hashing and order\<close>

lemma mem_bits_word_or_zero: "i \<in> bits_of_words ws \<longleftrightarrow> bit (word_or_zero ws (i div 64)) (i mod 64)"
  by (simp add: mem_bits_of_words word_or_zero_def)

lemma bit_word_or_zero: "bit (word_or_zero ws k) j \<longleftrightarrow> j < 64 \<and> k * 64 + j \<in> bits_of_words ws"
  using bit_imp_le_length [of "word_or_zero ws k" j] by (auto simp: mem_bits_word_or_zero)

lemma bits_of_words_eq_iff: "bits_of_words a = bits_of_words b \<longleftrightarrow> word_or_zero a = word_or_zero b"
proof
  assume "bits_of_words a = bits_of_words b"
  then show "word_or_zero a = word_or_zero b" by (intro ext bit_eqI) (simp add: bit_word_or_zero)
next
  assume "word_or_zero a = word_or_zero b"
  then show "bits_of_words a = bits_of_words b" by (auto simp: mem_bits_word_or_zero)
qed

lemma word_or_zero_ge: "length ws \<le> i \<Longrightarrow> word_or_zero ws i = 0"
  by (simp add: word_or_zero_def)

lemma eq_correct:
  assumes "bv_inv a" "bv_inv b"
  shows "eq a b \<longleftrightarrow> bits_of a = bits_of b"
proof -
  have "eq a b \<longleftrightarrow> word_or_zero (as_slice a) = word_or_zero (as_slice b)"
  proof
    assume e: "eq a b"
    show "word_or_zero (as_slice a) = word_or_zero (as_slice b)"
    proof
      fix i
      show "word_or_zero (as_slice a) i = word_or_zero (as_slice b) i"
        using e by (cases "i < max (length (as_slice a)) (length (as_slice b))")
          (auto simp: eq_def Let_def list_all_iff word_or_zero_ge)
    qed
  qed (simp add: eq_def Let_def list_all_iff)
  then show ?thesis using bits_of_as_slice assms by (metis bits_of_words_eq_iff)
qed

lemma word_or_zero_append_zeros: "(\<forall>w \<in> set zs. w = 0) \<Longrightarrow> word_or_zero (ws @ zs) i = word_or_zero ws i"
  by (auto simp: word_or_zero_def nth_append)

definition strip_zeros :: "u64 list \<Rightarrow> u64 list" where
  "strip_zeros ws = rev (dropWhile (\<lambda>w. w = 0) (rev ws))"

lemma strip_zeros_split: "ws = strip_zeros ws @ rev (takeWhile (\<lambda>w. w = 0) (rev ws))"
  unfolding strip_zeros_def rev_append [symmetric] takeWhile_dropWhile_id by simp

lemma word_or_zero_strip: "word_or_zero (strip_zeros ws) = word_or_zero ws"
  by (rule ext, subst (2) strip_zeros_split, rule word_or_zero_append_zeros [symmetric])
    (auto dest: set_takeWhileD)

lemma strip_zeros_last: "strip_zeros ws \<noteq> [] \<Longrightarrow> word_or_zero ws (length (strip_zeros ws) - 1) \<noteq> 0"
proof -
  assume ne: "strip_zeros ws \<noteq> []"
  then have "dropWhile (\<lambda>w. w = 0) (rev ws) \<noteq> []" by (simp add: strip_zeros_def)
  then have "hd (dropWhile (\<lambda>w. w = 0) (rev ws)) \<noteq> 0" by (rule hd_dropWhile)
  then have "strip_zeros ws ! (length (strip_zeros ws) - 1) \<noteq> 0"
    using ne by (metis hd_rev last_conv_nth rev_rev_ident strip_zeros_def)
  then show ?thesis
    using ne by (subst word_or_zero_strip [symmetric]) (simp add: word_or_zero_def)
qed

lemma strip_zeros_length_le:
  assumes "word_or_zero a = word_or_zero b"
  shows "length (strip_zeros a) \<le> length (strip_zeros b)"
proof (rule ccontr)
  assume "\<not> ?thesis"
  then have l: "length (strip_zeros b) \<le> length (strip_zeros a) - 1" "strip_zeros a \<noteq> []" by auto
  have "word_or_zero b (length (strip_zeros a) - 1) = 0"
    using word_or_zero_ge [OF l(1)] by (simp add: word_or_zero_strip)
  with strip_zeros_last [OF l(2)] assms show False by simp
qed

lemma strip_zeros_eq_iff: "strip_zeros a = strip_zeros b \<longleftrightarrow> word_or_zero a = word_or_zero b"
proof
  assume w: "word_or_zero a = word_or_zero b"
  have len: "length (strip_zeros a) = length (strip_zeros b)"
    using strip_zeros_length_le [OF w] strip_zeros_length_le [OF w [symmetric]] by simp
  show "strip_zeros a = strip_zeros b"
  proof (rule nth_equalityI [OF len])
    fix i
    assume i: "i < length (strip_zeros a)"
    have "word_or_zero (strip_zeros a) i = word_or_zero (strip_zeros b) i"
      using w by (simp add: word_or_zero_strip)
    with i len show "strip_zeros a ! i = strip_zeros b ! i" by (simp add: word_or_zero_def)
  qed
qed (metis word_or_zero_strip)

lemma hashed_words_correct:
  assumes "bv_inv a" "bv_inv b"
  shows "hashed_words a = hashed_words b \<longleftrightarrow> bits_of a = bits_of b"
  using bits_of_words_eq_iff [of "as_slice a" "as_slice b"] strip_zeros_eq_iff [of "as_slice a" "as_slice b"]
  by (simp add: hashed_words_def strip_zeros_def bits_of_as_slice assms)


lemma xor_eq_0_word: "a XOR b = (0 :: u64) \<longleftrightarrow> a = b"
  by (auto simp: bit_eq_iff bit_xor_iff)

text \<open>The order of \<open>Ord for BitVec\<close>: the vector with the smallest bit the other one lacks is the greater.\<close>

definition first_bit_in :: "nat set \<Rightarrow> nat set \<Rightarrow> bool" where
  "first_bit_in B A \<longleftrightarrow> (\<exists>i. i \<in> B \<and> i \<notin> A \<and> (\<forall>j < i. j \<in> A \<longleftrightarrow> j \<in> B))"

lemma trailing_zeros_bit:
  assumes "w \<noteq> 0"
  shows "bit w (trailing_zeros w)" "\<And>j. j < trailing_zeros w \<Longrightarrow> \<not> bit w j" "trailing_zeros w < 64"
proof -
  let ?P = "\<lambda>i. \<not> bit w i"
  obtain j where j: "j < 64" "bit w j"
    using assms by (auto simp: bit_eq_iff)
  then have "takeWhile ?P [0..<64] \<noteq> [0..<64]" by (auto simp del: upt_conv_Cons simp: takeWhile_eq_all_conv)
  moreover have "length (takeWhile ?P [0..<64]) \<noteq> length [0..<64] \<or> takeWhile ?P [0..<64] = [0..<64]"
    by (metis take_all_iff takeWhile_eq_take order_refl)
  ultimately have lt: "length (takeWhile ?P [0..<64]) < length [0..<64]"
    using length_takeWhile_le [of ?P "[0..<64]"] by linarith
  then show "trailing_zeros w < 64" by (simp add: trailing_zeros_def)
  show "bit w (trailing_zeros w)"
    using nth_length_takeWhile [OF lt] lt by (simp add: trailing_zeros_def)
  show "\<not> bit w j" if "j < trailing_zeros w" for j
    using that takeWhile_nth [of j ?P "[0..<64]"] nth_mem [of j "takeWhile ?P [0..<64]"] lt
    by (auto simp: trailing_zeros_def dest!: set_takeWhileD)
qed

lemma mem_of_bit: "j < 64 \<Longrightarrow> k * 64 + j \<in> bits_of_words ws \<longleftrightarrow> bit (word_or_zero ws k) j"
  by (simp add: bit_word_or_zero)

lemma cmp_words_agree:
  assumes "\<And>i. i \<in> set is \<Longrightarrow> word_or_zero a i = word_or_zero b i"
  shows "cmp_words a b is = Equal"
  using assms by (induction "is") (simp_all add: Let_def)

lemma cmp_words_first:
  assumes "word_or_zero a k \<noteq> word_or_zero b k" "m \<le> k" "k < n"
    and "\<And>i. m \<le> i \<Longrightarrow> i < k \<Longrightarrow> word_or_zero a i = word_or_zero b i"
  shows "cmp_words a b [m..<n] =
    (if bit (word_or_zero a k) (trailing_zeros (word_or_zero a k XOR word_or_zero b k)) then Greater else Less)"
  using assms
proof (induction "k - m" arbitrary: m)
  case 0
  then have "[m..<n] = k # [Suc k..<n]" by (simp add: upt_rec)
  then show ?case using 0 by (simp add: Let_def test_bit64_bit)
next
  case (Suc d)
  then have "[m..<n] = m # [Suc m..<n]" by (simp add: upt_rec)
  moreover have "word_or_zero a m = word_or_zero b m" using Suc by simp
  ultimately show ?case using Suc.hyps(1) [of "Suc m"] Suc.hyps(2) Suc.prems by (simp add: Let_def)
qed

lemma first_bit_in_words:
  assumes ne: "word_or_zero a k \<noteq> word_or_zero b k"
    and below: "\<And>i. i < k \<Longrightarrow> word_or_zero a i = word_or_zero b i"
    and bit: "bit (word_or_zero b k) (trailing_zeros (word_or_zero a k XOR word_or_zero b k))"
  shows "first_bit_in (bits_of_words b) (bits_of_words a)"
proof -
  let ?x = "word_or_zero a k XOR word_or_zero b k"
  let ?t = "trailing_zeros ?x"
  have nz: "?x \<noteq> 0" using ne by (simp add: xor_eq_0_word)
  note tz = trailing_zeros_bit [OF nz]
  have t: "bit (word_or_zero a k) ?t \<noteq> bit (word_or_zero b k) ?t" using tz(1) by (simp add: bit_xor_iff)
  have lower: "j \<in> bits_of_words a \<longleftrightarrow> j \<in> bits_of_words b" if "j < k * 64 + ?t" for j
  proof (cases "j div 64 < k")
    case True
    then show ?thesis by (simp add: mem_bits_word_or_zero below)
  next
    case False
    then have k: "j div 64 = k" using that tz(3) div_mult_mod_eq [of j 64] by linarith
    then have "j mod 64 < ?t" using that div_mult_mod_eq [of j 64] by simp
    then have "\<not> bit ?x (j mod 64)" by (rule tz(2))
    then show ?thesis using k by (simp add: mem_bits_word_or_zero bit_xor_iff)
  qed
  show ?thesis unfolding first_bit_in_def
    by (rule exI [of _ "k * 64 + ?t"]) (use t bit lower tz(3) in \<open>auto simp: mem_of_bit\<close>)
qed

lemma first_bit_in_asym: "first_bit_in B A \<Longrightarrow> \<not> first_bit_in A B"
  unfolding first_bit_in_def by (metis linorder_less_linear)

lemma first_bit_in_irrefl: "\<not> first_bit_in A A"
  by (simp add: first_bit_in_def)

lemma first_bit_in_trans: "first_bit_in B A \<Longrightarrow> first_bit_in C B \<Longrightarrow> first_bit_in C A"
  unfolding first_bit_in_def by (metis linorder_less_linear order.strict_trans)

lemma cmp_bits_cases:
  assumes "bv_inv a" "bv_inv b"
  shows "cmp_bits a b = Equal \<and> bits_of a = bits_of b \<or>
    cmp_bits a b = Less \<and> first_bit_in (bits_of b) (bits_of a) \<or>
    cmp_bits a b = Greater \<and> first_bit_in (bits_of a) (bits_of b)"
proof (cases "word_or_zero (as_slice a) = word_or_zero (as_slice b)")
  case True
  then show ?thesis
    using cmp_words_agree bits_of_words_eq_iff [of "as_slice a" "as_slice b"] assms
    by (simp add: cmp_bits_def Let_def bits_of_as_slice)
next
  case False
  let ?wa = "word_or_zero (as_slice a)" and ?wb = "word_or_zero (as_slice b)"
  define k where "k = (LEAST k. ?wa k \<noteq> ?wb k)"
  have ne: "?wa k \<noteq> ?wb k" unfolding k_def by (rule LeastI_ex) (use False in auto)
  have below: "?wa i = ?wb i" if "i < k" for i using not_less_Least [of i "\<lambda>k. ?wa k \<noteq> ?wb k"] that k_def by simp
  have k: "k < max (length (as_slice a)) (length (as_slice b))"
    using ne by (auto simp: word_or_zero_def split: if_splits)
  let ?t = "trailing_zeros (?wa k XOR ?wb k)"
  have cmp: "cmp_bits a b = (if bit (?wa k) ?t then Greater else Less)"
    unfolding cmp_bits_def Let_def using cmp_words_first [OF ne _ k] below by simp
  have t: "bit (?wa k) ?t \<noteq> bit (?wb k) ?t"
    using trailing_zeros_bit(1) [of "?wa k XOR ?wb k"] ne by (simp add: xor_eq_0_word bit_xor_iff)
  show ?thesis
  proof (cases "bit (?wa k) ?t")
    case True
    then show ?thesis
      using cmp first_bit_in_words [OF ne [symmetric], of] below assms
      by (simp add: bits_of_as_slice xor.commute [of "?wb k"])
  next
    case False
    then show ?thesis
      using cmp t first_bit_in_words [OF ne] below assms by (simp add: bits_of_as_slice)
  qed
qed


lemma cmp_bits_Less:
  "bv_inv a \<Longrightarrow> bv_inv b \<Longrightarrow> cmp_bits a b = Less \<longleftrightarrow> first_bit_in (bits_of b) (bits_of a)"
  using cmp_bits_cases [of a b] first_bit_in_asym first_bit_in_irrefl by auto

lemma cmp_bits_Equal: "bv_inv a \<Longrightarrow> bv_inv b \<Longrightarrow> cmp_bits a b = Equal \<longleftrightarrow> bits_of a = bits_of b"
  using cmp_bits_cases [of a b] first_bit_in_irrefl by auto

lemma cmp_bits_Greater:
  "bv_inv a \<Longrightarrow> bv_inv b \<Longrightarrow> cmp_bits a b = Greater \<longleftrightarrow> first_bit_in (bits_of a) (bits_of b)"
  using cmp_bits_cases [of a b] first_bit_in_asym first_bit_in_irrefl by auto

lemmas cmp_bits_iff = cmp_bits_Less cmp_bits_Equal cmp_bits_Greater

interpretation cmp_bits: comparison cmp_bits bv_inv
proof
  fix x y z
  assume i: "bv_inv x" "bv_inv y" "bv_inv z"
  show "cmp_bits x y = Equal \<Longrightarrow> cmp_bits x z = cmp_bits y z"
    using cmp_bits_iff [OF i(1,3)] cmp_bits_iff [OF i(2,3)] cmp_bits_Equal [OF i(1,2)]
    by (cases "cmp_bits x z"; cases "cmp_bits y z") simp_all
  show "cmp_bits x y = Less \<Longrightarrow> cmp_bits y z = Less \<Longrightarrow> cmp_bits x z = Less"
    using i first_bit_in_trans by (auto simp: cmp_bits_iff)
qed (auto simp: cmp_bits_iff)

subsection \<open>Enumerating the set bits\<close>

definition bits_from :: "u64 list \<Rightarrow> nat \<Rightarrow> u64 \<Rightarrow> nat set" where
  "bits_from ws k w = {k * 64 + j | j. bit w j} \<union> {i \<in> bits_of_words ws. k < i div 64}"

lemma clear_lowest:
  assumes "w \<noteq> (0 :: u64)"
  shows "bit (w AND (w - 1)) j \<longleftrightarrow> bit w j \<and> j \<noteq> trailing_zeros w"
proof -
  let ?t = "trailing_zeros w"
  note tz = trailing_zeros_bit [OF assms]
  define hi where "hi = push_bit (Suc ?t) (drop_bit (Suc ?t) w)"
  have hi: "bit hi j \<longleftrightarrow> bit w j \<and> ?t < j" for j
    using bit_imp_le_length [of w j] by (auto simp: hi_def bit_push_bit_iff bit_drop_bit_eq simp del: push_bit_Suc)
  have one: "bit ((2 :: u64) ^ ?t) j \<longleftrightarrow> j = ?t" for j
    using tz(3) by (auto simp: bit_simps)
  have "w = hi OR 2 ^ ?t"
  proof (rule bit_eqI)
    fix n
    show "bit w n = bit (hi OR 2 ^ ?t) n"
      using tz(1) tz(2) [of n] by (cases n ?t rule: linorder_cases) (auto simp: bit_or_iff hi one)
  qed
  also have "\<dots> = hi + 2 ^ ?t"
    by (rule disjunctive_add [symmetric]) (auto simp: hi one)
  finally have "w - 1 = hi + (2 ^ ?t - 1)" by simp
  also have "2 ^ ?t - 1 = (mask ?t :: u64)" by (simp add: mask_eq_exp_minus_1)
  also have "hi + mask ?t = hi OR mask ?t"
    by (rule disjunctive_add) (auto simp: hi bit_mask_iff)
  finally have "bit (w - 1) j \<longleftrightarrow> bit hi j \<or> bit (mask ?t :: u64) j" by (simp add: bit_or_iff)
  then show ?thesis using tz(2) [of j] by (cases j ?t rule: linorder_cases) (auto simp: bit_and_iff hi bit_mask_iff)
qed

lemma bits_from_zero: "bits_from ws k 0 = {i \<in> bits_of_words ws. k < i div 64}"
  by (simp add: bits_from_def)

lemma split_index: "j < 64 \<Longrightarrow> i = k * 64 + j \<longleftrightarrow> i div 64 = k \<and> i mod 64 = (j :: nat)"
  using div_mult_mod_eq [of i 64] by auto

lemma bits_from_next:
  assumes "Suc k < length ws"
  shows "bits_from ws (Suc k) (ws ! Suc k) = {i \<in> bits_of_words ws. k < i div 64}"
proof -
  have "{Suc k * 64 + j | j. bit (ws ! Suc k) j} = {i \<in> bits_of_words ws. i div 64 = Suc k}"
  proof (rule set_eqI)
    fix i
    have "i \<in> {Suc k * 64 + j | j. bit (ws ! Suc k) j} \<longleftrightarrow> i div 64 = Suc k \<and> bit (ws ! Suc k) (i mod 64)"
      using bit_imp_le_length [of "ws ! Suc k"] split_index [of _ i "Suc k"] by (simp del: mult_Suc) metis
    then show "i \<in> {Suc k * 64 + j | j. bit (ws ! Suc k) j} \<longleftrightarrow> i \<in> {i \<in> bits_of_words ws. i div 64 = Suc k}"
      using assms by (auto simp: mem_bits_of_words)
  qed
  then show ?thesis by (auto simp: bits_from_def)
qed

definition iter_set :: "SetBitsIter \<Rightarrow> nat set" where
  "iter_set it = bits_from (iter_data it) (word_idx it) (current_word it)"

lemma skip_zero_words_correct:
  "case skip_zero_words it of (found, it') \<Rightarrow>
     iter_data it' = iter_data it \<and>
     (if found then iter_set it' = iter_set it \<and> current_word it' \<noteq> 0 \<and> word_idx it \<le> word_idx it'
      else iter_set it = {})"
proof (induction it rule: skip_zero_words.induct)
  case (1 it)
  let ?k = "word_idx it" and ?ws = "iter_data it"
  show ?case
  proof (cases "current_word it = 0 \<and> Suc ?k < length ?ws")
    case True
    have "iter_set (it\<lparr>word_idx := Suc ?k, current_word := ?ws ! Suc ?k\<rparr>) = iter_set it"
      using True bits_from_next [of ?k ?ws] by (simp add: iter_set_def bits_from_zero)
    with True 1 show ?thesis
      by (subst skip_zero_words.simps) (auto split: prod.splits if_splits)
  next
    case False
    have "iter_set it = {}" if "current_word it = 0" "\<not> Suc ?k < length ?ws"
      using that by (auto simp: iter_set_def bits_from_zero mem_bits_of_words)
    with False show ?thesis
      by (cases "current_word it = 0") (subst skip_zero_words.simps, simp)+
  qed
qed

lemma iter_next_correct:
  "case iter_next it of
     (None, _) \<Rightarrow> iter_set it = {}
   | (Some i, it') \<Rightarrow> i \<in> iter_set it \<and> iter_set it' = iter_set it - {i} \<and> (\<forall>j \<in> iter_set it. i \<le> j)"
proof -
  obtain found it1 where s: "skip_zero_words it = (found, it1)" by (cases "skip_zero_words it")
  note sk = skip_zero_words_correct [of it, unfolded s, simplified]
  show ?thesis
  proof (cases found)
    case False
    then show ?thesis using s sk by (simp add: iter_next_def)
  next
    case True
    let ?w = "current_word it1" and ?k = "word_idx it1" and ?ws = "iter_data it1"
    let ?t = "trailing_zeros ?w"
    have w: "?w \<noteq> 0" and same: "iter_set it1 = iter_set it" using sk True by auto
    note tz = trailing_zeros_bit [OF w]
    have small: "bit ?w j \<Longrightarrow> j < 64" for j using bit_imp_le_length [of ?w j] by simp
    have next_eq: "iter_next it = (Some (?k * 64 + ?t), it1\<lparr>current_word := ?w AND (?w - 1)\<rparr>)"
      using s True by (simp add: iter_next_def Let_def)
    have far: "?k * 64 + ?t < i" if "?k < i div 64" for i
      using that tz(3) div_mult_mod_eq [of i 64] by linarith
    have least: "\<forall>j \<in> iter_set it1. ?k * 64 + ?t \<le> j"
      using far tz(2) by (force simp: iter_set_def bits_from_def not_less [symmetric])
    have mem: "?k * 64 + ?t \<in> iter_set it1" using tz(1) by (auto simp: iter_set_def bits_from_def)
    have minus: "iter_set (it1\<lparr>current_word := ?w AND (?w - 1)\<rparr>) = iter_set it1 - {?k * 64 + ?t}"
      using far by (auto simp: iter_set_def bits_from_def clear_lowest [OF w])
    show ?thesis using next_eq least mem minus same by simp
  qed
qed

text \<open>Consuming the iterator: what a \<open>for\<close> loop or \<open>collect\<close> over it sees.\<close>

partial_function (option) iter_collect :: "SetBitsIter \<Rightarrow> nat list option" where
  "iter_collect it =
     (case iter_next it of
        (None, _) \<Rightarrow> Some []
      | (Some i, it') \<Rightarrow> Option.bind (iter_collect it') (\<lambda>is. Some (i # is)))"

lemma iter_collect_correct:
  "finite (iter_set it) \<Longrightarrow> iter_collect it = Some (sorted_list_of_set (iter_set it))"
proof (induction "card (iter_set it)" arbitrary: it rule: less_induct)
  case less
  show ?case
  proof (cases "iter_next it")
    case (Pair r it')
    show ?thesis
    proof (cases r)
      case None
      then show ?thesis using Pair iter_next_correct [of it] by (subst iter_collect.simps) simp
    next
      case (Some i)
      then have i: "i \<in> iter_set it" "iter_set it' = iter_set it - {i}" "\<forall>j \<in> iter_set it. i \<le> j"
        using Pair iter_next_correct [of it] by simp_all
      have "card (iter_set it') < card (iter_set it)" unfolding i(2) by (rule card_Diff1_less [OF less.prems i(1)])
      then have rest: "iter_collect it' = Some (sorted_list_of_set (iter_set it'))"
        using less.hyps [of it'] less.prems i(2) by simp
      have "Min (iter_set it) = i" by (rule Min_eqI [OF less.prems]) (use i in auto)
      then have "sorted_list_of_set (iter_set it) = i # sorted_list_of_set (iter_set it')"
        using sorted_list_of_set_nonempty [OF less.prems] i(1,2) by auto
      with rest show ?thesis using Pair Some by (subst iter_collect.simps) simp
    qed
  qed
qed

lemma finite_bits_of_words: "finite (bits_of_words ws)"
proof (rule finite_subset)
  show "bits_of_words ws \<subseteq> {..<length ws * 64}"
    by (auto simp: mem_bits_of_words div_less_iff_less_mult)
qed simp

lemma iter_set_new: "iter_set (iter_new ws) = bits_of_words ws"
proof (cases ws)
  case Nil
  then show ?thesis by (simp add: iter_set_def iter_new_def bits_from_def bits_of_words_def)
next
  case (Cons w vs)
  have "{j. bit w j} = {i \<in> bits_of_words ws. i div 64 = 0}"
    using Cons bit_imp_le_length [of w] by (auto simp: mem_bits_of_words div_eq_0_iff)
  then show ?thesis using Cons by (auto simp: iter_set_def iter_new_def bits_from_def)
qed

lemma iter_collect_bits: "bv_inv bv \<Longrightarrow> iter_collect (iter_new (as_slice bv)) = Some (sorted_list_of_set (bits_of bv))"
  using iter_collect_correct [of "iter_new (as_slice bv)"] finite_bits_of_words [of "as_slice bv"]
  by (simp add: iter_set_new bits_of_as_slice)

lemma count_ones_card: "count_ones w = card {j. bit w j}"
proof -
  have "{j. bit w j} = set (filter (bit w) [0..<64])" using bit_imp_le_length [of w] by auto
  then show ?thesis by (simp only: count_ones_def distinct_card [symmetric] distinct_filter distinct_upt)
qed

lemma sum_count_ones: "sum_list (map count_ones ws) = card (bits_of_words ws)"
proof (induction ws rule: rev_induct)
  case Nil
  then show ?case by (simp add: bits_of_words_def)
next
  case (snoc w ws)
  let ?new = "(\<lambda>j. length ws * 64 + j) ` {j. bit w j}"
  have "bits_of_words (ws @ [w]) = bits_of_words ws \<union> ?new"
    using bit_imp_le_length [of w]
    by (auto simp: mem_bits_of_words nth_append split: if_splits) (metis div_mult_mod_eq less_antisym image_eqI mem_Collect_eq)+
  moreover have "bits_of_words ws \<inter> ?new = {}"
    by (auto simp: mem_bits_of_words)
  moreover have "finite ?new" using bit_imp_le_length [of w] by (auto intro: finite_subset [of _ "{..<64}"])
  moreover have "card ?new = count_ones w" by (simp add: card_image count_ones_card)
  ultimately show ?case using snoc by (simp add: card_Un_disjoint finite_bits_of_words)
qed


subsection \<open>Evaluation\<close>

lemma bits_of_words_Nil: "bits_of_words [] = {}"
  by (simp add: bits_of_words_def)

lemma bits_of_words_Cons: "bits_of_words (w # ws) = {j. bit w j} \<union> (\<lambda>i. i + 64) ` bits_of_words ws"
proof (rule set_eqI)
  fix i
  have "i \<in> (\<lambda>i. i + 64) ` bits_of_words ws \<longleftrightarrow> 64 \<le> i \<and> i - 64 \<in> bits_of_words ws"
    by (auto simp: image_iff) (metis le_add_diff_inverse2)
  moreover have "bit w i \<Longrightarrow> i < 64" using bit_imp_le_length [of w i] by simp
  moreover have "64 \<le> i \<Longrightarrow> i div 64 = Suc ((i - 64) div 64) \<and> i mod 64 = (i - 64) mod 64"
    by (simp add: le_div_geq le_mod_geq)
  ultimately show "i \<in> bits_of_words (w # ws) \<longleftrightarrow> i \<in> {j. bit w j} \<union> (\<lambda>i. i + 64) ` bits_of_words ws"
    by (cases "i < 64") (auto simp: mem_bits_of_words)
qed

lemma bits_of_word_literals: "{j. bit (0 :: u64) j} = {}" "{j. bit (1 :: u64) j} = {0}" "{j. bit (2 :: u64) j} = {1}"
    "{j. j < 64 \<and> bit (2 :: int) j} = {1}" "{j. j < 64 \<and> bit (2 :: nat) j} = {1}"
  by (auto simp: bit_1_iff bit_2_iff)

lemmas bv_eval = bv_inv_def bits_of_def bits_of_words_Nil bits_of_words_Cons bits_of_word_literals
  words_in_use_def div_ceil_64_def capacity_def

text \<open>The bits after a change of length: whole words are cut off or filled, the word the length lies in is left as it is.\<close>

lemma nth_fill: "lo \<le> hi \<Longrightarrow> hi \<le> length xs \<Longrightarrow> k < length xs \<Longrightarrow> fill xs lo hi x ! k = (if lo \<le> k \<and> k < hi then x else xs ! k)"
  by (auto simp: fill_def nth_append min_def)

lemma length_fill [simp]: "lo \<le> hi \<Longrightarrow> hi \<le> length xs \<Longrightarrow> length (fill xs lo hi x) = length xs"
  by (simp add: fill_def)

lemma div_ceil_64_cases: "div_ceil_64 n = n div 64 + (if n mod 64 = 0 then 0 else 1)"
proof -
  have "n + 63 = n div 64 * 64 + (n mod 64 + 63)" by simp
  then have "div_ceil_64 n = n div 64 + (n mod 64 + 63) div 64" unfolding div_ceil_64_def by (metis div_mult_self3 zero_neq_numeral)
  moreover have "(n mod 64 + 63) div 64 = (if n mod 64 = 0 then 0 else 1)"
    by (rule div_nat_eqI) (auto simp: Suc_leI)
  ultimately show ?thesis by simp
qed

lemma below_length:
  assumes "i div 64 < div_ceil_64 n"
  shows "i < n \<longleftrightarrow> n mod 64 = 0 \<or> i div 64 \<noteq> div_ceil_64 n - 1 \<or> i mod 64 < n mod 64"
proof -
  define a b q r where defs: "a = i div 64" "b = i mod 64" "q = n div 64" "r = n mod 64"
  have "i = 64 * a + b" "n = 64 * q + r" "b < 64" "r < 64" unfolding defs by simp_all
  moreover have "a < q + (if r = 0 then 0 else 1)" using assms unfolding div_ceil_64_cases defs .
  ultimately have "i < n \<longleftrightarrow> r = 0 \<or> a \<noteq> q + (if r = 0 then 0 else 1) - 1 \<or> b < r" by (cases "r = 0") auto
  then show ?thesis unfolding div_ceil_64_cases defs .
qed

lemma resize_words:
  fixes val :: bool
  assumes inv: "bv_inv bv" and n: "n < 2 ^ 32"
  defines "ws \<equiv> words (resize bv n val)"
  shows "div_ceil_64 n \<le> length ws"
    and "k < length ws \<Longrightarrow> bit (ws ! k) j \<longleftrightarrow> j < 64 \<and>
      (if val \<and> words_in_use bv \<le> k \<and> k < div_ceil_64 n then n mod 64 = 0 \<or> k \<noteq> div_ceil_64 n - 1 \<or> j < n mod 64
       else k < div_ceil_64 n \<and> k * 64 + j \<in> bits_of bv)"
proof -
  let ?g = "ensure_words bv (div_ceil_64 n)" and ?N = "div_ceil_64 n" and ?O = "words_in_use bv"
  note g = ensure_words_correct [OF inv, of ?N]
  have use: "?O \<le> length (words ?g)" using g(1,3) by (simp add: bv_inv_def capacity_def words_in_use_def)
  have z: "words ?g ! k = 0" if "?O \<le> k" "k < length (words ?g)" for k
    using bv_inv_zero [OF g(1), of k] that g(3) by (simp add: words_in_use_def)
  have old: "bit (words ?g ! k) j \<longleftrightarrow> j < 64 \<and> k * 64 + j \<in> bits_of bv" if "k < length (words ?g)" for k j
  proof -
    have "j < 64 \<Longrightarrow> k * 64 + j \<in> bits_of ?g \<longleftrightarrow> bit (words ?g ! k) j" using that by (simp add: bits_of_def mem_bits_of_words)
    then show ?thesis using g(2) bit_imp_le_length [of "words ?g ! k" j] by auto
  qed
  have len: "length ws = length (words ?g)" unfolding ws_def resize_def Let_def using g(4) use by simp
  show "?N \<le> length ws" using len g(4) by simp
  have m: "bit (push_bit (n mod 64) 1 - 1 :: u64) j \<longleftrightarrow> j < n mod 64" for j
    using bit_mask_iff [of "n mod 64" j, where 'a = u64] by (auto simp: mask_eq_exp_minus_1 push_bit_eq_mult)
  show "bit (ws ! k) j \<longleftrightarrow> j < 64 \<and>
      (if val \<and> ?O \<le> k \<and> k < ?N then n mod 64 = 0 \<or> k \<noteq> ?N - 1 \<or> j < n mod 64
       else k < ?N \<and> k * 64 + j \<in> bits_of bv)" if "k < length ws"
  proof -
    have k: "k < length (words ?g)" using that len by simp
    consider "?O < ?N" | "?N < ?O" | "?N = ?O" by linarith
    then show ?thesis
    proof cases
      case 1
      have f: "fill (words ?g) ?O ?N x ! i = (if ?O \<le> i \<and> i < ?N then x else words ?g ! i)" if "i < length (words ?g)" for x i
        using 1 g(4) that by (intro nth_fill) simp_all
      have w: "ws ! k = (if ?O \<le> k \<and> k < ?N then if val then if n mod 64 \<noteq> 0 \<and> k = ?N - 1 then push_bit (n mod 64) 1 - 1 else NOT 0 else 0
          else words ?g ! k)"
        using 1 k g(4) unfolding ws_def resize_def Let_def by (simp add: f nth_list_update)
      consider "k < ?O" | "?O \<le> k" "k < ?N" | "?N \<le> k" by linarith
      then show ?thesis
      proof cases
        case 2
        then have "k * 64 + j \<notin> bits_of bv" if "j < 64" using old [OF k] z [OF 2(1) k] that by simp
        then have "bit (0 :: u64) j \<longleftrightarrow> j < 64 \<and> k * 64 + j \<in> bits_of bv" by simp
        moreover have "bit (NOT 0 :: u64) j \<longleftrightarrow> j < 64" by (simp add: bit_not_iff)
        moreover have "j < n mod 64 \<longleftrightarrow> j < 64 \<and> j < n mod 64" using mod_less_divisor [of 64 n] by linarith
        ultimately show ?thesis using 2 unfolding w m [symmetric] by (simp only: if_P if_not_P if_True if_False simp_thms split: if_split) simp
      qed (use 1 w old [OF k] z [OF _ k] in simp_all)
    next
      case 2
      then have w: "ws ! k = (if ?N \<le> k \<and> k < ?O then 0 else words ?g ! k)"
        using k use unfolding ws_def resize_def Let_def by (simp add: nth_fill)
      have "\<not> k < ?N \<Longrightarrow> ws ! k = 0" using w z [OF _ k] by (auto simp: not_less)
      moreover have "k < ?N \<Longrightarrow> ws ! k = words ?g ! k" using w by simp
      ultimately show ?thesis using 2 old [OF k] by (cases "k < ?N") simp_all
    next
      case 3
      then have "ws ! k = words ?g ! k" unfolding ws_def resize_def Let_def by simp
      moreover have "\<not> k < ?N \<Longrightarrow> words ?g ! k = 0" using 3 z [OF _ k] by simp
      ultimately show ?thesis using 3 old [OF k] by (cases "k < ?N") simp_all
    qed
  qed
qed

lemma resize_bits:
  assumes inv: "bv_inv bv" and n: "n < 2 ^ 32"
  shows "bits_of (resize bv n val) = {i \<in> bits_of bv. i < 64 * div_ceil_64 n} \<union> (if val then {64 * words_in_use bv ..< n} else {})"
proof (rule set_eqI)
  fix i
  let ?ws = "words (resize bv n val)"
  have d: "i div 64 < div_ceil_64 n \<longleftrightarrow> i < 64 * div_ceil_64 n" "words_in_use bv \<le> i div 64 \<longleftrightarrow> 64 * words_in_use bv \<le> i"
    by (simp_all add: div_less_iff_less_mult less_eq_div_iff_mult_less_eq ac_simps)
  have lt: "i < n \<Longrightarrow> i < 64 * div_ceil_64 n" using div_ceil_64_less [of i n] d by simp
  have ib: "i \<in> bits_of bv \<Longrightarrow> i div 64 < words_in_use bv"
    using inv div_ceil_64_less [of i "num_bits bv"] by (auto simp: bv_inv_def words_in_use_def)
  show "i \<in> bits_of (resize bv n val) \<longleftrightarrow> i \<in> {i \<in> bits_of bv. i < 64 * div_ceil_64 n} \<union> (if val then {64 * words_in_use bv ..< n} else {})"
  proof (cases "i div 64 < div_ceil_64 n")
    case True
    then have "i div 64 < length ?ws" using resize_words(1) [OF inv n, of val] by simp
    then have "i \<in> bits_of (resize bv n val) \<longleftrightarrow> (if val \<and> words_in_use bv \<le> i div 64 then i < n else i \<in> bits_of bv)"
      using resize_words(2) [OF inv n, of "i div 64" val "i mod 64"] True below_length [OF True] by (simp add: bits_of_def mem_bits_of_words)
    then show ?thesis using True d ib by auto
  next
    case False
    then have "i \<notin> bits_of (resize bv n val)"
      using resize_words(2) [OF inv n, of "i div 64" val "i mod 64"] by (auto simp: bits_of_def mem_bits_of_words)
    then show ?thesis using False d lt by auto
  qed
qed

section \<open>Properties\<close>

text \<open>C19. The word-level union \<open>insert_all\<close> keeps the representation invariant (no bit at or beyond
  \<open>num_bits\<close>, words in use within the capacity), whichever of its three storage cases applies; the
  set bits afterwards are the union, the length is the larger one, and the result is \<open>true\<close> exactly
  when a bit was added.\<close>

theorem insert_all_union:
  assumes "bv_inv self" "bv_inv other"
  shows "bv_inv (fst (insert_all self other)) \<and>
    bits_of (fst (insert_all self other)) = bits_of self \<union> bits_of other \<and>
    num_bits (fst (insert_all self other)) = max (num_bits self) (num_bits other) \<and>
    (snd (insert_all self other) \<longleftrightarrow> \<not> bits_of other \<subseteq> bits_of self)"
  using insert_all_correct [OF assms] by blast

theorem insert_all_union_witness:
  "bits_of (fst (insert_all \<lparr>words = [2], num_bits = 2\<rparr> \<lparr>words = [1, 1], num_bits = 65\<rparr>)) = {0, 1, 64} \<and>
   snd (insert_all \<lparr>words = [2], num_bits = 2\<rparr> \<lparr>words = [1, 1], num_bits = 65\<rparr>)"
proof -
  let ?a = "\<lparr>words = [2], num_bits = 2\<rparr>" and ?b = "\<lparr>words = [1, 1], num_bits = 65\<rparr>"
  have i: "bv_inv ?a" "bv_inv ?b" by (simp_all add: bv_eval)
  have b: "bits_of ?a = {1}" "bits_of ?b = {64, 0}" by (simp_all add: bv_eval)
  show ?thesis using insert_all_union [OF i] b by auto
qed

text \<open>C27. Reading and single-bit writing agree with the set of set bits: \<open>get\<close> and \<open>[]\<close> test
  membership below the length (\<open>get\<close> returns \<open>None\<close> beyond it), \<open>set\<close> below the length succeeds and
  adds or removes exactly one bit, growing with \<open>resize(_, false)\<close> changes the length only, and
  \<open>pop\<close> removes the last position and returns its bit; all of them keep the invariant.\<close>

theorem bit_operations_correct:
  assumes "bv_inv bv"
  shows "get bv i = (if i < num_bits bv then Some (i \<in> bits_of bv) else None) \<and>
    (i < num_bits bv \<longrightarrow> index bv i = Some (i \<in> bits_of bv) \<and>
      (\<exists>bv'. set_bit_at bv i val = Some bv' \<and> bv_inv bv' \<and> num_bits bv' = num_bits bv \<and>
         bits_of bv' = (if val then insert i (bits_of bv) else bits_of bv - {i}))) \<and>
    (num_bits bv \<le> n \<and> n < 2 ^ 32 \<longrightarrow>
      bv_inv (resize bv n False) \<and> bits_of (resize bv n False) = bits_of bv \<and> num_bits (resize bv n False) = n) \<and>
    (num_bits bv \<noteq> 0 \<longrightarrow> last_bit bv = fst (pop bv) \<and> fst (pop bv) = Some (num_bits bv - 1 \<in> bits_of bv) \<and>
      bv_inv (snd (pop bv)) \<and> num_bits (snd (pop bv)) = num_bits bv - 1 \<and>
      bits_of (snd (pop bv)) = bits_of bv - {num_bits bv - 1})"
  using get_correct [OF assms] index_correct [OF assms] set_bit_at_correct [OF assms]
    resize_grow [OF assms] pop_correct [OF assms] last_bit_correct [OF assms] by auto

theorem bit_operations_correct_witness:
  "get \<lparr>words = [2], num_bits = 2\<rparr> 1 = Some True \<and> index \<lparr>words = [2], num_bits = 2\<rparr> 0 = Some False \<and>
   bits_of (resize \<lparr>words = [2], num_bits = 2\<rparr> 70 False) = {1} \<and> fst (pop \<lparr>words = [2], num_bits = 2\<rparr>) = Some True"
proof -
  let ?a = "\<lparr>words = [2], num_bits = 2\<rparr>"
  have i: "bv_inv ?a" by (simp add: bv_eval)
  have b: "bits_of ?a = {1}" by (simp add: bv_eval)
  show ?thesis
    using bit_operations_correct [OF i, of 1 True 70] bit_operations_correct [OF i, of 0 True 70] b by auto
qed

text \<open>C28. Equality, hashing and ordering of bit vectors depend on the set bits only, whatever the
  lengths and capacities: \<open>eq\<close> holds exactly for equal sets, the hashed words are equal exactly for
  equal sets (so equal vectors hash equally), and \<open>cmp\<close> decides the order in which the vector that
  holds the first differing bit is the greater, which is a strict linear order.\<close>

theorem comparison_by_bits:
  assumes "bv_inv a" "bv_inv b" "bv_inv c"
  shows "(eq a b \<longleftrightarrow> bits_of a = bits_of b) \<and>
    (hashed_words a = hashed_words b \<longleftrightarrow> eq a b) \<and>
    (cmp_bits a b = Equal \<longleftrightarrow> eq a b) \<and>
    (cmp_bits a b = Less \<longleftrightarrow> first_bit_in (bits_of b) (bits_of a)) \<and>
    (cmp_bits a b = Greater \<longleftrightarrow> cmp_bits b a = Less) \<and>
    (cmp_bits a b = Less \<and> cmp_bits b c = Less \<longrightarrow> cmp_bits a c = Less)"
  using eq_correct [OF assms(1,2)] hashed_words_correct [OF assms(1,2)] cmp_bits_iff [OF assms(1,2)]
    cmp_bits_iff [OF assms(2,1)] cmp_bits.trans [OF assms] by simp

theorem comparison_by_bits_witness:
  "eq \<lparr>words = [2], num_bits = 2\<rparr> \<lparr>words = [2, 0], num_bits = 70\<rparr> \<and>
   hashed_words \<lparr>words = [2], num_bits = 2\<rparr> = hashed_words \<lparr>words = [2, 0], num_bits = 70\<rparr>"
proof -
  let ?a = "\<lparr>words = [2], num_bits = 2\<rparr>" and ?b = "\<lparr>words = [2, 0], num_bits = 70\<rparr>"
  have i: "bv_inv ?a" "bv_inv ?b" by (simp_all add: bv_eval)
  have b: "bits_of ?a = bits_of ?b" by (simp add: bv_eval)
  show ?thesis using comparison_by_bits [OF i i(1)] b by simp
qed

text \<open>Iterating over \<open>SetBitsIter\<close> (skipping zero words, clearing the lowest set bit of the current
  word at each step) terminates and yields exactly the set bits in ascending order, and the sum of
  the words' \<open>count_ones\<close> is their number.\<close>

theorem set_bits_enumeration:
  assumes "bv_inv bv"
  shows "iter_collect (iter_new (as_slice bv)) = Some (sorted_list_of_set (bits_of bv)) \<and>
    sum_list (map count_ones (as_slice bv)) = card (bits_of bv)"
  using iter_collect_bits [OF assms] sum_count_ones [of "as_slice bv"] bits_of_as_slice [OF assms] by auto

theorem set_bits_enumeration_witness:
  "iter_collect (iter_new (as_slice \<lparr>words = [2, 1], num_bits = 70\<rparr>)) = Some [1, 64] \<and>
   sum_list (map count_ones (as_slice \<lparr>words = [2, 1], num_bits = 70\<rparr>)) = 2"
proof -
  let ?a = "\<lparr>words = [2, 1], num_bits = 70\<rparr>"
  have i: "bv_inv ?a" by (simp add: bv_eval)
  have b: "bits_of ?a = {64, 1}" by (simp add: bv_eval)
  show ?thesis using set_bits_enumeration [OF i] b by simp
qed

text \<open>C29. What \<open>resize\<close> does for every length: whole words are cut off, or filled when bits are set, but the word that the old or
  the new length lies in is left alone. The invariant its comments state is therefore kept exactly when no bit is set
  between the new length and the end of its word, and lengthening with \<open>true\<close> sets only the bits beyond the words in use.\<close>

theorem resize_exact:
  assumes inv: "bv_inv bv" and n: "n < 2 ^ 32"
  shows "num_bits (resize bv n val) = n \<and>
    bits_of (resize bv n val) = {i \<in> bits_of bv. i < 64 * div_ceil_64 n} \<union> (if val then {64 * words_in_use bv ..< n} else {}) \<and>
    (bv_inv (resize bv n val) \<longleftrightarrow> \<not> (\<exists>i \<in> bits_of bv. n \<le> i \<and> i < 64 * div_ceil_64 n))"
proof -
  have num: "num_bits (resize bv n val) = n" using n by (simp add: resize_def Let_def)
  have "words_in_use (resize bv n val) \<le> capacity (resize bv n val)"
    using resize_words(1) [OF inv n, of val] num by (simp add: words_in_use_def capacity_def)
  then show ?thesis using num n resize_bits [OF inv n, of val] unfolding bv_inv_def by auto
qed

theorem resize_exact_witness:
  "bits_of (resize \<lparr>words = [2], num_bits = 2\<rparr> 70 True) = {1} \<union> {64 ..< 70} \<and> bv_inv (resize \<lparr>words = [2], num_bits = 2\<rparr> 70 True) \<and>
   bits_of (resize \<lparr>words = [2], num_bits = 2\<rparr> 1 False) = {1} \<and> \<not> bv_inv (resize \<lparr>words = [2], num_bits = 2\<rparr> 1 False) \<and>
   bits_of (resize \<lparr>words = [2], num_bits = 2\<rparr> 5 True) = {1}"
proof -
  let ?a = "\<lparr>words = [2], num_bits = 2\<rparr>"
  have i: "bv_inv ?a" and b: "bits_of ?a = {1}" by (simp_all add: bv_eval)
  show ?thesis using resize_exact [OF i, of 70 True] resize_exact [OF i, of 1 False] resize_exact [OF i, of 5 True]
    unfolding b by (auto simp: words_in_use_def div_ceil_64_def)
qed
end
