(* ===== verification/Symbols.thy ===== *)
theory Symbols
  imports Prelude
begin

text \<open>
  \<^verbatim>\<open>crates/generate/src/rules.rs\<close>, the value types of the rule IR: symbol kinds, symbols,
  aliases, precedences and the parameters of a metadata node, with the derived \<open>Ord\<close> of symbols.
  A \<open>StrId\<close> is the number it wraps, an \<open>i32\<close> precedence an \<^typ>\<open>int\<close> (the sources only store,
  compare and negate nothing of it). \<open>VariableType\<close> is from \<^verbatim>\<open>grammars.rs\<close>.
\<close>

type_synonym StrId = nat

datatype SymbolType = External | End | EndOfNonTerminalExtra | Terminal | NonTerminal

datatype Associativity = Left | Right

datatype VariableType = Hidden | Auxiliary | Anonymous | Named

datatype Alias = Alias (alias_value: StrId) (alias_is_named: bool)

definition alias_kind :: "Alias \<Rightarrow> VariableType" where
  "alias_kind a = (if alias_is_named a then Named else Anonymous)"

datatype Precedence = PrecNone | PrecInteger int | PrecName StrId

record MetadataParams =
  precedence :: Precedence
  associativity :: "Associativity option"
  dynamic_precedence :: int
  p_alias :: "Alias option"
  p_field :: "StrId option"
  is_token :: bool
  is_main_token :: bool

definition default_params :: MetadataParams where
  "default_params = \<lparr>precedence = PrecNone, associativity = None, dynamic_precedence = 0, p_alias = None,
     p_field = None, is_token = False, is_main_token = False\<rparr>"

datatype Symbol = Symbol (kind: SymbolType) (index: nat)

definition is_terminal :: "Symbol \<Rightarrow> bool" where
  "is_terminal s \<longleftrightarrow> kind s = Terminal"

definition is_non_terminal :: "Symbol \<Rightarrow> bool" where
  "is_non_terminal s \<longleftrightarrow> kind s = NonTerminal"

definition is_external :: "Symbol \<Rightarrow> bool" where
  "is_external s \<longleftrightarrow> kind s = External"

definition is_eof :: "Symbol \<Rightarrow> bool" where
  "is_eof s \<longleftrightarrow> kind s = End"

definition non_terminal :: "nat \<Rightarrow> Symbol" where
  "non_terminal i = Symbol NonTerminal (as_u32 i)"

definition terminal :: "nat \<Rightarrow> Symbol" where
  "terminal i = Symbol Terminal (as_u32 i)"

definition external :: "nat \<Rightarrow> Symbol" where
  "external i = Symbol External (as_u32 i)"

definition end_sym :: Symbol where
  "end_sym = Symbol End 0"

definition end_of_nonterminal_extra_sym :: Symbol where
  "end_of_nonterminal_extra_sym = Symbol EndOfNonTerminalExtra 0"

lemmas symbol_defs = is_terminal_def is_non_terminal_def is_external_def is_eof_def non_terminal_def
  terminal_def external_def end_sym_def end_of_nonterminal_extra_sym_def

text \<open>The derived order: declaration order of the kinds, then the index.\<close>

fun kind_rank :: "SymbolType \<Rightarrow> nat" where
  "kind_rank External = 0"
| "kind_rank End = 1"
| "kind_rank EndOfNonTerminalExtra = 2"
| "kind_rank Terminal = 3"
| "kind_rank NonTerminal = 4"

lemma kind_rank_inj: "kind_rank a = kind_rank b \<Longrightarrow> a = b"
  by (cases a; cases b) simp_all

instantiation SymbolType :: linorder
begin

definition "(a :: SymbolType) \<le> b \<longleftrightarrow> kind_rank a \<le> kind_rank b"

definition "(a :: SymbolType) < b \<longleftrightarrow> kind_rank a < kind_rank b"

instance by standard (auto simp: less_eq_SymbolType_def less_SymbolType_def kind_rank_inj)

end

instantiation Symbol :: linorder
begin

definition "(a :: Symbol) \<le> b \<longleftrightarrow> kind a < kind b \<or> kind a = kind b \<and> index a \<le> index b"

definition "(a :: Symbol) < b \<longleftrightarrow> kind a < kind b \<or> kind a = kind b \<and> index a < index b"

instance by standard (auto simp: less_eq_Symbol_def less_Symbol_def Symbol.expand)

end

end
