(* ===== verification/Token_Set.thy ===== *)
theory Token_Set
  imports Bit_Vec Symbols
begin

text \<open>
  \<^verbatim>\<open>crates/generate/src/rules.rs\<close>: \<open>TokenSet\<close>, the lookahead sets of the parse table builder: one
  bit vector for the terminals, one for the externals and two flags. A non-terminal makes
  \<open>contains\<close>, \<open>insert\<close> and \<open>remove\<close> panic (\<^term>\<open>None\<close>). \<open>toks\<close> is the set of symbols a value stands
  for.
\<close>

section \<open>Operations\<close>

record TokenSet =
  terminal_bits :: BitVec
  external_bits :: BitVec
  eof :: bool
  end_of_nonterminal_extra :: bool

definition new_tokens :: TokenSet where
  "new_tokens = \<lparr>terminal_bits = Bit_Vec.new, external_bits = Bit_Vec.new, eof = False, end_of_nonterminal_extra = False\<rparr>"

definition with_capacities :: "nat \<Rightarrow> nat \<Rightarrow> TokenSet" where
  "with_capacities n_terminals n_externals =
     \<lparr>terminal_bits = Bit_Vec.with_capacity n_terminals, external_bits = Bit_Vec.with_capacity n_externals,
      eof = False, end_of_nonterminal_extra = False\<rparr>"

definition terminals :: "TokenSet \<Rightarrow> Symbol list option" where
  "terminals ts = map_option (map terminal) (iter_collect (iter_new (as_slice (terminal_bits ts))))"

definition iter :: "TokenSet \<Rightarrow> Symbol list option" where
  "iter ts = do {
     t \<leftarrow> iter_collect (iter_new (as_slice (terminal_bits ts)));
     e \<leftarrow> iter_collect (iter_new (as_slice (external_bits ts)));
     Some (map terminal t @ map external e @ (if eof ts then [end_sym] else []) @
       (if end_of_nonterminal_extra ts then [end_of_nonterminal_extra_sym] else []))
   }"

definition unwrap_or :: "'a option \<Rightarrow> 'a \<Rightarrow> 'a" where
  "unwrap_or x d = (case x of None \<Rightarrow> d | Some y \<Rightarrow> y)"

definition contains :: "TokenSet \<Rightarrow> Symbol \<Rightarrow> bool option" where
  "contains ts symbol = (case kind symbol of
     NonTerminal \<Rightarrow> None
   | Terminal \<Rightarrow> Some (unwrap_or (get (terminal_bits ts) (index symbol)) False)
   | External \<Rightarrow> Some (unwrap_or (get (external_bits ts) (index symbol)) False)
   | End \<Rightarrow> Some (eof ts)
   | EndOfNonTerminalExtra \<Rightarrow> Some (end_of_nonterminal_extra ts))"

definition contains_terminal :: "TokenSet \<Rightarrow> nat \<Rightarrow> bool" where
  "contains_terminal ts i = unwrap_or (get (terminal_bits ts) i) False"

definition terminal_bits_words :: "TokenSet \<Rightarrow> u64 list" where
  "terminal_bits_words ts = as_slice (terminal_bits ts)"

text \<open>The common tail of \<open>insert\<close> and of \<open>remove\<close>, on the vector the symbol's kind selects.\<close>

definition insert_bit :: "BitVec \<Rightarrow> nat \<Rightarrow> BitVec option" where
  "insert_bit vec other_index =
     set_bit_at (if other_index \<ge> len vec then resize vec (other_index + 1) False else vec) other_index True"

definition insert_tok :: "TokenSet \<Rightarrow> Symbol \<Rightarrow> TokenSet option" where
  "insert_tok ts other = (case kind other of
     NonTerminal \<Rightarrow> None
   | Terminal \<Rightarrow> map_option (\<lambda>v. ts\<lparr>terminal_bits := v\<rparr>) (insert_bit (terminal_bits ts) (index other))
   | External \<Rightarrow> map_option (\<lambda>v. ts\<lparr>external_bits := v\<rparr>) (insert_bit (external_bits ts) (index other))
   | End \<Rightarrow> Some (ts\<lparr>eof := True\<rparr>)
   | EndOfNonTerminalExtra \<Rightarrow> Some (ts\<lparr>end_of_nonterminal_extra := True\<rparr>))"

function trim :: "BitVec \<Rightarrow> BitVec" where
  "trim vec = (if last_bit vec = Some False then trim (snd (pop vec)) else vec)"
  by pat_completeness auto
termination
  by (relation "measure num_bits") (auto simp: last_bit_def pop_def Let_def split: if_splits)

declare trim.simps [simp del]

definition remove_bit :: "BitVec \<Rightarrow> nat \<Rightarrow> (bool \<times> BitVec) option" where
  "remove_bit vec other_index =
     (if other_index < len vec then do {
        present \<leftarrow> Bit_Vec.index vec other_index;
        if present then do {
          vec' \<leftarrow> set_bit_at vec other_index False;
          Some (True, trim vec')
        } else Some (False, vec)
      } else Some (False, vec))"

definition remove_tok :: "TokenSet \<Rightarrow> Symbol \<Rightarrow> (bool \<times> TokenSet) option" where
  "remove_tok ts other = (case kind other of
     NonTerminal \<Rightarrow> None
   | Terminal \<Rightarrow> map_option (\<lambda>(r, v). (r, ts\<lparr>terminal_bits := v\<rparr>)) (remove_bit (terminal_bits ts) (index other))
   | External \<Rightarrow> map_option (\<lambda>(r, v). (r, ts\<lparr>external_bits := v\<rparr>)) (remove_bit (external_bits ts) (index other))
   | End \<Rightarrow> Some (if eof ts then (True, ts\<lparr>eof := False\<rparr>) else (False, ts))
   | EndOfNonTerminalExtra \<Rightarrow>
       Some (if end_of_nonterminal_extra ts then (True, ts\<lparr>end_of_nonterminal_extra := False\<rparr>) else (False, ts)))"

definition is_empty_tokens :: "TokenSet \<Rightarrow> bool" where
  "is_empty_tokens ts \<longleftrightarrow> \<not> eof ts \<and> \<not> end_of_nonterminal_extra ts \<and>
     list_all (\<lambda>w. w = 0) (as_slice (terminal_bits ts)) \<and> list_all (\<lambda>w. w = 0) (as_slice (external_bits ts))"

definition len_tokens :: "TokenSet \<Rightarrow> nat" where
  "len_tokens ts = of_bool (eof ts) + of_bool (end_of_nonterminal_extra ts) +
     sum_list (map count_ones (as_slice (terminal_bits ts))) +
     sum_list (map count_ones (as_slice (external_bits ts)))"

definition insert_all_terminals :: "TokenSet \<Rightarrow> TokenSet \<Rightarrow> TokenSet \<times> bool" where
  "insert_all_terminals ts other =
     (let (v, r) = insert_all (terminal_bits ts) (terminal_bits other) in (ts\<lparr>terminal_bits := v\<rparr>, r))"

definition insert_all_externals :: "TokenSet \<Rightarrow> TokenSet \<Rightarrow> TokenSet \<times> bool" where
  "insert_all_externals ts other =
     (let (v, r) = insert_all (external_bits ts) (external_bits other) in (ts\<lparr>external_bits := v\<rparr>, r))"

definition insert_all_tokens :: "TokenSet \<Rightarrow> TokenSet \<Rightarrow> TokenSet \<times> bool" where
  "insert_all_tokens ts other =
     (let (ts1, r1) = (if eof other then (ts\<lparr>eof := True\<rparr>, \<not> eof ts) else (ts, False));
          (ts2, r2) = (if end_of_nonterminal_extra other
            then (ts1\<lparr>end_of_nonterminal_extra := True\<rparr>, r1 \<or> \<not> end_of_nonterminal_extra ts1) else (ts1, r1));
          (ts3, r3) = insert_all_terminals ts2 other;
          (ts4, r4) = insert_all_externals ts3 other in
      (ts4, r2 \<or> r3 \<or> r4))"

fun insert_each :: "TokenSet \<Rightarrow> Symbol list \<Rightarrow> TokenSet option" where
  "insert_each ts [] = Some ts"
| "insert_each ts (s # ss) = Option.bind (insert_tok ts s) (\<lambda>ts'. insert_each ts' ss)"

definition from_iter :: "Symbol list \<Rightarrow> TokenSet option" where
  "from_iter ss = insert_each new_tokens ss"

definition eq_tokens :: "TokenSet \<Rightarrow> TokenSet \<Rightarrow> bool" where
  "eq_tokens a b \<longleftrightarrow> Bit_Vec.eq (terminal_bits a) (terminal_bits b) \<and> Bit_Vec.eq (external_bits a) (external_bits b) \<and>
     eof a = eof b \<and> end_of_nonterminal_extra a = end_of_nonterminal_extra b"

definition cmp_tokens :: "TokenSet \<Rightarrow> TokenSet \<Rightarrow> ordering" where
  "cmp_tokens a b =
     then_with (cmp_bits (terminal_bits a) (terminal_bits b))
      (then_with (cmp_bits (external_bits a) (external_bits b))
        (then_with (ord_cmp (eof a) (eof b))
          (ord_cmp (end_of_nonterminal_extra a) (end_of_nonterminal_extra b))))"

section \<open>Meaning and invariant\<close>

definition toks :: "TokenSet \<Rightarrow> Symbol set" where
  "toks ts = Symbol Terminal ` bits_of (terminal_bits ts) \<union> Symbol External ` bits_of (external_bits ts) \<union>
     (if eof ts then {end_sym} else {}) \<union>
     (if end_of_nonterminal_extra ts then {end_of_nonterminal_extra_sym} else {})"

definition ts_inv :: "TokenSet \<Rightarrow> bool" where
  "ts_inv ts \<longleftrightarrow> bv_inv (terminal_bits ts) \<and> bv_inv (external_bits ts)"

text \<open>The symbols a token set can hold: no non-terminals, indices below \<open>u32::MAX\<close>, and index 0 for
  the two symbols without index (as \<open>Symbol::end\<close> and \<open>Symbol::end_of_nonterminal_extra\<close> build them).\<close>

definition storable :: "Symbol \<Rightarrow> bool" where
  "storable s \<longleftrightarrow> kind s \<noteq> NonTerminal \<and> index s < 2 ^ 32 - 1 \<and> (kind s \<in> {End, EndOfNonTerminalExtra} \<longrightarrow> index s = 0)"

lemma mem_toks:
  "Symbol k i \<in> toks ts \<longleftrightarrow> (case k of
     NonTerminal \<Rightarrow> False
   | Terminal \<Rightarrow> i \<in> bits_of (terminal_bits ts)
   | External \<Rightarrow> i \<in> bits_of (external_bits ts)
   | End \<Rightarrow> eof ts \<and> i = 0
   | EndOfNonTerminalExtra \<Rightarrow> end_of_nonterminal_extra ts \<and> i = 0)"
  by (cases k) (auto simp: toks_def symbol_defs)

lemma new_tokens_correct: "ts_inv new_tokens" "toks new_tokens = {}"
  by (simp_all add: ts_inv_def toks_def new_tokens_def new_correct)

lemma with_capacities_correct: "ts_inv (with_capacities m n)" "toks (with_capacities m n) = {}"
  by (simp_all add: ts_inv_def toks_def with_capacities_def with_capacity_correct)

lemma get_unwrap: "bv_inv bv \<Longrightarrow> unwrap_or (get bv i) False \<longleftrightarrow> i \<in> bits_of bv"
  by (auto simp: get_correct unwrap_or_def bv_inv_def)

lemma contains_tok_correct:
  "ts_inv ts \<Longrightarrow> storable s \<Longrightarrow> contains ts s = Some (s \<in> toks ts)"
  by (cases s; cases "kind s") (auto simp: contains_def ts_inv_def storable_def get_unwrap mem_toks)

lemma insert_bit_correct:
  assumes inv: "bv_inv bv" and i: "i < 2 ^ 32 - 1"
  shows "\<exists>bv'. insert_bit bv i = Some bv' \<and> bv_inv bv' \<and> bits_of bv' = insert i (bits_of bv)"
proof -
  define bv0 where "bv0 = (if i \<ge> len bv then resize bv (i + 1) False else bv)"
  have "bv_inv bv0 \<and> bits_of bv0 = bits_of bv \<and> i < num_bits bv0"
    using resize_grow [OF inv, of "i + 1"] i inv by (auto simp: bv0_def len_def)
  then show ?thesis using set_bit_at_correct [of bv0 i True] by (auto simp: insert_bit_def bv0_def [symmetric])
qed

lemma insert_tok_correct:
  assumes inv: "ts_inv ts" and s: "storable s"
  shows "\<exists>ts'. insert_tok ts s = Some ts' \<and> ts_inv ts' \<and> toks ts' = insert s (toks ts)"
proof (cases s)
  case (Symbol k i)
  have "bv_inv (terminal_bits ts)" "bv_inv (external_bits ts)" "i < 2 ^ 32 - 1"
    using inv s Symbol by (simp_all add: ts_inv_def storable_def)
  then obtain t e where te: "insert_bit (terminal_bits ts) i = Some t" "bv_inv t" "bits_of t = insert i (bits_of (terminal_bits ts))"
      "insert_bit (external_bits ts) i = Some e" "bv_inv e" "bits_of e = insert i (bits_of (external_bits ts))"
    using insert_bit_correct by meson
  show ?thesis
    using inv s Symbol te by (cases k) (auto simp: insert_tok_def ts_inv_def storable_def toks_def symbol_defs)
qed

lemma trim_correct: "bv_inv bv \<Longrightarrow> bv_inv (trim bv) \<and> bits_of (trim bv) = bits_of bv"
proof (induction bv rule: trim.induct)
  case (1 bv)
  show ?case
  proof (cases "last_bit bv = Some False")
    case True
    then have n: "num_bits bv \<noteq> 0" by (auto simp: last_bit_def split: if_splits)
    then have "num_bits bv - 1 \<notin> bits_of bv" using True last_bit_correct [OF "1.prems"] by simp
    then have "bits_of (snd (pop bv)) = bits_of bv" using pop_correct(4) [OF "1.prems" n] by simp
    then show ?thesis using 1 True pop_correct(2) [OF "1.prems" n] by (subst (1 2) trim.simps) simp
  next
    case False
    then show ?thesis using "1.prems" by (subst (1 2) trim.simps) simp
  qed
qed

lemma remove_bit_correct:
  assumes inv: "bv_inv bv"
  shows "\<exists>bv'. remove_bit bv i = Some (i \<in> bits_of bv, bv') \<and> bv_inv bv' \<and> bits_of bv' = bits_of bv - {i}"
proof (cases "i < num_bits bv")
  case True
  obtain bv1 where bv1: "set_bit_at bv i False = Some bv1" "bv_inv bv1" "bits_of bv1 = bits_of bv - {i}"
    using set_bit_at_correct [OF inv True, of False] by auto
  then show ?thesis
    using True index_correct [OF inv True] trim_correct [OF bv1(2)] inv by (auto simp: remove_bit_def len_def)
next
  case False
  then show ?thesis using inv by (auto simp: remove_bit_def len_def bv_inv_def)
qed

lemma remove_tok_correct:
  assumes inv: "ts_inv ts" and s: "storable s"
  shows "\<exists>ts'. remove_tok ts s = Some (s \<in> toks ts, ts') \<and> ts_inv ts' \<and> toks ts' = toks ts - {s}"
proof (cases s)
  case (Symbol k i)
  have "bv_inv (terminal_bits ts)" "bv_inv (external_bits ts)"
    using inv by (simp_all add: ts_inv_def)
  then obtain t e where te: "remove_bit (terminal_bits ts) i = Some (i \<in> bits_of (terminal_bits ts), t)" "bv_inv t"
      "bits_of t = bits_of (terminal_bits ts) - {i}"
      "remove_bit (external_bits ts) i = Some (i \<in> bits_of (external_bits ts), e)" "bv_inv e"
      "bits_of e = bits_of (external_bits ts) - {i}"
    using remove_bit_correct by meson
  show ?thesis
    using inv s Symbol te
    by (cases k) (auto simp: remove_tok_def ts_inv_def storable_def toks_def symbol_defs)
qed


subsection \<open>Whole-set operations\<close>

lemma insert_all_terminals_correct:
  assumes "ts_inv ts" "ts_inv other"
  shows "ts_inv (fst (insert_all_terminals ts other))"
    "toks (fst (insert_all_terminals ts other)) = toks ts \<union> {s \<in> toks other. is_terminal s}"
    "snd (insert_all_terminals ts other) \<longleftrightarrow> \<not> {s \<in> toks other. is_terminal s} \<subseteq> toks ts"
proof -
  have i: "bv_inv (terminal_bits ts)" "bv_inv (terminal_bits other)" using assms by (simp_all add: ts_inv_def)
  note c = insert_all_correct [OF i]
  have sel: "{s \<in> toks other. is_terminal s} = Symbol Terminal ` bits_of (terminal_bits other)"
    by (auto simp: toks_def symbol_defs)
  have t: "insert_all_terminals ts other =
      (ts\<lparr>terminal_bits := fst (insert_all (terminal_bits ts) (terminal_bits other))\<rparr>,
       snd (insert_all (terminal_bits ts) (terminal_bits other)))"
    by (simp add: insert_all_terminals_def case_prod_beta)
  show "ts_inv (fst (insert_all_terminals ts other))" using c(1) assms by (simp add: t ts_inv_def)
  show "toks (fst (insert_all_terminals ts other)) = toks ts \<union> {s \<in> toks other. is_terminal s}"
    unfolding sel by (auto simp: t toks_def c(2))
  show "snd (insert_all_terminals ts other) \<longleftrightarrow> \<not> {s \<in> toks other. is_terminal s} \<subseteq> toks ts"
    unfolding sel by (auto simp: t c(3) mem_toks)
qed

lemma insert_all_externals_correct:
  assumes "ts_inv ts" "ts_inv other"
  shows "ts_inv (fst (insert_all_externals ts other))"
    "toks (fst (insert_all_externals ts other)) = toks ts \<union> {s \<in> toks other. is_external s}"
    "snd (insert_all_externals ts other) \<longleftrightarrow> \<not> {s \<in> toks other. is_external s} \<subseteq> toks ts"
proof -
  have i: "bv_inv (external_bits ts)" "bv_inv (external_bits other)" using assms by (simp_all add: ts_inv_def)
  note c = insert_all_correct [OF i]
  have sel: "{s \<in> toks other. is_external s} = Symbol External ` bits_of (external_bits other)"
    by (auto simp: toks_def symbol_defs)
  have t: "insert_all_externals ts other =
      (ts\<lparr>external_bits := fst (insert_all (external_bits ts) (external_bits other))\<rparr>,
       snd (insert_all (external_bits ts) (external_bits other)))"
    by (simp add: insert_all_externals_def case_prod_beta)
  show "ts_inv (fst (insert_all_externals ts other))" using c(1) assms by (simp add: t ts_inv_def)
  show "toks (fst (insert_all_externals ts other)) = toks ts \<union> {s \<in> toks other. is_external s}"
    unfolding sel by (auto simp: t toks_def c(2))
  show "snd (insert_all_externals ts other) \<longleftrightarrow> \<not> {s \<in> toks other. is_external s} \<subseteq> toks ts"
    unfolding sel by (auto simp: t c(3) mem_toks)
qed

lemma toks_cases:
  "toks ts = {s \<in> toks ts. is_terminal s} \<union> {s \<in> toks ts. is_external s} \<union>
     (if eof ts then {end_sym} else {}) \<union> (if end_of_nonterminal_extra ts then {end_of_nonterminal_extra_sym} else {})"
  by (auto simp: toks_def symbol_defs)

lemma toks_subset_iff:
  "toks ts \<subseteq> A \<longleftrightarrow> {s \<in> toks ts. is_terminal s} \<subseteq> A \<and> {s \<in> toks ts. is_external s} \<subseteq> A \<and>
     (eof ts \<longrightarrow> end_sym \<in> A) \<and> (end_of_nonterminal_extra ts \<longrightarrow> end_of_nonterminal_extra_sym \<in> A)"
  by (subst (1) toks_cases) (simp only: Un_subset_iff insert_subset empty_subsetI simp_thms conj_assoc split: if_split, blast)

definition add_flags :: "TokenSet \<Rightarrow> TokenSet \<Rightarrow> TokenSet" where
  "add_flags ts other = ts\<lparr>eof := eof ts \<or> eof other,
     end_of_nonterminal_extra := end_of_nonterminal_extra ts \<or> end_of_nonterminal_extra other\<rparr>"

lemma insert_all_tokens_eq:
  "insert_all_tokens ts other =
     (let (ts3, r3) = insert_all_terminals (add_flags ts other) other; (ts4, r4) = insert_all_externals ts3 other in
      (ts4, eof other \<and> \<not> eof ts \<or> end_of_nonterminal_extra other \<and> \<not> end_of_nonterminal_extra ts \<or> r3 \<or> r4))"
  by (cases ts, cases "eof other"; cases "end_of_nonterminal_extra other")
    (simp_all add: insert_all_tokens_def add_flags_def case_prod_beta)

lemma toks_add_flags:
  "toks (add_flags ts other) = toks ts \<union>
     (if eof other then {end_sym} else {}) \<union> (if end_of_nonterminal_extra other then {end_of_nonterminal_extra_sym} else {})"
  by (auto simp: toks_def add_flags_def)

lemma insert_all_tokens_correct:
  assumes inv: "ts_inv ts" "ts_inv other"
  shows "ts_inv (fst (insert_all_tokens ts other))"
    "toks (fst (insert_all_tokens ts other)) = toks ts \<union> toks other"
    "snd (insert_all_tokens ts other) \<longleftrightarrow> \<not> toks other \<subseteq> toks ts"
proof -
  let ?a = "add_flags ts other"
  let ?b = "insert_all_terminals ?a other"
  let ?c = "insert_all_externals (fst ?b) other"
  have a: "ts_inv ?a" using inv by (simp add: ts_inv_def add_flags_def)
  note b = insert_all_terminals_correct [OF a inv(2)]
  note c = insert_all_externals_correct [OF b(1) inv(2)]
  have eq: "insert_all_tokens ts other = (fst ?c,
      eof other \<and> \<not> eof ts \<or> end_of_nonterminal_extra other \<and> \<not> end_of_nonterminal_extra ts \<or> snd ?b \<or> snd ?c)"
    by (simp add: insert_all_tokens_eq case_prod_beta Let_def)
  show "ts_inv (fst (insert_all_tokens ts other))" using c(1) by (simp add: eq)
  show "toks (fst (insert_all_tokens ts other)) = toks ts \<union> toks other"
    unfolding eq fst_conv c(2) b(2) toks_add_flags by (subst (4) toks_cases) (simp only: Un_ac)
  have flags: "eof ts \<longleftrightarrow> end_sym \<in> toks ts" "end_of_nonterminal_extra ts \<longleftrightarrow> end_of_nonterminal_extra_sym \<in> toks ts"
    by (auto simp: symbol_defs mem_toks)
  have kinds: "\<not> is_terminal end_sym" "\<not> is_external end_sym" "\<not> is_terminal end_of_nonterminal_extra_sym"
    "\<not> is_external end_of_nonterminal_extra_sym" "\<And>s. \<not> (is_terminal s \<and> is_external s)" by (auto simp: symbol_defs)
  have r3: "snd ?b \<longleftrightarrow> \<not> {s \<in> toks other. is_terminal s} \<subseteq> toks ts"
    using kinds by (auto simp: b(3) toks_add_flags)
  have r4: "snd ?c \<longleftrightarrow> \<not> {s \<in> toks other. is_external s} \<subseteq> toks ts"
    using kinds by (auto simp: c(3) b(2) toks_add_flags)
  show "snd (insert_all_tokens ts other) \<longleftrightarrow> \<not> toks other \<subseteq> toks ts"
    unfolding eq snd_conv r3 r4 flags toks_subset_iff [of other] by blast
qed

lemma inv_bits_u32: "bv_inv bv \<Longrightarrow> i \<in> bits_of bv \<Longrightarrow> as_u32 i = i"
  by (rule as_u32_id) (auto simp: bv_inv_def)

lemma finite_bits_of: "finite (bits_of bv)"
  by (simp add: bits_of_def finite_bits_of_words)

lemma map_syms:
  assumes "bv_inv bv"
  shows "map terminal (sorted_list_of_set (bits_of bv)) = map (Symbol Terminal) (sorted_list_of_set (bits_of bv))"
    "map external (sorted_list_of_set (bits_of bv)) = map (Symbol External) (sorted_list_of_set (bits_of bv))"
  using inv_bits_u32 [OF assms] finite_bits_of [of bv] by (simp_all add: terminal_def external_def)

lemma iter_correct:
  assumes "ts_inv ts"
  shows "\<exists>ss. iter ts = Some ss \<and> set ss = toks ts \<and> distinct ss"
proof -
  let ?t = "sorted_list_of_set (bits_of (terminal_bits ts))" and ?e = "sorted_list_of_set (bits_of (external_bits ts))"
  have i: "bv_inv (terminal_bits ts)" "bv_inv (external_bits ts)" using assms by (simp_all add: ts_inv_def)
  have "iter ts = Some (map (Symbol Terminal) ?t @ map (Symbol External) ?e @ (if eof ts then [end_sym] else []) @
      (if end_of_nonterminal_extra ts then [end_of_nonterminal_extra_sym] else []))"
    by (simp add: iter_def iter_collect_bits [OF i(1)] iter_collect_bits [OF i(2)] map_syms(1) [OF i(1)] map_syms(2) [OF i(2)])
  moreover have "distinct (map (Symbol Terminal) ?t)" "distinct (map (Symbol External) ?e)"
    by (simp_all add: distinct_map inj_on_def)
  ultimately show ?thesis
    by (auto simp: toks_def finite_bits_of symbol_defs)
qed

lemma terminals_correct:
  assumes "ts_inv ts"
  shows "\<exists>ss. terminals ts = Some ss \<and> set ss = {s \<in> toks ts. is_terminal s} \<and> sorted_wrt (<) (map index ss)"
proof -
  have i: "bv_inv (terminal_bits ts)" using assms by (simp add: ts_inv_def)
  have "terminals ts = Some (map (Symbol Terminal) (sorted_list_of_set (bits_of (terminal_bits ts))))"
    by (simp add: terminals_def iter_collect_bits [OF i] map_syms [OF i])
  then show ?thesis by (auto simp: toks_def symbol_defs finite_bits_of comp_def)
qed

lemma zero_words_iff: "bv_inv bv \<Longrightarrow> list_all (\<lambda>w. w = 0) (as_slice bv) \<longleftrightarrow> bits_of bv = {}"
proof -
  assume inv: "bv_inv bv"
  have "list_all (\<lambda>w. w = 0) ws \<longleftrightarrow> bits_of_words ws = {}" for ws :: "u64 list"
  proof
    assume "bits_of_words ws = {}"
    then show "list_all (\<lambda>w. w = 0) ws" using bit_nth_bits [of _ ws] by (auto simp: list_all_length bit_eq_iff)
  qed (auto simp: list_all_length mem_bits_of_words)
  then show ?thesis using bits_of_as_slice [OF inv] by metis
qed

lemma is_empty_correct: "ts_inv ts \<Longrightarrow> is_empty_tokens ts \<longleftrightarrow> toks ts = {}"
  by (auto simp: is_empty_tokens_def ts_inv_def zero_words_iff toks_def)

lemma len_correct:
  assumes "ts_inv ts"
  shows "len_tokens ts = card (toks ts)"
proof -
  let ?T = "Symbol Terminal ` bits_of (terminal_bits ts)" and ?E = "Symbol External ` bits_of (external_bits ts)"
  have i: "bv_inv (terminal_bits ts)" "bv_inv (external_bits ts)" using assms by (simp_all add: ts_inv_def)
  have c: "card ?T = card (bits_of (terminal_bits ts))" "card ?E = card (bits_of (external_bits ts))"
    by (simp_all add: card_image inj_on_def)
  have "card (?T \<union> ?E) = card ?T + card ?E" by (rule card_Un_disjoint) (auto simp: finite_bits_of)
  moreover have "end_sym \<notin> ?T \<union> ?E" "end_of_nonterminal_extra_sym \<notin> insert end_sym (?T \<union> ?E)"
    by (auto simp: symbol_defs)
  moreover have "finite (?T \<union> ?E)" by (simp add: finite_bits_of)
  ultimately show ?thesis
    using sum_count_ones [of "as_slice (terminal_bits ts)"] sum_count_ones [of "as_slice (external_bits ts)"]
    by (auto simp: len_tokens_def toks_def bits_of_as_slice [OF i(1)] bits_of_as_slice [OF i(2)] c)
qed

lemma toks_eq_iff:
  "toks a = toks b \<longleftrightarrow> bits_of (terminal_bits a) = bits_of (terminal_bits b) \<and>
     bits_of (external_bits a) = bits_of (external_bits b) \<and> eof a = eof b \<and>
     end_of_nonterminal_extra a = end_of_nonterminal_extra b"
proof
  assume e: "toks a = toks b"
  then have "Symbol k i \<in> toks a \<longleftrightarrow> Symbol k i \<in> toks b" for k i by simp
  from this [of Terminal] this [of External] this [of End 0] this [of EndOfNonTerminalExtra 0]
  show "bits_of (terminal_bits a) = bits_of (terminal_bits b) \<and>
     bits_of (external_bits a) = bits_of (external_bits b) \<and> eof a = eof b \<and>
     end_of_nonterminal_extra a = end_of_nonterminal_extra b"
    by (auto simp: mem_toks)
qed (simp add: toks_def)

lemma eq_tokens_correct: "ts_inv a \<Longrightarrow> ts_inv b \<Longrightarrow> eq_tokens a b \<longleftrightarrow> toks a = toks b"
  by (auto simp: eq_tokens_def ts_inv_def eq_correct toks_eq_iff)

lemma cmp_tokens_Equal: "ts_inv a \<Longrightarrow> ts_inv b \<Longrightarrow> cmp_tokens a b = Equal \<longleftrightarrow> toks a = toks b"
  by (simp add: cmp_tokens_def ts_inv_def toks_eq_iff cmp_bits_Equal)

interpretation cmp_tokens: comparison cmp_tokens ts_inv
proof -
  have t: "comparison (\<lambda>x y. cmp_bits (terminal_bits x) (terminal_bits y)) ts_inv"
    by (rule comparison_on [OF cmp_bits.comparison_axioms]) (simp add: ts_inv_def)
  have e: "comparison (\<lambda>x y. cmp_bits (external_bits x) (external_bits y)) ts_inv"
    by (rule comparison_on [OF cmp_bits.comparison_axioms]) (simp add: ts_inv_def)
  have f: "comparison (\<lambda>x y. ord_cmp (eof x) (eof y)) ts_inv"
    by (rule comparison_on [OF ord_cmp.comparison_axioms]) simp
  have g: "comparison (\<lambda>x y. ord_cmp (end_of_nonterminal_extra x) (end_of_nonterminal_extra y)) ts_inv"
    by (rule comparison_on [OF ord_cmp.comparison_axioms]) simp
  show "comparison cmp_tokens ts_inv"
    unfolding cmp_tokens_def [abs_def] by (rule comparison_then_with [OF t comparison_then_with [OF e comparison_then_with [OF f g]]])
qed

lemma insert_tok_the:
  assumes "ts_inv ts" "storable s"
  shows "ts_inv (the (insert_tok ts s))" "toks (the (insert_tok ts s)) = toks ts \<union> {s}"
  using insert_tok_correct [OF assms] by (elim exE conjE, simp)+

interpretation token_sets: set_builder new_tokens "\<lambda>s ts. the (insert_tok ts s)" toks ts_inv "\<lambda>s. {s}" storable
  by (rule set_builder.intro) (simp_all only: new_tokens_correct insert_tok_the)

lemma insert_each_fold:
  "ts_inv ts \<Longrightarrow> list_all storable ss \<Longrightarrow> insert_each ts ss = Some (fold (\<lambda>s ts. the (insert_tok ts s)) ss ts)"
proof (induction ss arbitrary: ts)
  case (Cons s ss)
  then obtain ts' where "insert_tok ts s = Some ts'" "ts_inv ts'" using insert_tok_correct [of ts s] by auto
  with Cons show ?case by simp
qed simp

lemma from_iter_correct:
  "list_all storable ss \<Longrightarrow> \<exists>ts. from_iter ss = Some ts \<and> ts_inv ts \<and> toks ts = set ss"
  using token_sets.fold_ins_emp [of ss] by (simp add: from_iter_def insert_each_fold new_tokens_correct)

section \<open>Properties\<close>

text \<open>C30. A token set behaves as a set of symbols under single-symbol operations: for every symbol that can
  be stored, \<open>contains\<close> decides membership, \<open>insert\<close> succeeds and adds exactly that symbol, \<open>remove\<close>
  returns whether it was present and removes exactly it (although it also shortens the bit vector);
  both keep the representation invariant. A non-terminal makes all three panic.\<close>

theorem token_set_symbol_operations:
  assumes "ts_inv ts"
  shows "(storable s \<longrightarrow> contains ts s = Some (s \<in> toks ts) \<and>
      (\<exists>ts'. insert_tok ts s = Some ts' \<and> ts_inv ts' \<and> toks ts' = insert s (toks ts)) \<and>
      (\<exists>ts'. remove_tok ts s = Some (s \<in> toks ts, ts') \<and> ts_inv ts' \<and> toks ts' = toks ts - {s})) \<and>
    (is_non_terminal s \<longrightarrow> contains ts s = None \<and> insert_tok ts s = None \<and> remove_tok ts s = None)"
proof (rule conjI)
  show "storable s \<longrightarrow> contains ts s = Some (s \<in> toks ts) \<and>
      (\<exists>ts'. insert_tok ts s = Some ts' \<and> ts_inv ts' \<and> toks ts' = insert s (toks ts)) \<and>
      (\<exists>ts'. remove_tok ts s = Some (s \<in> toks ts, ts') \<and> ts_inv ts' \<and> toks ts' = toks ts - {s})"
    using contains_tok_correct [OF assms] insert_tok_correct [OF assms] remove_tok_correct [OF assms] by blast
qed (simp add: is_non_terminal_def contains_def insert_tok_def remove_tok_def)

theorem token_set_symbol_operations_witness:
  "contains new_tokens (terminal 5) = Some False \<and>
   (\<exists>ts'. insert_tok new_tokens (terminal 5) = Some ts' \<and> toks ts' = {terminal 5}) \<and>
   remove_tok new_tokens (non_terminal 5) = None"
  using token_set_symbol_operations [OF new_tokens_correct(1), of "terminal 5"]
    token_set_symbol_operations [OF new_tokens_correct(1), of "non_terminal 5"]
  by (auto simp: new_tokens_correct storable_def symbol_defs)

text \<open>Whole-set operations: \<open>insert_all\<close> computes the union and returns \<open>true\<close> exactly when something
  was added (the fixpoint iterations of the table builder stop on it), \<open>iter\<close> lists every member
  once, \<open>len\<close> counts them, \<open>is_empty\<close> tests emptiness, \<open>==\<close> is equality of the sets, and \<open>cmp\<close>
  answers \<open>Equal\<close> exactly on equal sets.\<close>

theorem token_set_whole_operations:
  assumes "ts_inv ts" "ts_inv other"
  shows "ts_inv (fst (insert_all_tokens ts other)) \<and> toks (fst (insert_all_tokens ts other)) = toks ts \<union> toks other \<and>
    (snd (insert_all_tokens ts other) \<longleftrightarrow> \<not> toks other \<subseteq> toks ts) \<and>
    (\<exists>ss. iter ts = Some ss \<and> set ss = toks ts \<and> distinct ss) \<and>
    len_tokens ts = card (toks ts) \<and>
    (is_empty_tokens ts \<longleftrightarrow> toks ts = {}) \<and>
    (eq_tokens ts other \<longleftrightarrow> toks ts = toks other) \<and>
    (cmp_tokens ts other = Equal \<longleftrightarrow> toks ts = toks other)"
  using insert_all_tokens_correct [OF assms] iter_correct [OF assms(1)] len_correct [OF assms(1)]
    is_empty_correct [OF assms(1)] eq_tokens_correct [OF assms] cmp_tokens_Equal [OF assms] by blast

theorem token_set_whole_operations_witness:
  "len_tokens (fst (insert_all_tokens new_tokens (new_tokens\<lparr>eof := True\<rparr>))) = 1 \<and>
   snd (insert_all_tokens new_tokens (new_tokens\<lparr>eof := True\<rparr>))"
proof -
  let ?b = "new_tokens\<lparr>eof := True\<rparr>"
  have i: "ts_inv new_tokens" "ts_inv ?b" and b: "toks ?b = {end_sym}"
    using new_tokens_correct by (simp_all add: ts_inv_def toks_def)
  have u: "ts_inv (fst (insert_all_tokens new_tokens ?b))" "toks (fst (insert_all_tokens new_tokens ?b)) = {end_sym}"
    using token_set_whole_operations [OF i] by (simp_all add: b new_tokens_correct)
  show ?thesis using token_set_whole_operations [OF i] token_set_whole_operations [OF u(1) i(1)]
    by (simp add: b u new_tokens_correct)
qed

text \<open>Collecting symbols into a token set succeeds and yields exactly the collected set, when all of
  them can be stored.\<close>

theorem from_iter_collects:
  assumes "list_all storable ss"
  shows "\<exists>ts. from_iter ss = Some ts \<and> ts_inv ts \<and> toks ts = set ss"
  using from_iter_correct [OF assms] .

theorem from_iter_collects_witness:
  "\<exists>ts. from_iter [terminal 5, external 70, end_sym] = Some ts \<and> toks ts = {terminal 5, external 70, end_sym}"
  using from_iter_collects [of "[terminal 5, external 70, end_sym]"] by (auto simp: storable_def symbol_defs)

end
