(* ===== verification/Str_Pool.thy ===== *)
theory Str_Pool
  imports Prelude
begin

text \<open>
  \<^verbatim>\<open>crates/generate/src/strpool.rs\<close>: \<open>StrPool\<close>, the string interner. Strings are byte strings
  (\<open>s.len()\<close> counts bytes), ids are 1-based. The hash table \<open>hashbrown::HashTable\<close> and the hash
  function \<open>FxBuildHasher\<close> are outside the sources: they are the parameters \<open>ops\<close> and \<open>hash_one\<close>,
  and \<open>hash_table_laws\<close> states what the table documents: a search returns an element of the table
  that satisfies the predicate, it does not miss one that was stored under the hash it is given,
  and an insertion adds the element as long as the rehash function agrees with the stored hashes.
\<close>

section \<open>The hash table interface\<close>

record ('t, 'x) hash_table_ops =
  ht_empty :: 't
  ht_find :: "'t \<Rightarrow> u64 \<Rightarrow> ('x \<Rightarrow> bool) \<Rightarrow> 'x option"
  ht_insert :: "'t \<Rightarrow> u64 \<Rightarrow> 'x \<Rightarrow> ('x \<Rightarrow> u64) \<Rightarrow> 't"

definition hash_table_laws :: "('t, 'x) hash_table_ops \<Rightarrow> ('t \<Rightarrow> (u64 \<times> 'x) set) \<Rightarrow> bool" where
  "hash_table_laws ops ent \<longleftrightarrow>
     ent (ht_empty ops) = {} \<and>
     (\<forall>t h p x. ht_find ops t h p = Some x \<longrightarrow> p x \<and> (\<exists>h'. (h', x) \<in> ent t)) \<and>
     (\<forall>t h p x. (h, x) \<in> ent t \<and> p x \<longrightarrow> ht_find ops t h p \<noteq> None) \<and>
     (\<forall>t h x rehash. (\<forall>(h', x') \<in> ent t. rehash x' = h') \<longrightarrow> ent (ht_insert ops t h x rehash) = insert (h, x) (ent t))"

lemma ht_find_sound:
  assumes "hash_table_laws ops ent" "ht_find ops t h p = Some x"
  shows "p x \<and> (\<exists>h'. (h', x) \<in> ent t)"
proof -
  have "\<forall>t h p x. ht_find ops t h p = Some x \<longrightarrow> p x \<and> (\<exists>h'. (h', x) \<in> ent t)"
    using assms(1) unfolding hash_table_laws_def by (elim conjE)
  from this [rule_format, OF assms(2)] show ?thesis .
qed

lemma ht_find_complete:
  assumes "hash_table_laws ops ent" "(h, x) \<in> ent t" "p x"
  shows "\<exists>y. ht_find ops t h p = Some y"
proof -
  have "\<forall>t h p x. (h, x) \<in> ent t \<and> p x \<longrightarrow> ht_find ops t h p \<noteq> None"
    using assms(1) unfolding hash_table_laws_def by (elim conjE)
  from this [rule_format, OF conjI, OF assms(2), of p, OF assms(3)] show ?thesis by simp
qed

lemma ht_insert_ent:
  assumes "hash_table_laws ops ent" "\<And>h' x'. (h', x') \<in> ent t \<Longrightarrow> rehash x' = h'"
  shows "ent (ht_insert ops t h x rehash) = insert (h, x) (ent t)"
proof -
  have "\<forall>t h x rehash. (\<forall>(h', x') \<in> ent t. rehash x' = h') \<longrightarrow> ent (ht_insert ops t h x rehash) = insert (h, x) (ent t)"
    using assms(1) unfolding hash_table_laws_def by (elim conjE)
  moreover have "\<forall>(h', x') \<in> ent t. rehash x' = h'" using assms(2) by (auto split: prod.splits)
  ultimately show ?thesis by simp
qed

section \<open>Operations\<close>

definition id_index :: "nat \<Rightarrow> nat" where
  "id_index sid = sid - 1"

definition raw :: "nat \<Rightarrow> nat" where
  "raw sid = sid"

definition from_raw :: "nat \<Rightarrow> nat option" where
  "from_raw r = (if r = 0 then None else Some r)"

record StrSpan =
  span_start :: nat
  span_end :: nat

record 't StrPool =
  buf :: string
  spans :: "StrSpan list"
  ids :: 't

definition EMPTY_STR_ID :: nat where
  "EMPTY_STR_ID = 1"

definition END_NAME_ID :: nat where
  "END_NAME_ID = 2"

definition span_str :: "string \<Rightarrow> StrSpan list \<Rightarrow> nat \<Rightarrow> string option" where
  "span_str b sps sid = do {
     span \<leftarrow> vec_get sps (id_index sid);
     vec_slice b (span_start span) (span_end span)
   }"

definition resolve :: "'t StrPool \<Rightarrow> nat \<Rightarrow> string option" where
  "resolve pool sid = span_str (buf pool) (spans pool) sid"

definition intern :: "('t, nat) hash_table_ops \<Rightarrow> (string \<Rightarrow> u64) \<Rightarrow> 't StrPool \<Rightarrow> string \<Rightarrow> ('t StrPool \<times> nat) option" where
  "intern ops hash_one pool s =
     (let hash = hash_one s in
      case ht_find ops (ids pool) hash (\<lambda>sid. span_str (buf pool) (spans pool) sid = Some s) of
        Some sid \<Rightarrow> Some (pool, sid)
      | None \<Rightarrow>
          (let start = length (buf pool); stop = start + length s in
           if stop < 2 ^ 32 then
             (let sid = as_u32 (length (spans pool)) + 1 in
              Some (\<lparr>buf = buf pool @ s,
                spans = spans pool @ [\<lparr>span_start = as_u32 start, span_end = stop\<rparr>],
                ids = ht_insert ops (ids pool) hash sid
                  (\<lambda>sid. hash_one (case span_str (buf pool) (spans pool) sid of Some t \<Rightarrow> t | None \<Rightarrow> []))\<rparr>, sid))
           else None))"

definition default_pool :: "('t, nat) hash_table_ops \<Rightarrow> (string \<Rightarrow> u64) \<Rightarrow> 't StrPool option" where
  "default_pool ops hash_one = do {
     (pool, _) \<leftarrow> intern ops hash_one \<lparr>buf = [], spans = [], ids = ht_empty ops\<rparr> '''';
     (pool, _) \<leftarrow> intern ops hash_one pool ''end'';
     Some pool
   }"

section \<open>Invariant\<close>

fun spans_from :: "nat \<Rightarrow> string list \<Rightarrow> StrSpan list" where
  "spans_from n [] = []"
| "spans_from n (s # ss) = \<lparr>span_start = n, span_end = n + length s\<rparr> # spans_from (n + length s) ss"

text \<open>The pool holds the distinct strings \<open>strs\<close>, the string with index \<open>i\<close> under the id \<open>i + 1\<close>.\<close>

definition holds :: "('t \<Rightarrow> (u64 \<times> nat) set) \<Rightarrow> (string \<Rightarrow> u64) \<Rightarrow> 't StrPool \<Rightarrow> string list \<Rightarrow> bool" where
  "holds ent hash_one pool strs \<longleftrightarrow>
     buf pool = concat strs \<and> spans pool = spans_from 0 strs \<and> distinct strs \<and>
     ent (ids pool) = (\<lambda>i. (hash_one (strs ! i), Suc i)) ` {..<length strs} \<and> length (concat strs) < 2 ^ 32"

definition pool_inv :: "('t \<Rightarrow> (u64 \<times> nat) set) \<Rightarrow> (string \<Rightarrow> u64) \<Rightarrow> 't StrPool \<Rightarrow> bool" where
  "pool_inv ent hash_one pool \<longleftrightarrow> (\<exists>rest. holds ent hash_one pool ('''' # ''end'' # rest))"

lemma length_spans_from [simp]: "length (spans_from n ss) = length ss"
  by (induction ss arbitrary: n) simp_all

lemma spans_from_snoc: "spans_from n (ss @ [s]) =
    spans_from n ss @ [\<lparr>span_start = n + length (concat ss), span_end = n + length (concat ss) + length s\<rparr>]"
  by (induction ss arbitrary: n) simp_all

lemma spans_from_nth:
  "i < length ss \<Longrightarrow> spans_from n ss ! i =
     \<lparr>span_start = n + length (concat (take i ss)), span_end = n + length (concat (take i ss)) + length (ss ! i)\<rparr>"
  by (induction ss arbitrary: n i) (auto simp: nth_Cons split: nat.splits)

lemma span_str_holds:
  "span_str (concat strs) (spans_from 0 strs) sid = (if id_index sid < length strs then Some (strs ! id_index sid) else None)"
proof (cases "id_index sid < length strs")
  case True
  then show ?thesis using vec_slice_concat [OF True]
    by (simp add: span_str_def vec_get_def spans_from_nth)
qed (simp add: span_str_def vec_get_def)

lemma resolve_holds:
  "holds ent hash_one pool strs \<Longrightarrow> resolve pool sid = (if id_index sid < length strs then Some (strs ! id_index sid) else None)"
  by (simp add: resolve_def holds_def span_str_holds)

lemma intern_old:
  assumes laws: "hash_table_laws ops ent" and h: "holds ent hash_one pool strs" and i: "i < length strs"
  shows "intern ops hash_one pool (strs ! i) = Some (pool, Suc i)"
proof -
  let ?p = "\<lambda>sid. span_str (buf pool) (spans pool) sid = Some (strs ! i)"
  have p: "?p sid \<longleftrightarrow> id_index sid < length strs \<and> strs ! id_index sid = strs ! i" for sid
    using h by (simp add: holds_def span_str_holds)
  have mem: "(hash_one (strs ! i), Suc i) \<in> ent (ids pool)" using h i by (auto simp: holds_def)
  have "?p (Suc i)" using i p by (simp add: id_index_def)
  then obtain sid where sid: "ht_find ops (ids pool) (hash_one (strs ! i)) ?p = Some sid"
    using ht_find_complete [OF laws mem, of ?p] by blast
  have "?p sid" "\<exists>h'. (h', sid) \<in> ent (ids pool)" using ht_find_sound [OF laws sid] by blast+
  then have "sid = Suc i"
    using p [of sid] h i by (auto simp: holds_def id_index_def nth_eq_iff_index_eq)
  with sid show ?thesis by (simp add: intern_def Let_def)
qed

lemma intern_new:
  assumes laws: "hash_table_laws ops ent" and h: "holds ent hash_one pool strs" and s: "s \<notin> set strs"
    and fits: "length (concat strs) + length s < 2 ^ 32" "length strs < 2 ^ 32"
  shows "\<exists>pool'. intern ops hash_one pool s = Some (pool', Suc (length strs)) \<and> holds ent hash_one pool' (strs @ [s])"
proof -
  let ?p = "\<lambda>sid. span_str (buf pool) (spans pool) sid = Some s"
  let ?re = "\<lambda>sid. hash_one (case span_str (buf pool) (spans pool) sid of Some t \<Rightarrow> t | None \<Rightarrow> [])"
  let ?t = "ht_insert ops (ids pool) (hash_one s) (Suc (length strs)) ?re"
  have b: "buf pool = concat strs" and sp: "spans pool = spans_from 0 strs" and d: "distinct strs"
    and ent: "ent (ids pool) = (\<lambda>i. (hash_one (strs ! i), Suc i)) ` {..<length strs}"
    using h by (simp_all add: holds_def)
  have "\<not> ?p sid" for sid using s by (auto simp: b sp span_str_holds)
  then have none: "ht_find ops (ids pool) (hash_one s) ?p = None"
    using ht_find_sound [OF laws, of "ids pool" "hash_one s" ?p] by (cases "ht_find ops (ids pool) (hash_one s) ?p") auto
  have "?re x' = h'" if "(h', x') \<in> ent (ids pool)" for h' x'
    using that unfolding ent b sp by (auto simp: span_str_holds id_index_def)
  then have ins: "ent ?t = insert (hash_one s, Suc (length strs)) (ent (ids pool))"
    by (rule ht_insert_ent [OF laws])
  define pool' where "pool' = \<lparr>buf = concat strs @ s, spans = spans_from 0 (strs @ [s]), ids = ?t\<rparr>"
  have "length (concat strs) < 2 ^ 32" using fits by linarith
  then have "intern ops hash_one pool s = Some (pool', Suc (length strs))"
    unfolding intern_def Let_def none option.case pool'_def using fits
    by (simp only: b sp spans_from_snoc as_u32_id length_spans_from if_True add_0 Suc_eq_plus1)
  moreover have "(\<lambda>i. (hash_one ((strs @ [s]) ! i), Suc i)) ` {..<length strs} = (\<lambda>i. (hash_one (strs ! i), Suc i)) ` {..<length strs}"
    by (rule image_cong) (simp_all add: nth_append)
  then have "ent (ids pool') = (\<lambda>i. (hash_one ((strs @ [s]) ! i), Suc i)) ` {..<length (strs @ [s])}"
    by (simp add: pool'_def ins ent lessThan_Suc)
  then have "holds ent hash_one pool' (strs @ [s])"
    using s fits d unfolding holds_def by (simp add: pool'_def)
  ultimately show ?thesis by blast
qed

text \<open>The count of strings stays below the number of bytes, as the source argues in a comment.\<close>

lemma distinct_nonempty_count:
  "distinct strs \<Longrightarrow> '''' \<notin> set strs \<Longrightarrow> length strs \<le> length (concat strs)"
proof (induction strs)
  case (Cons s ss)
  then have "length s \<ge> 1" by (cases s) auto
  with Cons show ?case by simp
qed simp

lemma count_below_bytes:
  assumes "holds ent hash_one pool ('''' # ''end'' # rest)"
  shows "length ('''' # ''end'' # rest) < length (buf pool)"
  using assms distinct_nonempty_count [of rest] by (simp add: holds_def)

lemma pool_inv_intern:
  assumes laws: "hash_table_laws ops ent" and inv: "holds ent hash_one pool ('''' # ''end'' # rest)"
    and fits: "length (buf pool) + length s < 2 ^ 32"
  shows "\<exists>pool' sid rest'. intern ops hash_one pool s = Some (pool', sid) \<and>
    holds ent hash_one pool' ('''' # ''end'' # rest @ rest') \<and> 0 < sid \<and> sid \<le> length ('''' # ''end'' # rest @ rest') \<and>
    ('''' # ''end'' # rest @ rest') ! (sid - 1) = s"
proof (cases "s \<in> set ('''' # ''end'' # rest)")
  case True
  then obtain i where i: "i < length ('''' # ''end'' # rest)" "('''' # ''end'' # rest) ! i = s"
    by (metis in_set_conv_nth)
  show ?thesis
    using intern_old [OF laws inv i(1)] i inv by (intro exI [of _ pool] exI [of _ "Suc i"] exI [of _ "[]"]) simp
next
  case False
  have "length (concat ('''' # ''end'' # rest)) + length s < 2 ^ 32" using fits inv by (simp add: holds_def)
  moreover have "length ('''' # ''end'' # rest) < 2 ^ 32" using count_below_bytes [OF inv] fits by linarith
  ultimately obtain pool' where "intern ops hash_one pool s = Some (pool', Suc (length ('''' # ''end'' # rest)))"
      "holds ent hash_one pool' (('''' # ''end'' # rest) @ [s])"
    using intern_new [OF laws inv False] by blast
  then show ?thesis
    by (intro exI [of _ pool'] exI [of _ "Suc (length ('''' # ''end'' # rest))"] exI [of _ "[s]"]) (simp add: nth_append)
qed

lemma holds_default_inv: "holds ent hash_one pool ['''', ''end''] \<Longrightarrow> pool_inv ent hash_one pool"
  unfolding pool_inv_def by (rule exI [of _ "[]"])

lemma default_pool_correct:
  assumes laws: "hash_table_laws ops ent"
  shows "\<exists>pool. default_pool ops hash_one = Some pool \<and> holds ent hash_one pool ['''', ''end'']"
proof -
  let ?p0 = "\<lparr>buf = [], spans = [], ids = ht_empty ops\<rparr>"
  have "holds ent hash_one ?p0 []" using laws by (simp add: holds_def hash_table_laws_def)
  then obtain p1 where p1: "intern ops hash_one ?p0 '''' = Some (p1, 1)" "holds ent hash_one p1 ['''']"
    using intern_new [OF laws, of hash_one ?p0 "[]" "''''"] by auto
  then obtain p2 where p2: "intern ops hash_one p1 ''end'' = Some (p2, Suc (Suc 0))" "holds ent hash_one p2 ['''', ''end'']"
    using intern_new [OF laws p1(2), of "''end''"] by auto
  then show ?thesis using p1 by (simp add: default_pool_def)
qed

section \<open>A table that satisfies the laws\<close>

text \<open>The hypotheses on the table can hold: an association list searched from the front is one.\<close>

definition list_table :: "((u64 \<times> nat) list, nat) hash_table_ops" where
  "list_table = \<lparr>ht_empty = [],
     ht_find = (\<lambda>t h p. map_option snd (find (\<lambda>(h', x). h' = h \<and> p x) t)),
     ht_insert = (\<lambda>t h x rehash. (h, x) # t)\<rparr>"

lemma list_table_laws: "hash_table_laws list_table set"
  unfolding hash_table_laws_def list_table_def
  by (auto simp: find_None_iff find_Some_iff) (metis nth_mem)

section \<open>Properties\<close>

text \<open>C31. Interning returns an id that resolves to the string, keeps the pool's invariant, and leaves what
  every earlier id resolves to unchanged; it panics only when the bytes would exceed \<open>u32::MAX\<close>. The
  sid is at least 1 and at most \<open>u32::MAX\<close> (the argument of the source's comment: the number of strings
  stays below the number of bytes).\<close>

theorem intern_resolve:
  assumes "hash_table_laws ops ent" "pool_inv ent hash_one pool" "length (buf pool) + length s < 2 ^ 32"
  shows "\<exists>pool' sid. intern ops hash_one pool s = Some (pool', sid) \<and> pool_inv ent hash_one pool' \<and>
    0 < sid \<and> sid < 2 ^ 32 \<and> resolve pool' sid = Some s \<and>
    (\<forall>sid' t. resolve pool sid' = Some t \<longrightarrow> resolve pool' sid' = Some t)"
proof -
  obtain rest where h: "holds ent hash_one pool ('''' # ''end'' # rest)" using assms(2) by (auto simp: pool_inv_def)
  obtain pool' sid rest' where i: "intern ops hash_one pool s = Some (pool', sid)"
      "holds ent hash_one pool' ('''' # ''end'' # rest @ rest')" "0 < sid" "sid \<le> length ('''' # ''end'' # rest @ rest')"
      "('''' # ''end'' # rest @ rest') ! (sid - 1) = s"
    using pool_inv_intern [OF assms(1) h assms(3)] by blast
  have "length (buf pool') < 2 ^ 32" using i(2) by (simp add: holds_def)
  then have "sid < 2 ^ 32" using i(4) count_below_bytes [OF i(2)] by linarith
  moreover have "resolve pool' sid = Some s"
    unfolding resolve_holds [OF i(2)] id_index_def using i(3-5) by simp
  moreover have "resolve pool' sid' = Some t" if "resolve pool sid' = Some t" for sid' t
    using that nth_append [of "'''' # ''end'' # rest" rest']
    by (auto simp: resolve_holds [OF i(2)] resolve_holds [OF h] split: if_splits)
  ultimately show ?thesis using i by (auto simp: pool_inv_def)
qed

theorem intern_resolve_witness:
  "\<exists>pool. default_pool list_table (\<lambda>_. 0) = Some pool \<and>
     (\<exists>pool' sid. intern list_table (\<lambda>_. 0) pool ''x'' = Some (pool', sid) \<and> resolve pool' sid = Some ''x'')"
proof -
  obtain pool where p: "default_pool list_table (\<lambda>_. 0) = Some pool" "holds set (\<lambda>_. 0) pool ['''', ''end'']"
    using default_pool_correct [OF list_table_laws] by blast
  have "pool_inv set (\<lambda>_. 0) pool" "length (buf pool) + length ''x'' < 2 ^ 32"
    using p(2) holds_default_inv [OF p(2)] by (simp_all add: holds_def)
  from intern_resolve [OF list_table_laws this] p(1) show ?thesis by blast
qed

text \<open>C32. Ids and strings correspond one to one: two ids the pool can hand out that resolve to the same
  string are equal, and interning a string that an id resolves to returns that id and leaves the
  pool as it is. The default pool binds the ids of the empty string and of \<open>"end"\<close>.\<close>

theorem intern_injective:
  assumes "hash_table_laws ops ent" "pool_inv ent hash_one pool"
  shows "(0 < a \<and> 0 < b \<and> resolve pool a = Some s \<and> resolve pool b = Some s \<longrightarrow> a = b) \<and>
    (0 < a \<and> resolve pool a = Some s \<longrightarrow> intern ops hash_one pool s = Some (pool, a)) \<and>
    (\<exists>p. default_pool ops hash_one = Some p \<and> pool_inv ent hash_one p \<and>
      resolve p EMPTY_STR_ID = Some '''' \<and> resolve p END_NAME_ID = Some ''end'')"
proof (intro conjI)
  obtain rest where h: "holds ent hash_one pool ('''' # ''end'' # rest)" using assms(2) by (auto simp: pool_inv_def)
  have d: "distinct ('''' # ''end'' # rest)" using h by (simp add: holds_def)
  have resolve_at: "x - 1 < length ('''' # ''end'' # rest) \<and> ('''' # ''end'' # rest) ! (x - 1) = t"
    if "resolve pool x = Some t" for x t
    using that by (simp only: resolve_holds [OF h] id_index_def option.inject option.distinct simp_thms split: if_splits)
  show "0 < a \<and> 0 < b \<and> resolve pool a = Some s \<and> resolve pool b = Some s \<longrightarrow> a = b"
    using nth_eq_iff_index_eq [OF d, of "a - 1" "b - 1"] resolve_at [of a] resolve_at [of b] by auto
  show "0 < a \<and> resolve pool a = Some s \<longrightarrow> intern ops hash_one pool s = Some (pool, a)"
    using intern_old [OF assms(1) h, of "a - 1"] resolve_at [of a] by auto
  show "\<exists>p. default_pool ops hash_one = Some p \<and> pool_inv ent hash_one p \<and>
      resolve p EMPTY_STR_ID = Some '''' \<and> resolve p END_NAME_ID = Some ''end''"
    using default_pool_correct [OF assms(1), of hash_one]
    by (auto simp: holds_default_inv resolve_holds EMPTY_STR_ID_def END_NAME_ID_def id_index_def)
qed

theorem intern_injective_witness:
  "\<exists>pool. default_pool list_table (\<lambda>_. 0) = Some pool \<and> intern list_table (\<lambda>_. 0) pool ''end'' = Some (pool, 2)"
proof -
  obtain pool where p: "default_pool list_table (\<lambda>_. 0) = Some pool" "holds set (\<lambda>_. 0) pool ['''', ''end'']"
    using default_pool_correct [OF list_table_laws] by blast
  have inv: "pool_inv set (\<lambda>_. 0) pool" by (rule holds_default_inv [OF p(2)])
  have "resolve pool 2 = Some ''end''" using resolve_holds [OF p(2)] by (simp add: id_index_def)
  then show ?thesis using p(1) intern_injective [OF list_table_laws inv, of 2 2 "''end''"] by simp
qed

end
