(* ===== verification/Rule_Pool.thy ===== *)
theory Rule_Pool
  imports Symbols Str_Pool
begin

text \<open>
  \<^verbatim>\<open>crates/generate/src/rules.rs\<close>: \<open>RulePool\<close>, the append-only arena of rule nodes the grammar passes
  walk and rewrite, with its builders and its read-only walks. A \<open>RuleId\<close> and a \<open>ParamsId\<close> are the
  numbers they wrap; an index out of range is \<^term>\<open>None\<close>. The walks with an explicit stack keep
  the top of the stack at the head of the list. The trees the pool represents are \<open>rtree\<close> values,
  related to node ids by \<open>rep\<close>.
\<close>

section \<open>The arena\<close>

type_synonym RuleId = nat
type_synonym ParamsId = nat

datatype RuleIdRange = RuleIdRange (r_start: nat) (r_len: nat)

datatype Rule =
    Blank
  | String StrId
  | Pattern StrId StrId
  | NamedSymbol StrId
  | Sym SymbolType nat
  | Seq RuleIdRange
  | Choice RuleIdRange
  | Repeat RuleId
  | Eof
  | Metadata ParamsId RuleId
  | Reserved RuleId StrId

record 't RulePool =
  nodes :: "Rule list"
  children :: "RuleId list"
  params_vec :: "MetadataParams list"
  str_pool :: "'t StrPool"
  scratch :: "RuleId list"

definition rule_of_symbol :: "Symbol \<Rightarrow> Rule" where
  "rule_of_symbol s = Sym (kind s) (index s)"

definition symbol :: "Rule \<Rightarrow> Symbol option" where
  "symbol r = (case r of Sym k i \<Rightarrow> Some (Symbol k i) | _ \<Rightarrow> None)"

definition node :: "'t RulePool \<Rightarrow> RuleId \<Rightarrow> Rule option" where
  "node P i = vec_get (nodes P) i"

definition node_count :: "'t RulePool \<Rightarrow> nat" where
  "node_count P = length (nodes P)"

definition set_node :: "'t RulePool \<Rightarrow> RuleId \<Rightarrow> Rule \<Rightarrow> 't RulePool option" where
  "set_node P i n = map_option (\<lambda>ns. P\<lparr>nodes := ns\<rparr>) (vec_set (nodes P) i n)"

definition push_node :: "'t RulePool \<Rightarrow> Rule \<Rightarrow> 't RulePool \<times> RuleId" where
  "push_node P n = (P\<lparr>nodes := nodes P @ [n]\<rparr>, as_u32 (length (nodes P)))"

definition child_slice :: "'t RulePool \<Rightarrow> RuleIdRange \<Rightarrow> RuleId list option" where
  "child_slice P r = vec_slice (children P) (r_start r) (r_start r + r_len r)"

definition push_children :: "'t RulePool \<Rightarrow> RuleId list \<Rightarrow> 't RulePool \<times> RuleIdRange" where
  "push_children P is =
     (P\<lparr>children := children P @ is\<rparr>, RuleIdRange (as_u32 (length (children P))) (as_u32 (length is)))"

definition params :: "'t RulePool \<Rightarrow> ParamsId \<Rightarrow> MetadataParams option" where
  "params P i = vec_get (params_vec P) i"

definition push_params :: "'t RulePool \<Rightarrow> MetadataParams \<Rightarrow> 't RulePool \<times> ParamsId" where
  "push_params P p = (P\<lparr>params_vec := params_vec P @ [p]\<rparr>, as_u32 (length (params_vec P)))"

definition set_params :: "'t RulePool \<Rightarrow> ParamsId \<Rightarrow> MetadataParams \<Rightarrow> 't RulePool option" where
  "set_params P i p = map_option (\<lambda>ps. P\<lparr>params_vec := ps\<rparr>) (vec_set (params_vec P) i p)"

section \<open>Builders\<close>

definition fresh_metadata :: "'t RulePool \<Rightarrow> RuleId \<Rightarrow> (MetadataParams \<Rightarrow> MetadataParams) \<Rightarrow> 't RulePool \<times> RuleId" where
  "fresh_metadata P content f =
     (let (P', pid) = push_params P (f default_params) in push_node P' (Metadata pid content))"

definition metadata_with :: "'t RulePool \<Rightarrow> RuleId \<Rightarrow> (MetadataParams \<Rightarrow> MetadataParams) \<Rightarrow> ('t RulePool \<times> RuleId) option" where
  "metadata_with P content f = do {
     n \<leftarrow> node P content;
     case n of
       Metadata pid _ \<Rightarrow> do {
         p \<leftarrow> params P pid;
         if \<not> is_token p then do {
           P' \<leftarrow> set_params P pid (f p);
           Some (P', content)
         } else Some (fresh_metadata P content f)
       }
     | _ \<Rightarrow> Some (fresh_metadata P content f)
   }"

definition blank :: "'t RulePool \<Rightarrow> 't RulePool \<times> RuleId" where
  "blank P = push_node P Blank"

definition string_rule :: "'t RulePool \<Rightarrow> StrId \<Rightarrow> 't RulePool \<times> RuleId" where
  "string_rule P s = push_node P (String s)"

definition pattern :: "'t RulePool \<Rightarrow> StrId \<Rightarrow> StrId \<Rightarrow> 't RulePool \<times> RuleId" where
  "pattern P s f = push_node P (Pattern s f)"

definition named_symbol :: "'t RulePool \<Rightarrow> StrId \<Rightarrow> 't RulePool \<times> RuleId" where
  "named_symbol P s = push_node P (NamedSymbol s)"

definition field_rule :: "'t RulePool \<Rightarrow> StrId \<Rightarrow> RuleId \<Rightarrow> ('t RulePool \<times> RuleId) option" where
  "field_rule P nm content = metadata_with P content (\<lambda>p. p\<lparr>p_field := Some nm\<rparr>)"

definition alias_rule :: "'t RulePool \<Rightarrow> RuleId \<Rightarrow> StrId \<Rightarrow> bool \<Rightarrow> ('t RulePool \<times> RuleId) option" where
  "alias_rule P content v is_named = metadata_with P content (\<lambda>p. p\<lparr>p_alias := Some (Alias v is_named)\<rparr>)"

definition token :: "'t RulePool \<Rightarrow> RuleId \<Rightarrow> ('t RulePool \<times> RuleId) option" where
  "token P content = metadata_with P content (\<lambda>p. p\<lparr>is_token := True\<rparr>)"

definition immediate_token :: "'t RulePool \<Rightarrow> RuleId \<Rightarrow> ('t RulePool \<times> RuleId) option" where
  "immediate_token P content = metadata_with P content (\<lambda>p. p\<lparr>is_token := True, is_main_token := True\<rparr>)"

definition prec :: "'t RulePool \<Rightarrow> Precedence \<Rightarrow> RuleId \<Rightarrow> ('t RulePool \<times> RuleId) option" where
  "prec P v content = metadata_with P content (\<lambda>p. p\<lparr>precedence := v\<rparr>)"

definition prec_left :: "'t RulePool \<Rightarrow> Precedence \<Rightarrow> RuleId \<Rightarrow> ('t RulePool \<times> RuleId) option" where
  "prec_left P v content = metadata_with P content (\<lambda>p. p\<lparr>associativity := Some Left, precedence := v\<rparr>)"

definition prec_right :: "'t RulePool \<Rightarrow> Precedence \<Rightarrow> RuleId \<Rightarrow> ('t RulePool \<times> RuleId) option" where
  "prec_right P v content = metadata_with P content (\<lambda>p. p\<lparr>associativity := Some Right, precedence := v\<rparr>)"

definition prec_dynamic :: "'t RulePool \<Rightarrow> int \<Rightarrow> RuleId \<Rightarrow> ('t RulePool \<times> RuleId) option" where
  "prec_dynamic P v content = metadata_with P content (\<lambda>p. p\<lparr>dynamic_precedence := v\<rparr>)"

definition repeat :: "'t RulePool \<Rightarrow> RuleId \<Rightarrow> 't RulePool \<times> RuleId" where
  "repeat P content = push_node P (Repeat content)"

definition eof_rule :: "'t RulePool \<Rightarrow> 't RulePool \<times> RuleId" where
  "eof_rule P = push_node P Eof"

definition seq :: "'t RulePool \<Rightarrow> RuleId list \<Rightarrow> 't RulePool \<times> RuleId" where
  "seq P is = (let (P', r) = push_children P is in push_node P' (Seq r))"

definition reserved :: "'t RulePool \<Rightarrow> RuleId \<Rightarrow> StrId \<Rightarrow> 't RulePool \<times> RuleId" where
  "reserved P content ctx = push_node P (Reserved content ctx)"

text \<open>\<open>try_seq\<close>: the slots for the children are reserved first; each element is built by \<open>f\<close>, which may
  append to the pool itself, and stored in its slot; the first error ends the loop.\<close>

fun try_seq_loop :: "('t RulePool \<Rightarrow> 'i \<Rightarrow> ('t RulePool \<times> ('e + RuleId)) option) \<Rightarrow> nat \<Rightarrow> nat \<Rightarrow> 'i list \<Rightarrow> 't RulePool \<Rightarrow>
    ('t RulePool \<times> ('e + unit)) option" where
  "try_seq_loop f start i [] P = Some (P, Inr ())"
| "try_seq_loop f start i (item # items) P = do {
     (P', res) \<leftarrow> f P item;
     case res of
       Inl e \<Rightarrow> Some (P', Inl e)
     | Inr rid \<Rightarrow> do {
         cs \<leftarrow> vec_set (children P') (start + i) rid;
         try_seq_loop f start (Suc i) items (P'\<lparr>children := cs\<rparr>)
       }
   }"

definition try_seq :: "('t RulePool \<Rightarrow> 'i \<Rightarrow> ('t RulePool \<times> ('e + RuleId)) option) \<Rightarrow> 'i list \<Rightarrow> 't RulePool \<Rightarrow>
    ('t RulePool \<times> ('e + RuleId)) option" where
  "try_seq f items P =
     (let len = length items; start = length (children P) in do {
        (P', res) \<leftarrow> try_seq_loop f start 0 items (P\<lparr>children := children P @ replicate len 0\<rparr>);
        case res of
          Inl e \<Rightarrow> Some (P', Inl e)
        | Inr _ \<Rightarrow> (let (P'', rid) = push_node P' (Seq (RuleIdRange (as_u32 start) (as_u32 len))) in Some (P'', Inr rid))
      })"

section \<open>Structural comparison and hashing\<close>

text \<open>One iteration of \<open>subtree_eq\<close>: \<^term>\<open>None\<close> inside the result is \<open>return false\<close>, otherwise the pairs
  pushed for later, the last pushed first.\<close>

definition eq_step :: "'t RulePool \<Rightarrow> RuleId \<Rightarrow> RuleId \<Rightarrow> (RuleId \<times> RuleId) list option option" where
  "eq_step P a b = do {
     na \<leftarrow> node P a;
     nb \<leftarrow> node P b;
     let compare_ranges = (\<lambda>r1 r2. if r_len r1 \<noteq> r_len r2 then Some None
       else do { c1 \<leftarrow> child_slice P r1; c2 \<leftarrow> child_slice P r2; Some (Some (rev (zip c1 c2))) });
     case (na, nb) of
       (Blank, Blank) \<Rightarrow> Some (Some [])
     | (Eof, Eof) \<Rightarrow> Some (Some [])
     | (String x, String y) \<Rightarrow> Some (if x \<noteq> y then None else Some [])
     | (NamedSymbol x, NamedSymbol y) \<Rightarrow> Some (if x \<noteq> y then None else Some [])
     | (Pattern p1 f1, Pattern p2 f2) \<Rightarrow> Some (if p1 \<noteq> p2 \<or> f1 \<noteq> f2 then None else Some [])
     | (Sym k1 i1, Sym k2 i2) \<Rightarrow> Some (if na \<noteq> nb then None else Some [])
     | (Seq r1, Seq r2) \<Rightarrow> compare_ranges r1 r2
     | (Choice r1, Choice r2) \<Rightarrow> compare_ranges r1 r2
     | (Repeat i1, Repeat i2) \<Rightarrow> Some (Some [(i1, i2)])
     | (Metadata p1 r1, Metadata p2 r2) \<Rightarrow> do {
         q1 \<leftarrow> params P p1; q2 \<leftarrow> params P p2;
         Some (if q1 \<noteq> q2 then None else Some [(r1, r2)]) }
     | (Reserved r1 c1, Reserved r2 c2) \<Rightarrow> Some (if c1 \<noteq> c2 then None else Some [(r1, r2)])
     | _ \<Rightarrow> Some None
   }"

partial_function (option) eq_loop :: "'t RulePool \<Rightarrow> (RuleId \<times> RuleId) list \<Rightarrow> bool option" where
  "eq_loop P stack = (case stack of
     [] \<Rightarrow> Some True
   | (a, b) # stack' \<Rightarrow> do {
       r \<leftarrow> eq_step P a b;
       case r of None \<Rightarrow> Some False | Some pushed \<Rightarrow> eq_loop P (pushed @ stack')
     })"

definition subtree_eq :: "'t RulePool \<Rightarrow> RuleId \<Rightarrow> RuleId \<Rightarrow> bool option" where
  "subtree_eq P a b = eq_loop P [(a, b)]"

text \<open>\<open>subtree_hash\<close>: the items written to the hasher, in order; the hasher itself (\<open>FxHasher\<close>) is the
  parameter \<open>finish\<close>, a function of the written items.\<close>

datatype hash_item =
    HDiscriminant nat
  | HStr StrId
  | HKind SymbolType
  | HU32 nat
  | HParams Precedence "Associativity option" int "(StrId \<times> bool) option" "StrId option" bool bool

fun discriminant :: "Rule \<Rightarrow> nat" where
  "discriminant Blank = 0"
| "discriminant (String _) = 1"
| "discriminant (Pattern _ _) = 2"
| "discriminant (NamedSymbol _) = 3"
| "discriminant (Sym _ _) = 4"
| "discriminant (Seq _) = 5"
| "discriminant (Choice _) = 6"
| "discriminant (Repeat _) = 7"
| "discriminant Eof = 8"
| "discriminant (Metadata _ _) = 9"
| "discriminant (Reserved _ _) = 10"

definition hash_params :: "MetadataParams \<Rightarrow> hash_item" where
  "hash_params p = HParams (precedence p) (associativity p) (dynamic_precedence p)
     (map_option (\<lambda>a. (alias_value a, alias_is_named a)) (p_alias p)) (p_field p) (is_token p) (is_main_token p)"

definition hash_step :: "'t RulePool \<Rightarrow> RuleId \<Rightarrow> (hash_item list \<times> RuleId list) option" where
  "hash_step P i = do {
     n \<leftarrow> node P i;
     let d = HDiscriminant (discriminant n);
     let range = (\<lambda>r. do { cs \<leftarrow> child_slice P r; Some ([d, HU32 (r_len r)], cs) });
     case n of
       Blank \<Rightarrow> Some ([d], [])
     | Eof \<Rightarrow> Some ([d], [])
     | String s \<Rightarrow> Some ([d, HStr s], [])
     | NamedSymbol s \<Rightarrow> Some ([d, HStr s], [])
     | Pattern p f \<Rightarrow> Some ([d, HStr p, HStr f], [])
     | Sym k ix \<Rightarrow> Some ([d, HKind k, HU32 ix], [])
     | Seq r \<Rightarrow> range r
     | Choice r \<Rightarrow> range r
     | Repeat inner \<Rightarrow> Some ([d], [inner])
     | Metadata pid r \<Rightarrow> do { p \<leftarrow> params P pid; Some ([d, hash_params p], [r]) }
     | Reserved r ctx \<Rightarrow> Some ([d, HStr ctx], [r])
   }"

partial_function (option) hash_loop :: "'t RulePool \<Rightarrow> hash_item list \<Rightarrow> RuleId list \<Rightarrow> hash_item list option" where
  "hash_loop P written stack = (case stack of
     [] \<Rightarrow> Some written
   | i # stack' \<Rightarrow> do {
       (items, pushed) \<leftarrow> hash_step P i;
       hash_loop P (written @ items) (pushed @ stack')
     })"

definition subtree_hash :: "(hash_item list \<Rightarrow> u64) \<Rightarrow> 't RulePool \<Rightarrow> RuleId \<Rightarrow> u64 option" where
  "subtree_hash finish P root = map_option finish (hash_loop P [] [root])"

section \<open>Flattening choices\<close>

fun any_eq :: "'t RulePool \<Rightarrow> RuleId list \<Rightarrow> RuleId \<Rightarrow> bool option" where
  "any_eq P [] i = Some False"
| "any_eq P (e # es) i = do { r \<leftarrow> subtree_eq P e i; if r then Some True else any_eq P es i }"

partial_function (option) choice_loop :: "nat \<Rightarrow> 't RulePool \<Rightarrow> RuleId list \<Rightarrow> 't RulePool option" where
  "choice_loop start P stack = (case stack of
     [] \<Rightarrow> Some P
   | i # stack' \<Rightarrow> do {
       n \<leftarrow> node P i;
       case n of
         Choice r \<Rightarrow> do { cs \<leftarrow> child_slice P r; choice_loop start P (cs @ stack') }
       | _ \<Rightarrow> do {
           dup \<leftarrow> any_eq P (drop start (children P)) i;
           choice_loop start (if dup then P else P\<lparr>children := children P @ [i]\<rparr>) stack' }
     })"

definition choice :: "'t RulePool \<Rightarrow> RuleId list \<Rightarrow> ('t RulePool \<times> RuleId) option" where
  "choice P is =
     (let start = length (children P) in do {
        P' \<leftarrow> choice_loop start (P\<lparr>scratch := []\<rparr>) (is @ scratch P);
        Some (push_node P' (Choice (RuleIdRange (as_u32 start) (as_u32 (length (children P') - start)))))
      })"

section \<open>Recursive walks\<close>

fun any_m :: "('a \<Rightarrow> bool option) \<Rightarrow> 'a list \<Rightarrow> bool option" where
  "any_m f [] = Some False"
| "any_m f (x # xs) = Option.bind (f x) (\<lambda>b. if b then Some True else any_m f xs)"

fun all_m :: "('a \<Rightarrow> bool option) \<Rightarrow> 'a list \<Rightarrow> bool option" where
  "all_m f [] = Some True"
| "all_m f (x # xs) = Option.bind (f x) (\<lambda>b. if b then all_m f xs else Some False)"

fun concat_m :: "('a \<Rightarrow> 'b list option) \<Rightarrow> 'a list \<Rightarrow> 'b list option" where
  "concat_m f [] = Some []"
| "concat_m f (x # xs) = Option.bind (f x) (\<lambda>ys. Option.bind (concat_m f xs) (\<lambda>zs. Some (ys @ zs)))"

lemma any_m_mono [partial_function_mono]:
  "(\<And>x. mono_option (\<lambda>f. B f x)) \<Longrightarrow> mono_option (\<lambda>f. any_m (B f) xs)"
  by (induction xs) (auto intro!: partial_function_mono)

lemma all_m_mono [partial_function_mono]:
  "(\<And>x. mono_option (\<lambda>f. B f x)) \<Longrightarrow> mono_option (\<lambda>f. all_m (B f) xs)"
  by (induction xs) (auto intro!: partial_function_mono)

lemma concat_m_mono [partial_function_mono]:
  "(\<And>x. mono_option (\<lambda>f. B f x)) \<Longrightarrow> mono_option (\<lambda>f. concat_m (B f) xs)"
  by (induction xs) (auto intro!: partial_function_mono)

partial_function (option) subtree_matches_empty_str :: "'t RulePool \<Rightarrow> RuleId \<Rightarrow> bool option" where
  "subtree_matches_empty_str P i = do {
     n \<leftarrow> node P i;
     case n of
       String sid \<Rightarrow> map_option (\<lambda>s. s = []) (resolve (str_pool P) sid)
     | Metadata _ r \<Rightarrow> subtree_matches_empty_str P r
     | Repeat r \<Rightarrow> subtree_matches_empty_str P r
     | Reserved r _ \<Rightarrow> subtree_matches_empty_str P r
     | Choice r \<Rightarrow> do { cs \<leftarrow> child_slice P r; any_m (subtree_matches_empty_str P) cs }
     | Seq r \<Rightarrow> do { cs \<leftarrow> child_slice P r; all_m (subtree_matches_empty_str P) cs }
     | _ \<Rightarrow> Some False
   }"

partial_function (option) rule_is_referenced :: "'t RulePool \<Rightarrow> RuleId \<Rightarrow> StrId \<Rightarrow> bool \<Rightarrow> bool option" where
  "rule_is_referenced P i target is_ext = do {
     n \<leftarrow> node P i;
     case n of
       NamedSymbol nm \<Rightarrow> Some (nm = target \<and> \<not> is_ext)
     | Choice r \<Rightarrow> do { cs \<leftarrow> child_slice P r; any_m (\<lambda>c. rule_is_referenced P c target False) cs }
     | Seq r \<Rightarrow> do { cs \<leftarrow> child_slice P r; any_m (\<lambda>c. rule_is_referenced P c target False) cs }
     | Metadata _ r \<Rightarrow> rule_is_referenced P r target is_ext
     | Reserved r _ \<Rightarrow> rule_is_referenced P r target is_ext
     | Repeat r \<Rightarrow> rule_is_referenced P r target False
     | _ \<Rightarrow> Some False
   }"

partial_function (option) referenced_ids :: "'t RulePool \<Rightarrow> RuleId \<Rightarrow> bool \<Rightarrow> StrId list option" where
  "referenced_ids P i skip_top_level = do {
     n \<leftarrow> node P i;
     case n of
       NamedSymbol nm \<Rightarrow> Some (if \<not> skip_top_level then [nm] else [])
     | Choice r \<Rightarrow> do { cs \<leftarrow> child_slice P r; concat_m (\<lambda>c. referenced_ids P c False) cs }
     | Seq r \<Rightarrow> do { cs \<leftarrow> child_slice P r; concat_m (\<lambda>c. referenced_ids P c False) cs }
     | Metadata _ r \<Rightarrow> referenced_ids P r skip_top_level
     | Reserved r _ \<Rightarrow> referenced_ids P r skip_top_level
     | Repeat r \<Rightarrow> referenced_ids P r False
     | _ \<Rightarrow> Some []
   }"

definition collect_referenced_ids :: "'t RulePool \<Rightarrow> RuleId \<Rightarrow> bool \<Rightarrow> StrId list \<Rightarrow> StrId list option" where
  "collect_referenced_ids P i skip_top_level out = map_option (\<lambda>ids. out @ ids) (referenced_ids P i skip_top_level)"


section \<open>The trees a pool represents\<close>

datatype rtree =
    TBlank
  | TString StrId
  | TPattern StrId StrId
  | TNamed StrId
  | TSym SymbolType nat
  | TSeq "rtree list"
  | TChoice "rtree list"
  | TRepeat rtree
  | TEof
  | TMeta MetadataParams rtree
  | TReserved rtree StrId

inductive rep :: "'t RulePool \<Rightarrow> RuleId \<Rightarrow> rtree \<Rightarrow> bool" for P where
  rep_Blank: "node P i = Some Blank \<Longrightarrow> rep P i TBlank"
| rep_String: "node P i = Some (String s) \<Longrightarrow> rep P i (TString s)"
| rep_Pattern: "node P i = Some (Pattern s f) \<Longrightarrow> rep P i (TPattern s f)"
| rep_Named: "node P i = Some (NamedSymbol s) \<Longrightarrow> rep P i (TNamed s)"
| rep_Sym: "node P i = Some (Sym k n) \<Longrightarrow> rep P i (TSym k n)"
| rep_Eof: "node P i = Some Eof \<Longrightarrow> rep P i TEof"
| rep_Seq: "node P i = Some (Seq r) \<Longrightarrow> child_slice P r = Some cs \<Longrightarrow> list_all2 (rep P) cs ts \<Longrightarrow> rep P i (TSeq ts)"
| rep_Choice: "node P i = Some (Choice r) \<Longrightarrow> child_slice P r = Some cs \<Longrightarrow> list_all2 (rep P) cs ts \<Longrightarrow> rep P i (TChoice ts)"
| rep_Repeat: "node P i = Some (Repeat c) \<Longrightarrow> rep P c t \<Longrightarrow> rep P i (TRepeat t)"
| rep_Meta: "node P i = Some (Metadata pid c) \<Longrightarrow> params P pid = Some p \<Longrightarrow> rep P c t \<Longrightarrow> rep P i (TMeta p t)"
| rep_Reserved: "node P i = Some (Reserved c ctx) \<Longrightarrow> rep P c t \<Longrightarrow> rep P i (TReserved t ctx)"

inductive_cases rep_cases:
  "rep P i TBlank" "rep P i (TString s)" "rep P i (TPattern s f)" "rep P i (TNamed s)" "rep P i (TSym k n)"
  "rep P i TEof" "rep P i (TSeq ts)" "rep P i (TChoice ts)" "rep P i (TRepeat t)" "rep P i (TMeta p t)"
  "rep P i (TReserved t c)"

lemma rep_node:
  "rep P i t \<Longrightarrow> \<exists>n. node P i = Some n \<and> (case n of
     Blank \<Rightarrow> t = TBlank
   | String s \<Rightarrow> t = TString s
   | Pattern s f \<Rightarrow> t = TPattern s f
   | NamedSymbol s \<Rightarrow> t = TNamed s
   | Sym k m \<Rightarrow> t = TSym k m
   | Eof \<Rightarrow> t = TEof
   | Seq r \<Rightarrow> \<exists>cs ts. child_slice P r = Some cs \<and> list_all2 (rep P) cs ts \<and> t = TSeq ts
   | Choice r \<Rightarrow> \<exists>cs ts. child_slice P r = Some cs \<and> list_all2 (rep P) cs ts \<and> t = TChoice ts
   | Repeat c \<Rightarrow> \<exists>u. rep P c u \<and> t = TRepeat u
   | Metadata pid c \<Rightarrow> \<exists>p u. params P pid = Some p \<and> rep P c u \<and> t = TMeta p u
   | Reserved c ctx \<Rightarrow> \<exists>u. rep P c u \<and> t = TReserved u ctx)"
  by (erule rep.cases) auto

text \<open>A pool that only grew represents the same trees.\<close>

definition grows :: "'t RulePool \<Rightarrow> 't RulePool \<Rightarrow> bool" where
  "grows P P' \<longleftrightarrow> (\<exists>ns cs ps. nodes P' = nodes P @ ns \<and> children P' = children P @ cs \<and> params_vec P' = params_vec P @ ps) \<and>
     str_pool P' = str_pool P"

lemma grows_refl [simp]: "grows P P"
  by (simp add: grows_def)

lemma grows_trans [trans]: "grows P Q \<Longrightarrow> grows Q R \<Longrightarrow> grows P R"
  by (auto simp: grows_def)

lemma vec_slice_append: "vec_slice xs a b = Some ys \<Longrightarrow> vec_slice (xs @ zs) a b = Some ys"
  by (auto simp: vec_slice_def split: if_splits)

lemma grows_node: "grows P P' \<Longrightarrow> node P i = Some n \<Longrightarrow> node P' i = Some n"
  by (auto simp: grows_def node_def nth_append)

lemma grows_params: "grows P P' \<Longrightarrow> params P i = Some p \<Longrightarrow> params P' i = Some p"
  by (auto simp: grows_def params_def nth_append)

lemma grows_child_slice: "grows P P' \<Longrightarrow> child_slice P r = Some cs \<Longrightarrow> child_slice P' r = Some cs"
  by (auto simp: grows_def child_slice_def vec_slice_append)

lemma rep_grows: "rep P i t \<Longrightarrow> grows P P' \<Longrightarrow> rep P' i t"
proof (induction rule: rep.induct)
  case (rep_Seq i r cs ts)
  then have "list_all2 (rep P') cs ts" by (auto elim: list_all2_mono)
  with rep_Seq show ?case by (blast intro: rep.rep_Seq grows_node grows_child_slice)
next
  case (rep_Choice i r cs ts)
  then have "list_all2 (rep P') cs ts" by (auto elim: list_all2_mono)
  with rep_Choice show ?case by (blast intro: rep.rep_Choice grows_node grows_child_slice)
qed (blast intro: rep.intros grows_node grows_params)+

lemma grows_push_node: "grows P (fst (push_node P n))"
  by (simp add: push_node_def grows_def)

lemma node_push_node: "length (nodes P) < 2 ^ 32 \<Longrightarrow> node (fst (push_node P n)) (snd (push_node P n)) = Some n"
  by (simp add: push_node_def node_def)

lemma child_slice_len: "child_slice P r = Some cs \<Longrightarrow> length cs = r_len r"
  by (auto simp: child_slice_def vec_slice_def split: if_splits)

lemma child_slice_rep_len: "child_slice P r = Some cs \<Longrightarrow> list_all2 (rep P) cs ts \<Longrightarrow> r_len r = length ts"
  using child_slice_len [of P r cs] by (simp add: list_all2_lengthD)

subsection \<open>Structural comparison\<close>

fun tsize :: "rtree \<Rightarrow> nat" where
  "tsize (TSeq ts) = Suc (sum_list (map tsize ts))"
| "tsize (TChoice ts) = Suc (sum_list (map tsize ts))"
| "tsize (TRepeat t) = Suc (tsize t)"
| "tsize (TMeta p t) = Suc (tsize t)"
| "tsize (TReserved t c) = Suc (tsize t)"
| "tsize _ = 1"

definition eq_spec :: "'t RulePool \<Rightarrow> (RuleId \<times> RuleId) \<Rightarrow> (rtree \<times> rtree) \<Rightarrow> bool" where
  "eq_spec P = (\<lambda>(a, b) (t, u). rep P a t \<and> rep P b u)"

lemma eq_spec_zip:
  "list_all2 (rep P) as ts \<Longrightarrow> list_all2 (rep P) bs us \<Longrightarrow> length as = length bs \<Longrightarrow>
     list_all2 (eq_spec P) (rev (zip as bs)) (rev (zip ts us))"
  unfolding list_all2_rev by (simp add: list_all2_conv_all_nth eq_spec_def)

lemma sum_list_zip: "length ts = length us \<Longrightarrow> (\<Sum>(t, u) \<leftarrow> zip ts us. tsize t) = sum_list (map tsize (ts :: rtree list))"
  by (induction ts us rule: list_induct2) auto

lemma zip_equal: "length ts = length us \<Longrightarrow> (\<forall>(t, u) \<in> set (zip ts us). t = u) \<longleftrightarrow> ts = us"
  by (induction ts us rule: list_induct2) auto

text \<open>One step decides the two roots and leaves the comparison of their children.\<close>

lemma eq_step_correct:
  assumes a: "rep P a t" and b: "rep P b u"
  shows "eq_step P a b = Some None \<and> t \<noteq> u \<or>
    (\<exists>pushed tus. eq_step P a b = Some (Some pushed) \<and> list_all2 (eq_spec P) pushed tus \<and>
       (\<Sum>(t, u) \<leftarrow> tus. tsize t) < tsize t \<and> ((\<forall>(t, u) \<in> set tus. t = u) \<longleftrightarrow> t = u))"
proof -
  obtain na where na: "node P a = Some na" using rep_node [OF a] by blast
  obtain nb where nb: "node P b = Some nb" using rep_node [OF b] by blast
  have lists: "r_len r1 \<noteq> r_len r2 \<and> ts \<noteq> us \<or> (\<exists>tus. r_len r1 = r_len r2 \<and> list_all2 (eq_spec P) (rev (zip c1 c2)) tus \<and>
      (\<Sum>(t, u) \<leftarrow> tus. tsize t) < Suc (sum_list (map tsize ts)) \<and> ((\<forall>(t, u) \<in> set tus. t = u) \<longleftrightarrow> ts = us))"
    if "child_slice P r1 = Some c1" "list_all2 (rep P) c1 ts" "child_slice P r2 = Some c2" "list_all2 (rep P) c2 us"
    for r1 r2 c1 c2 ts us
  proof (cases "r_len r1 = r_len r2")
    case True
    have len: "length c1 = length c2" "length ts = length us"
      using that True by (auto simp: child_slice_len list_all2_lengthD [symmetric] dest!: list_all2_lengthD)
    show ?thesis
      using True eq_spec_zip [OF that(2,4) len(1)] zip_equal [OF len(2)] sum_list_zip [OF len(2)]
      by (intro disjI2 exI [of _ "rev (zip ts us)"]) (simp add: rev_map [symmetric] sum_list_rev)
  next
    case False
    then show ?thesis using that by (auto dest!: list_all2_lengthD child_slice_len)
  qed
  have leaf: ?thesis if "eq_step P a b = Some (if t = u then Some [] else None)"
  proof (cases "t = u")
    case True
    have "tsize u > 0" by (cases u) simp_all
    then show ?thesis using that True by (intro disjI2 exI [of _ "[]"]) simp
  qed (use that in simp)
  have single: ?thesis if "eq_step P a b = Some (Some [(i, j)])" "rep P i v" "rep P j w" "tsize v < tsize t" "v = w \<longleftrightarrow> t = u"
    for i j v w
    using that by (intro disjI2 exI [of _ "[(i, j)]"] exI [of _ "[(v, w)]"]) (simp add: eq_spec_def)
  note shapes = rep_node [OF a] rep_node [OF b]
  show ?thesis
  proof (cases na)
    case (Seq r1)
    obtain c1 ts where t: "child_slice P r1 = Some c1" "list_all2 (rep P) c1 ts" "t = TSeq ts"
      using shapes(1) na Seq by auto
    show ?thesis
    proof (cases nb)
      case (Seq r2)
      obtain c2 us where u: "child_slice P r2 = Some c2" "list_all2 (rep P) c2 us" "u = TSeq us"
        using shapes(2) nb Seq by auto
      show ?thesis using lists [OF t(1,2) u(1,2)] na nb t u Seq \<open>na = Seq r1\<close> by (auto simp: eq_step_def Let_def)
    qed (use shapes na nb Seq t in \<open>auto simp: eq_step_def Let_def\<close>)
  next
    case (Choice r1)
    obtain c1 ts where t: "child_slice P r1 = Some c1" "list_all2 (rep P) c1 ts" "t = TChoice ts"
      using shapes(1) na Choice by auto
    show ?thesis
    proof (cases nb)
      case (Choice r2)
      obtain c2 us where u: "child_slice P r2 = Some c2" "list_all2 (rep P) c2 us" "u = TChoice us"
        using shapes(2) nb Choice by auto
      show ?thesis using lists [OF t(1,2) u(1,2)] na nb t u Choice \<open>na = Choice r1\<close> by (auto simp: eq_step_def Let_def)
    qed (use shapes na nb Choice t in \<open>auto simp: eq_step_def Let_def\<close>)
  next
    case (Repeat r1)
    obtain v where t: "rep P r1 v" "t = TRepeat v" using shapes(1) na Repeat by auto
    show ?thesis
    proof (cases nb)
      case (Repeat r2)
      obtain w where u: "rep P r2 w" "u = TRepeat w" using shapes(2) nb Repeat by auto
      show ?thesis by (rule single [OF _ t(1) u(1)]) (use na nb t u Repeat \<open>na = Repeat r1\<close> in \<open>simp_all add: eq_step_def\<close>)
    qed (use shapes na nb Repeat t in \<open>auto simp: eq_step_def Let_def\<close>)
  next
    case (Metadata p1 r1)
    obtain p v where t: "params P p1 = Some p" "rep P r1 v" "t = TMeta p v" using shapes(1) na Metadata by auto
    show ?thesis
    proof (cases nb)
      case (Metadata p2 r2)
      obtain q w where u: "params P p2 = Some q" "rep P r2 w" "u = TMeta q w" using shapes(2) nb Metadata by auto
      have step: "eq_step P a b = Some (if p \<noteq> q then None else Some [(r1, r2)])"
        using na nb t u Metadata \<open>na = Metadata p1 r1\<close> by (simp add: eq_step_def)
      show ?thesis
      proof (cases "p = q")
        case True
        show ?thesis by (rule single [OF _ t(2) u(2)]) (use True step t u in simp_all)
      qed (use step t u in simp)
    qed (use shapes na nb Metadata t in \<open>auto simp: eq_step_def Let_def\<close>)
  next
    case (Reserved r1 c1)
    obtain v where t: "rep P r1 v" "t = TReserved v c1" using shapes(1) na Reserved by auto
    show ?thesis
    proof (cases nb)
      case (Reserved r2 c2)
      obtain w where u: "rep P r2 w" "u = TReserved w c2" using shapes(2) nb Reserved by auto
      have step: "eq_step P a b = Some (if c1 \<noteq> c2 then None else Some [(r1, r2)])"
        using na nb t u Reserved \<open>na = Reserved r1 c1\<close> by (simp add: eq_step_def)
      show ?thesis
      proof (cases "c1 = c2")
        case True
        show ?thesis by (rule single [OF _ t(1) u(1)]) (use True step t u in simp_all)
      qed (use step t u in simp)
    qed (use shapes na nb Reserved t in \<open>auto simp: eq_step_def Let_def\<close>)
  qed (rule leaf, use shapes na nb in \<open>cases nb; auto simp: eq_step_def Let_def\<close>)+
qed

lemma eq_loop_correct:
  "list_all2 (eq_spec P) stack tus \<Longrightarrow> eq_loop P stack = Some (\<forall>(t, u) \<in> set tus. t = u)"
proof (induction "\<Sum>(t, u) \<leftarrow> tus. tsize t" arbitrary: stack tus rule: less_induct)
  case less
  show ?case
  proof (cases stack)
    case Nil
    then show ?thesis using less.prems by (subst eq_loop.simps) simp
  next
    case (Cons ab stack')
    obtain a b where ab: "ab = (a, b)" by (cases ab)
    obtain t u tus' where tu: "tus = (t, u) # tus'" "rep P a t" "rep P b u" "list_all2 (eq_spec P) stack' tus'"
      using less.prems Cons ab by (auto simp: list_all2_Cons1 eq_spec_def)
    from eq_step_correct [OF tu(2,3)] show ?thesis
    proof (elim disjE conjE exE)
      assume "eq_step P a b = Some None" "t \<noteq> u"
      then show ?thesis using Cons ab tu by (subst eq_loop.simps) simp
    next
      fix pushed vs
      assume p: "eq_step P a b = Some (Some pushed)" "list_all2 (eq_spec P) pushed vs"
        "(\<Sum>(t, u) \<leftarrow> vs. tsize t) < tsize t" "(\<forall>(t, u) \<in> set vs. t = u) \<longleftrightarrow> t = u"
      have "list_all2 (eq_spec P) (pushed @ stack') (vs @ tus')" by (rule list_all2_appendI [OF p(2) tu(4)])
      then have "eq_loop P (pushed @ stack') = Some (\<forall>(t, u) \<in> set (vs @ tus'). t = u)"
        by (rule less.hyps [rotated]) (use p(3) tu(1) in simp)
      then show ?thesis using Cons ab p(1) tu(1) unfolding set_append ball_Un p(4) by (subst eq_loop.simps) simp
    qed
  qed
qed

lemma subtree_eq_rep: "rep P a t \<Longrightarrow> rep P b u \<Longrightarrow> subtree_eq P a b = Some (t = u)"
  using eq_loop_correct [of P "[(a, b)]" "[(t, u)]"] by (simp add: subtree_eq_def eq_spec_def)

subsection \<open>Hashing\<close>

fun hash_items :: "rtree \<Rightarrow> hash_item list" where
  "hash_items TBlank = [HDiscriminant 0]"
| "hash_items TEof = [HDiscriminant 8]"
| "hash_items (TString s) = [HDiscriminant 1, HStr s]"
| "hash_items (TNamed s) = [HDiscriminant 3, HStr s]"
| "hash_items (TPattern p f) = [HDiscriminant 2, HStr p, HStr f]"
| "hash_items (TSym k i) = [HDiscriminant 4, HKind k, HU32 i]"
| "hash_items (TSeq ts) = [HDiscriminant 5, HU32 (length ts)] @ concat (map hash_items ts)"
| "hash_items (TChoice ts) = [HDiscriminant 6, HU32 (length ts)] @ concat (map hash_items ts)"
| "hash_items (TRepeat t) = HDiscriminant 7 # hash_items t"
| "hash_items (TMeta p t) = [HDiscriminant 9, hash_params p] @ hash_items t"
| "hash_items (TReserved t c) = [HDiscriminant 10, HStr c] @ hash_items t"

lemma hash_step_correct:
  assumes "rep P i t"
  shows "\<exists>items pushed ts. hash_step P i = Some (items, pushed) \<and> list_all2 (rep P) pushed ts \<and>
    hash_items t = items @ concat (map hash_items ts) \<and> sum_list (map tsize ts) < tsize t"
  using assms
proof (cases rule: rep.cases)
  case (rep_Seq r cs ts)
  then show ?thesis
    by (intro exI [of _ "[HDiscriminant 5, HU32 (r_len r)]"] exI [of _ cs] exI [of _ ts])
      (auto simp: hash_step_def Let_def child_slice_rep_len)
next
  case (rep_Choice r cs ts)
  then show ?thesis
    by (intro exI [of _ "[HDiscriminant 6, HU32 (r_len r)]"] exI [of _ cs] exI [of _ ts])
      (auto simp: hash_step_def Let_def child_slice_rep_len)
next
  case (rep_Repeat c u)
  then show ?thesis by (intro exI [of _ "[HDiscriminant 7]"] exI [of _ "[c]"] exI [of _ "[u]"]) (simp add: hash_step_def)
next
  case (rep_Meta pid c p u)
  then show ?thesis
    by (intro exI [of _ "[HDiscriminant 9, hash_params p]"] exI [of _ "[c]"] exI [of _ "[u]"]) (simp add: hash_step_def)
next
  case (rep_Reserved c ctx u)
  then show ?thesis
    by (intro exI [of _ "[HDiscriminant 10, HStr ctx]"] exI [of _ "[c]"] exI [of _ "[u]"]) (simp add: hash_step_def)
qed (auto simp: hash_step_def intro!: exI [of _ "[]"])

lemma hash_loop_correct:
  "list_all2 (rep P) stack ts \<Longrightarrow> hash_loop P written stack = Some (written @ concat (map hash_items ts))"
proof (induction "sum_list (map tsize ts)" arbitrary: written stack ts rule: less_induct)
  case less
  show ?case
  proof (cases stack)
    case Nil
    then show ?thesis using less.prems by (subst hash_loop.simps) simp
  next
    case (Cons i stack')
    obtain t ts' where t: "ts = t # ts'" "rep P i t" "list_all2 (rep P) stack' ts'"
      using less.prems Cons by (auto simp: list_all2_Cons1)
    obtain items pushed us where s: "hash_step P i = Some (items, pushed)" "list_all2 (rep P) pushed us"
        "hash_items t = items @ concat (map hash_items us)" "sum_list (map tsize us) < tsize t"
      using hash_step_correct [OF t(2)] by blast
    have "list_all2 (rep P) (pushed @ stack') (us @ ts')" by (rule list_all2_appendI [OF s(2) t(3)])
    then have "hash_loop P (written @ items) (pushed @ stack') = Some ((written @ items) @ concat (map hash_items (us @ ts')))"
      by (rule less.hyps [rotated]) (use s(4) t(1) in simp)
    then show ?thesis using Cons s(1,3) t(1) by (subst hash_loop.simps) simp
  qed
qed

lemma subtree_hash_rep: "rep P i t \<Longrightarrow> subtree_hash finish P i = Some (finish (hash_items t))"
  using hash_loop_correct [of P "[i]" "[t]" "[]"] by (simp add: subtree_hash_def)

subsection \<open>Flattening choices\<close>

fun flat :: "rtree \<Rightarrow> rtree list" where
  "flat (TChoice ts) = concat (map flat ts)"
| "flat t = [t]"

fun keep_first :: "'a list \<Rightarrow> 'a list \<Rightarrow> 'a list" where
  "keep_first acc [] = acc"
| "keep_first acc (x # xs) = keep_first (if x \<in> set acc then acc else acc @ [x]) xs"

lemma keep_first_set: "set (keep_first acc xs) = set acc \<union> set xs"
  by (induction acc xs rule: keep_first.induct) auto

lemma keep_first_distinct: "distinct acc \<Longrightarrow> distinct (keep_first acc xs)"
  by (induction acc xs rule: keep_first.induct) auto

lemma keep_first_length: "length (keep_first acc xs) \<le> length acc + length xs"
  by (induction acc xs rule: keep_first.induct) auto

lemma any_eq_rep:
  "list_all2 (rep P) es ts \<Longrightarrow> rep P i u \<Longrightarrow> any_eq P es i = Some (u \<in> set ts)"
  by (induction es ts rule: list_all2_induct) (auto simp: subtree_eq_rep)

abbreviation with_tail :: "'t RulePool \<Rightarrow> RuleId list \<Rightarrow> 't RulePool" where
  "with_tail P xs \<equiv> P\<lparr>children := children P @ xs\<rparr>"

lemma grows_with_tail: "grows P (with_tail P xs)"
  by (simp add: grows_def)

lemma rep_with_tail: "rep P i t \<Longrightarrow> rep (with_tail P xs) i t"
  by (rule rep_grows [OF _ grows_with_tail])

lemma rep_list_with_tail: "list_all2 (rep P) is ts \<Longrightarrow> list_all2 (rep (with_tail P xs)) is ts"
  by (erule list_all2_mono) (rule rep_with_tail)

lemma choice_loop_correct:
  "list_all2 (rep P) stack ts \<Longrightarrow> list_all2 (rep P) xs acc \<Longrightarrow>
     \<exists>ys. choice_loop (length (children P)) (with_tail P xs) stack = Some (with_tail P ys) \<and>
       list_all2 (rep P) ys (keep_first acc (concat (map flat ts)))"
proof (induction "sum_list (map tsize ts)" arbitrary: stack ts xs acc rule: less_induct)
  case less
  show ?case
  proof (cases stack)
    case Nil
    then show ?thesis using less.prems by (subst choice_loop.simps) auto
  next
    case (Cons i stack')
    obtain t ts' where t: "ts = t # ts'" "rep P i t" "list_all2 (rep P) stack' ts'"
      using less.prems Cons by (auto simp: list_all2_Cons1)
    let ?P = "with_tail P xs"
    obtain n where n: "node P i = Some n" using rep_node [OF t(2)] by blast
    have n': "node ?P i = Some n" using n by (simp add: node_def)
    show ?thesis
    proof (cases "\<exists>r. n = Choice r")
      case True
      then obtain r cs us where c: "n = Choice r" "child_slice P r = Some cs" "list_all2 (rep P) cs us" "t = TChoice us"
        using rep_node [OF t(2)] n by auto
      have cs: "child_slice ?P r = Some cs" by (rule grows_child_slice [OF grows_with_tail c(2)])
      have "list_all2 (rep P) (cs @ stack') (us @ ts')" by (rule list_all2_appendI [OF c(3) t(3)])
      from less.hyps [OF _ this less.prems(2)] obtain ys where
        "choice_loop (length (children P)) ?P (cs @ stack') = Some (with_tail P ys)"
        "list_all2 (rep P) ys (keep_first acc (concat (map flat (us @ ts'))))"
        using t(1) c(4) by auto
      then show ?thesis using Cons n' c cs t(1) by (subst choice_loop.simps) (intro exI [of _ ys], simp)
    next
      case False
      then have flat_t: "flat t = [t]" using rep_node [OF t(2)] n by (auto split: Rule.splits)
      have size: "sum_list (map tsize ts') < sum_list (map tsize ts)" using t(1) by (cases t) simp_all
      have dup: "any_eq ?P xs i = Some (t \<in> set acc)"
        by (rule any_eq_rep [OF rep_list_with_tail [OF less.prems(2)] rep_with_tail [OF t(2)]])
      define xs' where "xs' = (if t \<in> set acc then xs else xs @ [i])"
      have "list_all2 (rep P) xs' (if t \<in> set acc then acc else acc @ [t])"
        using less.prems(2) t(2) by (auto simp: xs'_def intro: list_all2_appendI)
      from less.hyps [OF size t(3) this] obtain ys where ys:
        "choice_loop (length (children P)) (with_tail P xs') stack' = Some (with_tail P ys)"
        "list_all2 (rep P) ys (keep_first (if t \<in> set acc then acc else acc @ [t]) (concat (map flat ts')))"
        by blast
      have "choice_loop (length (children P)) ?P stack = choice_loop (length (children P)) (with_tail P xs') stack'"
        using Cons n' False dup by (subst choice_loop.simps) (auto simp: xs'_def split: Rule.splits)
      then show ?thesis using ys t(1) flat_t by auto
    qed
  qed
qed

lemma choice_rep:
  assumes reps: "list_all2 (rep P) is ts" and scratch: "scratch P = []"
    and fits: "length (nodes P) < 2 ^ 32" "length (children P) + length (concat (map flat ts)) < 2 ^ 32"
  shows "\<exists>P' i. choice P is = Some (P', i) \<and> grows P P' \<and> rep P' i (TChoice (keep_first [] (concat (map flat ts))))"
proof -
  let ?ts = "keep_first [] (concat (map flat ts))"
  obtain ys where ys: "choice_loop (length (children P)) (with_tail P []) is = Some (with_tail P ys)" "list_all2 (rep P) ys ?ts"
    using choice_loop_correct [OF reps, of "[]" "[]"] by auto
  have same: "P\<lparr>scratch := []\<rparr> = P" using scratch by (cases P) simp
  have len: "length ys = length ?ts" by (rule list_all2_lengthD [OF ys(2)])
  have y32: "length (children P) + length ys < 2 ^ 32"
    using keep_first_length [of "[]" "concat (map flat ts)"] fits(2) len by simp
  let ?r = "RuleIdRange (length (children P)) (length ys)"
  let ?P' = "fst (push_node (with_tail P ys) (Choice ?r))" and ?i = "snd (push_node (with_tail P ys) (Choice ?r))"
  have g: "grows (with_tail P ys) ?P'" by (rule grows_push_node)
  have "choice P is = Some (?P', ?i)"
    unfolding choice_def Let_def scratch same using ys(1) y32 by simp
  moreover have "rep ?P' ?i (TChoice ?ts)"
  proof (rule rep_Choice)
    show "node ?P' ?i = Some (Choice ?r)" by (rule node_push_node) (use fits in simp)
    show "child_slice ?P' ?r = Some ys" by (rule grows_child_slice [OF g]) (simp add: child_slice_def vec_slice_def)
    show "list_all2 (rep ?P') ys ?ts"
      using ys(2) by (rule list_all2_mono) (rule rep_grows [OF rep_with_tail g])
  qed
  ultimately show ?thesis using grows_trans [OF grows_with_tail g] by blast
qed

subsection \<open>Builders\<close>

lemma push_node_rep:
  assumes "length (nodes P) < 2 ^ 32"
  shows "grows P (fst (push_node P n)) \<and> node (fst (push_node P n)) (snd (push_node P n)) = Some n"
  using grows_push_node node_push_node [OF assms] by blast

lemma seq_rep:
  assumes reps: "list_all2 (rep P) is ts" and fits: "length (nodes P) < 2 ^ 32" "length (children P) + length is < 2 ^ 32"
  shows "grows P (fst (seq P is)) \<and> rep (fst (seq P is)) (snd (seq P is)) (TSeq ts)"
proof -
  let ?r = "RuleIdRange (length (children P)) (length is)"
  let ?P' = "fst (push_node (with_tail P is) (Seq ?r))" and ?i = "snd (push_node (with_tail P is) (Seq ?r))"
  have eq: "seq P is = (?P', ?i)" using fits(2) by (simp add: seq_def push_children_def)
  have g: "grows (with_tail P is) ?P'" by (rule grows_push_node)
  have "rep ?P' ?i (TSeq ts)"
  proof (rule rep_Seq)
    show "node ?P' ?i = Some (Seq ?r)" by (rule node_push_node) (use fits in simp)
    show "child_slice ?P' ?r = Some is" by (rule grows_child_slice [OF g]) (simp add: child_slice_def vec_slice_def)
    show "list_all2 (rep ?P') is ts"
      using reps by (rule list_all2_mono) (rule rep_grows [OF rep_with_tail g])
  qed
  then show ?thesis using grows_trans [OF grows_with_tail g] by (simp add: eq)
qed

text \<open>The parameter records a subtree refers to: \<open>metadata_with\<close> overwrites one of them in place.\<close>

inductive uses_params :: "'t RulePool \<Rightarrow> ParamsId \<Rightarrow> RuleId \<Rightarrow> bool" for P pid where
  uses_here: "node P i = Some (Metadata pid c) \<Longrightarrow> uses_params P pid i"
| uses_Meta: "node P i = Some (Metadata p c) \<Longrightarrow> uses_params P pid c \<Longrightarrow> uses_params P pid i"
| uses_Repeat: "node P i = Some (Repeat c) \<Longrightarrow> uses_params P pid c \<Longrightarrow> uses_params P pid i"
| uses_Reserved: "node P i = Some (Reserved c ctx) \<Longrightarrow> uses_params P pid c \<Longrightarrow> uses_params P pid i"
| uses_Seq: "node P i = Some (Seq r) \<Longrightarrow> child_slice P r = Some cs \<Longrightarrow> c \<in> set cs \<Longrightarrow> uses_params P pid c \<Longrightarrow> uses_params P pid i"
| uses_Choice: "node P i = Some (Choice r) \<Longrightarrow> child_slice P r = Some cs \<Longrightarrow> c \<in> set cs \<Longrightarrow> uses_params P pid c \<Longrightarrow> uses_params P pid i"

lemma rep_other_params:
  "rep P i t \<Longrightarrow> \<not> uses_params P pid i \<Longrightarrow> rep (P\<lparr>params_vec := (params_vec P)[pid := q]\<rparr>) i t"
proof (induction rule: rep.induct)
  case (rep_Seq i r cs ts)
  have "list_all2 (rep (P\<lparr>params_vec := (params_vec P)[pid := q]\<rparr>)) cs ts"
    by (rule list.rel_mono_strong [OF rep_Seq(3)]) (use rep_Seq(1,2,4) in \<open>auto intro: uses_Seq\<close>)
  with rep_Seq(1,2) show ?case by (auto intro!: rep.rep_Seq simp: node_def child_slice_def)
next
  case (rep_Choice i r cs ts)
  have "list_all2 (rep (P\<lparr>params_vec := (params_vec P)[pid := q]\<rparr>)) cs ts"
    by (rule list.rel_mono_strong [OF rep_Choice(3)]) (use rep_Choice(1,2,4) in \<open>auto intro: uses_Choice\<close>)
  with rep_Choice(1,2) show ?case by (auto intro!: rep.rep_Choice simp: node_def child_slice_def)
next
  case (rep_Meta i p' c p t)
  then have "p' \<noteq> pid" "\<not> uses_params P pid c" by (auto intro: uses_here uses_Meta)
  with rep_Meta show ?case by (auto intro!: rep.rep_Meta simp: node_def params_def)
next
  case (rep_Repeat i c t)
  then have "\<not> uses_params P pid c" by (auto intro: uses_Repeat)
  with rep_Repeat show ?case by (auto intro!: rep.rep_Repeat simp: node_def)
next
  case (rep_Reserved i c ctx t)
  then have "\<not> uses_params P pid c" by (auto intro: uses_Reserved)
  with rep_Reserved show ?case by (auto intro!: rep.rep_Reserved simp: node_def)
qed (auto intro!: rep.intros simp: node_def)

definition meta_tree :: "(MetadataParams \<Rightarrow> MetadataParams) \<Rightarrow> rtree \<Rightarrow> rtree" where
  "meta_tree f t = (case t of
     TMeta p u \<Rightarrow> if is_token p then TMeta (f default_params) t else TMeta (f p) u
   | _ \<Rightarrow> TMeta (f default_params) t)"

lemma fresh_metadata_rep:
  assumes "rep P c t" "length (nodes P) < 2 ^ 32" "length (params_vec P) < 2 ^ 32"
  shows "grows P (fst (fresh_metadata P c f)) \<and> rep (fst (fresh_metadata P c f)) (snd (fresh_metadata P c f)) (TMeta (f default_params) t)"
proof -
  let ?Q = "P\<lparr>params_vec := params_vec P @ [f default_params]\<rparr>"
  let ?n = "Metadata (length (params_vec P)) c"
  have eq: "fresh_metadata P c f = push_node ?Q ?n" using assms(3) by (simp add: fresh_metadata_def push_params_def)
  have "grows P ?Q" by (simp add: grows_def)
  then have g: "grows P (fst (push_node ?Q ?n))" using grows_push_node grows_trans by blast
  have "rep (fst (push_node ?Q ?n)) (snd (push_node ?Q ?n)) (TMeta (f default_params) t)"
  proof (rule rep_Meta)
    show "node (fst (push_node ?Q ?n)) (snd (push_node ?Q ?n)) = Some ?n" by (rule node_push_node) (use assms in simp)
    show "params (fst (push_node ?Q ?n)) (length (params_vec P)) = Some (f default_params)"
      by (simp add: push_node_def params_def)
    show "rep (fst (push_node ?Q ?n)) c t" by (rule rep_grows [OF assms(1) g])
  qed
  with g show ?thesis by (simp add: eq)
qed

lemma metadata_with_rep:
  assumes t: "rep P c t" and fits: "length (nodes P) < 2 ^ 32" "length (params_vec P) < 2 ^ 32"
    and own: "\<And>pid u. node P c = Some (Metadata pid u) \<Longrightarrow> \<not> uses_params P pid u"
  shows "\<exists>P' i. metadata_with P c f = Some (P', i) \<and> rep P' i (meta_tree f t)"
proof (cases "\<exists>p u. t = TMeta p u \<and> \<not> is_token p")
  case True
  then obtain p u where p: "t = TMeta p u" "\<not> is_token p" by blast
  from t [unfolded p] obtain pid d where n: "node P c = Some (Metadata pid d)" "params P pid = Some p" "rep P d u"
    by (auto elim: rep_cases)
  let ?P = "P\<lparr>params_vec := (params_vec P)[pid := f p]\<rparr>"
  have "rep ?P d u" using rep_other_params [OF n(3) own [OF n(1)]] .
  then have "rep ?P c (TMeta (f p) u)"
    using n by (auto intro!: rep_Meta [of _ _ pid d] simp: node_def params_def)
  moreover have "metadata_with P c f = Some (?P, c)"
    using n p by (simp add: metadata_with_def set_params_def vec_set_def) (simp add: params_def)
  ultimately show ?thesis using p by (simp add: meta_tree_def)
next
  case False
  then have m: "meta_tree f t = TMeta (f default_params) t" by (auto simp: meta_tree_def split: rtree.splits)
  have "metadata_with P c f = Some (fresh_metadata P c f)"
    using t False by (cases rule: rep.cases) (auto simp: metadata_with_def)
  then show ?thesis using fresh_metadata_rep [OF t fits] m by (metis prod.collapse)
qed

subsection \<open>Recursive walks\<close>

fun t_matches_empty :: "(StrId \<Rightarrow> string option) \<Rightarrow> rtree \<Rightarrow> bool" where
  "t_matches_empty r (TString s) = (r s = Some [])"
| "t_matches_empty r (TMeta p t) = t_matches_empty r t"
| "t_matches_empty r (TRepeat t) = t_matches_empty r t"
| "t_matches_empty r (TReserved t c) = t_matches_empty r t"
| "t_matches_empty r (TChoice ts) = list_ex (t_matches_empty r) ts"
| "t_matches_empty r (TSeq ts) = list_all (t_matches_empty r) ts"
| "t_matches_empty r _ = False"

fun t_strings :: "rtree \<Rightarrow> StrId set" where
  "t_strings (TString s) = {s}"
| "t_strings (TMeta p t) = t_strings t"
| "t_strings (TRepeat t) = t_strings t"
| "t_strings (TReserved t c) = t_strings t"
| "t_strings (TChoice ts) = \<Union> (set (map t_strings ts))"
| "t_strings (TSeq ts) = \<Union> (set (map t_strings ts))"
| "t_strings _ = {}"

fun t_names :: "rtree \<Rightarrow> bool \<Rightarrow> StrId list" where
  "t_names (TNamed s) skip = (if skip then [] else [s])"
| "t_names (TMeta p t) skip = t_names t skip"
| "t_names (TRepeat t) skip = t_names t False"
| "t_names (TReserved t c) skip = t_names t skip"
| "t_names (TChoice ts) skip = concat (map (\<lambda>t. t_names t False) ts)"
| "t_names (TSeq ts) skip = concat (map (\<lambda>t. t_names t False) ts)"
| "t_names _ skip = []"

lemma any_m_rel: "list_all2 (\<lambda>x t. f x = Some (g t)) xs ts \<Longrightarrow> any_m f xs = Some (list_ex g ts)"
  by (induction rule: list_all2_induct) auto

lemma all_m_rel: "list_all2 (\<lambda>x t. f x = Some (g t)) xs ts \<Longrightarrow> all_m f xs = Some (list_all g ts)"
  by (induction rule: list_all2_induct) auto

lemma concat_m_rel: "list_all2 (\<lambda>x t. f x = Some (g t)) xs ts \<Longrightarrow> concat_m f xs = Some (concat (map g ts))"
  by (induction rule: list_all2_induct) auto

lemma matches_empty_rep:
  assumes "rep P i t" "\<forall>s \<in> t_strings t. resolve (str_pool P) s \<noteq> None"
  shows "subtree_matches_empty_str P i = Some (t_matches_empty (resolve (str_pool P)) t)"
  using assms
proof (induction rule: rep.induct)
  case (rep_Seq i r cs ts)
  have "list_all2 (\<lambda>c t. subtree_matches_empty_str P c = Some (t_matches_empty (resolve (str_pool P)) t)) cs ts"
    by (rule list.rel_mono_strong [OF rep_Seq(3)]) (use rep_Seq(4) in auto)
  with rep_Seq(1,2) show ?case by (subst subtree_matches_empty_str.simps) (simp add: all_m_rel)
next
  case (rep_Choice i r cs ts)
  have "list_all2 (\<lambda>c t. subtree_matches_empty_str P c = Some (t_matches_empty (resolve (str_pool P)) t)) cs ts"
    by (rule list.rel_mono_strong [OF rep_Choice(3)]) (use rep_Choice(4) in auto)
  with rep_Choice(1,2) show ?case by (subst subtree_matches_empty_str.simps) (simp add: any_m_rel)
qed (subst subtree_matches_empty_str.simps; auto)+

lemma referenced_rep: "rep P i t \<Longrightarrow> referenced_ids P i skip = Some (t_names t skip)"
proof (induction arbitrary: skip rule: rep.induct)
  case (rep_Seq i r cs ts)
  have "list_all2 (\<lambda>c t. referenced_ids P c False = Some (t_names t False)) cs ts"
    by (rule list.rel_mono_strong [OF rep_Seq(3)]) auto
  with rep_Seq(1,2) show ?case by (subst referenced_ids.simps) (simp add: concat_m_rel)
next
  case (rep_Choice i r cs ts)
  have "list_all2 (\<lambda>c t. referenced_ids P c False = Some (t_names t False)) cs ts"
    by (rule list.rel_mono_strong [OF rep_Choice(3)]) auto
  with rep_Choice(1,2) show ?case by (subst referenced_ids.simps) (simp add: concat_m_rel)
qed (subst referenced_ids.simps; simp)+

lemma is_referenced_rep: "rep P i t \<Longrightarrow> rule_is_referenced P i target skip = Some (target \<in> set (t_names t skip))"
proof (induction arbitrary: skip rule: rep.induct)
  case (rep_Seq i r cs ts)
  have "list_all2 (\<lambda>c t. rule_is_referenced P c target False = Some (target \<in> set (t_names t False))) cs ts"
    by (rule list.rel_mono_strong [OF rep_Seq(3)]) auto
  with rep_Seq(1,2) show ?case by (subst rule_is_referenced.simps) (simp add: any_m_rel list_ex_iff)
next
  case (rep_Choice i r cs ts)
  have "list_all2 (\<lambda>c t. rule_is_referenced P c target False = Some (target \<in> set (t_names t False))) cs ts"
    by (rule list.rel_mono_strong [OF rep_Choice(3)]) auto
  with rep_Choice(1,2) show ?case by (subst rule_is_referenced.simps) (simp add: any_m_rel list_ex_iff)
qed (subst rule_is_referenced.simps; auto)+


section \<open>Properties\<close>

text \<open>C22. \<open>subtree_eq\<close> terminates on well-formed subtrees and decides equality of the trees they stand for,
  wherever their nodes and children lie in the arena, and \<open>subtree_hash\<close> depends on the tree only,
  so that equal subtrees hash equally for every hasher.\<close>

theorem subtree_eq_hash_correct:
  assumes "rep P a t" "rep P b u"
  shows "subtree_eq P a b = Some (t = u) \<and>
    (\<exists>h. subtree_hash finish P a = Some h \<and> (t = u \<longrightarrow> subtree_hash finish P b = Some h))"
  using subtree_eq_rep [OF assms] subtree_hash_rep [OF assms(1)] subtree_hash_rep [OF assms(2)] by auto

definition sample_pool :: "unit RulePool" where
  "sample_pool = \<lparr>nodes = [String 1, NamedSymbol 2, String 1, Choice (RuleIdRange 0 2)],
     children = [0, 1], params_vec = [], str_pool = \<lparr>buf = [], spans = [\<lparr>span_start = 0, span_end = 0\<rparr>], ids = ()\<rparr>, scratch = []\<rparr>"

lemma sample_rep:
  "rep sample_pool 0 (TString 1)" "rep sample_pool 2 (TString 1)" "rep sample_pool 1 (TNamed 2)"
  "rep sample_pool 3 (TChoice [TString 1, TNamed 2])"
proof -
  show r: "rep sample_pool 0 (TString 1)" "rep sample_pool 1 (TNamed 2)"
    by (auto intro!: rep_String rep_Named simp: node_def sample_pool_def vec_get_def)
  show "rep sample_pool 2 (TString 1)"
    by (auto intro!: rep_String simp: node_def sample_pool_def vec_get_def)
  show "rep sample_pool 3 (TChoice [TString 1, TNamed 2])"
    by (rule rep_Choice [of _ _ "RuleIdRange 0 2" "[0, 1]"])
      (use r in \<open>simp_all add: node_def child_slice_def sample_pool_def vec_get_def vec_slice_def\<close>)
qed

theorem subtree_eq_hash_correct_witness:
  "subtree_eq sample_pool 0 2 = Some True \<and> subtree_eq sample_pool 0 3 = Some False"
  using subtree_eq_hash_correct [OF sample_rep(1,2)] subtree_eq_hash_correct [OF sample_rep(1,4)] by simp

text \<open>C18. \<open>choice\<close> appends a choice node whose alternatives are the given rules with nested choices
  flattened in order and structural duplicates dropped after their first occurrence; it only appends
  to the arena, so every rule built before keeps its meaning.\<close>

theorem choice_flattens:
  assumes "list_all2 (rep P) is ts" "scratch P = []" "length (nodes P) < 2 ^ 32"
    "length (children P) + length (concat (map flat ts)) < 2 ^ 32"
  shows "\<exists>P' i alts. choice P is = Some (P', i) \<and> grows P P' \<and> rep P' i (TChoice alts) \<and>
    alts = keep_first [] (concat (map flat ts)) \<and> distinct alts \<and> set alts = set (concat (map flat ts)) \<and>
    (\<forall>j t. rep P j t \<longrightarrow> rep P' j t)"
proof -
  obtain P' i where c: "choice P is = Some (P', i)" "grows P P'" "rep P' i (TChoice (keep_first [] (concat (map flat ts))))"
    using choice_rep [OF assms] by blast
  have "\<forall>j t. rep P j t \<longrightarrow> rep P' j t" using c(2) rep_grows by blast
  with c show ?thesis
    using keep_first_set [of "[]" "concat (map flat ts)"] keep_first_distinct [of "[]" "concat (map flat ts)"] by auto
qed

theorem choice_flattens_witness:
  "\<exists>P' i alts. choice sample_pool [3, 2] = Some (P', i) \<and> rep P' i (TChoice alts) \<and> alts = [TString 1, TNamed 2]"
proof -
  have "list_all2 (rep sample_pool) [3, 2] [TChoice [TString 1, TNamed 2], TString 1]" using sample_rep by simp
  from choice_flattens [OF this] show ?thesis by (auto simp: sample_pool_def)
qed

text \<open>The two walks over named symbols agree: \<open>rule_is_referenced\<close> holds exactly for the names that
  \<open>collect_referenced_ids\<close> appends, which are the names occurring in the tree, left to right, leaving
  out a name that is the whole rule when the flag for external tokens is set.\<close>

theorem references_correct:
  assumes "rep P i t"
  shows "collect_referenced_ids P i skip out = Some (out @ t_names t skip) \<and>
    rule_is_referenced P i target skip = Some (target \<in> set (t_names t skip))"
  using referenced_rep [OF assms] is_referenced_rep [OF assms] by (simp add: collect_referenced_ids_def)

theorem references_correct_witness:
  "collect_referenced_ids sample_pool 3 True [] = Some [2] \<and> rule_is_referenced sample_pool 1 2 True = Some False"
  using references_correct [OF sample_rep(4), of True "[]" 2] references_correct [OF sample_rep(3), of True "[]" 2] by simp

text \<open>The metadata builders (fields, aliases, tokens, precedences) yield a node for the content wrapped in
  the updated parameters: an existing metadata node that is not a token is updated in place, any
  other content gets a new node, so token boundaries are never merged. The in-place update needs
  that the node's own parameters do not occur inside it, which holds because ids are fresh.\<close>

theorem metadata_builders_correct:
  assumes "rep P c t" "length (nodes P) < 2 ^ 32" "length (params_vec P) < 2 ^ 32"
    "\<And>pid u. node P c = Some (Metadata pid u) \<Longrightarrow> \<not> uses_params P pid u"
  shows "(\<exists>P' i. field_rule P nm c = Some (P', i) \<and> rep P' i (meta_tree (\<lambda>p. p\<lparr>p_field := Some nm\<rparr>) t)) \<and>
    (\<exists>P' i. alias_rule P c v named = Some (P', i) \<and> rep P' i (meta_tree (\<lambda>p. p\<lparr>p_alias := Some (Alias v named)\<rparr>) t)) \<and>
    (\<exists>P' i. token P c = Some (P', i) \<and> rep P' i (meta_tree (\<lambda>p. p\<lparr>is_token := True\<rparr>) t)) \<and>
    (\<exists>P' i. immediate_token P c = Some (P', i) \<and> rep P' i (meta_tree (\<lambda>p. p\<lparr>is_token := True, is_main_token := True\<rparr>) t)) \<and>
    (\<exists>P' i. prec_left P pr c = Some (P', i) \<and> rep P' i (meta_tree (\<lambda>p. p\<lparr>associativity := Some Left, precedence := pr\<rparr>) t))"
  unfolding field_rule_def alias_rule_def token_def immediate_token_def prec_left_def
  by (intro conjI; rule metadata_with_rep [OF assms])

theorem metadata_builders_correct_witness:
  "\<exists>P' i. token sample_pool 0 = Some (P', i) \<and> rep P' i (TMeta (default_params\<lparr>is_token := True\<rparr>) (TString 1))"
proof -
  have "length (nodes sample_pool) < 2 ^ 32" "length (params_vec sample_pool) < 2 ^ 32"
    "\<And>pid u. node sample_pool 0 = Some (Metadata pid u) \<Longrightarrow> \<not> uses_params sample_pool pid u"
    by (simp_all add: sample_pool_def node_def)
  from metadata_builders_correct [OF sample_rep(1) this] show ?thesis by (simp add: meta_tree_def)
qed

text \<open>\<open>subtree_matches_empty_str\<close> terminates on well-formed subtrees and computes, by recursion on the
  tree, whether it is built from empty strings only (some alternative of each choice, every element
  of each sequence), provided the string ids in it belong to the pool.\<close>

theorem matches_empty_correct:
  assumes "rep P i t" "\<forall>s \<in> t_strings t. resolve (str_pool P) s \<noteq> None"
  shows "subtree_matches_empty_str P i = Some (t_matches_empty (resolve (str_pool P)) t)"
  by (rule matches_empty_rep [OF assms])

theorem matches_empty_correct_witness: "subtree_matches_empty_str sample_pool 3 = Some True"
  using matches_empty_correct [OF sample_rep(4)]
  by (simp add: sample_pool_def resolve_def span_str_def id_index_def vec_get_def vec_slice_def)

end
