(* ===== verification/Nfa_Cursor.thy ===== *)
theory Nfa_Cursor
  imports Char_Set
begin

text \<open>
  \<^verbatim>\<open>crates/generate/src/nfa.rs\<close>: \<open>Nfa\<close> and \<open>NfaCursor\<close>, the set-of-states view of the lexical NFA that the
  lexer table is built from. \<open>add_states\<close> follows the split states, \<open>transitions\<close> groups the raw
  transitions of the current states into transitions over disjoint character sets. State ids are
  numbers; an id out of range is \<^term>\<open>None\<close>.
\<close>

section \<open>Operations\<close>

datatype NfaState =
    Advance CharacterSet nat bool int
  | Split nat nat
  | Accept nat int

record Nfa =
  nfa_states :: "NfaState list"

record NfaTransition =
  characters :: CharacterSet
  is_separator :: bool
  t_precedence :: int
  t_states :: "nat list"

record NfaCursor =
  state_ids :: "nat list"
  nfa :: Nfa

definition new_nfa :: Nfa where
  "new_nfa = \<lparr>nfa_states = []\<rparr>"

definition last_state_id :: "Nfa \<Rightarrow> nat option" where
  "last_state_id m = (if nfa_states m = [] then None else Some (as_u32 (length (nfa_states m)) - 1))"

text \<open>\<open>add_states\<close>: the work list \<open>new_state_ids\<close> grows while it is scanned.\<close>

definition add_states_step :: "NfaState list \<Rightarrow> nat list \<Rightarrow> nat list \<Rightarrow> nat \<Rightarrow> (nat list \<times> nat list) option" where
  "add_states_step sts ids new_ids i = do {
     st \<leftarrow> vec_get sts (new_ids ! i);
     case st of
       Split left right \<Rightarrow>
         Some (ids, new_ids @ (if left \<in> set new_ids then [] else [left]) @ (if right \<in> set new_ids then [] else [right]))
     | _ \<Rightarrow> Some (insert_sorted (new_ids ! i) ids, new_ids)
   }"

partial_function (option) add_states_loop :: "NfaState list \<Rightarrow> nat list \<Rightarrow> nat list \<Rightarrow> nat \<Rightarrow> (nat list \<times> nat list) option" where
  "add_states_loop sts ids new_ids i =
     (if i < length new_ids then
        Option.bind (add_states_step sts ids new_ids i) (\<lambda>(ids', new_ids'). add_states_loop sts ids' new_ids' (Suc i))
      else Some (ids, new_ids))"

definition add_states :: "NfaCursor \<Rightarrow> nat list \<Rightarrow> (NfaCursor \<times> nat list) option" where
  "add_states cur new_ids =
     map_option (\<lambda>(ids, new_ids'). (cur\<lparr>state_ids := ids\<rparr>, new_ids')) (add_states_loop (nfa_states (nfa cur)) (state_ids cur) new_ids 0)"

definition new_cursor :: "Nfa \<Rightarrow> nat list \<Rightarrow> NfaCursor option" where
  "new_cursor m sts = map_option fst (add_states \<lparr>state_ids = [], nfa = m\<rparr> sts)"

definition reset :: "NfaCursor \<Rightarrow> nat list \<Rightarrow> NfaCursor option" where
  "reset cur sts = map_option fst (add_states (cur\<lparr>state_ids := []\<rparr>) sts)"

definition force_reset :: "NfaCursor \<Rightarrow> nat list \<Rightarrow> NfaCursor" where
  "force_reset cur sts = cur\<lparr>state_ids := sts\<rparr>"

type_synonym raw = "CharacterSet \<times> bool \<times> int \<times> nat"

fun raw_of :: "NfaState list \<Rightarrow> nat list \<Rightarrow> raw list option" where
  "raw_of sts [] = Some []"
| "raw_of sts (i # is) = do {
     st \<leftarrow> vec_get sts i;
     rest \<leftarrow> raw_of sts is;
     Some (case st of Advance cs sid sep pr \<Rightarrow> (cs, sep, pr, sid) # rest | _ \<Rightarrow> rest)
   }"

definition raw_transitions :: "NfaCursor \<Rightarrow> raw list option" where
  "raw_transitions cur = raw_of (nfa_states (nfa cur)) (state_ids cur)"

definition transition_chars :: "NfaCursor \<Rightarrow> (CharacterSet \<times> bool) list option" where
  "transition_chars cur = map_option (map (\<lambda>(cs, sep, _, _). (cs, sep))) (raw_transitions cur)"

text \<open>\<open>group_transitions\<close>: one iteration of the inner loop, for the raw transition \<open>(cset, is_sep, prec, state)\<close>
  against the entry at index \<open>i\<close>.\<close>

definition group_step :: "NfaTransition list \<Rightarrow> CharacterSet \<Rightarrow> bool \<Rightarrow> int \<Rightarrow> nat \<Rightarrow> nat \<Rightarrow> NfaTransition list \<times> CharacterSet" where
  "group_step result cset is_sep pr state i =
     (let e = result ! i;
          (left, cset', intersection) = remove_intersection (characters e) cset;
          result' = result[i := e\<lparr>characters := left\<rparr>] in
      if \<not> is_empty intersection then
        (let intersection_transition =
               \<lparr>characters = intersection, is_separator = is_separator e \<and> is_sep,
                t_precedence = max (t_precedence e) pr, t_states = insert_sorted state (t_states e)\<rparr> in
         if is_empty left then (result[i := intersection_transition], cset')
         else (result' @ [intersection_transition], cset'))
      else (result', cset'))"

partial_function (option) group_inner ::
  "NfaTransition list \<Rightarrow> CharacterSet \<Rightarrow> bool \<Rightarrow> int \<Rightarrow> nat \<Rightarrow> nat \<Rightarrow> (NfaTransition list \<times> CharacterSet) option" where
  "group_inner result cset is_sep pr state i =
     (if i < length result \<and> \<not> is_empty cset then
        (let rc = group_step result cset is_sep pr state i in group_inner (fst rc) (snd rc) is_sep pr state (Suc i))
      else Some (result, cset))"

fun group_raw :: "raw list \<Rightarrow> NfaTransition list \<Rightarrow> NfaTransition list option" where
  "group_raw [] result = Some result"
| "group_raw ((input_chars, is_sep, pr, state) # raws) result = do {
     (result', cset) \<leftarrow> group_inner result (assign empty input_chars) is_sep pr state 0;
     group_raw raws (if is_empty cset then result'
       else result' @ [\<lparr>characters = cset, is_separator = is_sep, t_precedence = pr, t_states = [state]\<rparr>])
   }"

definition same_target :: "NfaTransition \<Rightarrow> NfaTransition \<Rightarrow> bool" where
  "same_target a b \<longleftrightarrow> t_states a = t_states b \<and> is_separator a = is_separator b \<and> t_precedence a = t_precedence b"

definition swap_remove :: "nat \<Rightarrow> 'a list \<Rightarrow> 'a list" where
  "swap_remove i xs = (butlast xs)[i := last xs]"

function merge_loop :: "NfaTransition list \<Rightarrow> nat \<Rightarrow> NfaTransition list" where
  "merge_loop result i =
     (if i < length result then
        (case find (\<lambda>j. same_target (result ! j) (result ! i)) [0..<i] of
           Some j \<Rightarrow>
             merge_loop (swap_remove i
               (result[j := (result ! j)\<lparr>characters := add (characters (result ! j)) (characters (result ! i))\<rparr>])) i
         | None \<Rightarrow> merge_loop result (Suc i))
      else result)"
  by pat_completeness auto
termination
  by (relation "measure (\<lambda>(result, i). length result - i)") (auto simp: swap_remove_def)

declare merge_loop.simps [simp del]

definition group_transitions :: "raw list \<Rightarrow> NfaTransition list option" where
  "group_transitions raws = do {
     result \<leftarrow> group_raw raws [];
     Some (sort_by_cmp (\<lambda>a b. cmp (characters a) (characters b)) (merge_loop result 0))
   }"

definition transitions :: "NfaCursor \<Rightarrow> NfaTransition list option" where
  "transitions cur = Option.bind (raw_transitions cur) group_transitions"

definition transitions_and_any_sep :: "NfaCursor \<Rightarrow> (NfaTransition list \<times> bool) option" where
  "transitions_and_any_sep cur = do {
     raws \<leftarrow> raw_transitions cur;
     result \<leftarrow> group_transitions raws;
     Some (result, list_ex (\<lambda>(_, sep, _, _). sep) raws)
   }"

fun completions_of :: "NfaState list \<Rightarrow> nat list \<Rightarrow> (nat \<times> int) list option" where
  "completions_of sts [] = Some []"
| "completions_of sts (i # is) = do {
     st \<leftarrow> vec_get sts i;
     rest \<leftarrow> completions_of sts is;
     Some (case st of Accept v pr \<Rightarrow> (v, pr) # rest | _ \<Rightarrow> rest)
   }"

definition completions :: "NfaCursor \<Rightarrow> (nat \<times> int) list option" where
  "completions cur = completions_of (nfa_states (nfa cur)) (state_ids cur)"


section \<open>Following the split states\<close>

definition eps :: "NfaState list \<Rightarrow> (nat \<times> nat) set" where
  "eps sts = {(a, b). \<exists>l r. a < length sts \<and> sts ! a = Split l r \<and> (b = l \<or> b = r)}"

definition is_split :: "NfaState list \<Rightarrow> nat \<Rightarrow> bool" where
  "is_split sts s \<longleftrightarrow> (\<exists>l r. sts ! s = Split l r)"

text \<open>Every target of a split lies in the automaton.\<close>

definition splits_ok :: "NfaState list \<Rightarrow> bool" where
  "splits_ok sts \<longleftrightarrow> (\<forall>(a, b) \<in> eps sts. b < length sts)"

definition closure :: "NfaState list \<Rightarrow> nat set \<Rightarrow> nat set" where
  "closure sts A = (eps sts)\<^sup>* `` A"

lemma closure_step: "s \<in> closure sts A \<Longrightarrow> (s, t) \<in> eps sts \<Longrightarrow> t \<in> closure sts A"
  by (auto simp: closure_def Image_iff intro: rtrancl_into_rtrancl)

lemma closure_subset: "A \<subseteq> closure sts A"
  by (auto simp: closure_def)

lemma closure_least:
  assumes "A \<subseteq> B" "\<And>s t. s \<in> B \<Longrightarrow> (s, t) \<in> eps sts \<Longrightarrow> t \<in> B"
  shows "closure sts A \<subseteq> B"
proof -
  have "t \<in> B" if "(s, t) \<in> (eps sts)\<^sup>*" "s \<in> B" for s t using that by induction (use assms in auto)
  then show ?thesis using assms(1) by (auto simp: closure_def)
qed

definition unseen :: "NfaState list \<Rightarrow> nat list \<Rightarrow> nat" where
  "unseen sts ids = card ({..<length sts} - set ids)"

lemma unseen_less: "x < length sts \<Longrightarrow> x \<notin> set ids \<Longrightarrow> set ids \<subseteq> set ids' \<Longrightarrow> x \<in> set ids' \<Longrightarrow> unseen sts ids' < unseen sts ids"
  unfolding unseen_def by (rule psubset_card_mono) auto

lemma unseen_two:
  assumes "x < length sts" "y < length sts" "x \<noteq> y" "x \<notin> set ids" "y \<notin> set ids"
  shows "Suc (unseen sts (ids @ [x, y])) < unseen sts ids"
proof -
  have "unseen sts (ids @ [x]) < unseen sts ids" using assms by (intro unseen_less [of x]) auto
  moreover have "unseen sts (ids @ [x, y]) < unseen sts (ids @ [x])" using assms by (intro unseen_less [of y]) auto
  ultimately show ?thesis by simp
qed

lemma add_states_step_correct:
  assumes ok: "splits_ok sts" and bound: "set new_ids \<subseteq> {..<length sts}" and i: "i < length new_ids" and so: "sorted_wrt (<) ids"
  shows "\<exists>ids' added. add_states_step sts ids new_ids i = Some (ids', new_ids @ added) \<and>
    sorted_wrt (<) ids' \<and> set ids' = set ids \<union> {s. s = new_ids ! i \<and> \<not> is_split sts s} \<and>
    set added \<subseteq> eps sts `` {new_ids ! i} \<and> eps sts `` {new_ids ! i} \<subseteq> set (new_ids @ added) \<and>
    set (new_ids @ added) \<subseteq> {..<length sts} \<and>
    3 * unseen sts (new_ids @ added) + (length (new_ids @ added) - Suc i) < 3 * unseen sts new_ids + (length new_ids - i)"
proof -
  let ?s = "new_ids ! i"
  have s: "?s < length sts" using i bound nth_mem by blast
  show ?thesis
  proof (cases "is_split sts ?s")
    case True
    then obtain l r where lr: "sts ! ?s = Split l r" by (auto simp: is_split_def)
    then have e: "eps sts `` {?s} = {l, r}" using s by (auto simp: eps_def)
    have b: "l < length sts" "r < length sts" using ok s lr by (auto simp: splits_ok_def eps_def)
    define added where "added = (if l \<in> set new_ids then [] else [l]) @ (if r \<in> set new_ids then [] else [r])"
    have step: "add_states_step sts ids new_ids i = Some (ids, new_ids @ added)"
      using s lr by (simp add: add_states_step_def vec_get_def added_def)
    have dec: "3 * unseen sts (new_ids @ added) + (length (new_ids @ added) - Suc i) < 3 * unseen sts new_ids + (length new_ids - i)"
    proof (cases "added = []")
      case True
      then show ?thesis using i by simp
    next
      case False
      have "length added = 1 \<or> l = r \<or> (added = [l, r] \<and> l \<noteq> r \<and> l \<notin> set new_ids \<and> r \<notin> set new_ids)"
        using False by (auto simp: added_def split: if_splits)
      moreover have "unseen sts (new_ids @ added) < unseen sts new_ids"
        using False b by (intro unseen_less [of "hd added"]) (auto simp: added_def split: if_splits)
      moreover have "added = [l, r] \<Longrightarrow> l \<noteq> r \<Longrightarrow> l \<notin> set new_ids \<Longrightarrow> r \<notin> set new_ids \<Longrightarrow> Suc (unseen sts (new_ids @ added)) < unseen sts new_ids"
        using unseen_two [OF b] by simp
      moreover have "length added \<le> 2" by (auto simp: added_def)
      ultimately show ?thesis using i by auto
    qed
    show ?thesis
      by (intro exI [of _ ids] exI [of _ added] conjI step so dec)
        (use True e b bound in \<open>auto simp: added_def split: if_splits\<close>)
  next
    case False
    then have none: "eps sts `` {?s} = {}" by (auto simp: eps_def is_split_def)
    have step: "add_states_step sts ids new_ids i = Some (insert_sorted ?s ids, new_ids @ [])"
      using s False by (auto simp: add_states_step_def vec_get_def is_split_def split: NfaState.splits)
    show ?thesis
      by (intro exI [of _ "insert_sorted ?s ids"] exI [of _ "[]"] conjI step)
        (use False none bound i insert_sorted_correct [OF so] in auto)
  qed
qed

lemma add_states_loop_correct:
  assumes ok: "splits_ok sts"
  shows "set new_ids \<subseteq> {..<length sts} \<Longrightarrow> i \<le> length new_ids \<Longrightarrow> sorted_wrt (<) ids \<Longrightarrow>
    set ids = A \<union> {s \<in> set (take i new_ids). \<not> is_split sts s} \<Longrightarrow>
    (\<forall>s \<in> set (take i new_ids). eps sts `` {s} \<subseteq> set new_ids) \<Longrightarrow>
    \<exists>ids'. (\<exists>new'. add_states_loop sts ids new_ids i = Some (ids', new')) \<and> sorted_wrt (<) ids' \<and>
      set ids' = A \<union> {s \<in> closure sts (set new_ids). \<not> is_split sts s}"
proof (induction "3 * unseen sts new_ids + (length new_ids - i)" arbitrary: ids new_ids i rule: less_induct)
  case less
  show ?case
  proof (cases "i < length new_ids")
    case False
    then have all: "take i new_ids = new_ids" by simp
    have "closure sts (set new_ids) = set new_ids"
    proof (rule antisym [OF closure_least closure_subset])
      show "t \<in> set new_ids" if "s \<in> set new_ids" "(s, t) \<in> eps sts" for s t
        using that less.prems(5) unfolding all by blast
    qed simp
    then show ?thesis using False less.prems all by (subst add_states_loop.simps) auto
  next
    case True
    let ?s = "new_ids ! i"
    obtain ids' added where st: "add_states_step sts ids new_ids i = Some (ids', new_ids @ added)"
      "sorted_wrt (<) ids'" "set ids' = set ids \<union> {s. s = ?s \<and> \<not> is_split sts s}"
      "set added \<subseteq> eps sts `` {?s}" "eps sts `` {?s} \<subseteq> set (new_ids @ added)"
      "set (new_ids @ added) \<subseteq> {..<length sts}"
      "3 * unseen sts (new_ids @ added) + (length (new_ids @ added) - Suc i) < 3 * unseen sts new_ids + (length new_ids - i)"
      using add_states_step_correct [OF ok less.prems(1) True less.prems(3)] by blast
    have take: "set (take (Suc i) (new_ids @ added)) = insert ?s (set (take i new_ids))"
      using True by (simp add: take_Suc_conv_app_nth)
    have "\<exists>ids''. (\<exists>new'. add_states_loop sts ids' (new_ids @ added) (Suc i) = Some (ids'', new')) \<and> sorted_wrt (<) ids'' \<and>
      set ids'' = A \<union> {s \<in> closure sts (set (new_ids @ added)). \<not> is_split sts s}"
    proof (rule less.hyps [OF st(7) st(6)])
      show "Suc i \<le> length (new_ids @ added)" using True by simp
      show "set ids' = A \<union> {s \<in> set (take (Suc i) (new_ids @ added)). \<not> is_split sts s}"
        unfolding take st(3) less.prems(4) by auto
      show "\<forall>s \<in> set (take (Suc i) (new_ids @ added)). eps sts `` {s} \<subseteq> set (new_ids @ added)"
        unfolding take using st(5) less.prems(5) by auto
    qed (rule st(2))
    moreover have "closure sts (set (new_ids @ added)) = closure sts (set new_ids)"
    proof (rule antisym)
      have "set added \<subseteq> closure sts (set new_ids)"
        using st(4) closure_step [of ?s sts "set new_ids"] subsetD [OF closure_subset nth_mem [OF True], of sts] by blast
      then show "closure sts (set (new_ids @ added)) \<subseteq> closure sts (set new_ids)"
        using closure_subset [of "set new_ids" sts] by (intro closure_least) (auto intro: closure_step)
      show "closure sts (set new_ids) \<subseteq> closure sts (set (new_ids @ added))"
        using closure_subset [of "set (new_ids @ added)" sts] by (intro closure_least) (auto intro: closure_step)
    qed
    ultimately show ?thesis using True st(1) by (subst add_states_loop.simps) auto
  qed
qed

lemma add_states_correct:
  assumes "splits_ok (nfa_states (nfa cur))" "set new_ids \<subseteq> {..<length (nfa_states (nfa cur))}" "sorted_wrt (<) (state_ids cur)"
  shows "\<exists>ids new'. add_states cur new_ids = Some (cur\<lparr>state_ids := ids\<rparr>, new') \<and> sorted_wrt (<) ids \<and>
    set ids = set (state_ids cur) \<union> {s \<in> closure (nfa_states (nfa cur)) (set new_ids). \<not> is_split (nfa_states (nfa cur)) s}"
  using add_states_loop_correct [OF assms(1,2), of 0 "state_ids cur" "set (state_ids cur)"] assms(3)
  by (auto simp: add_states_def)


section \<open>Grouping transitions\<close>

text \<open>
  What a group of raw transitions says about one character \<open>c\<close>: the states reached, whether all of
  them are separators, and the largest precedence.
\<close>

definition on :: "raw list \<Rightarrow> nat \<Rightarrow> raw list" where
  "on raws c = filter (\<lambda>(cs, _, _, _). c \<in> chars_of cs) raws"

definition merged :: "raw list \<Rightarrow> nat \<Rightarrow> NfaTransition \<Rightarrow> bool" where
  "merged raws c e \<longleftrightarrow>
     on raws c \<noteq> [] \<and>
     t_states e = sorted_list_of_set ((\<lambda>(_, _, _, s). s) ` set (on raws c)) \<and>
     is_separator e = (\<forall>(_, sep, _, _) \<in> set (on raws c). sep) \<and>
     t_precedence e = Max ((\<lambda>(_, _, p, _). p) ` set (on raws c))"

lemma on_snoc: "on (raws @ [r]) c = on raws c @ (if c \<in> chars_of (fst r) then [r] else [])"
  by (cases r) (simp add: on_def)

lemma on_Nil [simp]: "on [] c = []"
  by (simp add: on_def)

lemma merged_skip: "c \<notin> chars_of cs \<Longrightarrow> merged (raws @ [(cs, sep, p, s)]) c e = merged raws c e"
  by (simp add: merged_def on_snoc)

lemma merged_first:
  "c \<in> chars_of cs \<Longrightarrow> on raws c = [] \<Longrightarrow>
     merged (raws @ [(cs, sep, p, s)]) c \<lparr>characters = x, is_separator = sep, t_precedence = p, t_states = [s]\<rparr>"
  by (simp add: merged_def on_snoc)

lemma merged_characters [simp]: "merged raws c (e\<lparr>characters := x\<rparr>) = merged raws c e"
  by (simp add: merged_def)

lemma merged_target: "same_target e e' \<Longrightarrow> merged raws c e = merged raws c e'"
  by (simp add: merged_def same_target_def)

lemma sorted_list_insert:
  "finite A \<Longrightarrow> insert_sorted s (sorted_list_of_set A) = sorted_list_of_set (insert s A)"
  using insert_sorted_correct [of "sorted_list_of_set A" s] by (intro strict_sorted_equal) (simp_all del: sorted_list_of_set_insert_remove)

lemma merged_more:
  assumes "c \<in> chars_of cs" "merged raws c e"
  shows "merged (raws @ [(cs, sep, p, s)]) c
    \<lparr>characters = x, is_separator = is_separator e \<and> sep, t_precedence = max (t_precedence e) p, t_states = insert_sorted s (t_states e)\<rparr>"
proof -
  have ne: "(\<lambda>(_, _, p, _). p) ` set (on raws c) \<noteq> {}" "finite ((\<lambda>(_, _, p, _). p) ` set (on raws c))"
    using assms(2) by (auto simp: merged_def)
  show ?thesis using assms ne
    by (auto simp: merged_def on_snoc sorted_list_insert Max_insert max.commute)
qed

definition disjoint_entries :: "NfaTransition list \<Rightarrow> bool" where
  "disjoint_entries es \<longleftrightarrow> (\<forall>i < length es. \<forall>j < length es. i \<noteq> j \<longrightarrow> chars_of (characters (es ! i)) \<inter> chars_of (characters (es ! j)) = {})"

definition all_chars :: "NfaTransition list \<Rightarrow> nat set" where
  "all_chars es = (\<Union>e \<in> set es. chars_of (characters e))"

definition entries_ok :: "NfaTransition list \<Rightarrow> bool" where
  "entries_ok es \<longleftrightarrow> disjoint_entries es \<and> (\<forall>e \<in> set es. canon (characters e) \<and> characters e \<noteq> [])"

definition grouped :: "raw list \<Rightarrow> NfaTransition list \<Rightarrow> bool" where
  "grouped raws es \<longleftrightarrow> entries_ok es \<and> all_chars es = (\<Union>(cs, _) \<in> set raws. chars_of cs) \<and>
     (\<forall>e \<in> set es. \<forall>c \<in> chars_of (characters e). merged raws c e)"

text \<open>The state of the inner loop at index \<open>i\<close>: \<open>cs\<close> is the raw transition's character set, \<open>C\<close> what is left of it.\<close>

definition inner_inv :: "raw list \<Rightarrow> raw \<Rightarrow> NfaTransition list \<Rightarrow> CharacterSet \<Rightarrow> nat \<Rightarrow> bool" where
  "inner_inv raws r es C i \<longleftrightarrow>
     entries_ok es \<and> canon C \<and> chars_of C \<subseteq> chars_of (fst r) \<and>
     all_chars es = (\<Union>(cs, _) \<in> set raws. chars_of cs) \<and>
     (\<forall>j < i. j < length es \<longrightarrow> chars_of (characters (es ! j)) \<inter> chars_of C = {}) \<and>
     (\<forall>c \<in> chars_of (fst r) - chars_of C. c \<in> all_chars es) \<and>
     (\<forall>e \<in> set es. \<forall>c \<in> chars_of (characters e). merged (if c \<in> chars_of (fst r) - chars_of C then raws @ [r] else raws) c e)"

lemma all_chars_nth: "all_chars es = {x. \<exists>j < length es. x \<in> chars_of (characters (es ! j))}"
  by (auto simp: all_chars_def set_conv_nth)

lemma chars_empty_iff: "canon cs \<Longrightarrow> chars_of cs = {} \<longleftrightarrow> cs = []"
  unfolding canon_def by (rule chars_of_empty_iff)

lemma is_empty_iff: "is_empty cs \<longleftrightarrow> cs = []"
  by (cases cs) (simp_all add: is_empty_def)

lemma disjoint_entries_update:
  assumes "disjoint_entries es" "i < length es" "chars_of (characters e) \<subseteq> chars_of (characters (es ! i))"
  shows "disjoint_entries (es[i := e])"
  using assms unfolding disjoint_entries_def by (auto simp: nth_list_update)

lemma disjoint_entries_snoc:
  "disjoint_entries (es @ [e]) \<longleftrightarrow> disjoint_entries es \<and> all_chars es \<inter> chars_of (characters e) = {}"
proof
  assume d: "disjoint_entries (es @ [e])"
  have "chars_of (characters (es ! i)) \<inter> chars_of (characters e) = {}" if "i < length es" for i
    using d that unfolding disjoint_entries_def by (metis less_SucI length_append_singleton lessI nat_neq_iff nth_append nth_append_length)
  moreover have "disjoint_entries es"
    using d unfolding disjoint_entries_def by (metis less_SucI length_append_singleton nth_append)
  ultimately show "disjoint_entries es \<and> all_chars es \<inter> chars_of (characters e) = {}"
    unfolding all_chars_nth by blast
next
  assume d: "disjoint_entries es \<and> all_chars es \<inter> chars_of (characters e) = {}"
  then have "chars_of (characters (es ! i)) \<inter> chars_of (characters e) = {}" if "i < length es" for i
    using that unfolding all_chars_nth by blast
  with d show "disjoint_entries (es @ [e])"
    unfolding disjoint_entries_def by (auto simp: nth_append less_Suc_eq Int_commute)
qed

lemma all_chars_update:
  assumes "disjoint_entries es" "i < length es"
  shows "all_chars (es[i := e]) = (all_chars es - chars_of (characters (es ! i))) \<union> chars_of (characters e)"
proof (rule set_eqI)
  fix x
  have "x \<in> all_chars (es[i := e]) \<longleftrightarrow> (\<exists>j < length es. j \<noteq> i \<and> x \<in> chars_of (characters (es ! j))) \<or> x \<in> chars_of (characters e)"
    unfolding all_chars_nth using assms(2) by (auto simp: nth_list_update)
  also have "\<dots> \<longleftrightarrow> x \<in> (all_chars es - chars_of (characters (es ! i))) \<union> chars_of (characters e)"
    using assms unfolding all_chars_nth disjoint_entries_def by blast
  finally show "x \<in> all_chars (es[i := e]) \<longleftrightarrow> x \<in> (all_chars es - chars_of (characters (es ! i))) \<union> chars_of (characters e)" .
qed

lemma all_chars_snoc [simp]: "all_chars (es @ [e]) = all_chars es \<union> chars_of (characters e)"
  by (auto simp: all_chars_def)


lemma inner_invI:
  "disjoint_entries es \<Longrightarrow> \<forall>e \<in> set es. canon (characters e) \<and> characters e \<noteq> [] \<Longrightarrow> canon C \<Longrightarrow>
   chars_of C \<subseteq> chars_of (fst r) \<Longrightarrow> all_chars es = (\<Union>(cs, _) \<in> set raws. chars_of cs) \<Longrightarrow>
   \<forall>j < i. j < length es \<longrightarrow> chars_of (characters (es ! j)) \<inter> chars_of C = {} \<Longrightarrow>
   \<forall>c \<in> chars_of (fst r) - chars_of C. c \<in> all_chars es \<Longrightarrow>
   \<forall>e \<in> set es. \<forall>c \<in> chars_of (characters e). merged (if c \<in> chars_of (fst r) - chars_of C then raws @ [r] else raws) c e \<Longrightarrow>
   inner_inv raws r es C i"
  unfolding inner_inv_def entries_ok_def by (intro conjI)

lemma set_update_nth: "e \<in> set (es[i := x]) \<Longrightarrow> e = x \<or> (\<exists>j < length es. j \<noteq> i \<and> e = es ! j)"
  by (metis in_set_conv_nth length_list_update nth_list_update_eq nth_list_update_neq)

lemma inner_other:
  assumes inv: "inner_inv raws r es C i" and i: "i < length es" and j: "j < length es" "j \<noteq> i"
    and C': "chars_of C' = chars_of C - chars_of (characters (es ! i))" and c: "c \<in> chars_of (characters (es ! j))"
  shows "merged (if c \<in> chars_of (fst r) - chars_of C' then raws @ [r] else raws) c (es ! j)"
proof -
  have "chars_of (characters (es ! i)) \<inter> chars_of (characters (es ! j)) = {}"
    using inv i j by (auto simp: inner_inv_def entries_ok_def disjoint_entries_def)
  then have "c \<in> chars_of C' \<longleftrightarrow> c \<in> chars_of C" using C' c by blast
  then show ?thesis using inv c nth_mem [OF j(1)] by (simp add: inner_inv_def)
qed

lemma group_step_inv:
  assumes inv: "inner_inv raws (cs, sep, p, s) es C i" and i: "i < length es" and C: "C \<noteq> []"
    and step: "group_step es C sep p s i = (es', C')"
  shows "inner_inv raws (cs, sep, p, s) es' C' (Suc i) \<and>
    card (chars_of C') + (length es' - Suc i) < card (chars_of C) + (length es - i)"
proof -
  let ?r = "(cs, sep, p, s)"
  let ?e = "es ! i"
  let ?A = "characters ?e"
  obtain L C2 I where ri: "remove_intersection ?A C = (L, C2, I)" by (metis prod_cases3)
  have ok: "disjoint_entries es" "\<forall>e \<in> set es. canon (characters e) \<and> characters e \<noteq> []" "canon C"
    and sub: "chars_of C \<subseteq> chars_of cs"
    and all: "all_chars es = (\<Union>(cs, _) \<in> set raws. chars_of cs)"
    and low: "\<forall>j < i. j < length es \<longrightarrow> chars_of (characters (es ! j)) \<inter> chars_of C = {}"
    and gone: "\<forall>c \<in> chars_of cs - chars_of C. c \<in> all_chars es"
    and mg: "\<forall>e \<in> set es. \<forall>c \<in> chars_of (characters e). merged (if c \<in> chars_of cs - chars_of C then raws @ [?r] else raws) c e"
    using inv unfolding inner_inv_def entries_ok_def fst_conv by - (elim conjE, assumption)+
  have e: "?e \<in> set es" "canon ?A" using ok(2) nth_mem [OF i] by auto
  note sp = remove_intersection_spec [OF e(2) ok(3) ri]
  have canons: "canon L" "canon C2" "canon I" and
    sets: "chars_of L = chars_of ?A - chars_of C" "chars_of C2 = chars_of C - chars_of ?A" "chars_of I = chars_of ?A \<inter> chars_of C"
    using sp by auto
  have low': "chars_of (characters (es ! j)) \<inter> chars_of C2 = {}" if "j < i" for j
    using low that i sets by auto
  have allA: "chars_of ?A \<subseteq> all_chars es" using i unfolding all_chars_nth by blast
  have gone': "\<forall>c \<in> chars_of cs - chars_of C2. c \<in> all_chars es" using gone allA sets by auto
  have card: "finite (chars_of C)" by simp
  show ?thesis
  proof (cases "I = []")
    case True
    then have d: "chars_of ?A \<inter> chars_of C = {}" using sets(3) by simp
    have "L = ?A" using canon_unique_from [of 0 L 0 ?A] canons(1) e(2) sets(1) d by (auto simp: canon_def)
    moreover have C2: "C2 = C" using canon_unique_from [of 0 C2 0 C] canons(2) ok(3) sets(2) d by (auto simp: canon_def)
    ultimately have es': "es' = es" "C' = C" using step ri True by (auto simp: group_step_def Let_def is_empty_iff)
    have low2: "\<forall>j < Suc i. j < length es \<longrightarrow> chars_of (characters (es ! j)) \<inter> chars_of C = {}"
      using low d by (auto simp: less_Suc_eq)
    have "inner_inv raws ?r es C (Suc i)"
      by (rule inner_invI [OF ok(1,2,3) _ all low2]) (use sub gone mg in simp_all)
    then show ?thesis using i es' by simp
  next
    case False
    define nt where "nt = \<lparr>characters = I, is_separator = is_separator ?e \<and> sep, t_precedence = max (t_precedence ?e) p,
      t_states = insert_sorted s (t_states ?e)\<rparr>"
    have I: "chars_of I \<noteq> {}" using False chars_empty_iff [OF canons(3)] by simp
    have "chars_of C2 \<subset> chars_of C" using I sets by auto
    then have less: "card (chars_of C2) < card (chars_of C)" by (rule psubset_card_mono [OF card])
    have mnt: "merged (if c \<in> chars_of cs - chars_of C2 then raws @ [?r] else raws) c nt" if "c \<in> chars_of I" for c
    proof -
      have c: "c \<in> chars_of ?A" "c \<in> chars_of C" "c \<in> chars_of cs" "c \<notin> chars_of C2" using that sets sub by auto
      then have "merged raws c ?e" using bspec [OF bspec [OF mg e(1)] c(1)] by simp
      then show ?thesis using merged_more [of c cs raws ?e sep p s I] c by (simp add: nt_def)
    qed
    have mL: "merged (if c \<in> chars_of cs - chars_of C2 then raws @ [?r] else raws) c (?e\<lparr>characters := L\<rparr>)" if "c \<in> chars_of L" for c
    proof -
      have c: "c \<in> chars_of ?A" "c \<notin> chars_of C" "c \<notin> chars_of C2" using that sets by auto
      then show ?thesis using bspec [OF bspec [OF mg e(1)] c(1)] by simp
    qed
    note others = inner_other [OF inv i _ _ sets(2), unfolded fst_conv]
    show ?thesis
    proof (cases "L = []")
      case True
      then have IA: "chars_of I = chars_of ?A" using sets(1,3) by auto
      have es': "es' = es[i := nt]" "C' = C2" using step ri False True by (auto simp: group_step_def Let_def is_empty_iff nt_def)
      have d': "disjoint_entries es'" unfolding es' by (rule disjoint_entries_update [OF ok(1) i]) (simp add: nt_def IA)
      have a': "all_chars es' = all_chars es"
        unfolding es' all_chars_update [OF ok(1) i] using allA IA by (auto simp: nt_def)
      have k': "\<forall>e \<in> set es'. canon (characters e) \<and> characters e \<noteq> []"
        using ok(2) canons(3) False unfolding es' by (auto dest!: set_update_nth simp: nt_def)
      have l': "\<forall>j < Suc i. j < length es' \<longrightarrow> chars_of (characters (es' ! j)) \<inter> chars_of C2 = {}"
        using low' i IA sets(2) unfolding es' by (auto simp: less_Suc_eq nth_list_update nt_def)
      have m': "\<forall>e \<in> set es'. \<forall>c \<in> chars_of (characters e). merged (if c \<in> chars_of cs - chars_of C2 then raws @ [?r] else raws) c e"
        unfolding es' using mnt others by (fastforce dest!: set_update_nth simp: nt_def)
      have "inner_inv raws ?r es' C2 (Suc i)"
        by (rule inner_invI [OF d' k' canons(2) _ _ l']) (use sub sets(2) all a' gone' m' in auto)
      then show ?thesis using less i es' by simp
    next
      case False
      have es': "es' = es[i := ?e\<lparr>characters := L\<rparr>] @ [nt]" "C' = C2"
        using step ri \<open>I \<noteq> []\<close> False by (auto simp: group_step_def Let_def is_empty_iff nt_def)
      let ?u = "es[i := ?e\<lparr>characters := L\<rparr>]"
      have du: "disjoint_entries ?u" by (rule disjoint_entries_update [OF ok(1) i]) (simp add: sets)
      have au: "all_chars ?u = (all_chars es - chars_of ?A) \<union> chars_of L" unfolding all_chars_update [OF ok(1) i] by simp
      have d': "disjoint_entries es'" unfolding es' disjoint_entries_snoc au using du sets by (auto simp: nt_def)
      have a': "all_chars es' = all_chars es" unfolding es' all_chars_snoc au using allA sets by (auto simp: nt_def)
      have k': "\<forall>e \<in> set es'. canon (characters e) \<and> characters e \<noteq> []"
        using ok(2) canons False \<open>I \<noteq> []\<close> unfolding es' by (auto dest!: set_update_nth simp: nt_def)
      have l': "\<forall>j < Suc i. j < length es' \<longrightarrow> chars_of (characters (es' ! j)) \<inter> chars_of C2 = {}"
        using low' i sets unfolding es' by (auto simp: less_Suc_eq nth_list_update nth_append)
      have m': "\<forall>e \<in> set es'. \<forall>c \<in> chars_of (characters e). merged (if c \<in> chars_of cs - chars_of C2 then raws @ [?r] else raws) c e"
        unfolding es' using mnt mL others by (fastforce dest!: set_update_nth simp: nt_def)
      have "inner_inv raws ?r es' C2 (Suc i)"
        by (rule inner_invI [OF d' k' canons(2) _ _ l']) (use sub sets(2) all a' gone' m' in auto)
      then show ?thesis using less i es' by simp
    qed
  qed
qed

lemma group_inner_correct:
  "inner_inv raws (cs, sep, p, s) es C i \<Longrightarrow>
     \<exists>es' C' k. group_inner es C sep p s i = Some (es', C') \<and> inner_inv raws (cs, sep, p, s) es' C' k \<and>
       (k \<ge> length es' \<or> C' = [])"
proof (induction "card (chars_of C) + (length es - i)" arbitrary: es C i rule: less_induct)
  case less
  show ?case
  proof (cases "i < length es \<and> C \<noteq> []")
    case True
    obtain es1 C1 where st: "group_step es C sep p s i = (es1, C1)" by (cases "group_step es C sep p s i")
    note inv = group_step_inv [OF less.prems _ _ st]
    have "inner_inv raws (cs, sep, p, s) es1 C1 (Suc i)" "card (chars_of C1) + (length es1 - Suc i) < card (chars_of C) + (length es - i)"
      using inv True by blast+
    from less.hyps [OF this(2,1)] show ?thesis
      using True st by (subst group_inner.simps) (simp add: is_empty_iff Let_def)
  next
    case False
    then have "group_inner es C sep p s i = Some (es, C)" by (subst group_inner.simps) (auto simp: is_empty_iff)
    then show ?thesis using False less.prems by (auto intro!: exI [of _ i])
  qed
qed

lemma inner_start:
  assumes "grouped raws es" "canon cs"
  shows "inner_inv raws (cs, sep, p, s) es cs 0"
  using assms by (intro inner_invI) (auto simp: grouped_def entries_ok_def)

lemma on_empty: "c \<notin> (\<Union>(cs, _) \<in> set raws. chars_of cs) \<Longrightarrow> on raws c = []"
  by (auto simp: on_def filter_empty_conv)

lemma inner_end:
  assumes inv: "inner_inv raws (cs, sep, p, s) es C k" and fin: "k \<ge> length es \<or> C = []"
  shows "grouped (raws @ [(cs, sep, p, s)])
    (if is_empty C then es else es @ [\<lparr>characters = C, is_separator = sep, t_precedence = p, t_states = [s]\<rparr>])"
proof -
  let ?r = "(cs, sep, p, s)"
  let ?new = "\<lparr>characters = C, is_separator = sep, t_precedence = p, t_states = [s]\<rparr>"
  have ok: "disjoint_entries es" "\<forall>e \<in> set es. canon (characters e) \<and> characters e \<noteq> []" "canon C"
    and sub: "chars_of C \<subseteq> chars_of cs"
    and all: "all_chars es = (\<Union>(cs, _) \<in> set raws. chars_of cs)"
    and low: "\<forall>j < k. j < length es \<longrightarrow> chars_of (characters (es ! j)) \<inter> chars_of C = {}"
    and gone: "\<forall>c \<in> chars_of cs - chars_of C. c \<in> all_chars es"
    and mg: "\<forall>e \<in> set es. \<forall>c \<in> chars_of (characters e). merged (if c \<in> chars_of cs - chars_of C then raws @ [?r] else raws) c e"
    using inv unfolding inner_inv_def entries_ok_def fst_conv by - (elim conjE, assumption)+
  have apart: "all_chars es \<inter> chars_of C = {}" using low fin unfolding all_chars_nth by (auto simp: disjoint_iff) (meson less_le_trans)
  have old: "merged (raws @ [?r]) c e" if "e \<in> set es" "c \<in> chars_of (characters e)" for c e
  proof -
    have "c \<notin> chars_of C" using that apart by (auto simp: all_chars_def)
    then show ?thesis using bspec [OF bspec [OF mg that(1)] that(2)] merged_skip [of c cs raws sep p s e] by (auto split: if_splits)
  qed
  have union: "all_chars es \<union> chars_of C = (\<Union>(cs, _) \<in> set (raws @ [?r]). chars_of cs)"
    using all gone sub by auto
  show ?thesis
  proof (cases "C = []")
    case True
    then show ?thesis using ok old union by (simp add: grouped_def entries_ok_def is_empty_iff)
  next
    case False
    have "merged (raws @ [?r]) c ?new" if "c \<in> chars_of C" for c
      using that apart all sub by (intro merged_first on_empty) auto
    moreover have "entries_ok (es @ [?new])" using ok apart False by (simp add: entries_ok_def disjoint_entries_snoc)
    ultimately show ?thesis using False old union by (simp add: grouped_def is_empty_iff ball_Un)
  qed
qed

lemma group_raw_correct:
  "grouped raws es \<Longrightarrow> list_all (\<lambda>(cs, _). canon cs) later \<Longrightarrow> \<exists>es'. group_raw later es = Some es' \<and> grouped (raws @ later) es'"
proof (induction later arbitrary: raws es)
  case (Cons r later)
  obtain cs sep p s where r: "r = (cs, sep, p, s)" by (metis prod_cases4)
  have "canon cs" using Cons.prems(2) r by simp
  then obtain es1 C k where g: "group_inner es cs sep p s 0 = Some (es1, C)" "inner_inv raws r es1 C k" "k \<ge> length es1 \<or> C = []"
    using group_inner_correct [OF inner_start [OF Cons.prems(1)]] r by blast
  have "assign empty cs = cs" by (simp add: assign_def)
  then show ?case using Cons.IH [OF inner_end [OF g(2) [unfolded r] g(3)]] Cons.prems(2) g(1) r by simp
qed simp

lemma entries_ok_iff:
  "entries_ok es \<longleftrightarrow> distinct es \<and> (\<forall>a \<in> set es. \<forall>b \<in> set es. a \<noteq> b \<longrightarrow> chars_of (characters a) \<inter> chars_of (characters b) = {}) \<and>
     (\<forall>e \<in> set es. canon (characters e) \<and> characters e \<noteq> [])"
  (is "?l = ?r")
proof
  assume l: ?l
  then have ne: "i < length es \<Longrightarrow> chars_of (characters (es ! i)) \<noteq> {}" for i
    using chars_empty_iff nth_mem by (auto simp: entries_ok_def)
  have "distinct es" unfolding distinct_conv_nth using l ne unfolding entries_ok_def disjoint_entries_def by (metis Int_absorb)
  moreover have "\<forall>a \<in> set es. \<forall>b \<in> set es. a \<noteq> b \<longrightarrow> chars_of (characters a) \<inter> chars_of (characters b) = {}"
    using l unfolding entries_ok_def disjoint_entries_def by (metis in_set_conv_nth)
  ultimately show ?r using l by (simp add: entries_ok_def)
next
  assume r: ?r
  then have "disjoint_entries es" unfolding disjoint_entries_def by (metis nth_eq_iff_index_eq nth_mem)
  with r show ?l by (simp add: entries_ok_def)
qed

lemma grouped_perm:
  assumes "mset es = mset es'"
  shows "grouped raws es = grouped raws es'"
  using mset_eq_setD [OF assms] mset_eq_imp_distinct_iff [OF assms] by (simp add: grouped_def entries_ok_iff all_chars_def)

lemma swap_remove_perm: "i < length xs \<Longrightarrow> add_mset (xs ! i) (mset (swap_remove i xs)) = mset xs"
proof -
  assume i: "i < length xs"
  then obtain ys y where xs: "xs = ys @ [y]" by (cases xs rule: rev_cases) auto
  show ?thesis
  proof (cases "i < length ys")
    case True
    then show ?thesis using xs by (simp add: swap_remove_def nth_append mset_update)
  next
    case False
    then have "i = length ys" using i xs by simp
    then show ?thesis using xs by (simp add: swap_remove_def list_update_beyond)
  qed
qed

lemma merge_step:
  assumes g: "grouped raws es" and ji: "j < i" "i < length es" and same: "same_target (es ! j) (es ! i)"
  shows "grouped raws (swap_remove i (es[j := (es ! j)\<lparr>characters := add (characters (es ! j)) (characters (es ! i))\<rparr>]))"
proof -
  let ?a = "es ! j" and ?b = "es ! i"
  let ?m = "?a\<lparr>characters := add (characters ?a) (characters ?b)\<rparr>"
  define rest where "rest = mset es - {#?a#} - {#?b#}"
  have neq: "?a \<noteq> ?b"
    using g ji by (auto simp: grouped_def entries_ok_iff distinct_conv_nth)
  have ab: "?a \<in> set es" "?b \<in> set es" using ji by auto
  have "?b \<in># mset es - {#?a#}" using ab neq by (simp add: in_diff_count)
  then have es: "mset es = add_mset ?a (add_mset ?b rest)" unfolding rest_def using ab(1) by (metis insert_DiffM set_mset_mset)
  let ?u = "es[j := ?m]"
  have "?u ! i = ?b" using ji by simp
  then have "add_mset ?b (mset (swap_remove i ?u)) = mset ?u" using swap_remove_perm [of i ?u] ji by simp
  also have "mset ?u = add_mset ?m (mset es - {#?a#})" using ji by (simp add: mset_update)
  finally have sw: "mset (swap_remove i ?u) = add_mset ?m rest" using es by simp
  obtain zs where zs: "mset zs = rest" using ex_mset by blast
  have g': "grouped raws (?a # ?b # zs)" using g grouped_perm [of es "?a # ?b # zs"] es zs by simp
  have c: "canon (characters ?a)" "canon (characters ?b)" "characters ?a \<noteq> []" using g' by (auto simp: grouped_def entries_ok_iff)
  have cm: "canon (characters ?m)" "chars_of (characters ?m) = chars_of (characters ?a) \<union> chars_of (characters ?b)"
    using add_correct [OF c(1,2)] by simp_all
  have ne: "chars_of (characters ?m) \<noteq> {}" using cm(2) c chars_empty_iff by auto
  have mg: "merged raws x ?m" if "x \<in> chars_of (characters ?m)" for x
    using that g' cm(2) merged_target [OF same, of raws x] by (auto simp: grouped_def)
  have disj: "chars_of (characters ?m) \<inter> chars_of (characters z) = {}" if "z \<in> set zs" for z
    using g' that cm(2) by (auto simp: grouped_def entries_ok_iff)
  have "?m \<notin> set zs" using disj ne by blast
  then have "grouped raws (?m # zs)"
    using g' cm disj mg ne chars_empty_iff [OF cm(1)]
    unfolding grouped_def entries_ok_iff all_chars_def by (simp add: Int_commute Un_assoc) blast
  then show ?thesis using grouped_perm [of "swap_remove i ?u" "?m # zs"] sw zs by simp
qed

lemma merge_loop_correct: "grouped raws es \<Longrightarrow> grouped raws (merge_loop es i)"
proof (induction es i rule: merge_loop.induct)
  case (1 es i)
  show ?case
  proof (cases "i < length es")
    case True
    show ?thesis
    proof (cases "find (\<lambda>j. same_target (es ! j) (es ! i)) [0..<i]")
      case None
      then show ?thesis using 1 True by (subst merge_loop.simps) simp
    next
      case (Some j)
      then have "j < i" "same_target (es ! j) (es ! i)" by (auto simp: find_Some_iff)
      then show ?thesis using 1 True Some merge_step [OF "1.prems" _ True] by (subst merge_loop.simps) simp
    qed
  next
    case False
    then show ?thesis using 1 by (subst merge_loop.simps) simp
  qed
qed

lemma group_transitions_grouped:
  assumes "list_all (\<lambda>(cs, _). canon cs) raws"
  shows "\<exists>es. group_transitions raws = Some es \<and> grouped raws es"
proof -
  have "grouped [] []" by (simp add: grouped_def entries_ok_def disjoint_entries_def all_chars_def)
  then obtain es where "group_raw raws [] = Some es" "grouped raws es"
    using group_raw_correct [of "[]" "[]" raws] assms by auto
  then show ?thesis
    using merge_loop_correct [of raws es 0]
      grouped_perm [of "sort_by_cmp (\<lambda>a b. cmp (characters a) (characters b)) (merge_loop es 0)" "merge_loop es 0" raws]
    by (simp add: group_transitions_def)
qed


section \<open>Properties\<close>

text \<open>C21. \<open>add_states\<close> terminates and computes the closure under split states: the cursor then holds, in
  ascending order without duplicates, its earlier states and every state other than a split that the
  given states reach through splits, also when splits form cycles.\<close>

theorem add_states_closure:
  assumes "splits_ok (nfa_states (nfa cur))" "set new_ids \<subseteq> {..<length (nfa_states (nfa cur))}" "sorted_wrt (<) (state_ids cur)"
  shows "\<exists>ids new'. add_states cur new_ids = Some (cur\<lparr>state_ids := ids\<rparr>, new') \<and> sorted_wrt (<) ids \<and>
    set ids = set (state_ids cur) \<union> {s \<in> closure (nfa_states (nfa cur)) (set new_ids). \<not> is_split (nfa_states (nfa cur)) s}"
  by (rule add_states_correct [OF assms])

theorem add_states_closure_witness:
  "\<exists>ids new'. add_states \<lparr>state_ids = [], nfa = \<lparr>nfa_states = [Accept 0 0, Split 1 0]\<rparr>\<rparr> [1] =
     Some (\<lparr>state_ids = ids, nfa = \<lparr>nfa_states = [Accept 0 0, Split 1 0]\<rparr>\<rparr>, new') \<and> sorted_wrt (<) ids"
proof -
  let ?c = "\<lparr>state_ids = [], nfa = \<lparr>nfa_states = [Accept 0 0, Split 1 0]\<rparr>\<rparr>"
  have "splits_ok (nfa_states (nfa ?c))" "set [1] \<subseteq> {..<length (nfa_states (nfa ?c))}" "sorted_wrt (<) (state_ids ?c)"
    by (auto simp: splits_ok_def eps_def nth_Cons split: nat.splits)
  from add_states_closure [OF this] show ?thesis by auto
qed

text \<open>C6. \<open>group_transitions\<close> determinises the raw transitions: it terminates, and its result has pairwise
  disjoint, nonempty, canonical character sets that together cover the characters of the raw
  transitions; for every character of an entry, the entry's target states are exactly the ascending
  targets of the raw transitions on that character, it is a separator exactly if all of them are,
  and its precedence is their largest.\<close>

theorem group_transitions_deterministic:
  assumes "list_all (\<lambda>(cs, _). canon cs) raws"
  shows "\<exists>es. group_transitions raws = Some es \<and> distinct es \<and>
    (\<forall>a \<in> set es. \<forall>b \<in> set es. a \<noteq> b \<longrightarrow> chars_of (characters a) \<inter> chars_of (characters b) = {}) \<and>
    (\<forall>e \<in> set es. canon (characters e) \<and> characters e \<noteq> []) \<and>
    (\<Union>e \<in> set es. chars_of (characters e)) = (\<Union>(cs, _) \<in> set raws. chars_of cs) \<and>
    (\<forall>e \<in> set es. \<forall>c \<in> chars_of (characters e). merged raws c e)"
  using group_transitions_grouped [OF assms] by (auto simp: grouped_def entries_ok_iff all_chars_def)

theorem group_transitions_deterministic_witness:
  "\<exists>es. group_transitions [([(97, 100)], False, 1, 5), ([(99, 102)], False, 2, 7)] = Some es \<and>
     (\<Union>e \<in> set es. chars_of (characters e)) = {97..<100} \<union> {99..<102}"
proof -
  have "list_all (\<lambda>(cs, _). canon cs) [([(97, 100)], False, 1 :: int, 5 :: nat), ([(99, 102)], False, 2, 7)]"
    by (simp add: canon_def)
  from group_transitions_deterministic [OF this] show ?thesis by auto
qed

end
