(* ===== verification/Grammars.thy ===== *)
theory Grammars
  imports Token_Set Rule_Pool Nfa_Cursor
begin

unbundle bit_operations_syntax

text \<open>
  \<^verbatim>\<open>crates/generate/src/grammars.rs\<close>: the grammar records the preparation passes exchange, and the packed
  \<open>ProductionStep\<close> with its 8-bit \<open>flags\<close> word. A precedence value is kept in a 32-bit word, read as
  signed for an integer precedence and as unsigned for a name. \<open>ChildType\<close> is from
  \<^verbatim>\<open>node_types.rs\<close>.
\<close>

section \<open>Grammar records\<close>

record Variable =
  v_name :: StrId
  v_root :: RuleId

datatype PrecedenceEntry = EntryName StrId | EntrySymbol StrId

record ReservedWordContext =
  rw_name :: StrId
  rw_roots :: "RuleId list"

record 't InputGrammar =
  g_pool :: "'t RulePool"
  g_name :: StrId
  g_variables :: "Variable list"
  g_external_roots :: "RuleId list"
  g_extra_roots :: "RuleId list"
  g_reserved_sets :: "ReservedWordContext list"
  g_supertype_names :: "StrId list"
  g_conflict_names :: "StrId list list"
  g_inline_names :: "StrId list"
  g_word_name :: "StrId option"
  g_precedence_orderings :: "PrecedenceEntry list list"

record LexicalVariable =
  lv_name :: StrId
  lv_kind :: VariableType
  lv_implicit_precedence :: int
  lv_start_state :: nat

record LexicalGrammar =
  lex_nfa :: Nfa
  lex_variables :: "LexicalVariable list"

record Production =
  steps_start :: nat
  steps_len :: nat
  prod_dynamic_precedence :: int
  requires_eof_lookahead :: bool

definition step_range :: "Production \<Rightarrow> nat \<times> nat" where
  "step_range p = (steps_start p, steps_start p + steps_len p)"

definition is_visible :: "VariableType \<Rightarrow> bool" where
  "is_visible k \<longleftrightarrow> k = Named \<or> k = Anonymous"

record SyntaxVariable =
  sv_name :: StrId
  sv_kind :: VariableType

definition is_auxiliary :: "SyntaxVariable \<Rightarrow> bool" where
  "is_auxiliary v \<longleftrightarrow> sv_kind v = Auxiliary"

definition is_hidden :: "SyntaxVariable \<Rightarrow> bool" where
  "is_hidden v \<longleftrightarrow> sv_kind v = Hidden \<or> sv_kind v = Auxiliary"

record ExternalToken =
  et_name :: StrId
  et_kind :: VariableType
  corresponding_internal_token :: "Symbol option"

section \<open>Packed production steps\<close>

record ProductionStep =
  sym_index :: nat
  prec_val :: u32
  ps_alias :: nat
  ps_field :: nat
  ps_reserved :: nat
  flags :: u8

definition KIND_MASK :: u8 where "KIND_MASK = 7"
definition PREC_INTEGER :: u8 where "PREC_INTEGER = 8"
definition PREC_NAME :: u8 where "PREC_NAME = 16"
definition PREC_MASK :: u8 where "PREC_MASK = 24"
definition ASSOC_LEFT :: u8 where "ASSOC_LEFT = 32"
definition ASSOC_RIGHT :: u8 where "ASSOC_RIGHT = 64"
definition ASSOC_MASK :: u8 where "ASSOC_MASK = 96"
definition ALIAS_NAMED :: u8 where "ALIAS_NAMED = 128"
definition NO_RESERVED_WORDS :: nat where "NO_RESERVED_WORDS = 65535"

fun kind_code :: "SymbolType \<Rightarrow> u8" where
  "kind_code External = 0"
| "kind_code End = 1"
| "kind_code EndOfNonTerminalExtra = 2"
| "kind_code Terminal = 3"
| "kind_code NonTerminal = 4"

definition step_symbol :: "ProductionStep \<Rightarrow> Symbol" where
  "step_symbol st = Symbol
     (let k = flags st AND KIND_MASK in
      if k = 0 then External else if k = 1 then End else if k = 2 then EndOfNonTerminalExtra
      else if k = 3 then Terminal else NonTerminal)
     (sym_index st)"

definition step_precedence :: "ProductionStep \<Rightarrow> Precedence" where
  "step_precedence st =
     (let k = flags st AND PREC_MASK in
      if k = PREC_INTEGER then PrecInteger (sint (prec_val st))
      else if k = PREC_NAME then PrecName (unat (prec_val st))
      else PrecNone)"

definition set_flags :: "u8 \<Rightarrow> u8 \<Rightarrow> ProductionStep \<Rightarrow> ProductionStep" where
  "set_flags msk bits st = st\<lparr>flags := (flags st AND NOT msk) OR bits\<rparr>"

definition set_precedence :: "Precedence \<Rightarrow> ProductionStep \<Rightarrow> ProductionStep" where
  "set_precedence pr st =
     (let (bits, v) = (case pr of
        PrecNone \<Rightarrow> (0, 0)
      | PrecInteger n \<Rightarrow> (PREC_INTEGER, word_of_int n)
      | PrecName sid \<Rightarrow> (PREC_NAME, of_nat sid)) in
      set_flags PREC_MASK bits (st\<lparr>prec_val := v\<rparr>))"

definition step_associativity :: "ProductionStep \<Rightarrow> Associativity option" where
  "step_associativity st =
     (let k = flags st AND ASSOC_MASK in
      if k = ASSOC_LEFT then Some Left else if k = ASSOC_RIGHT then Some Right else None)"

definition set_associativity :: "Associativity option \<Rightarrow> ProductionStep \<Rightarrow> ProductionStep" where
  "set_associativity assoc st =
     set_flags ASSOC_MASK (case assoc of None \<Rightarrow> 0 | Some Left \<Rightarrow> ASSOC_LEFT | Some Right \<Rightarrow> ASSOC_RIGHT) st"

definition step_alias :: "ProductionStep \<Rightarrow> Alias option" where
  "step_alias st = (if ps_alias st \<noteq> 0 then Some (Alias (ps_alias st) (flags st AND ALIAS_NAMED \<noteq> 0)) else None)"

definition set_alias_named :: "bool \<Rightarrow> ProductionStep \<Rightarrow> ProductionStep" where
  "set_alias_named named st = set_flags ALIAS_NAMED (if named then ALIAS_NAMED else 0) st"

definition set_alias :: "Alias option \<Rightarrow> ProductionStep \<Rightarrow> ProductionStep" where
  "set_alias a st =
     set_alias_named (case a of None \<Rightarrow> False | Some al \<Rightarrow> alias_is_named al)
       (st\<lparr>ps_alias := (case a of None \<Rightarrow> 0 | Some al \<Rightarrow> alias_value al)\<rparr>)"

definition step_field :: "ProductionStep \<Rightarrow> StrId option" where
  "step_field st = (if ps_field st \<noteq> 0 then Some (ps_field st) else None)"

definition set_field :: "StrId option \<Rightarrow> ProductionStep \<Rightarrow> ProductionStep" where
  "set_field f st = st\<lparr>ps_field := (case f of None \<Rightarrow> 0 | Some sid \<Rightarrow> sid)\<rparr>"

definition pack :: "Symbol \<Rightarrow> Precedence \<Rightarrow> Associativity option \<Rightarrow> Alias option \<Rightarrow> StrId option \<Rightarrow> nat \<Rightarrow> ProductionStep" where
  "pack sy pr assoc al f res =
     set_field f (set_alias al (set_associativity assoc (set_precedence pr
       \<lparr>sym_index = index sy, prec_val = 0, ps_alias = 0, ps_field = 0, ps_reserved = res, flags = kind_code (kind sy)\<rparr>)))"

datatype ChildType = Normal Symbol | Aliased Alias

definition child_type :: "ProductionStep \<Rightarrow> (Symbol \<rightharpoonup> Alias) \<Rightarrow> ChildType" where
  "child_type st default_aliases =
     (case step_alias st of
        Some a \<Rightarrow> Aliased a
      | None \<Rightarrow> (case default_aliases (step_symbol st) of Some a \<Rightarrow> Aliased a | None \<Rightarrow> Normal (step_symbol st)))"

section \<open>The syntax grammar\<close>

record ProductionStore =
  st_steps :: "ProductionStep list"
  st_productions :: "Production list"
  st_var_prods :: "(nat \<times> nat) list"

record SyntaxGrammar =
  sg_variables :: "SyntaxVariable list"
  sg_extra_symbols :: "Symbol list"
  sg_expected_conflicts :: "Symbol list list"
  sg_external_tokens :: "ExternalToken list"
  sg_supertype_symbols :: "Symbol list"
  sg_variables_to_inline :: "Symbol list"
  sg_word_token :: "Symbol option"
  sg_precedence_orderings :: "PrecedenceEntry list list"
  sg_reserved_word_sets :: "TokenSet list"
  sg_steps :: "ProductionStep list"
  sg_productions :: "Production list"
  sg_var_prods :: "(nat \<times> nat) list"

record ProdRef =
  pr_steps :: "ProductionStep list"
  pr_dynamic_precedence :: int
  pr_requires_eof_lookahead :: bool

definition production :: "SyntaxGrammar \<Rightarrow> nat \<Rightarrow> ProdRef option" where
  "production g i = do {
     p \<leftarrow> vec_get (sg_productions g) i;
     sts \<leftarrow> vec_slice (sg_steps g) (fst (step_range p)) (snd (step_range p));
     Some \<lparr>pr_steps = sts, pr_dynamic_precedence = prod_dynamic_precedence p, pr_requires_eof_lookahead = requires_eof_lookahead p\<rparr>
   }"

definition variable_prod_ids :: "SyntaxGrammar \<Rightarrow> nat \<Rightarrow> nat list option" where
  "variable_prod_ids g i = map_option (\<lambda>(s, e). [s..<e]) (vec_get (sg_var_prods g) i)"

definition first_symbol :: "ProdRef \<Rightarrow> Symbol option" where
  "first_symbol p = (case pr_steps p of [] \<Rightarrow> None | st # _ \<Rightarrow> Some (step_symbol st))"

section \<open>The lexical grammar\<close>

definition variable_index_for_nfa_state :: "LexicalGrammar \<Rightarrow> nat \<Rightarrow> nat" where
  "variable_index_for_nfa_state g state_id =
     (case binary_search_by (\<lambda>v. if lv_start_state v < state_id then Less else Greater) (lex_variables g) of
        Inl i \<Rightarrow> i | Inr i \<Rightarrow> i)"

fun dedup_ids :: "(nat \<Rightarrow> nat) \<Rightarrow> nat option \<Rightarrow> nat list \<Rightarrow> nat list" where
  "dedup_ids f prev [] = []"
| "dedup_ids f prev (s # ss) = (if prev = Some (f s) then dedup_ids f prev ss else f s # dedup_ids f (Some (f s)) ss)"

definition variable_indices_for_nfa_states :: "LexicalGrammar \<Rightarrow> nat list \<Rightarrow> nat list" where
  "variable_indices_for_nfa_states g sids = dedup_ids (variable_index_for_nfa_state g) None sids"

section \<open>Round trip of the packed step\<close>

lemma mask_same: "b AND m = b \<Longrightarrow> ((w AND NOT m) OR b) AND m = (b :: u8)"
  by (auto simp: bit_eq_iff bit_simps)

lemma mask_other: "m AND m' = 0 \<Longrightarrow> b AND m' = 0 \<Longrightarrow> ((w AND NOT m) OR b) AND m' = (w AND m' :: u8)"
  by (auto simp: bit_eq_iff bit_simps)

lemmas mask_defs = KIND_MASK_def PREC_INTEGER_def PREC_NAME_def PREC_MASK_def ASSOC_LEFT_def ASSOC_RIGHT_def
  ASSOC_MASK_def ALIAS_NAMED_def

lemma flags_set_flags [simp]: "flags (set_flags m b st) = (flags st AND NOT m) OR b"
  by (simp add: set_flags_def)

text \<open>What a packed step can represent: values in range and ids that are not zero.\<close>

fun prec_ok :: "Precedence \<Rightarrow> bool" where
  "prec_ok PrecNone = True"
| "prec_ok (PrecInteger n) = (- (2 ^ 31) \<le> n \<and> n < 2 ^ 31)"
| "prec_ok (PrecName sid) = (0 < sid \<and> sid < 2 ^ 32)"

definition alias_ok :: "Alias option \<Rightarrow> bool" where
  "alias_ok a \<longleftrightarrow> (case a of None \<Rightarrow> True | Some al \<Rightarrow> alias_value al \<noteq> 0)"

definition flag_word :: "SymbolType \<Rightarrow> u8 \<Rightarrow> u8 \<Rightarrow> u8 \<Rightarrow> u8" where
  "flag_word k p a n = (((((kind_code k AND NOT PREC_MASK) OR p) AND NOT ASSOC_MASK) OR a) AND NOT ALIAS_NAMED) OR n"

lemma flag_word_parts:
  assumes "p \<in> {0, PREC_INTEGER, PREC_NAME}" "a \<in> {0, ASSOC_LEFT, ASSOC_RIGHT}" "n \<in> {0, ALIAS_NAMED}"
  shows "flag_word k p a n AND KIND_MASK = kind_code k" "flag_word k p a n AND PREC_MASK = p"
    "flag_word k p a n AND ASSOC_MASK = a" "flag_word k p a n AND ALIAS_NAMED = n"
proof -
  have k: "kind_code k AND KIND_MASK = kind_code k" by (cases k) (simp_all add: mask_defs)
  have z: "p AND PREC_MASK = p" "a AND ASSOC_MASK = a" "n AND ALIAS_NAMED = n" "p AND KIND_MASK = 0" "a AND KIND_MASK = 0"
    "n AND KIND_MASK = 0" "a AND PREC_MASK = 0" "n AND PREC_MASK = 0" "n AND ASSOC_MASK = 0"
    using assms by (auto simp: mask_defs)
  have d: "PREC_MASK AND KIND_MASK = 0" "ASSOC_MASK AND KIND_MASK = 0" "ALIAS_NAMED AND KIND_MASK = 0"
    "ASSOC_MASK AND PREC_MASK = 0" "ALIAS_NAMED AND PREC_MASK = 0" "ALIAS_NAMED AND ASSOC_MASK = 0"
    by (simp_all add: mask_defs)
  show "flag_word k p a n AND KIND_MASK = kind_code k" "flag_word k p a n AND PREC_MASK = p"
    "flag_word k p a n AND ASSOC_MASK = a" "flag_word k p a n AND ALIAS_NAMED = n"
    unfolding flag_word_def by (simp_all only: mask_other mask_same z d k)
qed

definition prec_bits :: "Precedence \<Rightarrow> u8" where
  "prec_bits pr = (case pr of PrecNone \<Rightarrow> 0 | PrecInteger n \<Rightarrow> PREC_INTEGER | PrecName sid \<Rightarrow> PREC_NAME)"

definition assoc_bits :: "Associativity option \<Rightarrow> u8" where
  "assoc_bits a = (case a of None \<Rightarrow> 0 | Some Left \<Rightarrow> ASSOC_LEFT | Some Right \<Rightarrow> ASSOC_RIGHT)"

definition named_bits :: "Alias option \<Rightarrow> u8" where
  "named_bits al = (if (case al of None \<Rightarrow> False | Some a \<Rightarrow> alias_is_named a) then ALIAS_NAMED else 0)"

lemma bits_in:
  "prec_bits pr \<in> {0, PREC_INTEGER, PREC_NAME}" "assoc_bits a \<in> {0, ASSOC_LEFT, ASSOC_RIGHT}" "named_bits al \<in> {0, ALIAS_NAMED}"
  by (auto simp: prec_bits_def assoc_bits_def named_bits_def split: Precedence.splits option.splits Associativity.splits)

lemma flags_pack: "flags (pack sy pr a al f res) = flag_word (kind sy) (prec_bits pr) (assoc_bits a) (named_bits al)"
  by (cases pr) (simp_all add: pack_def set_field_def set_alias_def set_alias_named_def set_associativity_def set_precedence_def
      flag_word_def prec_bits_def assoc_bits_def named_bits_def set_flags_def)

lemma fields_pack:
  "sym_index (pack sy pr a al f res) = index sy" "ps_reserved (pack sy pr a al f res) = res"
  "ps_alias (pack sy pr a al f res) = (case al of None \<Rightarrow> 0 | Some x \<Rightarrow> alias_value x)"
  "ps_field (pack sy pr a al f res) = (case f of None \<Rightarrow> 0 | Some x \<Rightarrow> x)"
  "prec_val (pack sy pr a al f res) = (case pr of PrecNone \<Rightarrow> 0 | PrecInteger n \<Rightarrow> word_of_int n | PrecName sid \<Rightarrow> of_nat sid)"
  by (cases pr; simp add: pack_def set_field_def set_alias_def set_alias_named_def set_associativity_def set_precedence_def set_flags_def)+

lemma sint_in_range: "- (2 ^ 31) \<le> n \<Longrightarrow> n < 2 ^ 31 \<Longrightarrow> sint (word_of_int n :: u32) = n"
  by (simp add: sint_sbintrunc' signed_take_bit_int_eq_self)

lemma unat_in_range: "n < 2 ^ 32 \<Longrightarrow> unat (of_nat n :: u32) = n"
  by (simp add: unsigned_of_nat take_bit_nat_eq_self)

lemma step_precedence_pack: "prec_ok pr \<Longrightarrow> step_precedence (pack sy pr a al f res) = pr"
  by (cases pr) (simp_all add: step_precedence_def Let_def flags_pack flag_word_parts [OF bits_in] fields_pack sint_in_range
      unat_in_range, simp_all add: prec_bits_def mask_defs)

lemma step_associativity_pack: "step_associativity (pack sy pr a al f res) = a"
  by (simp add: step_associativity_def Let_def flags_pack flag_word_parts [OF bits_in])
    (simp add: assoc_bits_def mask_defs split: option.splits Associativity.splits)

lemma step_symbol_pack: "step_symbol (pack sy pr a al f res) = sy"
  by (cases sy; cases "kind sy") (simp_all add: step_symbol_def Let_def flags_pack flag_word_parts [OF bits_in] fields_pack)

lemma step_alias_pack: "alias_ok al \<Longrightarrow> step_alias (pack sy pr a al f res) = al"
  by (cases al; cases "the al")
    (simp_all add: step_alias_def flags_pack flag_word_parts [OF bits_in] fields_pack alias_ok_def,
     simp add: named_bits_def mask_defs)

lemma step_field_pack: "f \<noteq> Some 0 \<Longrightarrow> step_field (pack sy pr a al f res) = f"
  by (auto simp: step_field_def fields_pack split: option.splits)


section \<open>Properties\<close>

text \<open>C33. Packing a production step into its 20-byte form and reading it back returns every component: the
  symbol, the precedence (a signed 32-bit integer or a name id), the associativity, the alias with
  its flag and the field, although all tags share one byte. The ids must not be zero, which string
  ids never are.\<close>

theorem pack_round_trip:
  assumes "prec_ok pr" "alias_ok al" "f \<noteq> Some 0"
  shows "step_symbol (pack sy pr a al f res) = sy \<and> step_precedence (pack sy pr a al f res) = pr \<and>
    step_associativity (pack sy pr a al f res) = a \<and> step_alias (pack sy pr a al f res) = al \<and>
    step_field (pack sy pr a al f res) = f \<and> ps_reserved (pack sy pr a al f res) = res"
  using assms by (simp add: step_symbol_pack step_precedence_pack step_associativity_pack step_alias_pack step_field_pack fields_pack)

theorem pack_round_trip_witness:
  "step_precedence (pack (Symbol NonTerminal 3) (PrecInteger (- 5)) (Some Right) (Some (Alias 4 True)) (Some 9) 0) = PrecInteger (- 5) \<and>
   step_alias (pack (Symbol NonTerminal 3) (PrecInteger (- 5)) (Some Right) (Some (Alias 4 True)) (Some 9) 0) = Some (Alias 4 True)"
proof -
  have "prec_ok (PrecInteger (- 5))" "alias_ok (Some (Alias 4 True))" "Some 9 \<noteq> Some (0 :: nat)"
    by (simp_all add: alias_ok_def)
  from pack_round_trip [OF this, of "Symbol NonTerminal 3" "Some Right" 0] show ?thesis by blast
qed

text \<open>When the start states of the lexical variables ascend, \<open>variable_index_for_nfa_state\<close> returns the
  first variable whose start state is not below the given state: every earlier variable ends before
  it.\<close>

theorem variable_index_first:
  assumes "sorted_wrt (<) (map lv_start_state (lex_variables g))"
  shows "variable_index_for_nfa_state g sid \<le> length (lex_variables g) \<and>
    (\<forall>j < variable_index_for_nfa_state g sid. lv_start_state (lex_variables g ! j) < sid) \<and>
    (\<forall>j. variable_index_for_nfa_state g sid \<le> j \<and> j < length (lex_variables g) \<longrightarrow> sid \<le> lv_start_state (lex_variables g ! j))"
proof -
  let ?f = "\<lambda>v. if lv_start_state v < sid then Less else Greater"
  have "sorted_wrt (\<lambda>a b. lv_start_state a < lv_start_state b) (lex_variables g)" using assms by (simp add: sorted_wrt_map)
  then have "cmp_sorted ?f (lex_variables g)"
    unfolding cmp_sorted_def by (rule sorted_wrt_mono_rel [rotated]) auto
  from binary_search_by_spec [OF this] show ?thesis
    by (cases "binary_search_by ?f (lex_variables g)")
      (auto simp: search_spec_def variable_index_for_nfa_state_def linorder_not_le [symmetric] split: if_splits)
qed

theorem variable_index_first_witness:
  "variable_index_for_nfa_state \<lparr>lex_nfa = new_nfa, lex_variables =
     [\<lparr>lv_name = 1, lv_kind = Named, lv_implicit_precedence = 0, lv_start_state = 4\<rparr>,
      \<lparr>lv_name = 2, lv_kind = Named, lv_implicit_precedence = 0, lv_start_state = 9\<rparr>]\<rparr> 5 \<le> 2"
proof -
  let ?g = "\<lparr>lex_nfa = new_nfa, lex_variables =
     [\<lparr>lv_name = 1, lv_kind = Named, lv_implicit_precedence = 0, lv_start_state = 4\<rparr>,
      \<lparr>lv_name = 2, lv_kind = Named, lv_implicit_precedence = 0, lv_start_state = 9\<rparr>]\<rparr>"
  have "sorted_wrt (<) (map lv_start_state (lex_variables ?g))" by simp
  from variable_index_first [OF this, of 5] show ?thesis by simp
qed

end
