(* ===== verification/Tables.thy ===== *)
theory Tables
  imports Char_Set Token_Set
begin

unbundle bit_operations_syntax

text \<open>
  \<^verbatim>\<open>crates/generate/src/tables.rs\<close>: parse actions, action lists, the packed \<open>ActionListId\<close>, the deduplicating
  \<open>ActionListPool\<close> and the parse and lex table records. An \<open>IndexMap\<close> is an association list in
  insertion order, the hash map of already interned lists a partial function on lists of actions.
  Out-of-range indices are \<^term>\<open>None\<close>.
\<close>

section \<open>Actions\<close>

datatype ParseAction =
    PAccept
  | Shift nat bool
  | ShiftExtra
  | Recover
  | Reduce Symbol nat int nat

datatype GotoAction = Goto nat | GotoShiftExtra

datatype ActionList = EmptyList | One ParseAction | Many "ParseAction list"

fun deref :: "ActionList \<Rightarrow> ParseAction list" where
  "deref EmptyList = []"
| "deref (One a) = [a]"
| "deref (Many as) = as"

fun push_action :: "ActionList \<Rightarrow> ParseAction \<Rightarrow> ActionList" where
  "push_action EmptyList a = One a"
| "push_action (One first) a = Many [first, a]"
| "push_action (Many as) a = Many (as @ [a])"

fun pop_action :: "ActionList \<Rightarrow> ParseAction option \<times> ActionList" where
  "pop_action EmptyList = (None, EmptyList)"
| "pop_action (One a) = (Some a, EmptyList)"
| "pop_action (Many as) = (if as = [] then (None, Many []) else (Some (last as), Many (butlast as)))"

definition clear_actions :: "ActionList \<Rightarrow> ActionList" where
  "clear_actions l = EmptyList"

fun keep_last :: "ActionList \<Rightarrow> ActionList" where
  "keep_last (Many as) = (if as = [] then Many as else One (last as))"
| "keep_last l = l"

fun from_slice :: "ParseAction list \<Rightarrow> ActionList" where
  "from_slice [] = EmptyList"
| "from_slice [a] = One a"
| "from_slice as = Many as"

definition eq_actions :: "ActionList \<Rightarrow> ActionList \<Rightarrow> bool" where
  "eq_actions a b \<longleftrightarrow> deref a = deref b"

section \<open>Action list ids and the pool\<close>

type_synonym ActionListId = u32

definition REUSABLE_BIT :: u32 where
  "REUSABLE_BIT = push_bit 31 1"

definition new_id :: "nat \<Rightarrow> bool \<Rightarrow> ActionListId option" where
  "new_id i reusable = (if i < 2 ^ 31 then Some (of_nat i OR (if reusable then REUSABLE_BIT else 0)) else None)"

definition id_index :: "ActionListId \<Rightarrow> nat" where
  "id_index a = unat (a AND NOT REUSABLE_BIT)"

definition id_reusable :: "ActionListId \<Rightarrow> bool" where
  "id_reusable a \<longleftrightarrow> a AND REUSABLE_BIT \<noteq> 0"

definition set_reusable :: "ActionListId \<Rightarrow> bool \<Rightarrow> ActionListId" where
  "set_reusable a reusable = (a AND NOT REUSABLE_BIT) OR (if reusable then REUSABLE_BIT else 0)"

record ActionListRange =
  offset :: nat
  range_len :: nat

record ActionListPool =
  actions :: "ParseAction list"
  pool_ranges :: "ActionListRange list"
  remap_scratch :: "bool list"

definition default_action_pool :: ActionListPool where
  "default_action_pool = \<lparr>actions = [], pool_ranges = [], remap_scratch = []\<rparr>"

definition push_list :: "ActionListPool \<Rightarrow> ParseAction list \<Rightarrow> ActionListPool \<times> nat" where
  "push_list pool l =
     (pool\<lparr>actions := actions pool @ l,
        pool_ranges := pool_ranges pool @ [\<lparr>offset = as_u32 (length (actions pool)), range_len = as_u32 (length l)\<rparr>]\<rparr>,
      as_u32 (length (pool_ranges pool)))"

definition list_at :: "ActionListPool \<Rightarrow> nat \<Rightarrow> ParseAction list option" where
  "list_at pool i = do {
     r \<leftarrow> vec_get (pool_ranges pool) i;
     vec_slice (actions pool) (offset r) (offset r + range_len r)
   }"

definition get_list :: "ActionListPool \<Rightarrow> ActionListId \<Rightarrow> ParseAction list option" where
  "get_list pool a = list_at pool (id_index a)"

definition pool_len :: "ActionListPool \<Rightarrow> nat" where
  "pool_len pool = length (pool_ranges pool)"

type_synonym dedup = "ParseAction list \<rightharpoonup> nat"

definition intern_list :: "ActionListPool \<Rightarrow> dedup \<Rightarrow> ActionList \<Rightarrow> ActionListPool \<times> dedup \<times> nat" where
  "intern_list pool ids l =
     (case ids (deref l) of
        Some i \<Rightarrow> (pool, ids, i)
      | None \<Rightarrow> (let (pool', i) = push_list pool (deref l) in (pool', ids(deref l \<mapsto> i), i)))"

section \<open>Tables\<close>

record ParseTableEntry =
  entry_actions :: ActionList
  reusable :: bool

definition new_entry :: ParseTableEntry where
  "new_entry = \<lparr>entry_actions = EmptyList, reusable = True\<rparr>"

record 'e ParseState =
  ps_id :: nat
  terminal_entries :: "(Symbol \<times> 'e) list"
  nonterminal_entries :: "(Symbol \<times> GotoAction) list"
  reserved_words :: TokenSet
  lex_state_id :: nat
  external_lex_state_id :: nat
  core_id :: nat
  has_eof_gated_reduce :: bool

record FieldLocation =
  fl_index :: nat
  inherited :: bool

record ProductionInfo =
  alias_sequence :: "Alias option list"
  field_map :: "StrId \<rightharpoonup> FieldLocation list"

record 'e ParseTable =
  states :: "'e ParseState list"
  action_lists :: ActionListPool
  symbols :: "Symbol list"
  production_infos :: "ProductionInfo list"
  max_aliased_production_length :: nat
  external_lex_states :: "TokenSet list"

datatype AdvanceAction = AdvanceAction (adv_state: nat) (in_main_token: bool)

record LexState =
  accept_action :: "Symbol option"
  eof_action :: "AdvanceAction option"
  advance_actions :: "(CharacterSet \<times> AdvanceAction) list"

record LexTable =
  lex_states :: "LexState list"

definition is_end_of_non_terminal_extra :: "'e ParseState \<Rightarrow> bool" where
  "is_end_of_non_terminal_extra st \<longleftrightarrow> end_of_nonterminal_extra_sym \<in> fst ` set (terminal_entries st)"

fun shift_target :: "ParseAction \<Rightarrow> nat list" where
  "shift_target (Shift s _) = [s]"
| "shift_target _ = []"

fun goto_target :: "GotoAction \<Rightarrow> nat list" where
  "goto_target (Goto s) = [s]"
| "goto_target GotoShiftExtra = []"

fun terminal_targets :: "ActionListPool \<Rightarrow> (Symbol \<times> ActionListId) list \<Rightarrow> nat list option" where
  "terminal_targets pool [] = Some []"
| "terminal_targets pool ((_, a) # es) = do {
     l \<leftarrow> get_list pool a;
     rest \<leftarrow> terminal_targets pool es;
     Some (concat (map shift_target l) @ rest)
   }"

definition referenced_states :: "ActionListId ParseState \<Rightarrow> ActionListPool \<Rightarrow> nat list option" where
  "referenced_states st pool = do {
     ts \<leftarrow> terminal_targets pool (terminal_entries st);
     Some (ts @ concat (map (\<lambda>(_, g). goto_target g) (nonterminal_entries st)))
   }"

fun goto_updates :: "(nat \<Rightarrow> nat) \<Rightarrow> (Symbol \<times> GotoAction) list \<Rightarrow> (Symbol \<times> nat) list" where
  "goto_updates f [] = []"
| "goto_updates f ((s, Goto other) # es) = (if f other \<noteq> other then (s, f other) # goto_updates f es else goto_updates f es)"
| "goto_updates f ((s, GotoShiftExtra) # es) = goto_updates f es"

definition update_nonterminal_references :: "(nat \<Rightarrow> 'e ParseState \<Rightarrow> nat) \<Rightarrow> 'e ParseState \<Rightarrow> 'e ParseState" where
  "update_nonterminal_references f st =
     st\<lparr>nonterminal_entries := fold (\<lambda>(s, n). assoc_insert s (Goto n))
          (goto_updates (\<lambda>other. f other st) (nonterminal_entries st)) (nonterminal_entries st)\<rparr>"

subsection \<open>Interning a table\<close>

fun intern_entries :: "ActionListPool \<Rightarrow> dedup \<Rightarrow> (Symbol \<times> ParseTableEntry) list \<Rightarrow>
    (ActionListPool \<times> dedup \<times> (Symbol \<times> ActionListId) list) option" where
  "intern_entries pool ids [] = Some (pool, ids, [])"
| "intern_entries pool ids ((s, e) # es) = do {
     let (pool', ids', i) = intern_list pool ids (entry_actions e);
     a \<leftarrow> new_id i (reusable e);
     (pool'', ids'', es') \<leftarrow> intern_entries pool' ids' es;
     Some (pool'', ids'', (s, a) # es')
   }"

definition replace_entries :: "'a ParseState \<Rightarrow> (Symbol \<times> 'e) list \<Rightarrow> 'e ParseState" where
  "replace_entries st es =
     \<lparr>ps_id = ps_id st, terminal_entries = es, nonterminal_entries = nonterminal_entries st,
      reserved_words = reserved_words st, lex_state_id = lex_state_id st,
      external_lex_state_id = external_lex_state_id st, core_id = core_id st,
      has_eof_gated_reduce = has_eof_gated_reduce st\<rparr>"

fun intern_states :: "ActionListPool \<Rightarrow> dedup \<Rightarrow> ParseTableEntry ParseState list \<Rightarrow>
    (ActionListPool \<times> ActionListId ParseState list) option" where
  "intern_states pool ids [] = Some (pool, [])"
| "intern_states pool ids (st # sts) = do {
     (pool', ids', es) \<leftarrow> intern_entries pool ids (terminal_entries st);
     (pool'', sts') \<leftarrow> intern_states pool' ids' sts;
     Some (pool'', replace_entries st es # sts')
   }"

definition intern_table :: "ParseTableEntry ParseTable \<Rightarrow> ActionListId ParseTable option" where
  "intern_table t = do {
     (pool, sts) \<leftarrow> intern_states default_action_pool Map.empty (states t);
     Some \<lparr>states = sts, action_lists = pool, symbols = symbols t, production_infos = production_infos t,
       max_aliased_production_length = max_aliased_production_length t, external_lex_states = external_lex_states t\<rparr>
   }"

subsection \<open>Rebuilding the pool\<close>

definition U32_MAX :: nat where
  "U32_MAX = 2 ^ 32 - 1"

fun canon_entries :: "ActionListPool \<Rightarrow> ActionListPool \<Rightarrow> dedup \<Rightarrow> nat list \<Rightarrow> (Symbol \<times> ActionListId) list \<Rightarrow>
    (ActionListPool \<times> dedup \<times> nat list \<times> (Symbol \<times> ActionListId) list) option" where
  "canon_entries old pool ids old_to_new [] = Some (pool, ids, old_to_new, [])"
| "canon_entries old pool ids old_to_new ((s, a) # es) = do {
     n \<leftarrow> vec_get old_to_new (id_index a);
     (pool1, ids1, new_index, otn1) \<leftarrow>
       (if n = U32_MAX then do {
          l \<leftarrow> list_at old (id_index a);
          let (p1, d1, i) = intern_list pool ids (from_slice l);
          otn \<leftarrow> vec_set old_to_new (id_index a) i;
          Some (p1, d1, i, otn)
        } else Some (pool, ids, n, old_to_new));
     a' \<leftarrow> new_id new_index (id_reusable a);
     (pool2, ids2, otn2, es') \<leftarrow> canon_entries old pool1 ids1 otn1 es;
     Some (pool2, ids2, otn2, (s, a') # es')
   }"

fun canon_states :: "ActionListPool \<Rightarrow> ActionListPool \<Rightarrow> dedup \<Rightarrow> nat list \<Rightarrow> ActionListId ParseState list \<Rightarrow>
    (ActionListPool \<times> ActionListId ParseState list) option" where
  "canon_states old pool ids old_to_new [] = Some (pool, [])"
| "canon_states old pool ids old_to_new (st # sts) = do {
     (pool1, ids1, otn1, es) \<leftarrow> canon_entries old pool ids old_to_new (terminal_entries st);
     (pool2, sts') \<leftarrow> canon_states old pool1 ids1 otn1 sts;
     Some (pool2, st\<lparr>terminal_entries := es\<rparr> # sts')
   }"

definition canonicalize :: "ActionListPool \<Rightarrow> ActionListId ParseState list \<Rightarrow> (ActionListPool \<times> ActionListId ParseState list) option" where
  "canonicalize pool sts =
     (let (pool0, ids0, _) = intern_list (pool\<lparr>actions := [], pool_ranges := []\<rparr>) Map.empty EmptyList in
      canon_states pool pool0 ids0 (replicate (length (pool_ranges pool)) U32_MAX) sts)"

subsection \<open>Remapping shift targets\<close>

fun mark_live :: "bool list \<Rightarrow> nat list \<Rightarrow> bool list option" where
  "mark_live live [] = Some live"
| "mark_live live (i # is) = do { live' \<leftarrow> vec_set live i True; mark_live live' is }"

fun remap_actions :: "(nat \<Rightarrow> nat option) \<Rightarrow> ParseAction list \<Rightarrow> ParseAction list option" where
  "remap_actions f [] = Some []"
| "remap_actions f (a # as) = do {
     a' \<leftarrow> (case a of Shift s rp \<Rightarrow> map_option (\<lambda>s'. Shift s' rp) (f s) | _ \<Rightarrow> Some a);
     as' \<leftarrow> remap_actions f as;
     Some (a' # as')
   }"

text \<open>\<open>f\<close> may panic on an argument outside its domain.\<close>

fun remap_ranges :: "(nat \<Rightarrow> nat option) \<Rightarrow> bool list \<Rightarrow> nat \<Rightarrow> ActionListRange list \<Rightarrow> ParseAction list \<Rightarrow> ParseAction list option" where
  "remap_ranges f live i [] as = Some as"
| "remap_ranges f live i (r # rs) as = do {
     l \<leftarrow> vec_get live i;
     as' \<leftarrow> (if \<not> l then Some as
       else do {
         seg \<leftarrow> vec_slice as (offset r) (offset r + range_len r);
         seg' \<leftarrow> remap_actions f seg;
         Some (take (offset r) as @ seg' @ drop (offset r + range_len r) as)
       });
     remap_ranges f live (Suc i) rs as'
   }"

definition remap_terminal_references :: "(nat \<Rightarrow> nat option) \<Rightarrow> ActionListId ParseTable \<Rightarrow> ActionListId ParseTable option" where
  "remap_terminal_references f t =
     (let pool = action_lists t in do {
        live \<leftarrow> mark_live (replicate (pool_len pool) False)
          (concat (map (\<lambda>st. map (\<lambda>(_, a). id_index a) (terminal_entries st)) (states t)));
        as \<leftarrow> remap_ranges f live 0 (pool_ranges pool) (actions pool);
        Some (t\<lparr>action_lists := pool\<lparr>actions := as, remap_scratch := live\<rparr>\<rparr>)
      })"


section \<open>What a pool holds\<close>

fun ranges_from :: "nat \<Rightarrow> ParseAction list list \<Rightarrow> ActionListRange list" where
  "ranges_from n [] = []"
| "ranges_from n (l # ls) = \<lparr>offset = n, range_len = length l\<rparr> # ranges_from (n + length l) ls"

definition holds_lists :: "ActionListPool \<Rightarrow> ParseAction list list \<Rightarrow> bool" where
  "holds_lists pool ls \<longleftrightarrow> actions pool = concat ls \<and> pool_ranges pool = ranges_from 0 ls"

lemma length_ranges_from [simp]: "length (ranges_from n ls) = length ls"
  by (induction ls arbitrary: n) simp_all

lemma ranges_from_append: "ranges_from n (ls @ ms) = ranges_from n ls @ ranges_from (n + length (concat ls)) ms"
  by (induction ls arbitrary: n) (simp_all add: add.assoc)

lemma ranges_from_nth:
  "i < length ls \<Longrightarrow> ranges_from n ls ! i = \<lparr>offset = n + length (concat (take i ls)), range_len = length (ls ! i)\<rparr>"
  by (induction ls arbitrary: n i) (auto simp: nth_Cons split: nat.splits)

lemma list_at_holds: "holds_lists pool ls \<Longrightarrow> list_at pool i = (if i < length ls then Some (ls ! i) else None)"
  using vec_slice_concat [of i ls]
  by (auto simp: list_at_def holds_lists_def vec_get_def ranges_from_nth)

lemma push_list_holds:
  assumes "holds_lists pool ls" "length (concat ls) + length l < 2 ^ 32" "length ls < 2 ^ 32"
  shows "holds_lists (fst (push_list pool l)) (ls @ [l])" "snd (push_list pool l) = length ls"
  using assms by (simp_all add: holds_lists_def push_list_def ranges_from_append)

text \<open>The deduplication map and the pool agree.\<close>

definition dedup_ok :: "dedup \<Rightarrow> ParseAction list list \<Rightarrow> bool" where
  "dedup_ok ids ls \<longleftrightarrow> distinct ls \<and> (\<forall>l i. ids l = Some i \<longleftrightarrow> i < length ls \<and> ls ! i = l)"

lemma dedup_ok_mem: "dedup_ok ids ls \<Longrightarrow> l \<in> set ls \<Longrightarrow> \<exists>i. ids l = Some i"
  by (auto simp: dedup_ok_def in_set_conv_nth)

lemma intern_list_correct:
  assumes h: "holds_lists pool ls" "dedup_ok ids ls" "length (concat ls) + length (deref l) < 2 ^ 32" "length ls < 2 ^ 32"
  shows "\<exists>pool' ids' ls' i. intern_list pool ids l = (pool', ids', i) \<and> holds_lists pool' (ls @ ls') \<and> dedup_ok ids' (ls @ ls') \<and>
    i < length (ls @ ls') \<and> (ls @ ls') ! i = deref l \<and> set ls' \<subseteq> {deref l}"
proof (cases "ids (deref l)")
  case (Some i)
  then show ?thesis using h by (intro exI [of _ pool] exI [of _ ids] exI [of _ "[]"] exI [of _ i]) (simp add: intern_list_def, simp add: dedup_ok_def)
next
  case None
  then have new: "deref l \<notin> set ls" using dedup_ok_mem [OF h(2), of "deref l"] by auto
  have eq: "intern_list pool ids l = (fst (push_list pool (deref l)), ids(deref l \<mapsto> length ls), length ls)"
    using None push_list_holds(2) [OF h(1,3,4)] by (simp add: intern_list_def case_prod_beta)
  have "dedup_ok (ids(deref l \<mapsto> length ls)) (ls @ [deref l])"
    using h(2) new unfolding dedup_ok_def by (auto simp: nth_append less_Suc_eq in_set_conv_nth split: if_splits)
  with eq push_list_holds(1) [OF h(1,3,4)] show ?thesis
    by (intro exI [of _ "fst (push_list pool (deref l))"] exI [of _ "ids(deref l \<mapsto> length ls)"] exI [of _ "[deref l]"] exI [of _ "length ls"]) simp
qed

lemma deref_from_slice [simp]: "deref (from_slice l) = l"
  by (cases l rule: from_slice.cases) simp_all

subsection \<open>Packed ids\<close>

lemma reusable_bit: "bit REUSABLE_BIT n \<longleftrightarrow> n = 31"
  unfolding REUSABLE_BIT_def bit_push_bit_iff by (auto simp: bit_1_iff)

lemma small_bit:
  assumes "i < 2 ^ 31"
  shows "\<not> bit (of_nat i :: u32) 31"
proof -
  have "bit (of_nat i :: u32) 31 \<longleftrightarrow> bit (unat (of_nat i :: u32)) 31" by (simp add: bit_unsigned_iff)
  also have "unat (of_nat i :: u32) = i" using assms by (simp add: unsigned_of_nat take_bit_nat_eq_self)
  finally show ?thesis using assms by (simp add: bit_iff_odd)
qed

lemma id_of_parts:
  assumes "i < 2 ^ 31"
  shows "(of_nat i OR (if r then REUSABLE_BIT else 0)) AND NOT REUSABLE_BIT = (of_nat i :: u32)"
    "((of_nat i OR (if r then REUSABLE_BIT else 0)) AND REUSABLE_BIT \<noteq> 0) = r"
proof -
  show "(of_nat i OR (if r then REUSABLE_BIT else 0)) AND NOT REUSABLE_BIT = (of_nat i :: u32)"
    by (rule bit_eqI) (use small_bit [OF assms] in \<open>auto simp: bit_and_iff bit_or_iff bit_not_iff reusable_bit\<close>)
  have "(of_nat i OR REUSABLE_BIT) AND REUSABLE_BIT = REUSABLE_BIT" "of_nat i AND REUSABLE_BIT = (0 :: u32)"
    by (rule bit_eqI, use small_bit [OF assms] in \<open>auto simp: bit_and_iff bit_or_iff reusable_bit\<close>)+
  moreover have "REUSABLE_BIT \<noteq> 0" using reusable_bit [of 31] by auto
  ultimately show "((of_nat i OR (if r then REUSABLE_BIT else 0)) AND REUSABLE_BIT \<noteq> 0) = r" by simp
qed

lemma unat_small: "i < 2 ^ 31 \<Longrightarrow> unat (of_nat i :: u32) = i"
  by (simp add: unsigned_of_nat take_bit_nat_eq_self)

lemma new_id_parts:
  assumes "i < 2 ^ 31"
  shows "\<exists>a. new_id i r = Some a \<and> id_index a = i \<and> id_reusable a = r"
  using assms id_of_parts [OF assms, of r] unat_small [OF assms] by (simp add: new_id_def id_index_def id_reusable_def)

lemma set_reusable_parts: "id_index (set_reusable a r) = id_index a \<and> id_reusable (set_reusable a r) = r"
proof -
  have "((a AND NOT REUSABLE_BIT) OR (if r then REUSABLE_BIT else 0)) AND NOT REUSABLE_BIT = a AND NOT REUSABLE_BIT"
    by (rule bit_eqI) (auto simp: bit_and_iff bit_or_iff bit_not_iff reusable_bit)
  moreover have "((a AND NOT REUSABLE_BIT) OR REUSABLE_BIT) AND REUSABLE_BIT = REUSABLE_BIT"
    "(a AND NOT REUSABLE_BIT) AND REUSABLE_BIT = 0"
    by (rule bit_eqI, auto simp: bit_and_iff bit_or_iff bit_not_iff reusable_bit)+
  moreover have "REUSABLE_BIT \<noteq> 0" using reusable_bit [of 31] by auto
  ultimately show ?thesis by (simp add: set_reusable_def id_index_def id_reusable_def)
qed

subsection \<open>Interning a table\<close>

definition entry_means :: "ParseAction list list \<Rightarrow> ActionListId \<Rightarrow> ParseTableEntry \<Rightarrow> bool" where
  "entry_means ls a e \<longleftrightarrow> id_index a < length ls \<and> ls ! id_index a = deref (entry_actions e) \<and> id_reusable a = reusable e"

lemma entry_means_append: "entry_means ls a e \<Longrightarrow> entry_means (ls @ ms) a e"
  by (simp add: entry_means_def nth_append)

definition entry_size :: "(Symbol \<times> ParseTableEntry) list \<Rightarrow> nat" where
  "entry_size es = (\<Sum>(_, e) \<leftarrow> es. Suc (length (deref (entry_actions e))))"

definition list_size :: "ParseAction list list \<Rightarrow> nat" where
  "list_size ls = (\<Sum>l \<leftarrow> ls. Suc (length l))"

lemma list_size_bounds: "length ls \<le> list_size ls" "length (concat ls) \<le> list_size ls"
  by (induction ls) (auto simp: list_size_def)

lemma list_size_append [simp]: "list_size (ls @ ms) = list_size ls + list_size ms"
  by (simp add: list_size_def)

lemma set_single_size: "set ls' \<subseteq> {l} \<Longrightarrow> distinct ls' \<Longrightarrow> list_size ls' \<le> Suc (length l)"
  by (cases ls' rule: rev_cases) (auto simp: list_size_def subset_singleton_iff distinct_append)

lemma intern_entries_correct:
  "holds_lists pool ls \<Longrightarrow> dedup_ok ids ls \<Longrightarrow> list_size ls + entry_size es < 2 ^ 31 \<Longrightarrow>
   \<exists>pool' ids' ls' es'. intern_entries pool ids es = Some (pool', ids', es') \<and> holds_lists pool' (ls @ ls') \<and>
     dedup_ok ids' (ls @ ls') \<and> list_size ls' \<le> entry_size es \<and>
     list_all2 (\<lambda>(s, e) (s', a). s = s' \<and> entry_means (ls @ ls') a e) es es'"
proof (induction es arbitrary: pool ids ls)
  case Nil
  then show ?case by (intro exI [of _ pool] exI [of _ ids] exI [of _ "[]"] exI [of _ "[]"]) (simp add: list_size_def)
next
  case (Cons se es)
  obtain s e where se: "se = (s, e)" by (cases se)
  let ?l = "deref (entry_actions e)"
  have size: "list_size ls + Suc (length ?l) + entry_size es < 2 ^ 31" using Cons.prems(3) se by (simp add: entry_size_def)
  have "length (concat ls) + length ?l < 2 ^ 32" "length ls < 2 ^ 32" using list_size_bounds [of ls] size by simp_all
  then obtain pool1 ids1 ls1 i where i: "intern_list pool ids (entry_actions e) = (pool1, ids1, i)" "holds_lists pool1 (ls @ ls1)"
      "dedup_ok ids1 (ls @ ls1)" "i < length (ls @ ls1)" "(ls @ ls1) ! i = ?l" "set ls1 \<subseteq> {?l}"
    using intern_list_correct [OF Cons.prems(1,2)] by blast
  have "distinct ls1" using i(3) by (simp add: dedup_ok_def)
  then have s1: "list_size ls1 \<le> Suc (length ?l)" by (rule set_single_size [OF i(6)])
  have "list_size (ls @ ls1) + entry_size es < 2 ^ 31" using s1 size by simp
  from Cons.IH [OF i(2,3) this] obtain pool2 ids2 ls2 es2 where r: "intern_entries pool1 ids1 es = Some (pool2, ids2, es2)"
      "holds_lists pool2 ((ls @ ls1) @ ls2)" "dedup_ok ids2 ((ls @ ls1) @ ls2)" "list_size ls2 \<le> entry_size es"
      "list_all2 (\<lambda>(s, e) (s', a). s = s' \<and> entry_means ((ls @ ls1) @ ls2) a e) es es2" by blast
  have "i < 2 ^ 31" using i(4) list_size_bounds(1) [of "ls @ ls1"] s1 size by simp
  then obtain a where a: "new_id i (reusable e) = Some a" "id_index a = i" "id_reusable a = reusable e"
    using new_id_parts by blast
  have "entry_means (ls @ ls1) a e" using a i by (simp add: entry_means_def)
  then have "entry_means ((ls @ ls1) @ ls2) a e" by (rule entry_means_append)
  with r a i s1 show ?case
    by (intro exI [of _ pool2] exI [of _ ids2] exI [of _ "ls1 @ ls2"] exI [of _ "(s, a) # es2"]) (simp add: se entry_size_def)
qed

definition states_size :: "ParseTableEntry ParseState list \<Rightarrow> nat" where
  "states_size sts = (\<Sum>st \<leftarrow> sts. entry_size (terminal_entries st))"

definition state_means :: "ParseAction list list \<Rightarrow> ParseTableEntry ParseState \<Rightarrow> ActionListId ParseState \<Rightarrow> bool" where
  "state_means ls st st' \<longleftrightarrow> (\<exists>es. st' = replace_entries st es \<and>
     list_all2 (\<lambda>(s, e) (s', a). s = s' \<and> entry_means ls a e) (terminal_entries st) es)"

lemma state_means_append: "state_means ls st st' \<Longrightarrow> state_means (ls @ ms) st st'"
  unfolding state_means_def by (auto elim!: list_all2_mono simp: entry_means_append)

lemma intern_states_correct:
  "holds_lists pool ls \<Longrightarrow> dedup_ok ids ls \<Longrightarrow> list_size ls + states_size sts < 2 ^ 31 \<Longrightarrow>
   \<exists>pool' ls' sts'. intern_states pool ids sts = Some (pool', sts') \<and> holds_lists pool' (ls @ ls') \<and> distinct (ls @ ls') \<and>
     list_all2 (state_means (ls @ ls')) sts sts'"
proof (induction sts arbitrary: pool ids ls)
  case Nil
  then show ?case by (intro exI [of _ pool] exI [of _ "[]"] exI [of _ "[]"]) (simp add: dedup_ok_def)
next
  case (Cons st sts)
  have "list_size ls + entry_size (terminal_entries st) < 2 ^ 31" using Cons.prems(3) by (simp add: states_size_def)
  then obtain pool1 ids1 ls1 es1 where e: "intern_entries pool ids (terminal_entries st) = Some (pool1, ids1, es1)"
      "holds_lists pool1 (ls @ ls1)" "dedup_ok ids1 (ls @ ls1)" "list_size ls1 \<le> entry_size (terminal_entries st)"
      "list_all2 (\<lambda>(s, e) (s', a). s = s' \<and> entry_means (ls @ ls1) a e) (terminal_entries st) es1"
    using intern_entries_correct [OF Cons.prems(1,2)] by blast
  have "list_size (ls @ ls1) + states_size sts < 2 ^ 31" using e(4) Cons.prems(3) by (simp add: states_size_def)
  from Cons.IH [OF e(2,3) this] obtain pool2 ls2 sts2 where r: "intern_states pool1 ids1 sts = Some (pool2, sts2)"
      "holds_lists pool2 ((ls @ ls1) @ ls2)" "distinct ((ls @ ls1) @ ls2)" "list_all2 (state_means ((ls @ ls1) @ ls2)) sts sts2" by blast
  have "state_means (ls @ ls1) st (replace_entries st es1)" using e(5) by (auto simp: state_means_def)
  then have "state_means ((ls @ ls1) @ ls2) st (replace_entries st es1)" by (rule state_means_append)
  with e(1) r show ?case
    by (intro exI [of _ pool2] exI [of _ "ls1 @ ls2"] exI [of _ "replace_entries st es1 # sts2"]) simp
qed

lemma intern_table_holds:
  assumes "states_size (states t) < 2 ^ 31"
  shows "\<exists>t' ls. intern_table t = Some t' \<and> holds_lists (action_lists t') ls \<and> distinct ls \<and>
    list_all2 (state_means ls) (states t) (states t')"
proof -
  have "holds_lists default_action_pool []" "dedup_ok Map.empty []" by (simp_all add: holds_lists_def default_action_pool_def dedup_ok_def)
  then show ?thesis using intern_states_correct [of default_action_pool "[]" Map.empty "states t"] assms
    by (auto simp: intern_table_def list_size_def)
qed

subsection \<open>Rebuilding the pool\<close>

definition otn_ok :: "nat list \<Rightarrow> ParseAction list list \<Rightarrow> ParseAction list list \<Rightarrow> bool" where
  "otn_ok otn olds ls \<longleftrightarrow> length otn = length olds \<and>
     (\<forall>k < length olds. otn ! k \<noteq> U32_MAX \<longrightarrow> otn ! k < length ls \<and> ls ! (otn ! k) = olds ! k)"

definition unmapped_size :: "nat list \<Rightarrow> ParseAction list list \<Rightarrow> nat" where
  "unmapped_size otn olds = (\<Sum>(n, l) \<leftarrow> zip otn olds. if n = U32_MAX then Suc (length l) else 0)"

lemma unmapped_size_update:
  "length otn = length olds \<Longrightarrow> k < length otn \<Longrightarrow> otn ! k = U32_MAX \<Longrightarrow> n \<noteq> U32_MAX \<Longrightarrow>
     unmapped_size (otn[k := n]) olds + Suc (length (olds ! k)) = unmapped_size otn olds"
proof (induction otn olds arbitrary: k rule: list_induct2)
  case (Cons m otn l olds)
  then show ?case by (cases k) (simp_all add: unmapped_size_def)
qed simp

lemma unmapped_size_all: "unmapped_size (replicate (length olds) U32_MAX) olds = list_size olds"
  by (induction olds) (simp_all add: unmapped_size_def list_size_def)

lemma otn_ok_append: "otn_ok otn olds ls \<Longrightarrow> otn_ok otn olds (ls @ ms)"
  by (auto simp: otn_ok_def nth_append)

definition same_entry :: "ParseAction list list \<Rightarrow> ParseAction list list \<Rightarrow> (Symbol \<times> ActionListId) \<Rightarrow> (Symbol \<times> ActionListId) \<Rightarrow> bool" where
  "same_entry olds ls = (\<lambda>(s, a) (s', a'). s' = s \<and> id_reusable a' = id_reusable a \<and> id_index a' < length ls \<and>
     ls ! id_index a' = olds ! id_index a)"

lemma same_entry_append: "same_entry olds ls x y \<Longrightarrow> same_entry olds (ls @ ms) x y"
  by (auto simp: same_entry_def nth_append split: prod.splits)

text \<open>The slot of one entry: the index it gets and the state afterwards.\<close>

definition canon_slot :: "ActionListPool \<Rightarrow> ActionListPool \<Rightarrow> dedup \<Rightarrow> nat list \<Rightarrow> nat \<Rightarrow> (ActionListPool \<times> dedup \<times> nat \<times> nat list) option" where
  "canon_slot old pool ids otn k = do {
     n \<leftarrow> vec_get otn k;
     (if n = U32_MAX then do {
        l \<leftarrow> list_at old k;
        let (p1, d1, i) = intern_list pool ids (from_slice l);
        otn' \<leftarrow> vec_set otn k i;
        Some (p1, d1, i, otn')
      } else Some (pool, ids, n, otn))
   }"

lemma canon_entries_slot:
  "canon_entries old pool ids otn ((s, a) # es) = do {
     (pool1, ids1, i, otn1) \<leftarrow> canon_slot old pool ids otn (id_index a);
     a' \<leftarrow> new_id i (id_reusable a);
     (pool2, ids2, otn2, es') \<leftarrow> canon_entries old pool1 ids1 otn1 es;
     Some (pool2, ids2, otn2, (s, a') # es')
   }"
  by (simp add: canon_slot_def Option.bind_assoc)

lemma canon_slot_correct:
  assumes old: "holds_lists old olds" and pool: "holds_lists pool ls" "dedup_ok ids ls" "otn_ok otn olds ls"
    and size: "list_size ls + unmapped_size otn olds < 2 ^ 31" and k: "k < length olds"
  shows "\<exists>pool' ids' ls' i otn'. canon_slot old pool ids otn k = Some (pool', ids', i, otn') \<and> holds_lists pool' (ls @ ls') \<and>
    dedup_ok ids' (ls @ ls') \<and> otn_ok otn' olds (ls @ ls') \<and> list_size (ls @ ls') + unmapped_size otn' olds < 2 ^ 31 \<and>
    i < length (ls @ ls') \<and> (ls @ ls') ! i = olds ! k"
proof (cases "otn ! k = U32_MAX")
  case False
  have n: "vec_get otn k = Some (otn ! k)" using k pool(3) by (simp add: otn_ok_def)
  show ?thesis
    using False n pool size k
    by (intro exI [of _ pool] exI [of _ ids] exI [of _ "[] :: ParseAction list list"] exI [of _ "otn ! k"] exI [of _ otn])
      (simp add: canon_slot_def del: vec_get_Some_iff, simp add: otn_ok_def)
next
  case True
  let ?l = "olds ! k"
  have len: "length otn = length olds" using pool(3) by (simp add: otn_ok_def)
  have split: "unmapped_size (otn[k := i]) olds + Suc (length ?l) = unmapped_size otn olds" if "i \<noteq> U32_MAX" for i
    using unmapped_size_update [OF len _ True that] k len by simp
  have room: "Suc (length ?l) \<le> unmapped_size otn olds" using split [of 0] by (simp add: U32_MAX_def)
  have "length (concat ls) + length (deref (from_slice ?l)) < 2 ^ 32" "length ls < 2 ^ 32"
    using list_size_bounds [of ls] size room by simp_all
  then obtain pool1 ids1 ls1 i where i: "intern_list pool ids (from_slice ?l) = (pool1, ids1, i)" "holds_lists pool1 (ls @ ls1)"
      "dedup_ok ids1 (ls @ ls1)" "i < length (ls @ ls1)" "(ls @ ls1) ! i = ?l" "set ls1 \<subseteq> {?l}"
    using intern_list_correct [OF pool(1,2)] by (metis deref_from_slice)
  have "list_size ls1 \<le> Suc (length ?l)" using set_single_size [OF i(6)] i(3) by (simp add: dedup_ok_def)
  then have s1: "list_size (ls @ ls1) \<le> list_size ls + Suc (length ?l)" by simp
  have "i < 2 ^ 31" using i(4) list_size_bounds(1) [of "ls @ ls1"] s1 room size by linarith
  then have ne: "i \<noteq> U32_MAX" by (simp add: U32_MAX_def)
  have otn1: "otn_ok (otn[k := i]) olds (ls @ ls1)"
    using otn_ok_append [OF pool(3), of ls1] i(4,5) k len by (auto simp: otn_ok_def nth_list_update)
  have "list_at old k = Some ?l" using list_at_holds [OF old] k by simp
  moreover have "list_size (ls @ ls1) + unmapped_size (otn[k := i]) olds < 2 ^ 31" using s1 split [OF ne] size by linarith
  ultimately show ?thesis using True i otn1 k len
    by (intro exI [of _ pool1] exI [of _ ids1] exI [of _ ls1] exI [of _ i] exI [of _ "otn[k := i]"])
      (simp add: canon_slot_def vec_get_def vec_set_def)
qed

lemma canon_entries_correct:
  assumes old: "holds_lists old olds"
  shows "holds_lists pool ls \<Longrightarrow> dedup_ok ids ls \<Longrightarrow> otn_ok otn olds ls \<Longrightarrow> list_size ls + unmapped_size otn olds < 2 ^ 31 \<Longrightarrow>
   \<forall>(s, a) \<in> set es. id_index a < length olds \<Longrightarrow>
   \<exists>pool' ids' ls' otn' es'. canon_entries old pool ids otn es = Some (pool', ids', otn', es') \<and> holds_lists pool' (ls @ ls') \<and>
     dedup_ok ids' (ls @ ls') \<and> otn_ok otn' olds (ls @ ls') \<and> list_size (ls @ ls') + unmapped_size otn' olds < 2 ^ 31 \<and>
     list_all2 (same_entry olds (ls @ ls')) es es'"
proof (induction es arbitrary: pool ids ls otn)
  case Nil
  then show ?case by (intro exI [of _ pool] exI [of _ ids] exI [of _ "[]"] exI [of _ otn] exI [of _ "[]"]) simp
next
  case (Cons sa es)
  obtain s a where sa: "sa = (s, a)" by (cases sa)
  have k: "id_index a < length olds" using Cons.prems(5) sa by auto
  obtain pool1 ids1 ls1 i otn1 where c: "canon_slot old pool ids otn (id_index a) = Some (pool1, ids1, i, otn1)"
      "holds_lists pool1 (ls @ ls1)" "dedup_ok ids1 (ls @ ls1)" "otn_ok otn1 olds (ls @ ls1)"
      "list_size (ls @ ls1) + unmapped_size otn1 olds < 2 ^ 31" "i < length (ls @ ls1)" "(ls @ ls1) ! i = olds ! id_index a"
    using canon_slot_correct [OF old Cons.prems(1-4) k] by blast
  have "i < 2 ^ 31" using c(5,6) list_size_bounds(1) [of "ls @ ls1"] by linarith
  then obtain a' where a': "new_id i (id_reusable a) = Some a'" "id_index a' = i" "id_reusable a' = id_reusable a"
    using new_id_parts by blast
  obtain pool2 ids2 ls2 otn2 es2 where r: "canon_entries old pool1 ids1 otn1 es = Some (pool2, ids2, otn2, es2)"
      "holds_lists pool2 ((ls @ ls1) @ ls2)" "dedup_ok ids2 ((ls @ ls1) @ ls2)" "otn_ok otn2 olds ((ls @ ls1) @ ls2)"
      "list_size ((ls @ ls1) @ ls2) + unmapped_size otn2 olds < 2 ^ 31" "list_all2 (same_entry olds ((ls @ ls1) @ ls2)) es es2"
    using Cons.IH [OF c(2-5)] Cons.prems(5) by auto
  have "same_entry olds (ls @ ls1) (s, a) (s, a')" using a' c(6,7) by (simp add: same_entry_def)
  then have "same_entry olds ((ls @ ls1) @ ls2) (s, a) (s, a')" by (rule same_entry_append)
  with c(1) a'(1) r show ?case
    by (intro exI [of _ pool2] exI [of _ ids2] exI [of _ "ls1 @ ls2"] exI [of _ otn2] exI [of _ "(s, a') # es2"])
      (simp add: sa canon_entries_slot del: canon_entries.simps(2))
qed

definition same_state :: "ParseAction list list \<Rightarrow> ParseAction list list \<Rightarrow> ActionListId ParseState \<Rightarrow> ActionListId ParseState \<Rightarrow> bool" where
  "same_state olds ls st st' \<longleftrightarrow> (\<exists>es. st' = st\<lparr>terminal_entries := es\<rparr> \<and> list_all2 (same_entry olds ls) (terminal_entries st) es)"

lemma same_state_append: "same_state olds ls st st' \<Longrightarrow> same_state olds (ls @ ms) st st'"
  unfolding same_state_def by (auto elim!: list_all2_mono intro: same_entry_append)

lemma canon_states_correct:
  assumes old: "holds_lists old olds"
  shows "holds_lists pool ls \<Longrightarrow> dedup_ok ids ls \<Longrightarrow> otn_ok otn olds ls \<Longrightarrow> list_size ls + unmapped_size otn olds < 2 ^ 31 \<Longrightarrow>
   \<forall>st \<in> set sts. \<forall>(s, a) \<in> set (terminal_entries st). id_index a < length olds \<Longrightarrow>
   \<exists>pool' ls' sts'. canon_states old pool ids otn sts = Some (pool', sts') \<and> holds_lists pool' (ls @ ls') \<and> distinct (ls @ ls') \<and>
     list_all2 (same_state olds (ls @ ls')) sts sts'"
proof (induction sts arbitrary: pool ids ls otn)
  case Nil
  then show ?case by (intro exI [of _ pool] exI [of _ "[]"] exI [of _ "[]"]) (simp add: dedup_ok_def)
next
  case (Cons st sts)
  have es: "\<forall>(s, a) \<in> set (terminal_entries st). id_index a < length olds" using Cons.prems(5) by simp
  obtain pool1 ids1 ls1 otn1 es1 where c: "canon_entries old pool ids otn (terminal_entries st) = Some (pool1, ids1, otn1, es1)"
      "holds_lists pool1 (ls @ ls1)" "dedup_ok ids1 (ls @ ls1)" "otn_ok otn1 olds (ls @ ls1)"
      "list_size (ls @ ls1) + unmapped_size otn1 olds < 2 ^ 31" "list_all2 (same_entry olds (ls @ ls1)) (terminal_entries st) es1"
    using canon_entries_correct [OF old Cons.prems(1-4) es] by blast
  obtain pool2 ls2 sts2 where r: "canon_states old pool1 ids1 otn1 sts = Some (pool2, sts2)" "holds_lists pool2 ((ls @ ls1) @ ls2)"
      "distinct ((ls @ ls1) @ ls2)" "list_all2 (same_state olds ((ls @ ls1) @ ls2)) sts sts2"
    using Cons.IH [OF c(2-5)] Cons.prems(5) by auto
  have "same_state olds (ls @ ls1) st (st\<lparr>terminal_entries := es1\<rparr>)" using c(6) by (auto simp: same_state_def)
  then have "same_state olds ((ls @ ls1) @ ls2) st (st\<lparr>terminal_entries := es1\<rparr>)" by (rule same_state_append)
  with c(1) r show ?case
    by (intro exI [of _ pool2] exI [of _ "ls1 @ ls2"] exI [of _ "st\<lparr>terminal_entries := es1\<rparr> # sts2"]) simp
qed

lemma canonicalize_holds:
  assumes old: "holds_lists pool olds" and size: "Suc (list_size olds) < 2 ^ 31"
    and ids: "\<forall>st \<in> set sts. \<forall>(s, a) \<in> set (terminal_entries st). id_index a < length olds"
  shows "\<exists>pool' ls sts'. canonicalize pool sts = Some (pool', sts') \<and> holds_lists pool' ([] # ls) \<and> distinct ([] # ls) \<and>
    list_all2 (same_state olds ([] # ls)) sts sts'"
proof -
  let ?p = "pool\<lparr>actions := [], pool_ranges := []\<rparr>"
  define pool0 where "pool0 = fst (push_list ?p [])"
  define ids0 :: dedup where "ids0 = [[] \<mapsto> 0]"
  have i: "intern_list ?p Map.empty EmptyList = (pool0, ids0, 0)" "holds_lists pool0 [[]]" "dedup_ok ids0 [[]]"
    by (auto simp: intern_list_def push_list_def holds_lists_def dedup_ok_def pool0_def ids0_def split: if_splits)
  have "otn_ok (replicate (length (pool_ranges pool)) U32_MAX) olds [[]]"
    using old by (simp add: otn_ok_def holds_lists_def)
  moreover have "list_size [[]] + unmapped_size (replicate (length (pool_ranges pool)) U32_MAX) olds < 2 ^ 31"
    using size old unmapped_size_all [of olds] by (simp add: holds_lists_def list_size_def)
  ultimately show ?thesis
    using canon_states_correct [OF old i(2,3) _ _ ids] i(1) by (auto simp: canonicalize_def)
qed

subsection \<open>Remapping shift targets\<close>

fun map_shift :: "(nat \<Rightarrow> nat) \<Rightarrow> ParseAction \<Rightarrow> ParseAction" where
  "map_shift g (Shift s rp) = Shift (g s) rp"
| "map_shift g a = a"

lemma remap_actions_correct:
  "(\<forall>s \<in> set (concat (map shift_target as)). f s = Some (g s)) \<Longrightarrow> remap_actions f as = Some (map (map_shift g) as)"
proof (induction as)
  case (Cons a as)
  then show ?case by (cases a) auto
qed simp

fun remap_lists :: "(nat \<Rightarrow> nat) \<Rightarrow> bool list \<Rightarrow> nat \<Rightarrow> ParseAction list list \<Rightarrow> ParseAction list list" where
  "remap_lists g live i [] = []"
| "remap_lists g live i (l # ls) = (if live ! i then map (map_shift g) l else l) # remap_lists g live (Suc i) ls"

lemma length_remap_lists [simp]: "length (remap_lists g live i ls) = length ls"
  by (induction ls arbitrary: i) simp_all

lemma nth_remap_lists:
  "k < length ls \<Longrightarrow> remap_lists g live i ls ! k = (if live ! (i + k) then map (map_shift g) (ls ! k) else ls ! k)"
  by (induction ls arbitrary: i k) (auto simp: nth_Cons split: nat.splits)

lemma ranges_from_remap: "ranges_from n (remap_lists g live i ls) = ranges_from n ls"
  by (induction ls arbitrary: n i) simp_all

lemma remap_ranges_correct:
  "length live = length done + length ls \<Longrightarrow>
   (\<And>k s. k < length ls \<Longrightarrow> live ! (length done + k) \<Longrightarrow> s \<in> set (concat (map shift_target (ls ! k))) \<Longrightarrow> f s = Some (g s)) \<Longrightarrow>
   remap_ranges f live (length done) (ranges_from (length (concat done)) ls) (concat (done @ ls)) =
     Some (concat (done @ remap_lists g live (length done) ls))"
proof (induction ls arbitrary: "done")
  case (Cons l ls)
  let ?l' = "if live ! length done then map (map_shift g) l else l"
  have live: "vec_get live (length done) = Some (live ! length done)" using Cons.prems(1) by simp
  have seg: "vec_slice (concat (done @ l # ls)) (length (concat done)) (length (concat done) + length l) = Some l"
    by (simp add: vec_slice_def)
  have map: "live ! length done \<Longrightarrow> remap_actions f l = Some (map (map_shift g) l)"
    using Cons.prems(2) [of 0] by (intro remap_actions_correct) auto
  have "remap_ranges f live (length (done @ [?l'])) (ranges_from (length (concat (done @ [?l']))) ls) (concat ((done @ [?l']) @ ls)) =
      Some (concat ((done @ [?l']) @ remap_lists g live (length (done @ [?l'])) ls))"
  proof (rule Cons.IH)
    show "length live = length (done @ [?l']) + length ls" using Cons.prems(1) by simp
    show "f s = Some (g s)" if "k < length ls" "live ! (length (done @ [?l']) + k)" "s \<in> set (concat (map shift_target (ls ! k)))" for k s
      using Cons.prems(2) [of "Suc k" s] that by simp
  qed
  then show ?case using seg map Cons.prems(1) by (cases "live ! length done") (simp_all add: vec_get_def)
qed simp

lemma mark_live_correct:
  "(\<forall>i \<in> set is. i < length live) \<Longrightarrow>
     \<exists>live'. mark_live live is = Some live' \<and> length live' = length live \<and> (\<forall>k < length live. live' ! k \<longleftrightarrow> live ! k \<or> k \<in> set is)"
proof (induction "is" arbitrary: live)
  case (Cons i "is")
  then obtain live' where "mark_live (live[i := True]) is = Some live'" "length live' = length live"
      "\<forall>k < length live. live' ! k \<longleftrightarrow> live[i := True] ! k \<or> k \<in> set is"
    using Cons.IH [of "live[i := True]"] by auto
  then show ?case using Cons.prems by (auto simp: vec_set_def nth_list_update)
qed simp

definition live_indices :: "ActionListId ParseState list \<Rightarrow> nat set" where
  "live_indices sts = {id_index a | st s a. st \<in> set sts \<and> (s, a) \<in> set (terminal_entries st)}"

lemma set_live: "set (concat (map (\<lambda>st. map (\<lambda>(_, a). id_index a) (terminal_entries st)) sts)) = live_indices sts"
  by (force simp: live_indices_def)

lemma remap_terminal_holds:
  assumes h: "holds_lists (action_lists t) ls" and ids: "live_indices (states t) \<subseteq> {..<length ls}"
    and f: "\<And>k s. k \<in> live_indices (states t) \<Longrightarrow> s \<in> set (concat (map shift_target (ls ! k))) \<Longrightarrow> f s = Some (g s)"
  shows "\<exists>t' ls'. remap_terminal_references f t = Some t' \<and> states t' = states t \<and> holds_lists (action_lists t') ls' \<and>
    length ls' = length ls \<and>
    (\<forall>k < length ls. ls' ! k = (if k \<in> live_indices (states t) then map (map_shift g) (ls ! k) else ls ! k))"
proof -
  let ?is = "concat (map (\<lambda>st. map (\<lambda>(_, a). id_index a) (terminal_entries st)) (states t))"
  have len: "pool_len (action_lists t) = length ls" using h by (simp add: pool_len_def holds_lists_def)
  obtain live where live: "mark_live (replicate (length ls) False) ?is = Some live" "length live = length ls"
      "\<forall>k < length ls. live ! k \<longleftrightarrow> k \<in> live_indices (states t)"
    using mark_live_correct [of ?is "replicate (length ls) False"] ids unfolding set_live by auto
  have "remap_ranges f live 0 (ranges_from 0 ls) (concat ls) = Some (concat (remap_lists g live 0 ls))"
    using remap_ranges_correct [of live "[]" ls f g] live(2,3) f by simp
  then have "remap_terminal_references f t =
      Some (t\<lparr>action_lists := (action_lists t)\<lparr>actions := concat (remap_lists g live 0 ls), remap_scratch := live\<rparr>\<rparr>)"
    using h live(1) len by (simp add: remap_terminal_references_def Let_def holds_lists_def)
  moreover have "holds_lists ((action_lists t)\<lparr>actions := concat (remap_lists g live 0 ls), remap_scratch := live\<rparr>) (remap_lists g live 0 ls)"
    using h by (simp add: holds_lists_def ranges_from_remap)
  ultimately show ?thesis using live(3) by (auto simp: nth_remap_lists intro!: exI [of _ "remap_lists g live 0 ls"])
qed

lemma action_list_deref:
  "deref (push_action l a) = deref l @ [a]"
  "fst (pop_action l) = (if deref l = [] then None else Some (last (deref l)))"
  "deref (snd (pop_action l)) = butlast (deref l)"
  "deref (clear_actions l) = []"
  "deref (keep_last l) = (if deref l = [] then [] else [last (deref l)])"
  by (cases l; simp add: clear_actions_def)+

section \<open>Properties\<close>

text \<open>The variants of an action list are one list: \<open>push\<close>, \<open>pop\<close>, \<open>clear\<close>, \<open>keep_last\<close> and
  \<open>from_slice\<close> act on the dereferenced slice as on a vector, whatever variant stores it, and two
  lists are equal exactly when their slices are.\<close>

theorem action_list_is_vector:
  "deref (push_action l a) = deref l @ [a] \<and>
   fst (pop_action l) = (if deref l = [] then None else Some (last (deref l))) \<and>
   deref (snd (pop_action l)) = butlast (deref l) \<and> deref (clear_actions l) = [] \<and>
   deref (keep_last l) = (if deref l = [] then [] else [last (deref l)]) \<and>
   deref (from_slice as) = as \<and> (eq_actions l m \<longleftrightarrow> deref l = deref m)"
  by (simp add: action_list_deref eq_actions_def)

text \<open>A packed action list id returns the index and the flag it was built from, for every index below
  2^31, and \<open>set_reusable\<close> changes the flag and nothing else.\<close>

theorem action_list_id_round_trip:
  assumes "i < 2 ^ 31"
  shows "\<exists>a. new_id i r = Some a \<and> id_index a = i \<and> id_reusable a = r \<and>
    id_index (set_reusable a r') = i \<and> id_reusable (set_reusable a r') = r'"
  using new_id_parts [OF assms] set_reusable_parts by blast

theorem action_list_id_round_trip_witness:
  "\<exists>a. new_id 12 True = Some a \<and> id_index a = 12 \<and> id_reusable a = True \<and> id_reusable (set_reusable a False) = False"
proof -
  have "(12 :: nat) < 2 ^ 31" by simp
  from action_list_id_round_trip [OF this, of True False] show ?thesis by blast
qed

text \<open>C20. Interning a parse table stores every distinct action list once and replaces every terminal entry by
  an id that leads to its list and carries its flag; symbols, order and all other parts of the
  states are unchanged.\<close>

theorem intern_table_correct:
  assumes "states_size (states t) < 2 ^ 31"
  shows "\<exists>t' ls. intern_table t = Some t' \<and> holds_lists (action_lists t') ls \<and> distinct ls \<and>
    list_all2 (\<lambda>st st'. \<exists>es. st' = replace_entries st es \<and>
      list_all2 (\<lambda>(s, e) (s', a). s = s' \<and> list_at (action_lists t') (id_index a) = Some (deref (entry_actions e)) \<and>
        id_reusable a = reusable e) (terminal_entries st) es) (states t) (states t')"
proof -
  obtain t' ls where t: "intern_table t = Some t'" "holds_lists (action_lists t') ls" "distinct ls"
      "list_all2 (state_means ls) (states t) (states t')"
    using intern_table_holds [OF assms] by blast
  have "entry_means ls a e \<Longrightarrow> list_at (action_lists t') (id_index a) = Some (deref (entry_actions e)) \<and> id_reusable a = reusable e" for a e
    using list_at_holds [OF t(2)] by (simp add: entry_means_def)
  then have "list_all2 (\<lambda>st st'. \<exists>es. st' = replace_entries st es \<and>
      list_all2 (\<lambda>(s, e) (s', a). s = s' \<and> list_at (action_lists t') (id_index a) = Some (deref (entry_actions e)) \<and>
        id_reusable a = reusable e) (terminal_entries st) es) (states t) (states t')"
    using t(4) by (rule_tac list_all2_mono [OF t(4)]) (auto simp: state_means_def elim!: list_all2_mono)
  with t show ?thesis by blast
qed

definition sample_table :: "ParseTableEntry ParseTable" where
  "sample_table = \<lparr>states = [\<lparr>ps_id = 0,
       terminal_entries = [(end_sym, \<lparr>entry_actions = One PAccept, reusable = True\<rparr>), (terminal 0, \<lparr>entry_actions = One (Shift 0 False), reusable = False\<rparr>)],
       nonterminal_entries = [], reserved_words = new_tokens, lex_state_id = 0, external_lex_state_id = 0, core_id = 0,
       has_eof_gated_reduce = False\<rparr>],
     action_lists = default_action_pool, symbols = [], production_infos = [], max_aliased_production_length = 0, external_lex_states = []\<rparr>"

theorem intern_table_correct_witness:
  "\<exists>t' ls. intern_table sample_table = Some t' \<and> holds_lists (action_lists t') ls \<and> distinct ls \<and> length (states t') = 1"
proof -
  have "states_size (states sample_table) < 2 ^ 31" by (simp add: sample_table_def states_size_def entry_size_def)
  from intern_table_correct [OF this] show ?thesis by (auto simp: sample_table_def dest!: list_all2_lengthD)
qed

text \<open>C7. \<open>canonicalize\<close> rebuilds the pool so that every list that is still referenced is stored exactly once,
  with the empty list at index 0, and rewrites the ids of all states so that each leads to the same
  actions with the same flag as before.\<close>

theorem canonicalize_correct:
  assumes "holds_lists pool olds" "Suc (list_size olds) < 2 ^ 31"
    "\<forall>st \<in> set sts. \<forall>(s, a) \<in> set (terminal_entries st). id_index a < length olds"
  shows "\<exists>pool' ls sts'. canonicalize pool sts = Some (pool', sts') \<and> holds_lists pool' ([] # ls) \<and> distinct ([] # ls) \<and>
    list_all2 (\<lambda>st st'. \<exists>es. st' = st\<lparr>terminal_entries := es\<rparr> \<and>
      list_all2 (\<lambda>(s, a) (s', a'). s' = s \<and> id_reusable a' = id_reusable a \<and>
        list_at pool' (id_index a') = list_at pool (id_index a)) (terminal_entries st) es) sts sts'"
proof -
  obtain pool' ls sts' where c: "canonicalize pool sts = Some (pool', sts')" "holds_lists pool' ([] # ls)" "distinct ([] # ls)"
      "list_all2 (same_state olds ([] # ls)) sts sts'"
    using canonicalize_holds [OF assms] by blast
  have "list_all2 (\<lambda>st st'. \<exists>es. st' = st\<lparr>terminal_entries := es\<rparr> \<and>
      list_all2 (\<lambda>(s, a) (s', a'). s' = s \<and> id_reusable a' = id_reusable a \<and>
        list_at pool' (id_index a') = list_at pool (id_index a)) (terminal_entries st) es) sts sts'"
  proof (rule list.rel_mono_strong [OF c(4)])
    fix st st'
    assume st: "st \<in> set sts" and "same_state olds ([] # ls) st st'"
    then obtain es where es: "st' = st\<lparr>terminal_entries := es\<rparr>" "list_all2 (same_entry olds ([] # ls)) (terminal_entries st) es"
      by (auto simp: same_state_def)
    have "list_all2 (\<lambda>(s, a) (s', a'). s' = s \<and> id_reusable a' = id_reusable a \<and>
        list_at pool' (id_index a') = list_at pool (id_index a)) (terminal_entries st) es"
      by (rule list.rel_mono_strong [OF es(2)])
        (use st assms(3) in \<open>fastforce simp: same_entry_def list_at_holds [OF c(2)] list_at_holds [OF assms(1)]\<close>)
    with es(1) show "\<exists>es. st' = st\<lparr>terminal_entries := es\<rparr> \<and> list_all2 (\<lambda>(s, a) (s', a'). s' = s \<and> id_reusable a' = id_reusable a \<and>
        list_at pool' (id_index a') = list_at pool (id_index a)) (terminal_entries st) es" by blast
  qed
  with c show ?thesis by blast
qed

theorem canonicalize_correct_witness:
  "\<exists>pool' ls sts'. canonicalize \<lparr>actions = [PAccept, PAccept], pool_ranges = [\<lparr>offset = 0, range_len = 1\<rparr>, \<lparr>offset = 1, range_len = 1\<rparr>],
     remap_scratch = []\<rparr> [] = Some (pool', sts') \<and> holds_lists pool' ([] # ls)"
proof -
  let ?p = "\<lparr>actions = [PAccept, PAccept], pool_ranges = [\<lparr>offset = 0, range_len = 1\<rparr>, \<lparr>offset = 1, range_len = 1\<rparr>], remap_scratch = []\<rparr>"
  have "holds_lists ?p [[PAccept], [PAccept]]" "Suc (list_size [[PAccept], [PAccept]]) < 2 ^ 31"
    "\<forall>st \<in> set []. \<forall>(s, a) \<in> set (terminal_entries st). id_index a < length [[PAccept], [PAccept]]"
    by (simp_all add: holds_lists_def list_size_def)
  from canonicalize_correct [OF this] show ?thesis by blast
qed

text \<open>\<open>remap_terminal_references\<close> renames the shift targets of exactly the lists some state refers to, each
  once, and leaves the lists no state refers to as they are, so the renaming is never asked for a
  target that occurs only there.\<close>

theorem remap_live_only:
  assumes "holds_lists (action_lists t) ls" "live_indices (states t) \<subseteq> {..<length ls}"
    "\<And>k s. k \<in> live_indices (states t) \<Longrightarrow> s \<in> set (concat (map shift_target (ls ! k))) \<Longrightarrow> f s = Some (g s)"
  shows "\<exists>t' ls'. remap_terminal_references f t = Some t' \<and> states t' = states t \<and> holds_lists (action_lists t') ls' \<and>
    length ls' = length ls \<and>
    (\<forall>k < length ls. ls' ! k = (if k \<in> live_indices (states t) then map (map_shift g) (ls ! k) else ls ! k))"
  by (rule remap_terminal_holds [OF assms(1,2)]) (rule assms(3))

theorem remap_live_only_witness:
  "\<exists>t' ls'. remap_terminal_references (\<lambda>_. None) \<lparr>states = [],
       action_lists = \<lparr>actions = [Shift 1 False], pool_ranges = [\<lparr>offset = 0, range_len = 1\<rparr>], remap_scratch = []\<rparr>,
       symbols = [], production_infos = [], max_aliased_production_length = 0, external_lex_states = []\<rparr> = Some t' \<and>
     holds_lists (action_lists t') ls' \<and> ls' ! 0 = [Shift 1 False]"
proof -
  let ?t = "\<lparr>states = [], action_lists = \<lparr>actions = [Shift 1 False], pool_ranges = [\<lparr>offset = 0, range_len = 1\<rparr>], remap_scratch = []\<rparr>,
       symbols = [], production_infos = [], max_aliased_production_length = 0, external_lex_states = []\<rparr> :: ActionListId ParseTable"
  have "holds_lists (action_lists ?t) [[Shift 1 False]]" "live_indices (states ?t) \<subseteq> {..<length [[Shift 1 False]]}"
    "\<And>k s. k \<in> live_indices (states ?t) \<Longrightarrow> s \<in> set (concat (map shift_target ([[Shift 1 False]] ! k))) \<Longrightarrow> (\<lambda>_. None) s = Some (id s)"
    by (simp_all add: holds_lists_def live_indices_def)
  from remap_live_only [OF this] show ?thesis by (auto simp: live_indices_def)
qed

end
