(* ===== verification/Dedup.thy ===== *)
theory Dedup
  imports Prelude
begin

text \<open>
  \<^verbatim>\<open>crates/generate/src/dedup.rs\<close>: the partition refinement shared by the minimization of the lex
  table and of the parse table. A partition of the states is held twice, as the list of states of each
  group and as the group of each state; one pass splits every group from \<open>start_group_id\<close> on in
  two, and visits the groups it creates as well.
\<close>

section \<open>The refinement pass\<close>

text \<open>The closure \<open>should_split\<close> is a function of the two states and of the current group ids, with
  \<^term>\<open>None\<close> for a panic.\<close>

type_synonym 's splitter = "'s \<Rightarrow> 's \<Rightarrow> nat list \<Rightarrow> bool option"

fun split_right :: "'s splitter \<Rightarrow> 's list \<Rightarrow> nat list \<Rightarrow> 's \<Rightarrow> nat list \<Rightarrow> bool list \<Rightarrow> nat list \<Rightarrow> (bool list \<times> nat list) option" where
  "split_right should_split states gids left [] is_split split_ids = Some (is_split, split_ids)"
| "split_right should_split states gids left (r # rs) is_split split_ids = do {
     b \<leftarrow> vec_get is_split r;
     if b then split_right should_split states gids left rs is_split split_ids
     else do {
       right \<leftarrow> vec_get states r;
       differ \<leftarrow> should_split left right gids;
       if differ
       then do {
         is_split' \<leftarrow> vec_set is_split r True;
         split_right should_split states gids left rs is_split' (split_ids @ [r])
       }
       else split_right should_split states gids left rs is_split split_ids
     }
   }"

fun split_left :: "'s splitter \<Rightarrow> 's list \<Rightarrow> nat list \<Rightarrow> nat list \<Rightarrow> bool list \<Rightarrow> nat list \<Rightarrow> (bool list \<times> nat list) option" where
  "split_left should_split states gids [] is_split split_ids = Some (is_split, split_ids)"
| "split_left should_split states gids (l # ls) is_split split_ids = do {
     b \<leftarrow> vec_get is_split l;
     if b then split_left should_split states gids ls is_split split_ids
     else do {
       left \<leftarrow> vec_get states l;
       (is_split', split_ids') \<leftarrow> split_right should_split states gids left ls is_split split_ids;
       split_left should_split states gids ls is_split' split_ids'
     }
   }"

fun retain_unsplit :: "bool list \<Rightarrow> nat list \<Rightarrow> nat list option" where
  "retain_unsplit is_split [] = Some []"
| "retain_unsplit is_split (i # ids) = do {
     b \<leftarrow> vec_get is_split i;
     kept \<leftarrow> retain_unsplit is_split ids;
     Some (if b then kept else i # kept)
   }"

fun assign_group :: "nat \<Rightarrow> nat list \<Rightarrow> nat list \<Rightarrow> bool list \<Rightarrow> (nat list \<times> bool list) option" where
  "assign_group new_id [] gids is_split = Some (gids, is_split)"
| "assign_group new_id (i # ids) gids is_split = do {
     gids' \<leftarrow> vec_set gids i new_id;
     is_split' \<leftarrow> vec_set is_split i False;
     assign_group new_id ids gids' is_split'
   }"

definition split_group :: "'s splitter \<Rightarrow> 's list \<Rightarrow> nat \<Rightarrow> nat list list \<Rightarrow> nat list \<Rightarrow> bool list \<Rightarrow>
    (nat list list \<times> nat list \<times> bool list \<times> bool) option" where
  "split_group should_split states group_id groups gids is_split = do {
     state_ids \<leftarrow> vec_get groups group_id;
     (is_split', split_ids) \<leftarrow> split_left should_split states gids state_ids is_split [];
     if split_ids = [] then Some (groups, gids, is_split', False)
     else do {
       kept \<leftarrow> retain_unsplit is_split' state_ids;
       (gids', is_split'') \<leftarrow> assign_group (as_u32 (length groups)) split_ids gids is_split';
       Some (groups[group_id := kept] @ [split_ids], gids', is_split'', True)
     }
   }"

partial_function (option) split_groups_loop :: "'s splitter \<Rightarrow> 's list \<Rightarrow> nat \<Rightarrow> nat list list \<Rightarrow> nat list \<Rightarrow> bool list \<Rightarrow> bool \<Rightarrow>
    (nat list list \<times> nat list \<times> bool) option" where
  "split_groups_loop should_split states group_id groups gids is_split result =
     (if group_id < length groups then do {
        (groups', gids', is_split', changed) \<leftarrow> split_group should_split states group_id groups gids is_split;
        split_groups_loop should_split states (group_id + 1) groups' gids' is_split' (result \<or> changed)
      }
      else Some (groups, gids, result))"

definition split_state_id_groups :: "'s splitter \<Rightarrow> 's list \<Rightarrow> nat list list \<Rightarrow> nat list \<Rightarrow> nat \<Rightarrow> (nat list list \<times> nat list \<times> bool) option" where
  "split_state_id_groups should_split states groups gids start_group_id =
     split_groups_loop should_split states start_group_id groups gids (replicate (length states) False) False"

section \<open>Partitions\<close>

definition part :: "nat list list \<Rightarrow> nat list \<Rightarrow> bool" where
  "part groups gids \<longleftrightarrow>
     (\<forall>s < length gids. gids ! s < length groups) \<and>
     (\<forall>g < length groups. distinct (groups ! g) \<and> (\<forall>s. s \<in> set (groups ! g) \<longleftrightarrow> s < length gids \<and> gids ! s = g))"

lemma partD:
  assumes "part groups gids"
  shows "s < length gids \<Longrightarrow> gids ! s < length groups"
    and "g < length groups \<Longrightarrow> distinct (groups ! g)"
    and "g < length groups \<Longrightarrow> s \<in> set (groups ! g) \<longleftrightarrow> s < length gids \<and> gids ! s = g"
  using assms by (auto simp: part_def)

section \<open>One group\<close>

text \<open>
  What the two inner loops compute, for a group without duplicates: which members are split off,
  in terms of the members passed already.
\<close>

definition marks :: "bool list \<Rightarrow> nat list \<Rightarrow> bool" where
  "marks is_split ids \<longleftrightarrow> (\<forall>s < length is_split. is_split ! s \<longleftrightarrow> s \<in> set ids)"

lemma marks_Nil [simp]: "marks (replicate n False) []"
  by (simp add: marks_def)

lemma marks_add: "marks is_split ids \<Longrightarrow> marks (is_split[r := True]) (ids @ [r])"
  by (cases "r < length is_split") (auto simp: marks_def nth_list_update)

lemma split_right_spec:
  assumes "length is_split = length states" "\<forall>r \<in> set rs. r < length states" "marks is_split ids" "distinct rs"
    "\<forall>r \<in> set rs. sp left (states ! r) gids \<noteq> None"
  shows "\<exists>new is_split'. split_right sp states gids left rs is_split ids = Some (is_split', ids @ new) \<and>
    length is_split' = length states \<and> marks is_split' (ids @ new) \<and>
    new = filter (\<lambda>r. r \<notin> set ids \<and> sp left (states ! r) gids = Some True) rs"
  using assms
proof (induction rs arbitrary: is_split ids)
  case Nil
  then show ?case by simp
next
  case (Cons r rs)
  have r: "vec_get is_split r = Some (r \<in> set ids)" "vec_get states r = Some (states ! r)"
    using Cons.prems by (auto simp: marks_def)
  show ?case
  proof (cases "r \<notin> set ids \<and> sp left (states ! r) gids = Some True")
    case False
    then have "r \<in> set ids \<or> sp left (states ! r) gids = Some False" using Cons.prems(5) by auto
    then show ?thesis using Cons.IH [OF Cons.prems(1) _ Cons.prems(3)] Cons.prems by (auto simp: r)
  next
    case True
    have "\<exists>new is_split'. split_right sp states gids left rs (is_split[r := True]) (ids @ [r]) = Some (is_split', (ids @ [r]) @ new) \<and>
      length is_split' = length states \<and> marks is_split' ((ids @ [r]) @ new) \<and>
      new = filter (\<lambda>q. q \<notin> set (ids @ [r]) \<and> sp left (states ! q) gids = Some True) rs"
      using Cons.prems by (intro Cons.IH marks_add) auto
    then obtain new is_split' where ih:
      "split_right sp states gids left rs (is_split[r := True]) (ids @ [r]) = Some (is_split', (ids @ [r]) @ new)"
      "length is_split' = length states" "marks is_split' ((ids @ [r]) @ new)"
      "new = filter (\<lambda>q. q \<notin> set (ids @ [r]) \<and> sp left (states ! q) gids = Some True) rs" by blast
    have "filter (\<lambda>q. q \<notin> set (ids @ [r]) \<and> sp left (states ! q) gids = Some True) rs =
      filter (\<lambda>q. q \<notin> set ids \<and> sp left (states ! q) gids = Some True) rs"
      using Cons.prems(4) by (intro filter_cong) auto
    moreover have "r < length is_split" using Cons.prems by simp
    ultimately show ?thesis using ih True by (intro exI [of _ "r # new"] exI [of _ is_split']) (simp add: vec_set_def r)
  qed
qed

lemma split_left_spec:
  assumes "length is_split = length states" "\<forall>r \<in> set ls. r < length states" "marks is_split ids" "distinct ls"
    "\<forall>l \<in> set ls. \<forall>r \<in> set ls. sp (states ! l) (states ! r) gids \<noteq> None"
  shows "\<exists>new is_split'. split_left sp states gids ls is_split ids = Some (is_split', ids @ new) \<and>
    length is_split' = length states \<and> marks is_split' (ids @ new) \<and> set new \<subseteq> set ls \<and> set new \<inter> set ids = {} \<and> distinct new \<and>
    (ls \<noteq> [] \<and> hd ls \<notin> set ids \<longrightarrow> hd ls \<notin> set new) \<and>
    (new = [] \<longrightarrow> (\<forall>i j. i < j \<and> j < length ls \<and> ls ! i \<notin> set ids \<and> ls ! j \<notin> set ids \<longrightarrow>
       sp (states ! (ls ! i)) (states ! (ls ! j)) gids = Some False))"
  using assms
proof (induction ls arbitrary: is_split ids)
  case Nil
  then show ?case by simp
next
  case (Cons l ls)
  have l: "vec_get is_split l = Some (l \<in> set ids)" "vec_get states l = Some (states ! l)"
    using Cons.prems by (auto simp: marks_def)
  show ?case
  proof (cases "l \<in> set ids")
    case True
    obtain new is_split' where ih: "split_left sp states gids ls is_split ids = Some (is_split', ids @ new)"
      "length is_split' = length states" "marks is_split' (ids @ new)" "set new \<subseteq> set ls" "set new \<inter> set ids = {}" "distinct new"
      "new = [] \<longrightarrow> (\<forall>i j. i < j \<and> j < length ls \<and> ls ! i \<notin> set ids \<and> ls ! j \<notin> set ids \<longrightarrow>
         sp (states ! (ls ! i)) (states ! (ls ! j)) gids = Some False)"
      using Cons.IH [OF Cons.prems(1) _ Cons.prems(3)] Cons.prems(2,4,5) by fastforce
    have "sp (states ! ((l # ls) ! i)) (states ! ((l # ls) ! j)) gids = Some False"
      if "new = []" "i < j" "j < length (l # ls)" "(l # ls) ! i \<notin> set ids" "(l # ls) ! j \<notin> set ids" for i j
      using that True ih(7) by (cases i; cases j) auto
    then show ?thesis using ih(1-6) True by (intro exI [of _ new] exI [of _ is_split']) (auto simp: l)
  next
    case False
    obtain new1 is1 where 1: "split_right sp states gids (states ! l) ls is_split ids = Some (is1, ids @ new1)"
      "length is1 = length states" "marks is1 (ids @ new1)"
      "new1 = filter (\<lambda>r. r \<notin> set ids \<and> sp (states ! l) (states ! r) gids = Some True) ls"
      using split_right_spec [OF Cons.prems(1) _ Cons.prems(3), of ls sp "states ! l" gids] Cons.prems(2,4,5) by auto
    have "\<forall>r\<in>set ls. r < length states" "distinct ls" "\<forall>l \<in> set ls. \<forall>r \<in> set ls. sp (states ! l) (states ! r) gids \<noteq> None"
      using Cons.prems by auto
    from Cons.IH [OF 1(2) this(1) 1(3) this(2,3)] obtain new is_split' where ih:
      "split_left sp states gids ls is1 (ids @ new1) = Some (is_split', (ids @ new1) @ new)"
      "length is_split' = length states" "marks is_split' ((ids @ new1) @ new)" "set new \<subseteq> set ls" "set new \<inter> set (ids @ new1) = {}" "distinct new"
      "new = [] \<longrightarrow> (\<forall>i j. i < j \<and> j < length ls \<and> ls ! i \<notin> set (ids @ new1) \<and> ls ! j \<notin> set (ids @ new1) \<longrightarrow>
         sp (states ! (ls ! i)) (states ! (ls ! j)) gids = Some False)" by blast
    have n1: "set new1 \<subseteq> set ls" "set new1 \<inter> set ids = {}" "distinct new1" using 1(4) Cons.prems(4) by auto
    have "sp (states ! ((l # ls) ! i)) (states ! ((l # ls) ! j)) gids = Some False"
      if e: "new1 @ new = []" and ij: "i < j" "j < length (l # ls)" "(l # ls) ! i \<notin> set ids" "(l # ls) ! j \<notin> set ids" for i j
    proof (cases i)
      case 0
      then have "(l # ls) ! j \<in> set ls" using ij by (cases j) auto
      moreover have "filter (\<lambda>r. r \<notin> set ids \<and> sp (states ! l) (states ! r) gids = Some True) ls = []" using e 1(4) by simp
      ultimately have "sp (states ! l) (states ! ((l # ls) ! j)) gids \<noteq> Some True" using ij by (auto simp: filter_empty_conv)
      moreover have "sp (states ! l) (states ! ((l # ls) ! j)) gids \<noteq> None" using Cons.prems(5) ij(2) nth_mem [OF ij(2)] by (metis list.set_intros(1))
      ultimately show ?thesis using 0 by auto
    next
      case (Suc i')
      then show ?thesis using e ij ih(7) by (cases j) auto
    qed
    moreover have "l \<notin> set (new1 @ new)" using n1 ih(4) Cons.prems(4) by auto
    ultimately show ?thesis
      using ih(1-6) n1 False 1(1) by (intro exI [of _ "new1 @ new"] exI [of _ is_split']) (auto simp: l)
  qed
qed

text \<open>
  A relation \<open>E\<close> on the states that the closure respects: whenever related states have the same group, the closure treats
  them alike, in either position, and does not separate them. No pass may then separate related states.
\<close>

definition respected :: "'s splitter \<Rightarrow> 's list \<Rightarrow> nat list \<Rightarrow> (nat \<Rightarrow> nat \<Rightarrow> bool) \<Rightarrow> bool" where
  "respected sp states gids E \<longleftrightarrow> (\<forall>s < length states. \<forall>t < length states. E s t \<longrightarrow>
     sp (states ! s) (states ! t) gids = Some False \<and>
     (\<forall>l < length states. sp (states ! l) (states ! s) gids = sp (states ! l) (states ! t) gids \<and>
        sp (states ! s) (states ! l) gids = sp (states ! l) (states ! s) gids))"

lemma respectedD:
  assumes "respected sp states gids E" "s < length states" "t < length states" "E s t"
  shows "sp (states ! s) (states ! t) gids = Some False"
    and "l < length states \<Longrightarrow> sp (states ! l) (states ! s) gids = sp (states ! l) (states ! t) gids"
    and "l < length states \<Longrightarrow> sp (states ! s) (states ! l) gids = sp (states ! l) (states ! s) gids"
  using assms unfolding respected_def by blast+

text \<open>The members \<open>K\<close> of the group that were passed as a left state and kept do not differ from what is still to be looked at.\<close>

lemma split_left_respects:
  assumes "length is_split = length states" "\<forall>r \<in> set ls. r < length states" "marks is_split ids" "distinct ls"
    "\<forall>l \<in> set ls. \<forall>r \<in> set ls. sp (states ! l) (states ! r) gids \<noteq> None"
    and resp: "respected sp states gids E" and sym: "\<forall>s t. E s t \<longrightarrow> E t s"
    and K: "\<forall>k \<in> K. k < length states \<and> (\<forall>r \<in> set ls. r \<notin> set ids \<longrightarrow> sp (states ! k) (states ! r) gids = Some False)"
    and closed: "\<forall>s \<in> set ls. \<forall>t \<in> set ls. E s t \<longrightarrow> (s \<in> set ids \<longleftrightarrow> t \<in> set ids)"
    and run: "split_left sp states gids ls is_split ids = Some (is_split', ids')"
  shows "(\<forall>s \<in> set ls. \<forall>t \<in> set ls. E s t \<longrightarrow> (s \<in> set ids' \<longleftrightarrow> t \<in> set ids')) \<and>
    (\<forall>k \<in> K. \<forall>t \<in> set ls. E k t \<and> t \<notin> set ids \<longrightarrow> t \<notin> set ids')"
  using assms(1-5) K closed run
proof (induction ls arbitrary: is_split ids K)
  case Nil
  then show ?case by simp
next
  case (Cons l ls)
  have l: "vec_get is_split l = Some (l \<in> set ids)" "vec_get states l = Some (states ! l)"
    using Cons.prems by (auto simp: marks_def)
  have ls: "\<forall>r \<in> set ls. r < length states" "distinct ls" "\<forall>l \<in> set ls. \<forall>r \<in> set ls. sp (states ! l) (states ! r) gids \<noteq> None"
    using Cons.prems by auto
  show ?case
  proof (cases "l \<in> set ids")
    case True
    then have run': "split_left sp states gids ls is_split ids = Some (is_split', ids')" using Cons.prems(8) by (simp add: l)
    have K': "\<forall>k \<in> K. k < length states \<and> (\<forall>r \<in> set ls. r \<notin> set ids \<longrightarrow> sp (states ! k) (states ! r) gids = Some False)"
      and c: "\<forall>s \<in> set ls. \<forall>t \<in> set ls. E s t \<longrightarrow> (s \<in> set ids \<longleftrightarrow> t \<in> set ids)" using Cons.prems(6,7) by simp_all
    note IH = Cons.IH [OF Cons.prems(1) ls(1) Cons.prems(3) ls(2,3) K' c run']
    have sub: "set ids \<subseteq> set ids'"
      using split_left_spec [OF Cons.prems(1) ls(1) Cons.prems(3) ls(2), of sp gids, OF ls(3)] run' by auto
    have "l \<in> set ids'" "t \<in> set ls \<Longrightarrow> E l t \<or> E t l \<Longrightarrow> t \<in> set ids'" for t using True Cons.prems(7) sub by auto
    then show ?thesis using IH True by simp
  next
    case False
    obtain new1 is1 where 1: "split_right sp states gids (states ! l) ls is_split ids = Some (is1, ids @ new1)"
      "length is1 = length states" "marks is1 (ids @ new1)"
      "new1 = filter (\<lambda>r. r \<notin> set ids \<and> sp (states ! l) (states ! r) gids = Some True) ls"
      using split_right_spec [OF Cons.prems(1) _ Cons.prems(3), of ls sp "states ! l" gids] Cons.prems(2,4,5) by auto
    have run': "split_left sp states gids ls is1 (ids @ new1) = Some (is_split', ids')" using Cons.prems(8) False by (simp add: l 1(1))
    have ll: "l < length states" using Cons.prems(2) by simp
    have undiff: "sp (states ! l) (states ! r) gids = Some False" if "r \<in> set ls" "r \<notin> set (ids @ new1)" for r
      using that 1(4) Cons.prems(5) by (cases "sp (states ! l) (states ! r) gids") auto
    have K': "\<forall>k \<in> insert l K. k < length states \<and> (\<forall>r \<in> set ls. r \<notin> set (ids @ new1) \<longrightarrow> sp (states ! k) (states ! r) gids = Some False)"
      using Cons.prems(6) undiff ll by auto
    have same: "s \<in> set new1 \<longleftrightarrow> t \<in> set new1" if "s \<in> set ls" "t \<in> set ls" "E s t" for s t
      using that Cons.prems(7) respectedD(2) [OF resp _ _ that(3) ll] ls(1) by (auto simp: 1(4))
    have "\<forall>s \<in> set ls. \<forall>t \<in> set ls. E s t \<longrightarrow> (s \<in> set (ids @ new1) \<longleftrightarrow> t \<in> set (ids @ new1))"
      using Cons.prems(7) same by auto
    note IH = Cons.IH [OF 1(2) ls(1) 1(3) ls(2,3) K' this run']
    have sub: "set (ids @ new1) \<subseteq> set ids'" "l \<notin> set ids'"
      using split_left_spec [OF 1(2) ls(1) 1(3) ls(2), of sp gids, OF ls(3)] run' False Cons.prems(4) 1(4) by auto
    have kept: "t \<notin> set ids'" if "k \<in> insert l K" "E k t" "t \<in> set ls" "t \<notin> set ids" for k t
    proof -
      have kl: "k < length states" using that(1) Cons.prems(6) ll by blast
      have "sp (states ! l) (states ! t) gids = sp (states ! l) (states ! k) gids"
        using respectedD(2) [OF resp kl _ that(2) ll] ls(1) that(3) by simp
      also have "\<dots> = Some False"
      proof (cases "k = l")
        case True
        then show ?thesis using respectedD [OF resp ll _ that(2) [unfolded True]] ls(1) that(3) ll by auto
      next
        case ne: False
        then have "sp (states ! k) (states ! l) gids = Some False" using that(1) Cons.prems(6) False by auto
        then show ?thesis using respectedD(3) [OF resp kl _ that(2) ll] ls(1) that(3) by simp
      qed
      finally have "t \<notin> set (ids @ new1)" using that(4) by (simp add: 1(4))
      then show ?thesis using IH that(1-3) by blast
    qed
    have "t \<notin> set ids'" if "E l t \<or> E t l" "t \<in> set ls" for t
      using kept [of l t] that sym Cons.prems(7) False by auto
    then show ?thesis using IH kept sub(2) by simp blast
  qed
qed

lemma retain_unsplit_spec:
  "\<forall>i \<in> set ids. i < length is_split \<Longrightarrow> retain_unsplit is_split ids = Some (filter (\<lambda>i. \<not> is_split ! i) ids)"
  by (induction ids) (auto simp: vec_get_def)

lemma assign_group_spec:
  assumes "\<forall>i \<in> set ids. i < length gids \<and> i < length is_split"
  shows "\<exists>gids' is_split'. assign_group g ids gids is_split = Some (gids', is_split') \<and>
    length gids' = length gids \<and> length is_split' = length is_split \<and>
    (\<forall>s < length gids. gids' ! s = (if s \<in> set ids then g else gids ! s)) \<and>
    (\<forall>s < length is_split. is_split' ! s \<longleftrightarrow> is_split ! s \<and> s \<notin> set ids)"
  using assms
proof (induction ids arbitrary: gids is_split)
  case Nil
  then show ?case by simp
next
  case (Cons i ids)
  have "\<forall>k \<in> set ids. k < length (gids[i := g]) \<and> k < length (is_split[i := False])" using Cons.prems by simp
  from Cons.IH [OF this] obtain gids' is_split' where ih:
    "assign_group g ids (gids[i := g]) (is_split[i := False]) = Some (gids', is_split')"
    "length gids' = length gids" "length is_split' = length is_split"
    "\<forall>s < length gids. gids' ! s = (if s \<in> set ids then g else gids[i := g] ! s)"
    "\<forall>s < length is_split. is_split' ! s \<longleftrightarrow> is_split[i := False] ! s \<and> s \<notin> set ids" by auto
  then show ?case using Cons.prems by (auto simp: vec_set_def nth_list_update)
qed


section \<open>The whole pass\<close>

definition stable_group :: "'s splitter \<Rightarrow> 's list \<Rightarrow> nat list \<Rightarrow> nat list \<Rightarrow> bool" where
  "stable_group sp states gids ids \<longleftrightarrow>
     (\<forall>i j. i < j \<and> j < length ids \<longrightarrow> sp (states ! (ids ! i)) (states ! (ids ! j)) gids = Some False)"

text \<open>The closure does not panic on the states of the table, for group ids of every state.\<close>

definition splits_defined :: "'s splitter \<Rightarrow> 's list \<Rightarrow> bool" where
  "splits_defined sp states \<longleftrightarrow>
     (\<forall>gids. length gids = length states \<longrightarrow> (\<forall>a \<in> set states. \<forall>b \<in> set states. sp a b gids \<noteq> None))"

text \<open>Related states are in one group; \<open>unseparable\<close> says that the closure respects the relation whatever partition is at hand that does
  not separate related states, so that the relation can never be told apart.\<close>

definition together :: "(nat \<Rightarrow> nat \<Rightarrow> bool) \<Rightarrow> nat list \<Rightarrow> bool" where
  "together E gids \<longleftrightarrow> (\<forall>s < length gids. \<forall>t < length gids. E s t \<longrightarrow> gids ! s = gids ! t)"

definition unseparable :: "'s splitter \<Rightarrow> 's list \<Rightarrow> (nat \<Rightarrow> nat \<Rightarrow> bool) \<Rightarrow> bool" where
  "unseparable sp states E \<longleftrightarrow> (\<forall>s t. E s t \<longrightarrow> E t s) \<and>
     (\<forall>gids. length gids = length states \<and> together E gids \<longrightarrow> respected sp states gids E)"

definition finer :: "nat list \<Rightarrow> nat list \<Rightarrow> bool" where
  "finer gids' gids \<longleftrightarrow> length gids' = length gids \<and>
     (\<forall>s < length gids. \<forall>t < length gids. gids' ! s = gids' ! t \<longrightarrow> gids ! s = gids ! t)"

lemma finerD: "finer gids' gids \<Longrightarrow> s < length gids \<Longrightarrow> t < length gids \<Longrightarrow> gids' ! s = gids' ! t \<Longrightarrow> gids ! s = gids ! t"
  unfolding finer_def by blast

lemma finer_refl [simp]: "finer gids gids"
  by (simp add: finer_def)

lemma finer_trans: "finer a b \<Longrightarrow> finer b c \<Longrightarrow> finer a c"
  unfolding finer_def by metis

definition excess :: "nat list list \<Rightarrow> nat" where
  "excess groups = (\<Sum>g \<leftarrow> groups. length g - 1)"

lemma split_group_spec:
  assumes part: "part groups gids" and len: "length states = length gids" and def: "splits_defined sp states"
    and iss: "length is_split = length states" "marks is_split []"
    and gid: "group_id < length groups" and bnd: "length groups < 2 ^ 32"
  shows "\<exists>groups' gids' is_split' ch. split_group sp states group_id groups gids is_split = Some (groups', gids', is_split', ch) \<and>
    length is_split' = length states \<and> marks is_split' [] \<and> part groups' gids' \<and> finer gids' gids \<and>
    (\<forall>E. unseparable sp states E \<and> together E gids \<longrightarrow> together E gids') \<and>
    (if ch then \<exists>kept new. groups' = groups[group_id := kept] @ [new] \<and> kept \<noteq> [] \<and> new \<noteq> [] \<and>
                   length kept + length new = length (groups ! group_id)
     else groups' = groups \<and> gids' = gids \<and> stable_group sp states gids (groups ! group_id))"
proof -
  let ?ids = "groups ! group_id"
  have ids: "\<forall>r \<in> set ?ids. r < length states" "distinct ?ids" using partD [OF part] gid len by auto
  have "\<forall>l \<in> set ?ids. \<forall>r \<in> set ?ids. sp (states ! l) (states ! r) gids \<noteq> None"
    using def ids(1) len by (auto simp: splits_defined_def)
  note def' = this
  obtain new is1 where sl: "split_left sp states gids ?ids is_split [] = Some (is1, new)"
    "length is1 = length states" "marks is1 new" "set new \<subseteq> set ?ids" "distinct new" "?ids \<noteq> [] \<longrightarrow> hd ?ids \<notin> set new"
    "new = [] \<longrightarrow> stable_group sp states gids ?ids"
    using split_left_spec [OF iss(1) ids(1) iss(2) ids(2), of sp gids] def' unfolding stable_group_def by auto
  have get: "vec_get groups group_id = Some ?ids" using gid by simp
  show ?thesis
  proof (cases "new = []")
    case True
    then have "split_group sp states group_id groups gids is_split = Some (groups, gids, is1, False)"
      unfolding split_group_def get by (simp add: sl(1))
    with True sl part show ?thesis by (intro exI [of _ groups] exI [of _ gids] exI [of _ is1] exI [of _ False]) simp
  next
    case False
    define kept where "kept = filter (\<lambda>i. i \<notin> set new) ?ids"
    have "retain_unsplit is1 ?ids = Some (filter (\<lambda>i. \<not> is1 ! i) ?ids)" using ids sl(2) by (intro retain_unsplit_spec) simp
    also have "filter (\<lambda>i. \<not> is1 ! i) ?ids = kept"
      unfolding kept_def using sl(2,3) ids by (intro filter_cong) (auto simp: marks_def)
    finally have ret: "retain_unsplit is1 ?ids = Some kept" .
    have "\<forall>i \<in> set new. i < length gids \<and> i < length is1" using ids sl len by auto
    from assign_group_spec [OF this, of "length groups"] obtain gids' is2 where ag:
      "assign_group (length groups) new gids is1 = Some (gids', is2)" "length gids' = length gids" "length is2 = length is1"
      "\<forall>s < length gids. gids' ! s = (if s \<in> set new then length groups else gids ! s)"
      "\<forall>s < length is1. is2 ! s \<longleftrightarrow> is1 ! s \<and> s \<notin> set new" by blast
    let ?gs = "groups[group_id := kept] @ [new]"
    have run: "split_group sp states group_id groups gids is_split = Some (?gs, gids', is2, True)"
      unfolding split_group_def get using False bnd by (simp add: sl(1) ret ag(1))
    have news: "s \<in> set new \<Longrightarrow> s < length gids \<and> gids ! s = group_id" for s using sl(4) partD(3) [OF part gid] by auto
    have m2: "marks is2 []" using ag(5) sl(2,3) ag(3) by (auto simp: marks_def)
    have "distinct (?gs ! g) \<and> (\<forall>s. s \<in> set (?gs ! g) \<longleftrightarrow> s < length gids' \<and> gids' ! s = g)" if g: "g < length ?gs" for g
    proof (cases "g = length groups")
      case True
      have "s \<in> set new \<longleftrightarrow> s < length gids \<and> gids' ! s = length groups" for s
        using ag(4) news partD(1) [OF part, of s] by (auto split: if_splits)
      then show ?thesis using True sl(5) ag(2) by (simp add: nth_append)
    next
      case False
      then have g': "g < length groups" using g by simp
      show ?thesis
      proof (cases "g = group_id")
        case True
        have "s \<in> set kept \<longleftrightarrow> s < length gids \<and> gids' ! s = group_id" for s
          unfolding kept_def using ag(4) partD(3) [OF part gid, of s] gid by (auto split: if_splits)
        then show ?thesis using True gid ag(2) ids(2) by (simp add: nth_append kept_def)
      next
        case g2: False
        have "s \<in> set (groups ! g) \<longleftrightarrow> s < length gids \<and> gids' ! s = g" for s
          using ag(4) partD(3) [OF part g', of s] news [of s] g2 g' by (auto split: if_splits)
        then show ?thesis using g2 g' ag(2) partD(2) [OF part g'] by (simp add: nth_append)
      qed
    qed
    moreover have "\<forall>s < length gids'. gids' ! s < length ?gs" using ag(2,4) partD(1) [OF part] by (auto simp: less_SucI)
    ultimately have p': "part ?gs gids'" unfolding part_def by blast
    have fin: "finer gids' gids" unfolding finer_def
    proof (intro conjI allI impI)
      fix s t assume st: "s < length gids" "t < length gids" "gids' ! s = gids' ! t"
      then show "gids ! s = gids ! t"
        using ag(4) news [of s] news [of t] partD(1) [OF part st(1)] partD(1) [OF part st(2)] by (auto split: if_splits)
    qed (rule ag(2))
    have tog: "together E gids'" if E: "unseparable sp states E" "together E gids" for E
    proof -
      have "respected sp states gids E" "\<forall>s t. E s t \<longrightarrow> E t s" using E len unfolding unseparable_def by auto
      note resp = split_left_respects [where K = "{}", OF iss(1) ids(1) iss(2) ids(2) def' this _ _ sl(1)]
      have c: "s \<in> set ?ids \<Longrightarrow> t \<in> set ?ids \<Longrightarrow> E s t \<Longrightarrow> s \<in> set new \<longleftrightarrow> t \<in> set new" for s t using resp by auto
      show ?thesis unfolding together_def
      proof (intro allI impI)
        fix s t assume st: "s < length gids'" "t < length gids'" "E s t"
        then have "gids ! s = gids ! t" using E(2) ag(2) by (simp add: together_def)
        moreover have "s \<in> set ?ids \<longleftrightarrow> t \<in> set ?ids" unfolding partD(3) [OF part gid] using st ag(2) calculation by simp
        then have "s \<in> set new \<longleftrightarrow> t \<in> set new" using c [OF _ _ st(3)] sl(4) by blast
        ultimately show "gids' ! s = gids' ! t" using ag(2,4) st by simp
      qed
    qed
    have "hd ?ids \<in> set kept" unfolding kept_def using False sl(4,6) by (cases ?ids) auto
    moreover have "length kept + length new = length ?ids"
    proof -
      have "length (filter (\<lambda>i. i \<in> set new) ?ids) = card (set (filter (\<lambda>i. i \<in> set new) ?ids))"
        by (rule distinct_card [OF distinct_filter [OF ids(2)], symmetric])
      also have "set (filter (\<lambda>i. i \<in> set new) ?ids) = set new" using sl(4) by auto
      finally show ?thesis using sum_length_filter_compl [of "\<lambda>i. i \<in> set new" ?ids] distinct_card [OF sl(5)]
        by (simp add: kept_def)
    qed
    ultimately have "\<exists>kept new. ?gs = groups[group_id := kept] @ [new] \<and> kept \<noteq> [] \<and> new \<noteq> [] \<and>
        length kept + length new = length ?ids" using False by (intro exI [of _ kept] exI [of _ new]) auto
    then have fin2: "if True then \<exists>kept new. ?gs = groups[group_id := kept] @ [new] \<and> kept \<noteq> [] \<and> new \<noteq> [] \<and>
        length kept + length new = length ?ids else ?gs = groups \<and> gids' = gids \<and> stable_group sp states gids ?ids"
      by simp
    have "length is2 = length states" using ag(3) sl(2) by simp
    moreover have "\<forall>E. unseparable sp states E \<and> together E gids \<longrightarrow> together E gids'" using tog by blast
    ultimately show ?thesis using run m2 p' fin fin2 by (intro exI conjI) assumption+
  qed
qed

lemma excess_split:
  assumes "g < length groups" "kept \<noteq> []" "new \<noteq> []" "length kept + length new = length (groups ! g)"
  shows "length (groups[g := kept] @ [new]) + excess (groups[g := kept] @ [new]) = length groups + excess groups"
proof -
  have "excess (groups[g := kept]) + (length (groups ! g) - 1) = excess groups + (length kept - 1)"
    using assms(1) elem_le_sum_list [of g "map (\<lambda>g. length g - 1) groups"]
    by (simp add: excess_def map_update sum_list_update)
  moreover obtain k n where "length kept = Suc k" "length new = Suc n" using assms(2,3) by (cases kept; cases new) auto
  ultimately show ?thesis using assms(4) by (simp add: excess_def)
qed

definition todo :: "nat \<Rightarrow> nat list list \<Rightarrow> nat" where
  "todo g groups = (\<Sum>x \<leftarrow> drop g groups. length x + 1)"

lemma todo_split:
  assumes "g < length groups" "length new < length (groups ! g)"
  shows "todo (Suc g) (groups[g := kept] @ [new]) < todo g groups"
  using assms by (simp add: todo_def drop_update_cancel Cons_nth_drop_Suc [symmetric])

lemma todo_Suc: "g < length groups \<Longrightarrow> todo (Suc g) groups < todo g groups"
  by (simp add: todo_def Cons_nth_drop_Suc [symmetric])

definition pass_result :: "'s splitter \<Rightarrow> 's list \<Rightarrow> nat \<Rightarrow> nat list list \<Rightarrow> nat list \<Rightarrow> nat list list \<Rightarrow> nat list \<Rightarrow> bool" where
  "pass_result sp states start groups gids groups' gids' \<longleftrightarrow>
     part groups' gids' \<and> finer gids' gids \<and> take start groups' = take start groups \<and>
     length groups \<le> length groups' \<and> length groups' + excess groups' = length groups + excess groups \<and>
     ([] \<notin> set groups \<longrightarrow> [] \<notin> set groups') \<and>
     (\<forall>E. unseparable sp states E \<and> together E gids \<longrightarrow> together E gids') \<and>
     (length groups' = length groups \<longrightarrow> groups' = groups \<and> gids' = gids \<and>
        (\<forall>g. start \<le> g \<and> g < length groups \<longrightarrow> stable_group sp states gids (groups ! g)))"

lemma split_groups_loop_spec:
  assumes "part groups gids" "length states = length gids" "length is_split = length states" "marks is_split []"
    "length groups + excess groups < 2 ^ 32" and def: "splits_defined sp states"
  shows "\<exists>groups' gids'. split_groups_loop sp states gid groups gids is_split r =
      Some (groups', gids', r \<or> length groups < length groups') \<and> pass_result sp states gid groups gids groups' gids'"
  using assms(1-5)
proof (induction "todo gid groups" arbitrary: gid groups gids is_split r rule: less_induct)
  case less
  show ?case
  proof (cases "gid < length groups")
    case False
    then show ?thesis using less.prems(1) by (auto simp: split_groups_loop.simps pass_result_def)
  next
    case True
    obtain groups1 gids1 is1 ch where sg:
      "split_group sp states gid groups gids is_split = Some (groups1, gids1, is1, ch)"
      "length is1 = length states" "marks is1 []" "part groups1 gids1" "finer gids1 gids"
      and tog: "\<forall>E. unseparable sp states E \<and> together E gids \<longrightarrow> together E gids1" and sg6:
      "if ch then \<exists>kept new. groups1 = groups[gid := kept] @ [new] \<and> kept \<noteq> [] \<and> new \<noteq> [] \<and>
                   length kept + length new = length (groups ! gid)
       else groups1 = groups \<and> gids1 = gids \<and> stable_group sp states gids (groups ! gid)"
      using split_group_spec [OF less.prems(1,2) def less.prems(3,4) True] less.prems(5) by auto
    have len1: "length states = length gids1" using less.prems(2) sg(5) by (simp add: finer_def)
    show ?thesis
    proof (cases ch)
      case False
      then have e: "groups1 = groups" "gids1 = gids" "stable_group sp states gids (groups ! gid)" using sg6 by auto
      obtain groups' gids' where ih: "split_groups_loop sp states (Suc gid) groups gids is1 r =
          Some (groups', gids', r \<or> length groups < length groups')" "pass_result sp states (Suc gid) groups gids groups' gids'"
        using less.hyps [OF todo_Suc [OF True] less.prems(1,2) sg(2,3) less.prems(5)] by blast
      have "pass_result sp states gid groups gids groups' gids'"
        using ih(2) e(3) unfolding pass_result_def
        by (metis Suc_leI le_neq_implies_less take_Suc_conv_app_nth take_take min.absorb1 lessI less_imp_le)
      then show ?thesis using ih(1) sg(1) True False e by (subst split_groups_loop.simps) simp
    next
      case ch: True
      then obtain kept new where k: "groups1 = groups[gid := kept] @ [new]" "kept \<noteq> []" "new \<noteq> []"
        "length kept + length new = length (groups ! gid)" using sg6 by auto
      have "length new < length (groups ! gid)" using k(2,4) by (cases kept) auto
      then have dec: "todo (Suc gid) groups1 < todo gid groups" unfolding k(1) using True by (intro todo_split)
      have ex: "length groups1 + excess groups1 = length groups + excess groups"
        unfolding k(1) using excess_split [OF True k(2-4)] .
      then have bnd: "length groups1 + excess groups1 < 2 ^ 32" using less.prems(5) by simp
      obtain groups' gids' where ih: "split_groups_loop sp states (Suc gid) groups1 gids1 is1 True =
          Some (groups', gids', True)" "pass_result sp states (Suc gid) groups1 gids1 groups' gids'"
        using less.hyps [OF dec sg(4) len1 sg(2,3) bnd, of True] by auto
      have l: "length groups < length groups'" using ih(2) k(1) by (simp add: pass_result_def)
      have "take gid groups' = take gid groups1" using ih(2) unfolding pass_result_def
        by (metis take_take min.absorb1 lessI less_imp_le)
      also have "\<dots> = take gid groups" unfolding k(1) using True by simp
      finally have tk: "take gid groups' = take gid groups" .
      have ne: "[] \<notin> set groups \<longrightarrow> [] \<notin> set groups1" unfolding k(1) using k(2,3) by (auto dest!: set_update_subset_insert [THEN subsetD])
      have "pass_result sp states gid groups gids groups' gids'"
        using ih(2) tk l ne ex tog finer_trans [OF _ sg(5)] unfolding pass_result_def by simp
      then show ?thesis using ih(1) sg(1) True ch l by (subst split_groups_loop.simps) simp
    qed
  qed
qed

lemma split_state_id_groups_spec:
  assumes "part groups gids" "length states = length gids" "length groups + excess groups < 2 ^ 32" "splits_defined sp states"
  shows "\<exists>groups' gids'. split_state_id_groups sp states groups gids start =
      Some (groups', gids', length groups < length groups') \<and> pass_result sp states start groups gids groups' gids'"
  unfolding split_state_id_groups_def using split_groups_loop_spec [OF assms(1,2) _ _ assms(3,4), of _ start False] by simp


section \<open>Refining until nothing splits\<close>

text \<open>The callers repeat the pass as long as it reports a change.\<close>

partial_function (option) split_until_stable :: "'s splitter \<Rightarrow> 's list \<Rightarrow> nat list list \<Rightarrow> nat list \<Rightarrow> nat \<Rightarrow> (nat list list \<times> nat list) option" where
  "split_until_stable sp states groups gids start = do {
     (groups', gids', changed) \<leftarrow> split_state_id_groups sp states groups gids start;
     if changed then split_until_stable sp states groups' gids' start else Some (groups', gids')
   }"

lemma split_until_stable_spec:
  assumes "part groups gids" "length states = length gids" "length groups + excess groups < 2 ^ 32" "splits_defined sp states"
  shows "\<exists>groups' gids'. split_until_stable sp states groups gids start = Some (groups', gids') \<and>
    part groups' gids' \<and> finer gids' gids \<and> take start groups' = take start groups \<and> length groups \<le> length groups' \<and>
    length groups' + excess groups' = length groups + excess groups \<and>
    ([] \<notin> set groups \<longrightarrow> [] \<notin> set groups') \<and>
    (\<forall>g. start \<le> g \<and> g < length groups' \<longrightarrow> stable_group sp states gids' (groups' ! g)) \<and>
    (\<forall>E. unseparable sp states E \<and> together E gids \<longrightarrow> together E gids')"
  using assms(1-3)
proof (induction "excess groups" arbitrary: groups gids rule: less_induct)
  case less
  obtain groups1 gids1 where run: "split_state_id_groups sp states groups gids start =
      Some (groups1, gids1, length groups < length groups1)" "pass_result sp states start groups gids groups1 gids1"
    using split_state_id_groups_spec [OF less.prems assms(4)] by blast
  note r = run(2) [unfolded pass_result_def]
  show ?case
  proof (cases "length groups < length groups1")
    case False
    then have e: "groups1 = groups" "gids1 = gids" using r by auto
    have "\<forall>g. start \<le> g \<and> g < length groups \<longrightarrow> stable_group sp states gids (groups ! g)" using r e by simp
    then show ?thesis using run(1) False less.prems(1) e by (subst split_until_stable.simps) simp
  next
    case True
    have "excess groups1 < excess groups" using r True by simp
    moreover have "length states = length gids1" using r less.prems(2) by (simp add: finer_def)
    moreover have "length groups1 + excess groups1 < 2 ^ 32" using r less.prems(3) by simp
    ultimately obtain groups' gids' where ih: "split_until_stable sp states groups1 gids1 start = Some (groups', gids')"
      "part groups' gids'" "finer gids' gids1" "take start groups' = take start groups1" "length groups1 \<le> length groups'"
      "length groups' + excess groups' = length groups1 + excess groups1"
      "[] \<notin> set groups1 \<longrightarrow> [] \<notin> set groups'"
      "\<forall>g. start \<le> g \<and> g < length groups' \<longrightarrow> stable_group sp states gids' (groups' ! g)"
      "\<forall>E. unseparable sp states E \<and> together E gids1 \<longrightarrow> together E gids'"
      using less.hyps [of groups1 gids1] r by blast
    have "split_until_stable sp states groups gids start = Some (groups', gids')"
      using run(1) True ih(1) by (subst split_until_stable.simps) simp
    moreover have "finer gids' gids" using finer_trans [OF ih(3)] r by simp
    ultimately show ?thesis using ih(2,4,5,6,7,8,9) r by (intro exI [of _ groups'] exI [of _ gids']) simp
  qed
qed

section \<open>Correctness\<close>

text \<open>C14. Repeating the pass until it reports no change, the way its callers do, terminates for every consistent partition and
  every closure that does not panic. The result is a consistent partition that refines the given one, keeps the
  groups before \<open>start\<close> as they are, empties no group, and in which the closure separates no two states of a
  group from \<open>start\<close> on. It is no finer than it must be: states that a relation holds together, when the closure cannot
  tell related states apart as long as they share their groups, end in the same group.\<close>

theorem split_until_stable_coarsest:
  assumes "part groups gids" "length states = length gids" "length groups + excess groups < 2 ^ 32" "splits_defined sp states"
  shows "\<exists>groups' gids'. split_until_stable sp states groups gids start = Some (groups', gids') \<and>
    part groups' gids' \<and> finer gids' gids \<and> take start groups' = take start groups \<and>
    ([] \<notin> set groups \<longrightarrow> [] \<notin> set groups') \<and>
    (\<forall>g. start \<le> g \<and> g < length groups' \<longrightarrow> stable_group sp states gids' (groups' ! g)) \<and>
    (\<forall>E. unseparable sp states E \<and> together E gids \<longrightarrow> together E gids')"
  using split_until_stable_spec [OF assms, of start] by blast

text \<open>Four states with one successor each, separated by the groups of the successors.\<close>

definition by_successor :: "nat splitter" where
  "by_successor a b gids = Some (gids ! a \<noteq> gids ! b)"

theorem split_until_stable_coarsest_witness:
  "\<exists>groups' gids'. split_until_stable by_successor [2, 2, 3, 3] [[0, 1, 2], [3]] [0, 0, 0, 1] 0 = Some (groups', gids') \<and>
     part groups' gids' \<and> gids' ! 0 = gids' ! 1 \<and> gids' ! 0 \<noteq> gids' ! 2"
proof -
  let ?G = "[[0, 1, 2], [3 :: nat]]" and ?f = "[0, 0, 0, 1 :: nat]" and ?E = "\<lambda>s t. s < (2 :: nat) \<and> t < (2 :: nat)"
  have p: "part ?G ?f" unfolding part_def by (auto simp: less_Suc_eq numeral_eq_Suc)
  have E: "unseparable by_successor [2, 2, 3, 3] ?E" "together ?E ?f"
    by (auto simp: unseparable_def respected_def by_successor_def together_def less_2_cases_iff)
  have start: "length [2, 2, 3, 3 :: nat] = length ?f" "length ?G + excess ?G < 2 ^ 32" "splits_defined by_successor [2, 2, 3, 3]"
    by (simp_all add: excess_def splits_defined_def by_successor_def)
  obtain groups' gids' where r: "split_until_stable by_successor [2, 2, 3, 3] ?G ?f 0 = Some (groups', gids')" "part groups' gids'"
    "finer gids' ?f" "\<forall>g. 0 \<le> g \<and> g < length groups' \<longrightarrow> stable_group by_successor [2, 2, 3, 3] gids' (groups' ! g)"
    and tog: "\<forall>E. unseparable by_successor [2, 2, 3, 3] E \<and> together E ?f \<longrightarrow> together E gids'"
    using split_until_stable_coarsest [OF p start, of 0] by (elim exE conjE)
  have len: "length gids' = 4" using r(3) by (simp add: finer_def)
  have "together ?E gids'" using tog [THEN spec, of ?E] E by blast
  then have "gids' ! 0 = gids' ! 1" using len by (simp add: together_def)
  moreover have "gids' ! 0 \<noteq> gids' ! 2"
  proof
    assume eq: "gids' ! 0 = gids' ! 2"
    let ?g = "groups' ! (gids' ! 0)"
    have g: "gids' ! 0 < length groups'" using partD(1) [OF r(2), of 0] len by simp
    then have "0 \<in> set ?g" "2 \<in> set ?g" using partD(3) [OF r(2) g] eq len by auto
    then obtain i j where ij: "i < length ?g" "?g ! i = 0" "j < length ?g" "?g ! j = 2" by (auto simp: in_set_conv_nth)
    then have "i < j \<or> j < i" by (cases i j rule: linorder_cases) auto
    moreover have st: "stable_group by_successor [2, 2, 3, 3] gids' ?g" using r(4) g by blast
    ultimately have "gids' ! 2 = gids' ! 3"
      using st [unfolded stable_group_def, rule_format, of i j] st [unfolded stable_group_def, rule_format, of j i] ij
      by (elim disjE) (simp_all add: by_successor_def)
    then show False using finerD [OF r(3), of 2 3] by simp
  qed
  ultimately show ?thesis using r(1,2) by blast
qed

end
