(* ===== verification/Bit_Rows.thy ===== *)
theory Bit_Rows
  imports Bit_Vec
begin

text \<open>
  Flat bit matrices over vectors of \<open>u64\<close>, as \<open>CoincidentTokenIndex\<close> and \<open>TokenConflictMap\<close> keep them:
  setting bit \<open>i % 64\<close> of word \<open>i / 64\<close>, testing it, and what a set of pairs looks like in the two
  layouts, dense (\<open>a * n + b\<close>) and with word-aligned rows.
\<close>

unbundle bit_operations_syntax

definition set_word_bit :: "u64 list \<Rightarrow> nat \<Rightarrow> nat \<Rightarrow> u64 list option" where
  "set_word_bit ws k b = do {
     w \<leftarrow> vec_get ws k;
     vec_set ws k (w OR push_bit b 1)
   }"

definition test_word_bit :: "u64 list \<Rightarrow> nat \<Rightarrow> bool option" where
  "test_word_bit ws i = do {
     w \<leftarrow> vec_get ws (i div 64);
     Some (w AND push_bit (i mod 64) 1 \<noteq> 0)
   }"

lemma set_word_bit_correct:
  assumes "k < length ws" "b < 64"
  shows "\<exists>ws'. set_word_bit ws k b = Some ws' \<and> length ws' = length ws \<and> bits_of_words ws' = insert (k * 64 + b) (bits_of_words ws)"
proof -
  have "set_word_bit ws k b = Some (ws[k := ws ! k OR push_bit b 1])"
    using assms by (simp add: set_word_bit_def vec_set_def vec_get_def)
  moreover have "bits_of_words (ws[k := ws ! k OR push_bit b 1]) = insert (k * 64 + b) (bits_of_words ws)"
    unfolding bits_of_words_update [OF assms(1)] using assms
    by (auto simp: mem_bits_of_words bit_simps bit_1_iff)
  ultimately show ?thesis by simp
qed

lemma test_word_bit_correct: "i div 64 < length ws \<Longrightarrow> test_word_bit ws i = Some (i \<in> bits_of_words ws)"
proof -
  assume i: "i div 64 < length ws"
  have "(w AND push_bit j 1 \<noteq> 0) = bit w j" if "j < 64" for w :: u64 and j
  proof -
    have "w AND push_bit j 1 = (if bit w j then push_bit j 1 else 0)" by (rule bit_eqI) (auto simp: bit_simps bit_1_iff)
    moreover have "bit (push_bit j 1 :: u64) j" using that by (simp add: bit_simps)
    ultimately show ?thesis using that by auto
  qed
  from this [of "i mod 64"] show ?thesis using i by (simp add: test_word_bit_def vec_get_def mem_bits_of_words)
qed

lemma bits_of_words_replicate [simp]: "bits_of_words (replicate n 0) = {}"
  by (auto simp: mem_bits_of_words)

section \<open>Sets of pairs\<close>

definition dense :: "nat \<Rightarrow> (nat \<times> nat) set \<Rightarrow> nat set" where
  "dense n R = (\<lambda>(a, b). a * n + b) ` R"

definition within :: "nat \<Rightarrow> (nat \<times> nat) set \<Rightarrow> bool" where
  "within n R \<longleftrightarrow> R \<subseteq> {..<n} \<times> {..<n}"

lemma dense_mem: "within m R \<Longrightarrow> m \<le> n \<Longrightarrow> b < n \<Longrightarrow> a * n + b \<in> dense n R \<longleftrightarrow> (a, b) \<in> R"
proof
  assume w: "within m R" "m \<le> n" "b < n" and "a * n + b \<in> dense n R"
  then obtain a' b' where ab: "(a', b') \<in> R" "a * n + b = a' * n + b'" by (auto simp: dense_def)
  then have "b' < n" using w by (auto simp: within_def)
  then have "a = a' \<and> b = b'" using ab(2) w(3) by (metis add_right_cancel div_mult_self3 div_less less_nat_zero_code mod_less mod_mult_self3 add_0_iff)
  then show "(a, b) \<in> R" using ab by simp
qed (force simp: dense_def)

lemma dense_insert [simp]: "dense n (insert (a, b) R) = insert (a * n + b) (dense n R)"
  by (simp add: dense_def)

lemma dense_empty [simp]: "dense n {} = {}"
  by (simp add: dense_def)

lemma dense_index: "a < n \<Longrightarrow> b < n \<Longrightarrow> (a * n + b) div 64 < div_ceil_64 (n * n)"
proof (rule div_ceil_64_less)
  assume "a < n" "b < n"
  then have "a * n + b < Suc a * n" by simp
  also have "\<dots> \<le> n * n" using \<open>a < n\<close> by (intro mult_le_mono1) simp
  finally show "a * n + b < n * n" .
qed

lemma row_index: "a < n \<Longrightarrow> b < n \<Longrightarrow> a * div_ceil_64 n + b div 64 < n * div_ceil_64 n"
proof -
  assume a: "a < n" "b < n"
  then have "a * div_ceil_64 n + b div 64 < Suc a * div_ceil_64 n" using div_ceil_64_less by simp
  also have "\<dots> \<le> n * div_ceil_64 n" using a(1) by (intro mult_le_mono1) simp
  finally show ?thesis .
qed

text \<open>Setting the bit of a pair in the dense and in the row layout.\<close>

lemma set_dense:
  assumes "a < n" "b < n" "length ws = div_ceil_64 (n * n)" "bits_of_words ws = dense n R"
  shows "\<exists>ws'. set_word_bit ws ((a * n + b) div 64) ((a * n + b) mod 64) = Some ws' \<and> length ws' = length ws \<and>
    bits_of_words ws' = dense n (insert (a, b) R)"
  using set_word_bit_correct [of "(a * n + b) div 64" ws "(a * n + b) mod 64"] dense_index [OF assms(1,2)] assms(3,4) by simp

lemma set_row:
  assumes "a < n" "b < n" "length ws = n * div_ceil_64 n" "bits_of_words ws = dense (div_ceil_64 n * 64) R"
  shows "\<exists>ws'. set_word_bit ws (a * div_ceil_64 n + b div 64) (b mod 64) = Some ws' \<and> length ws' = length ws \<and>
    bits_of_words ws' = dense (div_ceil_64 n * 64) (insert (a, b) R)"
  using set_word_bit_correct [of "a * div_ceil_64 n + b div 64" ws "b mod 64"] row_index [OF assms(1,2)] assms(3,4)
  by (simp add: algebra_simps)

lemma le_row_bits: "n \<le> div_ceil_64 n * 64"
  by (simp add: div_ceil_64_def)

end
