(* ===== verification/Coincident_Tokens.thy ===== *)
theory Coincident_Tokens
  imports Bit_Rows Tables Grammars
begin

text \<open>
  \<^verbatim>\<open>crates/generate/src/build_tables/coincident_tokens.rs\<close>: which pairs of terminals are valid in one parse
  state, and whether always together with the word token, in bit matrices.
\<close>

unbundle bit_operations_syntax

section \<open>Operations\<close>

record CoincidentTokenIndex =
  contains_bits :: "u64 list"
  without_word_bits :: "u64 list"
  ci_row_bits :: "u64 list"
  ci_n :: nat

definition set_both :: "u64 list \<Rightarrow> nat \<Rightarrow> nat \<Rightarrow> u64 list option" where
  "set_both ws ab ba = do {
     ws' \<leftarrow> set_word_bit ws (ab div 64) (ab mod 64);
     set_word_bit ws' (ba div 64) (ba mod 64)
   }"

definition set_both_rows :: "u64 list \<Rightarrow> nat \<Rightarrow> nat \<Rightarrow> nat \<Rightarrow> u64 list option" where
  "set_both_rows ws row_words a b = do {
     ws' \<leftarrow> set_word_bit ws (a * row_words + b div 64) (b mod 64);
     set_word_bit ws' (b * row_words + a div 64) (a mod 64)
   }"

definition add_pair :: "nat \<Rightarrow> bool \<Rightarrow> CoincidentTokenIndex \<Rightarrow> nat \<Rightarrow> nat \<Rightarrow> CoincidentTokenIndex option" where
  "add_pair row_words has_word r a b =
     (let ab = a * ci_n r + b; ba = b * ci_n r + a in do {
        cb \<leftarrow> set_both (contains_bits r) ab ba;
        wb \<leftarrow> (if \<not> has_word then set_both (without_word_bits r) ab ba else Some (without_word_bits r));
        rb \<leftarrow> set_both_rows (ci_row_bits r) row_words a b;
        Some (r\<lparr>contains_bits := cb, without_word_bits := wb, ci_row_bits := rb\<rparr>)
      })"

fun add_pairs_with :: "nat \<Rightarrow> bool \<Rightarrow> CoincidentTokenIndex \<Rightarrow> nat \<Rightarrow> nat list \<Rightarrow> CoincidentTokenIndex option" where
  "add_pairs_with row_words has_word r a [] = Some r"
| "add_pairs_with row_words has_word r a (b # bs) =
     Option.bind (add_pair row_words has_word r a b) (\<lambda>r'. add_pairs_with row_words has_word r' a bs)"

fun add_all_pairs :: "nat \<Rightarrow> bool \<Rightarrow> CoincidentTokenIndex \<Rightarrow> nat list \<Rightarrow> CoincidentTokenIndex option" where
  "add_all_pairs row_words has_word r [] = Some r"
| "add_all_pairs row_words has_word r (a # as) =
     Option.bind (add_pairs_with row_words has_word r a (a # as)) (\<lambda>r'. add_all_pairs row_words has_word r' as)"

definition terminal_indices :: "'e ParseState \<Rightarrow> nat list" where
  "terminal_indices st = map index (filter is_terminal (map fst (terminal_entries st)))"

definition has_word_token :: "Symbol option \<Rightarrow> 'e ParseState \<Rightarrow> bool" where
  "has_word_token word st = (case word of None \<Rightarrow> False | Some w \<Rightarrow> w \<in> fst ` set (terminal_entries st))"

fun add_parse_states :: "nat \<Rightarrow> Symbol option \<Rightarrow> CoincidentTokenIndex \<Rightarrow> 'e ParseState list \<Rightarrow> CoincidentTokenIndex option" where
  "add_parse_states row_words word r [] = Some r"
| "add_parse_states row_words word r (st # sts) =
     Option.bind (add_all_pairs row_words (has_word_token word st) r (terminal_indices st))
       (\<lambda>r'. add_parse_states row_words word r' sts)"

definition new_index :: "'e ParseTable \<Rightarrow> LexicalGrammar \<Rightarrow> Symbol option \<Rightarrow> CoincidentTokenIndex option" where
  "new_index table lexical_grammar word_token =
     (let n = length (lex_variables lexical_grammar); row_words = div_ceil_64 n in
      add_parse_states row_words word_token
        \<lparr>contains_bits = replicate (div_ceil_64 (n * n)) 0, without_word_bits = replicate (div_ceil_64 (n * n)) 0,
         ci_row_bits = replicate (n * row_words) 0, ci_n = n\<rparr> (states table))"

definition all_coincident_states_have_word :: "CoincidentTokenIndex \<Rightarrow> Symbol \<Rightarrow> Symbol \<Rightarrow> bool option" where
  "all_coincident_states_have_word r a b = map_option Not (test_word_bit (without_word_bits r) (index a * ci_n r + index b))"

definition contains_pair :: "CoincidentTokenIndex \<Rightarrow> Symbol \<Rightarrow> Symbol \<Rightarrow> bool option" where
  "contains_pair r a b = test_word_bit (contains_bits r) (index a * ci_n r + index b)"

section \<open>Correctness\<close>

text \<open>The index holds the relations \<open>R\<close> (coincident) and \<open>W\<close> (coincident somewhere without the word token).\<close>

definition index_rep :: "nat \<Rightarrow> (nat \<times> nat) set \<Rightarrow> (nat \<times> nat) set \<Rightarrow> CoincidentTokenIndex \<Rightarrow> bool" where
  "index_rep n R W r \<longleftrightarrow> ci_n r = n \<and> within n R \<and> within n W \<and>
     length (contains_bits r) = div_ceil_64 (n * n) \<and> bits_of_words (contains_bits r) = dense n R \<and>
     length (without_word_bits r) = div_ceil_64 (n * n) \<and> bits_of_words (without_word_bits r) = dense n W \<and>
     length (ci_row_bits r) = n * div_ceil_64 n \<and> bits_of_words (ci_row_bits r) = dense (div_ceil_64 n * 64) R"

lemma set_both_correct:
  assumes "a < n" "b < n" "length ws = div_ceil_64 (n * n)" "bits_of_words ws = dense n R"
  shows "\<exists>ws'. set_both ws (a * n + b) (b * n + a) = Some ws' \<and> length ws' = length ws \<and>
    bits_of_words ws' = dense n (insert (b, a) (insert (a, b) R))"
proof -
  obtain w1 where 1: "set_word_bit ws ((a * n + b) div 64) ((a * n + b) mod 64) = Some w1" "length w1 = length ws"
    "bits_of_words w1 = dense n (insert (a, b) R)" using set_dense [OF assms] by blast
  then show ?thesis using set_dense [OF assms(2,1) _ 1(3)] assms(3) by (simp add: set_both_def)
qed

lemma set_both_rows_correct:
  assumes "a < n" "b < n" "length ws = n * div_ceil_64 n" "bits_of_words ws = dense (div_ceil_64 n * 64) R"
  shows "\<exists>ws'. set_both_rows ws (div_ceil_64 n) a b = Some ws' \<and> length ws' = length ws \<and>
    bits_of_words ws' = dense (div_ceil_64 n * 64) (insert (b, a) (insert (a, b) R))"
proof -
  obtain w1 where 1: "set_word_bit ws (a * div_ceil_64 n + b div 64) (b mod 64) = Some w1" "length w1 = length ws"
    "bits_of_words w1 = dense (div_ceil_64 n * 64) (insert (a, b) R)" using set_row [OF assms] by blast
  then show ?thesis using set_row [OF assms(2,1) _ 1(3)] assms(3) by (simp add: set_both_rows_def)
qed

lemma add_pair_correct:
  assumes r: "index_rep n R W r" and ab: "a < n" "b < n"
  shows "\<exists>r'. add_pair (div_ceil_64 n) hw r a b = Some r' \<and>
    index_rep n (R \<union> {(a, b), (b, a)}) (if hw then W else W \<union> {(a, b), (b, a)}) r'"
proof -
  note r = r [unfolded index_rep_def]
  obtain cb where cb: "set_both (contains_bits r) (a * n + b) (b * n + a) = Some cb" "length cb = length (contains_bits r)"
    "bits_of_words cb = dense n (insert (b, a) (insert (a, b) R))" using set_both_correct [OF ab, of "contains_bits r" R] r by auto
  obtain wb where wb: "(if \<not> hw then set_both (without_word_bits r) (a * n + b) (b * n + a) else Some (without_word_bits r)) = Some wb"
    "length wb = length (without_word_bits r)" "bits_of_words wb = dense n (if hw then W else insert (b, a) (insert (a, b) W))"
    using set_both_correct [OF ab, of "without_word_bits r" W] r by (cases hw) auto
  obtain rb where rb: "set_both_rows (ci_row_bits r) (div_ceil_64 n) a b = Some rb" "length rb = length (ci_row_bits r)"
    "bits_of_words rb = dense (div_ceil_64 n * 64) (insert (b, a) (insert (a, b) R))"
    using set_both_rows_correct [OF ab, of "ci_row_bits r" R] r by auto
  have "ci_n r = n" using r by simp
  then have run: "add_pair (div_ceil_64 n) hw r a b = Some (r\<lparr>contains_bits := cb, without_word_bits := wb, ci_row_bits := rb\<rparr>)"
    unfolding add_pair_def Let_def by (simp only: cb(1) wb(1) rb(1) bind.bind_lunit)
  have e: "insert (b, a) (insert (a, b) X) = X \<union> {(a, b), (b, a)}" for X by auto
  show ?thesis using run cb wb rb r ab by (auto simp: index_rep_def within_def e)
qed

text \<open>The relations after the pairs of one state.\<close>

lemma add_pairs_with_correct:
  assumes "index_rep n R W r" "a < n" "\<forall>b \<in> set bs. b < n"
  shows "\<exists>r'. add_pairs_with (div_ceil_64 n) hw r a bs = Some r' \<and>
    index_rep n (R \<union> {a} \<times> set bs \<union> set bs \<times> {a}) (if hw then W else W \<union> {a} \<times> set bs \<union> set bs \<times> {a}) r'"
  using assms
proof (induction bs arbitrary: r R W)
  case Nil
  then show ?case by simp
next
  case (Cons b bs)
  obtain r1 where r1: "add_pair (div_ceil_64 n) hw r a b = Some r1"
    "index_rep n (R \<union> {(a, b), (b, a)}) (if hw then W else W \<union> {(a, b), (b, a)}) r1"
    using add_pair_correct [OF Cons.prems(1,2), of b hw] Cons.prems(3) by auto
  have e: "X \<union> {(a, b), (b, a)} \<union> {a} \<times> set bs \<union> set bs \<times> {a} = X \<union> {a} \<times> set (b # bs) \<union> set (b # bs) \<times> {a}" for X by auto
  have run: "add_pairs_with (div_ceil_64 n) hw r a (b # bs) = add_pairs_with (div_ceil_64 n) hw r1 a bs" by (simp add: r1(1))
  have "\<forall>b \<in> set bs. b < n" using Cons.prems(3) by simp
  from Cons.IH [OF r1(2) Cons.prems(2) this] show ?case unfolding run by (cases hw) (simp_all only: e if_True if_False)
qed

lemma add_all_pairs_correct:
  assumes "index_rep n R W r" "\<forall>b \<in> set as. b < n"
  shows "\<exists>r'. add_all_pairs (div_ceil_64 n) hw r as = Some r' \<and>
    index_rep n (R \<union> set as \<times> set as) (if hw then W else W \<union> set as \<times> set as) r'"
  using assms
proof (induction as arbitrary: r R W)
  case Nil
  then show ?case by simp
next
  case (Cons a as)
  let ?P = "{a} \<times> set (a # as)" and ?Q = "set (a # as) \<times> {a}"
  obtain r1 where r1: "add_pairs_with (div_ceil_64 n) hw r a (a # as) = Some r1"
    "index_rep n (R \<union> ?P \<union> ?Q) (if hw then W else W \<union> ?P \<union> ?Q) r1"
    using add_pairs_with_correct [OF Cons.prems(1), of a "a # as" hw] Cons.prems(2) by auto
  have e: "X \<union> ?P \<union> ?Q \<union> set as \<times> set as = X \<union> set (a # as) \<times> set (a # as)" for X by auto
  have run: "add_all_pairs (div_ceil_64 n) hw r (a # as) = add_all_pairs (div_ceil_64 n) hw r1 as"
    unfolding add_all_pairs.simps r1(1) by simp
  have "\<forall>b \<in> set as. b < n" using Cons.prems(2) by simp
  from Cons.IH [OF r1(2) this] show ?case unfolding run by (cases hw) (simp_all only: e if_True if_False)
qed

definition coincident :: "'e ParseState list \<Rightarrow> (nat \<times> nat) set" where
  "coincident sts = (\<Union>st \<in> set sts. set (terminal_indices st) \<times> set (terminal_indices st))"

lemma add_parse_states_correct:
  assumes "index_rep n R W r" "\<forall>st \<in> set sts. \<forall>b \<in> set (terminal_indices st). b < n"
  shows "\<exists>r'. add_parse_states (div_ceil_64 n) word r sts = Some r' \<and>
    index_rep n (R \<union> coincident sts) (W \<union> coincident (filter (\<lambda>st. \<not> has_word_token word st) sts)) r'"
  using assms
proof (induction sts arbitrary: r R W)
  case Nil
  then show ?case by (simp add: coincident_def)
next
  case (Cons st sts)
  let ?T = "set (terminal_indices st) \<times> set (terminal_indices st)"
  obtain r1 where r1: "add_all_pairs (div_ceil_64 n) (has_word_token word st) r (terminal_indices st) = Some r1"
    "index_rep n (R \<union> ?T) (if has_word_token word st then W else W \<union> ?T) r1"
    using add_all_pairs_correct [OF Cons.prems(1)] Cons.prems(2) by (metis list.set_intros(1))
  have e: "X \<union> ?T \<union> coincident ss = X \<union> coincident (st # ss)" for X and ss :: "'a ParseState list" by (auto simp: coincident_def)
  have run: "add_parse_states (div_ceil_64 n) word r (st # sts) = add_parse_states (div_ceil_64 n) word r1 sts" by (simp add: r1(1))
  have "\<forall>st \<in> set sts. \<forall>b \<in> set (terminal_indices st). b < n" using Cons.prems(2) by simp
  from Cons.IH [OF r1(2) this] show ?case unfolding run by (cases "has_word_token word st") (simp_all add: e)
qed

lemma terminal_indices_iff: "i \<in> set (terminal_indices st) \<longleftrightarrow> Symbol Terminal i \<in> fst ` set (terminal_entries st)"
proof -
  have "i \<in> set (terminal_indices st) \<longleftrightarrow> (\<exists>s \<in> fst ` set (terminal_entries st). kind s = Terminal \<and> index s = i)"
    by (auto simp: terminal_indices_def is_terminal_def)
  also have "\<dots> \<longleftrightarrow> Symbol Terminal i \<in> fst ` set (terminal_entries st)"
    by (metis Symbol.collapse Symbol.sel)
  finally show ?thesis .
qed

lemma new_index_rep:
  assumes "\<forall>st \<in> set (states table). \<forall>i. Symbol Terminal i \<in> fst ` set (terminal_entries st) \<longrightarrow> i < length (lex_variables g)"
  shows "\<exists>r. new_index table g word = Some r \<and> index_rep (length (lex_variables g)) (coincident (states table))
    (coincident (filter (\<lambda>st. \<not> has_word_token word st) (states table))) r"
proof -
  let ?n = "length (lex_variables g)"
  have "index_rep ?n {} {} \<lparr>contains_bits = replicate (div_ceil_64 (?n * ?n)) 0, without_word_bits = replicate (div_ceil_64 (?n * ?n)) 0,
         ci_row_bits = replicate (?n * div_ceil_64 ?n) 0, ci_n = ?n\<rparr>" by (simp add: index_rep_def within_def)
  from add_parse_states_correct [OF this, of "states table" word] show ?thesis
    using assms by (simp add: new_index_def Let_def terminal_indices_iff)
qed

section \<open>Property\<close>

text \<open>C17. \<open>CoincidentTokenIndex::new\<close> does not panic when the parse table mentions only terminals of the lexical
  grammar, and its answers are exact for every pair of terminals: \<open>contains\<close> holds iff some parse state has
  both as lookaheads, \<open>all_coincident_states_have_word\<close> iff every such state also has the word token, and the
  bit of the pair in the word-aligned row agrees with \<open>contains\<close>.\<close>

theorem coincident_index_correct:
  assumes "\<forall>st \<in> set (states table). \<forall>i. Symbol Terminal i \<in> fst ` set (terminal_entries st) \<longrightarrow> i < length (lex_variables g)"
    and ab: "a < length (lex_variables g)" "b < length (lex_variables g)"
  shows "\<exists>r. new_index table g word = Some r \<and>
    contains_pair r (Symbol Terminal a) (Symbol Terminal b) =
      Some (\<exists>st \<in> set (states table). {Symbol Terminal a, Symbol Terminal b} \<subseteq> fst ` set (terminal_entries st)) \<and>
    all_coincident_states_have_word r (Symbol Terminal a) (Symbol Terminal b) =
      Some (\<forall>st \<in> set (states table). {Symbol Terminal a, Symbol Terminal b} \<subseteq> fst ` set (terminal_entries st) \<longrightarrow> has_word_token word st) \<and>
    (bit (ci_row_bits r ! (a * div_ceil_64 (length (lex_variables g)) + b div 64)) (b mod 64) \<longleftrightarrow>
      (\<exists>st \<in> set (states table). {Symbol Terminal a, Symbol Terminal b} \<subseteq> fst ` set (terminal_entries st)))"
proof -
  let ?n = "length (lex_variables g)" and ?k = "div_ceil_64 (length (lex_variables g))"
  let ?W = "coincident (filter (\<lambda>st. \<not> has_word_token word st) (states table))"
  obtain r where r: "new_index table g word = Some r" "index_rep ?n (coincident (states table)) ?W r"
    using new_index_rep [OF assms(1)] by blast
  note rep = r(2) [unfolded index_rep_def]
  have c: "(a, b) \<in> coincident sts \<longleftrightarrow> (\<exists>st \<in> set sts. {Symbol Terminal a, Symbol Terminal b} \<subseteq> fst ` set (terminal_entries st))"
    for sts :: "'a ParseState list" by (auto simp: coincident_def terminal_indices_iff)
  have 1: "test_word_bit (contains_bits r) (a * ?n + b) = Some ((a, b) \<in> coincident (states table))"
    using test_word_bit_correct dense_index [OF ab] dense_mem [of ?n _ ?n b a] rep ab by simp
  have 2: "test_word_bit (without_word_bits r) (a * ?n + b) = Some ((a, b) \<in> ?W)"
    using test_word_bit_correct dense_index [OF ab] dense_mem [of ?n _ ?n b a] rep ab by simp
  have "b < ?k * 64" using ab(2) le_row_bits [of ?n] by simp
  then have "bit (ci_row_bits r ! (a * ?k + b div 64)) (b mod 64) \<longleftrightarrow> (a, b) \<in> coincident (states table)"
    using bit_nth_bits [of "a * ?k + b div 64" "ci_row_bits r" "b mod 64"] row_index [OF ab] rep
      dense_mem [of ?n "coincident (states table)" "?k * 64" b a] le_row_bits [of ?n]
    by (simp add: algebra_simps)
  moreover have "(a, b) \<notin> ?W \<longleftrightarrow> (\<forall>st \<in> set (states table). {Symbol Terminal a, Symbol Terminal b} \<subseteq> fst ` set (terminal_entries st) \<longrightarrow> has_word_token word st)"
    unfolding c by auto
  ultimately show ?thesis using r(1) 1 2 rep c by (simp add: contains_pair_def all_coincident_states_have_word_def)
qed

definition sample_lexical :: LexicalGrammar where
  "sample_lexical = \<lparr>lex_nfa = new_nfa, lex_variables =
     replicate 2 \<lparr>lv_name = 2, lv_kind = Named, lv_implicit_precedence = 0, lv_start_state = 0\<rparr>\<rparr>"

definition sample_parse_table :: "nat ParseTable" where
  "sample_parse_table = \<lparr>states = [\<lparr>ps_id = 0, terminal_entries = [(Symbol Terminal 0, 0), (Symbol Terminal 1, 0)],
     nonterminal_entries = [], reserved_words = new_tokens, lex_state_id = 0, external_lex_state_id = 0, core_id = 0,
     has_eof_gated_reduce = False\<rparr>], action_lists = default_action_pool, symbols = [], production_infos = [],
     max_aliased_production_length = 0, external_lex_states = []\<rparr>"

theorem coincident_index_correct_witness:
  "\<exists>r. new_index sample_parse_table sample_lexical None = Some r \<and>
     contains_pair r (Symbol Terminal 0) (Symbol Terminal 1) = Some True \<and>
     all_coincident_states_have_word r (Symbol Terminal 0) (Symbol Terminal 1) = Some False"
proof -
  have "\<forall>st \<in> set (states sample_parse_table). \<forall>i. Symbol Terminal i \<in> fst ` set (terminal_entries st) \<longrightarrow> i < length (lex_variables sample_lexical)"
    by (auto simp: sample_parse_table_def sample_lexical_def)
  moreover have "0 < length (lex_variables sample_lexical)" "1 < length (lex_variables sample_lexical)" by (simp_all add: sample_lexical_def)
  ultimately obtain r where "new_index sample_parse_table sample_lexical None = Some r"
    "contains_pair r (Symbol Terminal 0) (Symbol Terminal 1) =
      Some (\<exists>st \<in> set (states sample_parse_table). {Symbol Terminal 0, Symbol Terminal 1} \<subseteq> fst ` set (terminal_entries st))"
    "all_coincident_states_have_word r (Symbol Terminal 0) (Symbol Terminal 1) =
      Some (\<forall>st \<in> set (states sample_parse_table). {Symbol Terminal 0, Symbol Terminal 1} \<subseteq> fst ` set (terminal_entries st) \<longrightarrow> has_word_token None st)"
    using coincident_index_correct by blast
  then show ?thesis by (simp add: sample_parse_table_def has_word_token_def)
qed

end
