(* ===== verification/Lexical_Wf.thy ===== *)
theory Lexical_Wf
  imports Grammars
begin

text \<open>
  Well-formed lexical grammars and what the operations of an \<open>NfaCursor\<close> return on them: the facts that
  the analyses built on the cursor (token conflicts, lex table) share. A grammar is well formed when
  every target of the NFA exists, character sets are canonical, and accept states and start states
  belong to the variables.
\<close>

definition state_wf :: "nat \<Rightarrow> nat \<Rightarrow> NfaState \<Rightarrow> bool" where
  "state_wf n m st = (case st of
     Advance cs t _ _ \<Rightarrow> canon cs \<and> t < n
   | Split l r \<Rightarrow> l < n \<and> r < n
   | Accept v _ \<Rightarrow> v < m)"

definition lexical_wf :: "LexicalGrammar \<Rightarrow> bool" where
  "lexical_wf g \<longleftrightarrow>
     (\<forall>st \<in> set (nfa_states (lex_nfa g)). state_wf (length (nfa_states (lex_nfa g))) (length (lex_variables g)) st) \<and>
     (\<forall>v \<in> set (lex_variables g). lv_start_state v < length (nfa_states (lex_nfa g)))"

abbreviation num_states :: "LexicalGrammar \<Rightarrow> nat" where
  "num_states g \<equiv> length (nfa_states (lex_nfa g))"

text \<open>The states a cursor holds after following the splits from \<open>A\<close>.\<close>

definition expand :: "LexicalGrammar \<Rightarrow> nat set \<Rightarrow> nat set" where
  "expand g A = {s \<in> closure (nfa_states (lex_nfa g)) A. \<not> is_split (nfa_states (lex_nfa g)) s}"

lemma lexical_wf_nth:
  "lexical_wf g \<Longrightarrow> i < num_states g \<Longrightarrow> state_wf (num_states g) (length (lex_variables g)) (nfa_states (lex_nfa g) ! i)"
  by (simp add: lexical_wf_def)

lemma lexical_splits_ok: "lexical_wf g \<Longrightarrow> splits_ok (nfa_states (lex_nfa g))"
  using lexical_wf_nth [of g] by (fastforce simp: splits_ok_def eps_def state_wf_def)

lemma expand_range: "lexical_wf g \<Longrightarrow> A \<subseteq> {..<num_states g} \<Longrightarrow> expand g A \<subseteq> {..<num_states g}"
  using closure_least [of A "{..<num_states g}" "nfa_states (lex_nfa g)"] lexical_splits_ok [of g]
  by (auto simp: expand_def splits_ok_def)

lemma expand_empty [simp]: "expand g {} = {}"
  by (simp add: expand_def closure_def)

lemma reset_correct:
  assumes "lexical_wf g" "nfa cur = lex_nfa g" "set sts \<subseteq> {..<num_states g}"
  shows "reset cur sts = Some (cur\<lparr>state_ids := sorted_list_of_set (expand g (set sts))\<rparr>)"
proof -
  have fin: "finite (expand g (set sts))" using expand_range [OF assms(1,3)] by (rule finite_subset) simp
  obtain sids new' where sids: "add_states (cur\<lparr>state_ids := []\<rparr>) sts = Some (cur\<lparr>state_ids := sids\<rparr>, new')" "sorted_wrt (<) sids"
    "set sids = expand g (set sts)"
    using add_states_correct [of "cur\<lparr>state_ids := []\<rparr>" sts] lexical_splits_ok [OF assms(1)] assms(2,3) by (auto simp: expand_def)
  have "sids = sorted_list_of_set (expand g (set sts))"
    by (rule strict_sorted_equal) (use sids fin in simp_all)
  with sids(1) show ?thesis by (simp add: reset_def)
qed

lemma new_cursor_empty: "new_cursor m [] = Some \<lparr>state_ids = [], nfa = m\<rparr>"
  by (simp add: new_cursor_def add_states_def add_states_loop.simps)

text \<open>Raw transitions and completions of states in range.\<close>

definition raws_at :: "LexicalGrammar \<Rightarrow> nat list \<Rightarrow> raw list" where
  "raws_at g sids = concat (map (\<lambda>i. case nfa_states (lex_nfa g) ! i of Advance cs t sep p \<Rightarrow> [(cs, sep, p, t)] | _ \<Rightarrow> []) sids)"

definition completions_at :: "LexicalGrammar \<Rightarrow> nat list \<Rightarrow> (nat \<times> int) list" where
  "completions_at g sids = concat (map (\<lambda>i. case nfa_states (lex_nfa g) ! i of Accept v p \<Rightarrow> [(v, p)] | _ \<Rightarrow> []) sids)"

lemma raw_of_correct:
  "set sids \<subseteq> {..<length sts} \<Longrightarrow>
     raw_of sts sids = Some (concat (map (\<lambda>i. case sts ! i of Advance cs t sep p \<Rightarrow> [(cs, sep, p, t)] | _ \<Rightarrow> []) sids))"
  by (induction sids) (auto simp: vec_get_def split: NfaState.splits)

lemma completions_of_correct:
  "set sids \<subseteq> {..<length sts} \<Longrightarrow>
     completions_of sts sids = Some (concat (map (\<lambda>i. case sts ! i of Accept v p \<Rightarrow> [(v, p)] | _ \<Rightarrow> []) sids))"
  by (induction sids) (auto simp: vec_get_def split: NfaState.splits)

lemma raw_transitions_correct:
  "nfa cur = lex_nfa g \<Longrightarrow> set (state_ids cur) \<subseteq> {..<num_states g} \<Longrightarrow> raw_transitions cur = Some (raws_at g (state_ids cur))"
  unfolding raw_transitions_def raws_at_def by (simp add: raw_of_correct)

lemma completions_correct:
  "nfa cur = lex_nfa g \<Longrightarrow> set (state_ids cur) \<subseteq> {..<num_states g} \<Longrightarrow> completions cur = Some (completions_at g (state_ids cur))"
  unfolding completions_def completions_at_def by (simp add: completions_of_correct)

lemma transition_chars_correct:
  "nfa cur = lex_nfa g \<Longrightarrow> set (state_ids cur) \<subseteq> {..<num_states g} \<Longrightarrow>
     transition_chars cur = Some (map (\<lambda>(cs, sep, _, _). (cs, sep)) (raws_at g (state_ids cur)))"
  by (simp add: transition_chars_def raw_transitions_correct)

lemma raws_at_mem:
  "(cs, sep, p, t) \<in> set (raws_at g sids) \<longleftrightarrow> (\<exists>i \<in> set sids. nfa_states (lex_nfa g) ! i = Advance cs t sep p)"
  by (force simp: raws_at_def split: NfaState.splits)

lemma completions_at_mem: "(v, p) \<in> set (completions_at g sids) \<longleftrightarrow> (\<exists>i \<in> set sids. nfa_states (lex_nfa g) ! i = Accept v p)"
  by (force simp: completions_at_def split: NfaState.splits)

lemma raws_at_wf:
  assumes "lexical_wf g" "set sids \<subseteq> {..<num_states g}" "(cs, sep, p, t) \<in> set (raws_at g sids)"
  shows "canon cs" "t < num_states g"
  using assms lexical_wf_nth [OF assms(1)] by (fastforce simp: raws_at_mem state_wf_def)+

lemma completions_at_wf:
  "lexical_wf g \<Longrightarrow> set sids \<subseteq> {..<num_states g} \<Longrightarrow> (v, p) \<in> set (completions_at g sids) \<Longrightarrow> v < length (lex_variables g)"
  using lexical_wf_nth [of g] by (fastforce simp: completions_at_mem state_wf_def)

text \<open>The grouped transitions: their target lists are ascending, not empty and in range.\<close>

definition transition_wf :: "LexicalGrammar \<Rightarrow> NfaTransition \<Rightarrow> bool" where
  "transition_wf g e \<longleftrightarrow> canon (characters e) \<and> characters e \<noteq> [] \<and> t_states e \<noteq> [] \<and> sorted_wrt (<) (t_states e) \<and> set (t_states e) \<subseteq> {..<num_states g}"

lemma group_transitions_wf:
  assumes g: "lexical_wf g" and sids: "set sids \<subseteq> {..<num_states g}"
  shows "\<exists>es. group_transitions (raws_at g sids) = Some es \<and> grouped (raws_at g sids) es \<and> list_all (transition_wf g) es"
proof -
  let ?raws = "raws_at g sids"
  have "list_all (\<lambda>(cs, _). canon cs) ?raws" using raws_at_wf(1) [OF g sids] by (auto simp: list_all_iff)
  then obtain es where es: "group_transitions ?raws = Some es" "grouped ?raws es" using group_transitions_grouped by blast
  have "transition_wf g e" if e: "e \<in> set es" for e
  proof -
    have c: "canon (characters e)" "characters e \<noteq> []" using es(2) e by (auto simp: grouped_def entries_ok_iff)
    then obtain x where "x \<in> chars_of (characters e)" using chars_empty_iff by auto
    then have m: "on ?raws x \<noteq> []" "t_states e = sorted_list_of_set ((\<lambda>(_, _, _, s). s) ` set (on ?raws x))"
      using es(2) e by (auto simp: grouped_def merged_def)
    have "(\<lambda>(_, _, _, s). s) ` set (on ?raws x) \<subseteq> {..<num_states g}" using raws_at_wf(2) [OF g sids] by (auto simp: on_def)
    then show ?thesis using c m by (auto simp: transition_wf_def)
  qed
  then show ?thesis using es by (auto simp: list_all_iff)
qed

lemma transitions_correct:
  "lexical_wf g \<Longrightarrow> nfa cur = lex_nfa g \<Longrightarrow> set (state_ids cur) \<subseteq> {..<num_states g} \<Longrightarrow>
     \<exists>es. transitions cur = Some es \<and> grouped (raws_at g (state_ids cur)) es \<and> list_all (transition_wf g) es"
  using group_transitions_wf [of g "state_ids cur"] by (simp add: transitions_def raw_transitions_correct)

end
