(* ===== verification/Token_Conflicts.thy ===== *)
theory Token_Conflicts
  imports Lexical_Wf Bit_Rows
begin

text \<open>
  \<^verbatim>\<open>crates/generate/src/build_tables/token_conflicts.rs\<close>: for each pair of tokens, a search through the
  pairs' NFA that records how their strings overlap, stored in a matrix of flags, with bit rows for the
  batch checks of the lex table builder. The hash of a state set (\<open>FxHasher\<close>) is the parameter \<open>hash\<close>;
  distinct sets with one hash count as visited, as in the source.
\<close>

unbundle bit_operations_syntax

section \<open>Operations\<close>

type_synonym status = u8

definition MATCHES_PREFIX :: status where "MATCHES_PREFIX = push_bit 0 1"
definition DOES_MATCH_CONTINUATION :: status where "DOES_MATCH_CONTINUATION = push_bit 1 1"
definition DOES_MATCH_VALID_CONT :: status where "DOES_MATCH_VALID_CONT = push_bit 2 1"
definition DOES_MATCH_SEPARATORS :: status where "DOES_MATCH_SEPARATORS = push_bit 3 1"
definition MATCHES_SAME_STRING :: status where "MATCHES_SAME_STRING = push_bit 4 1"
definition MATCHES_DIFFERENT_STRING :: status where "MATCHES_DIFFERENT_STRING = push_bit 5 1"

text \<open>The operations of the flag type: \<open>contains\<close>, \<open>intersects\<close>, and \<open>insert\<close> on one side of a pair.\<close>

definition has_flags :: "status \<Rightarrow> status \<Rightarrow> bool" where
  "has_flags s m \<longleftrightarrow> s AND m = m"

definition intersects :: "status \<Rightarrow> status \<Rightarrow> bool" where
  "intersects s m \<longleftrightarrow> s AND m \<noteq> 0"

definition insert_flag :: "bool \<Rightarrow> status \<Rightarrow> status \<times> status \<Rightarrow> status \<times> status" where
  "insert_flag on_first m r = (if on_first then (fst r OR m, snd r) else (fst r, snd r OR m))"

record TokenConflictMap =
  tc_n :: nat
  status_matrix :: "status list"
  following_tokens :: "TokenSet list"
  starting_chars_by_index :: "CharacterSet list"
  following_chars_by_index :: "CharacterSet list"
  conflict_or_prefix_bits :: "u64 list"
  overlap_either_bits :: "u64 list"
  row_words :: nat

definition matrix_index :: "nat \<Rightarrow> nat \<Rightarrow> nat \<Rightarrow> nat" where
  "matrix_index variable_count i j = variable_count * i + j"

fun prefer_token :: "LexicalGrammar \<Rightarrow> int \<times> nat \<Rightarrow> int \<times> nat \<Rightarrow> bool option" where
  "prefer_token g (lp, li) (rp, ri) =
     (case ord_cmp lp rp of
        Less \<Rightarrow> Some False
      | Greater \<Rightarrow> Some True
      | Equal \<Rightarrow> do {
          l \<leftarrow> vec_get (lex_variables g) li;
          r \<leftarrow> vec_get (lex_variables g) ri;
          Some (case ord_cmp (lv_implicit_precedence l) (lv_implicit_precedence r) of
            Less \<Rightarrow> False | Greater \<Rightarrow> True | Equal \<Rightarrow> li < ri)
        })"

definition prefer_transition :: "LexicalGrammar \<Rightarrow> NfaTransition \<Rightarrow> nat \<Rightarrow> int \<Rightarrow> bool \<Rightarrow> bool" where
  "prefer_transition g t completed_id completed_precedence has_separator_transitions =
     (if t_precedence t < completed_precedence then False
      else if t_precedence t = completed_precedence then
        (if is_separator t then False
         else if has_separator_transitions \<and> completed_id \<notin> set (variable_indices_for_nfa_states g (t_states t)) then False
         else True)
      else True)"

fun starting_chars_loop :: "NfaCursor \<Rightarrow> LexicalVariable list \<Rightarrow> (NfaCursor \<times> CharacterSet list) option" where
  "starting_chars_loop cur [] = Some (cur, [])"
| "starting_chars_loop cur (v # vs) = do {
     cur' \<leftarrow> reset cur [lv_start_state v];
     tcs \<leftarrow> transition_chars cur';
     (cur'', rest) \<leftarrow> starting_chars_loop cur' vs;
     Some (cur'', fold (\<lambda>(cs, _) cset. add cset cs) tcs empty # rest)
   }"

definition get_starting_chars :: "NfaCursor \<Rightarrow> LexicalGrammar \<Rightarrow> (NfaCursor \<times> CharacterSet list) option" where
  "get_starting_chars cur g = starting_chars_loop cur (lex_variables g)"

fun add_starting_chars :: "CharacterSet list \<Rightarrow> Symbol list \<Rightarrow> CharacterSet \<Rightarrow> CharacterSet option" where
  "add_starting_chars starting [] cset = Some cset"
| "add_starting_chars starting (t # ts) cset =
     (if is_terminal t then do {
        cs \<leftarrow> vec_get starting (index t);
        add_starting_chars starting ts (add cset cs)
      } else add_starting_chars starting ts cset)"

fun get_following_chars :: "CharacterSet list \<Rightarrow> TokenSet list \<Rightarrow> CharacterSet list option" where
  "get_following_chars starting [] = Some []"
| "get_following_chars starting (f # fs) = do {
     ts \<leftarrow> iter f;
     cs \<leftarrow> add_starting_chars starting ts empty;
     rest \<leftarrow> get_following_chars starting fs;
     Some (cs # rest)
   }"

text \<open>The loop over the completed tokens of a state set: whether the state is within a separator (computed
  once, on the first completion), the preferred completion so far, and the flags.\<close>

fun completion_loop :: "LexicalGrammar \<Rightarrow> nat \<Rightarrow> NfaCursor \<Rightarrow> (nat \<times> int) list \<Rightarrow> bool option \<Rightarrow> (nat \<times> int) option \<Rightarrow> status \<times> status \<Rightarrow>
    (bool option \<times> (nat \<times> int) option \<times> status \<times> status) option" where
  "completion_loop g i cur [] within_sep completion result = Some (within_sep, completion, result)"
| "completion_loop g i cur ((vid, pr) # cs) within_sep completion result = do {
     sep \<leftarrow> (case within_sep of Some b \<Rightarrow> Some b | None \<Rightarrow> map_option (list_ex snd) (transition_chars cur));
     let result1 = (if sep then insert_flag (vid = i) DOES_MATCH_SEPARATORS result else result);
     case completion of
       None \<Rightarrow> completion_loop g i cur cs (Some sep) (Some (vid, pr)) result1
     | Some (prev_id, prev_pr) \<Rightarrow>
         (if vid = prev_id then completion_loop g i cur cs (Some sep) completion result1
          else do {
            prev_preferred \<leftarrow> prefer_token g (prev_pr, prev_id) (pr, vid);
            let preferred_id = (if prev_preferred then prev_id else vid);
            completion_loop g i cur cs (Some sep) (if prev_preferred then completion else Some (vid, pr))
              (insert_flag (preferred_id = i) MATCHES_SAME_STRING result1)
          })
   }"

text \<open>The variables of the successor states: the last one before the completed token appears, and whether it
  does.\<close>

fun successor_variables :: "nat list \<Rightarrow> nat \<Rightarrow> nat list \<Rightarrow> nat option \<Rightarrow> nat option \<Rightarrow> (nat option \<times> bool) option" where
  "successor_variables to_var completed_id [] prev advanced = Some (advanced, False)"
| "successor_variables to_var completed_id (s # ss) prev advanced = do {
     v \<leftarrow> vec_get to_var s;
     if prev = Some v then successor_variables to_var completed_id ss prev advanced
     else if v = completed_id then Some (advanced, True)
     else successor_variables to_var completed_id ss (Some v) (Some v)
   }"

definition transition_status :: "LexicalGrammar \<Rightarrow> CharacterSet list \<Rightarrow> nat list \<Rightarrow> nat \<Rightarrow> nat \<Rightarrow> bool option \<Rightarrow> (nat \<times> int) option \<Rightarrow>
    NfaTransition \<Rightarrow> status \<times> status \<Rightarrow> (status \<times> status) option" where
  "transition_status g following_chars to_var i j within_sep completion t result =
     (case completion of
        None \<Rightarrow> Some result
      | Some (completed_id, completed_pr) \<Rightarrow> do {
          (advanced, contains_completed) \<leftarrow> successor_variables to_var completed_id (t_states t) None None;
          (case (advanced, contains_completed) of
             (Some advanced_id, False) \<Rightarrow>
               (if prefer_transition g t completed_id completed_pr (within_sep = Some True) then
                  (let result1 = insert_flag (advanced_id = i) DOES_MATCH_CONTINUATION result in do {
                     fc \<leftarrow> vec_get following_chars (if advanced_id = i then j else i);
                     Some (if does_intersect (characters t) fc then insert_flag (advanced_id = i) DOES_MATCH_VALID_CONT result1 else result1)
                   })
                else Some (insert_flag (completed_id = i) MATCHES_PREFIX result))
           | _ \<Rightarrow> Some result)
        })"

fun transition_loop :: "(nat list \<Rightarrow> u64) \<Rightarrow> LexicalGrammar \<Rightarrow> CharacterSet list \<Rightarrow> nat list \<Rightarrow> nat \<Rightarrow> nat \<Rightarrow> bool option \<Rightarrow> (nat \<times> int) option \<Rightarrow>
    NfaTransition list \<Rightarrow> nat list list \<Rightarrow> u64 set \<Rightarrow> status \<times> status \<Rightarrow> (nat list list \<times> u64 set \<times> status \<times> status) option" where
  "transition_loop hash g following_chars to_var i j within_sep completion [] queue visited result = Some (queue, visited, result)"
| "transition_loop hash g following_chars to_var i j within_sep completion (t # ts) queue visited result = do {
     result' \<leftarrow> transition_status g following_chars to_var i j within_sep completion t result;
     if hash (t_states t) \<in> visited
     then transition_loop hash g following_chars to_var i j within_sep completion ts queue visited result'
     else transition_loop hash g following_chars to_var i j within_sep completion ts (t_states t # queue) (insert (hash (t_states t)) visited) result'
   }"

fun all_of_variable :: "nat list \<Rightarrow> nat \<Rightarrow> nat list \<Rightarrow> bool option" where
  "all_of_variable to_var v [] = Some True"
| "all_of_variable to_var v (s # ss) = do {
     w \<leftarrow> vec_get to_var s;
     if w = v then all_of_variable to_var v ss else Some False
   }"

definition search_step :: "(nat list \<Rightarrow> u64) \<Rightarrow> LexicalGrammar \<Rightarrow> CharacterSet list \<Rightarrow> nat list \<Rightarrow> nat \<Rightarrow> nat \<Rightarrow>
    NfaCursor \<Rightarrow> nat list \<Rightarrow> nat list list \<Rightarrow> u64 set \<Rightarrow> status \<times> status \<Rightarrow> (NfaCursor \<times> nat list list \<times> u64 set \<times> status \<times> status) option" where
  "search_step hash g following_chars to_var i j cur state_set queue visited result = do {
     s0 \<leftarrow> vec_get state_set 0;
     first_live \<leftarrow> vec_get to_var s0;
     single \<leftarrow> all_of_variable to_var first_live state_set;
     if single then Some (cur, queue, visited, insert_flag (first_live = i) MATCHES_DIFFERENT_STRING result)
     else do {
       cur' \<leftarrow> reset cur state_set;
       cs \<leftarrow> completions cur';
       (within_sep, completion, result1) \<leftarrow> completion_loop g i cur' cs None None result;
       ts \<leftarrow> transitions cur';
       (queue', visited', result2) \<leftarrow> transition_loop hash g following_chars to_var i j within_sep completion ts queue visited result1;
       Some (cur', queue', visited', result2)
     }
   }"

partial_function (option) search_loop :: "(nat list \<Rightarrow> u64) \<Rightarrow> LexicalGrammar \<Rightarrow> CharacterSet list \<Rightarrow> nat list \<Rightarrow> nat \<Rightarrow> nat \<Rightarrow>
    NfaCursor \<Rightarrow> nat list list \<Rightarrow> u64 set \<Rightarrow> status \<times> status \<Rightarrow> (NfaCursor \<times> status \<times> status) option" where
  "search_loop hash g following_chars to_var i j cur queue visited result =
     (case queue of
        [] \<Rightarrow> Some (cur, result)
      | state_set # queue' \<Rightarrow> do {
          (cur', queue'', visited', result') \<leftarrow> search_step hash g following_chars to_var i j cur state_set queue' visited result;
          search_loop hash g following_chars to_var i j cur' queue'' visited' result'
        })"

definition compute_conflict_status :: "(nat list \<Rightarrow> u64) \<Rightarrow> NfaCursor \<Rightarrow> LexicalGrammar \<Rightarrow> CharacterSet list \<Rightarrow> nat list \<Rightarrow> nat \<Rightarrow> nat \<Rightarrow>
    (NfaCursor \<times> status \<times> status) option" where
  "compute_conflict_status hash cur g following_chars to_var i j = do {
     vi \<leftarrow> vec_get (lex_variables g) i;
     vj \<leftarrow> vec_get (lex_variables g) j;
     search_loop hash g following_chars to_var i j cur [[lv_start_state vi, lv_start_state vj]] {} (0, 0)
   }"

fun status_loop :: "(nat list \<Rightarrow> u64) \<Rightarrow> LexicalGrammar \<Rightarrow> CharacterSet list \<Rightarrow> nat list \<Rightarrow> nat \<Rightarrow> (nat \<times> nat) list \<Rightarrow>
    NfaCursor \<Rightarrow> status list \<Rightarrow> (NfaCursor \<times> status list) option" where
  "status_loop hash g following_chars to_var n [] cur matrix = Some (cur, matrix)"
| "status_loop hash g following_chars to_var n ((i, j) # ps) cur matrix = do {
     (cur', s_ij, s_ji) \<leftarrow> compute_conflict_status hash cur g following_chars to_var i j;
     m1 \<leftarrow> vec_set matrix (matrix_index n i j) s_ij;
     m2 \<leftarrow> vec_set m1 (matrix_index n j i) s_ji;
     status_loop hash g following_chars to_var n ps cur' m2
   }"

definition conflict_mask :: status where
  "conflict_mask = DOES_MATCH_VALID_CONT OR DOES_MATCH_SEPARATORS OR MATCHES_SAME_STRING OR MATCHES_PREFIX"

definition overlap_mask :: status where
  "overlap_mask = DOES_MATCH_SEPARATORS OR MATCHES_PREFIX OR MATCHES_SAME_STRING OR DOES_MATCH_CONTINUATION"

fun rows_loop :: "nat \<Rightarrow> nat \<Rightarrow> status list \<Rightarrow> (nat \<times> nat) list \<Rightarrow> u64 list \<Rightarrow> u64 list \<Rightarrow> (u64 list \<times> u64 list) option" where
  "rows_loop n rw matrix [] cb ob = Some (cb, ob)"
| "rows_loop n rw matrix ((i, j) # ps) cb ob = do {
     entry_ij \<leftarrow> vec_get matrix (matrix_index n i j);
     cb' \<leftarrow> (if intersects entry_ij conflict_mask then set_word_bit cb (i * rw + j div 64) (j mod 64) else Some cb);
     entry_ji \<leftarrow> vec_get matrix (matrix_index n j i);
     ob' \<leftarrow> (if intersects entry_ij overlap_mask \<or> intersects entry_ji overlap_mask
       then set_word_bit ob (i * rw + j div 64) (j mod 64) else Some ob);
     rows_loop n rw matrix ps cb' ob'
   }"

definition new_conflict_map :: "(nat list \<Rightarrow> u64) \<Rightarrow> LexicalGrammar \<Rightarrow> TokenSet list \<Rightarrow> TokenConflictMap option" where
  "new_conflict_map hash g following = do {
     cur0 \<leftarrow> new_cursor (lex_nfa g) [];
     (cur1, starting) \<leftarrow> get_starting_chars cur0 g;
     following_chars \<leftarrow> get_following_chars starting following;
     let to_var = map (\<lambda>s. variable_index_for_nfa_state g (as_u32 s)) [0..<length (nfa_states (lex_nfa g))];
     let n = length (lex_variables g);
     (cur2, matrix) \<leftarrow> status_loop hash g following_chars to_var n
       (concat (map (\<lambda>i. map (Pair i) [0..<i]) [0..<n])) cur1 (replicate (n * n) 0);
     let rw = div_ceil_64 n;
     (cb, ob) \<leftarrow> rows_loop n rw matrix (concat (map (\<lambda>i. map (Pair i) [0..<n]) [0..<n])) (replicate (n * rw) 0) (replicate (n * rw) 0);
     Some \<lparr>tc_n = n, status_matrix = matrix, following_tokens = following, starting_chars_by_index = starting,
       following_chars_by_index = following_chars, conflict_or_prefix_bits = cb, overlap_either_bits = ob, row_words = rw\<rparr>
   }"

definition status_at :: "TokenConflictMap \<Rightarrow> nat \<Rightarrow> nat \<Rightarrow> status option" where
  "status_at m i j = vec_get (status_matrix m) (matrix_index (tc_n m) i j)"

definition has_same_conflict_status :: "TokenConflictMap \<Rightarrow> nat \<Rightarrow> nat \<Rightarrow> nat \<Rightarrow> bool option" where
  "has_same_conflict_status m a b other = do {
     left \<leftarrow> status_at m a other;
     right \<leftarrow> status_at m b other;
     Some (left = right)
   }"

definition does_match_different_string :: "TokenConflictMap \<Rightarrow> nat \<Rightarrow> nat \<Rightarrow> bool option" where
  "does_match_different_string m i j = map_option (\<lambda>s. has_flags s MATCHES_DIFFERENT_STRING) (status_at m i j)"

definition does_match_same_string :: "TokenConflictMap \<Rightarrow> nat \<Rightarrow> nat \<Rightarrow> bool option" where
  "does_match_same_string m i j = map_option (\<lambda>s. has_flags s MATCHES_SAME_STRING) (status_at m i j)"

text \<open>\<open>does_conflict\<close> reads the matrix unchecked; its debug assertion is the range check.\<close>

definition does_conflict :: "TokenConflictMap \<Rightarrow> nat \<Rightarrow> nat \<Rightarrow> bool option" where
  "does_conflict m i j =
     (if i < tc_n m \<and> j < tc_n m then
        map_option (\<lambda>s. intersects s (DOES_MATCH_VALID_CONT OR DOES_MATCH_SEPARATORS OR MATCHES_SAME_STRING)) (status_at m i j)
      else None)"

definition does_match_prefix :: "TokenConflictMap \<Rightarrow> nat \<Rightarrow> nat \<Rightarrow> bool option" where
  "does_match_prefix m i j = map_option (\<lambda>s. has_flags s MATCHES_PREFIX) (status_at m i j)"

definition does_match_shorter_or_longer :: "TokenConflictMap \<Rightarrow> nat \<Rightarrow> nat \<Rightarrow> bool option" where
  "does_match_shorter_or_longer m i j = do {
     entry \<leftarrow> status_at m i j;
     reverse_entry \<leftarrow> status_at m j i;
     Some (intersects entry (DOES_MATCH_VALID_CONT OR DOES_MATCH_SEPARATORS) \<and> \<not> has_flags reverse_entry DOES_MATCH_SEPARATORS)
   }"

definition does_overlap :: "TokenConflictMap \<Rightarrow> nat \<Rightarrow> nat \<Rightarrow> bool option" where
  "does_overlap m i j = map_option (\<lambda>s. intersects s
     (DOES_MATCH_SEPARATORS OR MATCHES_PREFIX OR MATCHES_SAME_STRING OR DOES_MATCH_CONTINUATION)) (status_at m i j)"


section \<open>Preference between tokens\<close>

text \<open>Larger precedence first, then larger implicit precedence, then the token declared earlier.\<close>

definition pref_key :: "LexicalGrammar \<Rightarrow> int \<times> nat \<Rightarrow> int \<times> int \<times> int" where
  "pref_key g = (\<lambda>(p, v). (p, lv_implicit_precedence (lex_variables g ! v), - int v))"

lemma prefer_token_key:
  "li < length (lex_variables g) \<Longrightarrow> ri < length (lex_variables g) \<Longrightarrow>
     prefer_token g (lp, li) (rp, ri) = Some (pref_key g (rp, ri) < pref_key g (lp, li))"
  by (auto simp: pref_key_def vec_get_def less_prod_def' ord_cmp_def split: ordering.splits)

section \<open>Character sets at the start of tokens\<close>

lemma fold_add_correct:
  "list_all (\<lambda>(cs, _). canon cs) tcs \<Longrightarrow> canon c \<Longrightarrow>
     canon (fold (\<lambda>(cs, _) cset. add cset cs) tcs c) \<and>
     chars_of (fold (\<lambda>(cs, _) cset. add cset cs) tcs c) = chars_of c \<union> (\<Union>(cs, _) \<in> set tcs. chars_of cs)"
  by (induction tcs arbitrary: c) (simp_all add: add_correct split_beta Un_assoc)

definition starting_chars :: "LexicalGrammar \<Rightarrow> LexicalVariable \<Rightarrow> nat set" where
  "starting_chars g v = (\<Union>s \<in> expand g {lv_start_state v}. case nfa_states (lex_nfa g) ! s of Advance cs _ _ _ \<Rightarrow> chars_of cs | _ \<Rightarrow> {})"

lemma raws_at_chars:
  "(\<Union>(cs, _) \<in> set (raws_at g sids). chars_of cs) =
     (\<Union>s \<in> set sids. case nfa_states (lex_nfa g) ! s of Advance cs _ _ _ \<Rightarrow> chars_of cs | _ \<Rightarrow> {})"
  by (force simp: raws_at_def split: NfaState.splits)

lemma starting_chars_loop_correct:
  assumes "lexical_wf g" "nfa cur = lex_nfa g" "\<forall>v \<in> set vs. lv_start_state v < num_states g"
  shows "\<exists>cur' css. starting_chars_loop cur vs = Some (cur', css) \<and> nfa cur' = lex_nfa g \<and>
    list_all2 (\<lambda>v cs. canon cs \<and> chars_of cs = starting_chars g v) vs css"
  using assms(2,3)
proof (induction vs arbitrary: cur)
  case Nil
  then show ?case by simp
next
  case (Cons v vs)
  let ?ids = "sorted_list_of_set (expand g {lv_start_state v})"
  let ?cur = "cur\<lparr>state_ids := ?ids\<rparr>"
  have sv: "{lv_start_state v} \<subseteq> {..<num_states g}" using Cons.prems by simp
  have r: "expand g {lv_start_state v} \<subseteq> {..<num_states g}" by (rule expand_range [OF assms(1) sv])
  then have fin: "finite (expand g {lv_start_state v})" by (rule finite_subset) simp
  have rs: "reset cur [lv_start_state v] = Some ?cur" using reset_correct [OF assms(1) Cons.prems(1), of "[lv_start_state v]"] sv by simp
  have ids: "set ?ids \<subseteq> {..<num_states g}" using r fin by simp
  let ?tcs = "map (\<lambda>(cs, sep, _, _). (cs, sep)) (raws_at g ?ids)"
  have tc: "transition_chars ?cur = Some ?tcs" using transition_chars_correct [of ?cur g] Cons.prems(1) ids by simp
  have "list_all (\<lambda>(cs, _). canon cs) ?tcs" using raws_at_wf(1) [OF assms(1) ids] by (auto simp: list_all_iff)
  from fold_add_correct [OF this, of empty] have c:
    "canon (fold (\<lambda>(cs, _) cset. add cset cs) ?tcs empty)"
    "chars_of (fold (\<lambda>(cs, _) cset. add cset cs) ?tcs empty) = (\<Union>(cs, _) \<in> set ?tcs. chars_of cs)"
    by (auto simp: empty_def canon_def)
  have "(\<Union>(cs, _) \<in> set ?tcs. chars_of cs) = (\<Union>(cs, _) \<in> set (raws_at g ?ids). chars_of cs)" by force
  also have "\<dots> = starting_chars g v" unfolding raws_at_chars starting_chars_def using fin by simp
  finally have c2: "chars_of (fold (\<lambda>(cs, _) cset. add cset cs) ?tcs empty) = starting_chars g v" using c(2) by simp
  obtain cur' css where ih: "starting_chars_loop ?cur vs = Some (cur', css)" "nfa cur' = lex_nfa g"
    "list_all2 (\<lambda>v cs. canon cs \<and> chars_of cs = starting_chars g v) vs css" using Cons.IH [of ?cur] Cons.prems by auto
  have "starting_chars_loop cur (v # vs) = Some (cur', fold (\<lambda>(cs, _) cset. add cset cs) ?tcs empty # css)"
    by (simp only: starting_chars_loop.simps rs tc ih(1) bind.bind_lunit case_prod_conv)
  then show ?case using ih(2,3) c(1) c2 by (intro exI [of _ cur'] exI [of _ "fold (\<lambda>(cs, _) cset. add cset cs) ?tcs empty # css"]) simp
qed

lemma add_starting_chars_correct:
  assumes "\<forall>t \<in> set ts. is_terminal t \<longrightarrow> index t < length starting" "list_all canon starting" "canon c"
  shows "\<exists>c'. add_starting_chars starting ts c = Some c' \<and> canon c' \<and>
    chars_of c' = chars_of c \<union> (\<Union>t \<in> {t \<in> set ts. is_terminal t}. chars_of (starting ! index t))"
  using assms
proof (induction ts arbitrary: c)
  case (Cons t ts)
  show ?case
  proof (cases "is_terminal t")
    case True
    then have k: "index t < length starting" "canon (starting ! index t)" using Cons.prems by (auto simp: list_all_length)
    have "{x \<in> set (t # ts). is_terminal x} = insert t {x \<in> set ts. is_terminal x}" using True by auto
    then show ?thesis using Cons.IH [of "add c (starting ! index t)"] Cons.prems k True add_correct [OF Cons.prems(3) k(2)]
      by (auto simp: vec_get_def)
  next
    case False
    then have "{x \<in> set (t # ts). is_terminal x} = {x \<in> set ts. is_terminal x}" by auto
    then show ?thesis using Cons.IH [of c] Cons.prems False by simp
  qed
qed simp

definition following_ok :: "nat \<Rightarrow> TokenSet \<Rightarrow> bool" where
  "following_ok n f \<longleftrightarrow> ts_inv f \<and> (\<forall>i. Symbol Terminal i \<in> toks f \<longrightarrow> i < n)"

lemma get_following_chars_correct:
  assumes "list_all (following_ok (length starting)) fs" "list_all canon starting"
  shows "\<exists>css. get_following_chars starting fs = Some css \<and> list_all2 (\<lambda>f cs. canon cs \<and>
    chars_of cs = (\<Union>i \<in> {i. Symbol Terminal i \<in> toks f}. chars_of (starting ! i))) fs css"
  using assms(1)
proof (induction fs)
  case (Cons f fs)
  obtain ts where ts: "iter f = Some ts" "set ts = toks f"
    using iter_correct [of f] Cons.prems by (auto simp: following_ok_def)
  have "\<forall>t \<in> set ts. is_terminal t \<longrightarrow> index t < length starting"
    using Cons.prems ts(2) by (auto simp: following_ok_def is_terminal_def) (metis Symbol.collapse)
  from add_starting_chars_correct [OF this assms(2), of empty] obtain c where c: "add_starting_chars starting ts empty = Some c" "canon c"
    "chars_of c = (\<Union>t \<in> {t \<in> set ts. is_terminal t}. chars_of (starting ! index t))" by (auto simp: empty_def canon_def)
  have "{t \<in> set ts. is_terminal t} = Symbol Terminal ` {i. Symbol Terminal i \<in> toks f}"
    unfolding ts(2) is_terminal_def by (auto simp: image_iff) (metis Symbol.collapse)
  then have c': "chars_of c = (\<Union>i \<in> {i. Symbol Terminal i \<in> toks f}. chars_of (starting ! i))" using c(3) by simp
  have "list_all (following_ok (length starting)) fs" using Cons.prems by simp
  from Cons.IH [OF this] obtain css where "get_following_chars starting fs = Some css" "list_all2 (\<lambda>f cs. canon cs \<and>
    chars_of cs = (\<Union>i \<in> {i. Symbol Terminal i \<in> toks f}. chars_of (starting ! i))) fs css" by blast
  then show ?case using ts c c' by (intro exI [of _ "c # css"]) simp
qed simp


section \<open>Termination of the search\<close>

definition state_sets :: "LexicalGrammar \<Rightarrow> nat list set" where
  "state_sets g = sorted_list_of_set ` Pow {..<num_states g}"

lemma finite_state_sets [simp]: "finite (state_sets g)"
  by (simp add: state_sets_def)

lemma transition_state_set: "transition_wf g t \<Longrightarrow> t_states t \<in> state_sets g"
  unfolding state_sets_def transition_wf_def
  by (intro image_eqI [of _ _ "set (t_states t)"] strict_sorted_equal) auto

definition budget :: "(nat list \<Rightarrow> u64) \<Rightarrow> LexicalGrammar \<Rightarrow> nat list list \<Rightarrow> u64 set \<Rightarrow> nat" where
  "budget hash g queue visited = 2 * card (hash ` state_sets g - visited) + length queue"

text \<open>What the search needs of its arguments: a well-formed grammar, tables of the right sizes, and a queue of
  non-empty state sets in range.\<close>

definition search_args :: "LexicalGrammar \<Rightarrow> CharacterSet list \<Rightarrow> nat list \<Rightarrow> nat \<Rightarrow> nat \<Rightarrow> bool" where
  "search_args g following_chars to_var i j \<longleftrightarrow> lexical_wf g \<and> length to_var = num_states g \<and>
     i < length following_chars \<and> j < length following_chars"

definition queue_ok :: "LexicalGrammar \<Rightarrow> nat list list \<Rightarrow> bool" where
  "queue_ok g queue \<longleftrightarrow> (\<forall>s \<in> set queue. s \<noteq> [] \<and> set s \<subseteq> {..<num_states g})"

lemma completion_loop_defined:
  assumes "\<forall>(v, p) \<in> set cs. v < length (lex_variables g)" "\<exists>tcs. transition_chars cur = Some tcs"
    "\<forall>v p. completion = Some (v, p) \<longrightarrow> v < length (lex_variables g)"
  shows "\<exists>ws c r. completion_loop g i cur cs within_sep completion result = Some (ws, c, r) \<and>
    (\<forall>v p. c = Some (v, p) \<longrightarrow> v < length (lex_variables g))"
  using assms(1,3)
proof (induction cs arbitrary: within_sep completion result)
  case Nil
  then show ?case by simp
next
  case (Cons vp cs)
  obtain v p where vp: "vp = (v, p)" by fastforce
  obtain sep where sep: "(case within_sep of Some b \<Rightarrow> Some b | None \<Rightarrow> map_option (list_ex snd) (transition_chars cur)) = Some sep"
    using assms(2) by (cases within_sep) auto
  have v: "v < length (lex_variables g)" and cs: "\<forall>(v, p) \<in> set cs. v < length (lex_variables g)" using Cons.prems vp by auto
  show ?case
  proof (cases completion)
    case None
    then show ?thesis unfolding vp using Cons.IH [OF cs] v by (simp add: sep Let_def)
  next
    case (Some pc)
    then obtain pv pp where pc: "completion = Some (pv, pp)" by (cases pc) auto
    then have "pv < length (lex_variables g)" using Cons.prems by auto
    then obtain b where b: "prefer_token g (pp, pv) (p, v) = Some b" using prefer_token_key v by blast
    show ?thesis unfolding vp pc using Cons.IH [OF cs] v Cons.prems(2) pc
      by (cases b) (simp_all add: sep Let_def b del: prefer_token.simps)
  qed
qed

lemma successor_variables_defined:
  "set ss \<subseteq> {..<length to_var} \<Longrightarrow> \<exists>r. successor_variables to_var c ss prev adv = Some r"
  by (induction ss arbitrary: prev adv) (auto simp: vec_get_def)

lemma transition_status_defined:
  assumes "search_args g following_chars to_var i j" "transition_wf g t"
  shows "\<exists>r. transition_status g following_chars to_var i j ws completion t result = Some r"
proof (cases completion)
  case (Some c)
  obtain r where "successor_variables to_var (fst c) (t_states t) None None = Some r"
    using successor_variables_defined assms by (metis search_args_def transition_wf_def)
  then show ?thesis using Some assms(1)
    by (cases r; cases "fst r"; cases "snd r"; cases c) (auto simp: transition_status_def search_args_def vec_get_def Let_def)
qed (simp add: transition_status_def)

lemma transition_loop_defined:
  assumes "search_args g following_chars to_var i j" "list_all (transition_wf g) ts" "queue_ok g queue"
  shows "\<exists>queue' visited' r. transition_loop hash g following_chars to_var i j ws completion ts queue visited result = Some (queue', visited', r) \<and>
    queue_ok g queue' \<and> budget hash g queue' visited' \<le> budget hash g queue visited"
  using assms(2,3)
proof (induction ts arbitrary: queue visited result)
  case Nil
  then show ?case by simp
next
  case (Cons t ts)
  have t: "transition_wf g t" "list_all (transition_wf g) ts" using Cons.prems by auto
  obtain r where r: "transition_status g following_chars to_var i j ws completion t result = Some r"
    using transition_status_defined [OF assms(1) t(1)] by blast
  show ?case
  proof (cases "hash (t_states t) \<in> visited")
    case True
    then show ?thesis using Cons.IH [OF t(2) Cons.prems(2)] by (simp add: r)
  next
    case False
    let ?v = "insert (hash (t_states t)) visited"
    have "hash (t_states t) \<in> hash ` state_sets g - visited" using transition_state_set [OF t(1)] False by blast
    then have "card (hash ` state_sets g - ?v) < card (hash ` state_sets g - visited)"
      by (intro psubset_card_mono) auto
    then have b: "budget hash g (t_states t # queue) ?v \<le> budget hash g queue visited" by (simp add: budget_def)
    have "queue_ok g (t_states t # queue)" using Cons.prems(2) t(1) by (auto simp: queue_ok_def transition_wf_def)
    from Cons.IH [OF t(2) this, of ?v r] b show ?thesis using False by (fastforce simp: r)
  qed
qed

lemma all_of_variable_correct:
  "set ss \<subseteq> {..<length to_var} \<Longrightarrow> all_of_variable to_var v ss = Some (\<forall>s \<in> set ss. to_var ! s = v)"
  by (induction ss) (auto simp: vec_get_def)

lemma search_step_defined:
  assumes args: "search_args g following_chars to_var i j" and cur: "nfa cur = lex_nfa g" and q: "queue_ok g (s # queue)"
  shows "\<exists>cur' queue' visited' r. search_step hash g following_chars to_var i j cur s queue visited result = Some (cur', queue', visited', r) \<and>
    nfa cur' = lex_nfa g \<and> queue_ok g queue' \<and> budget hash g queue' visited' < budget hash g (s # queue) visited"
proof -
  have g: "lexical_wf g" "length to_var = num_states g" using args by (simp_all add: search_args_def)
  have s: "s \<noteq> []" "set s \<subseteq> {..<num_states g}" and q': "queue_ok g queue" using q by (auto simp: queue_ok_def)
  have s0: "vec_get s 0 = Some (s ! 0)" "vec_get to_var (s ! 0) = Some (to_var ! (s ! 0))"
    using s g(2) nth_mem [of 0 s] by (cases s, auto simp: vec_get_def)+
  have single: "all_of_variable to_var (to_var ! (s ! 0)) s = Some (\<forall>x \<in> set s. to_var ! x = to_var ! (s ! 0))"
    using all_of_variable_correct s(2) g(2) by simp
  show ?thesis
  proof (cases "\<forall>x \<in> set s. to_var ! x = to_var ! (s ! 0)")
    case True
    then show ?thesis using q' cur by (simp add: search_step_def s0 single budget_def)
  next
    case False
    let ?ids = "sorted_list_of_set (expand g (set s))"
    let ?cur = "cur\<lparr>state_ids := ?ids\<rparr>"
    have ids: "set (state_ids ?cur) \<subseteq> {..<num_states g}" and c: "nfa ?cur = lex_nfa g"
      using expand_range [OF g(1) s(2)] finite_subset [OF expand_range [OF g(1) s(2)]] cur by auto
    note rs = reset_correct [OF g(1) cur s(2)]
    note cs = completions_correct [OF c ids]
    have "\<forall>(v, p) \<in> set (completions_at g (state_ids ?cur)). v < length (lex_variables g)"
      using completions_at_wf [OF g(1) ids] by auto
    then obtain ws cp r1 where cl: "completion_loop g i ?cur (completions_at g (state_ids ?cur)) None None result = Some (ws, cp, r1)"
      using completion_loop_defined [of _ g ?cur None i None result] transition_chars_correct [OF c ids] by blast
    obtain es where es: "transitions ?cur = Some es" "list_all (transition_wf g) es" using transitions_correct [OF g(1) c ids] by blast
    obtain queue' visited' r2 where tl:
      "transition_loop hash g following_chars to_var i j ws cp es queue visited r1 = Some (queue', visited', r2)"
      "queue_ok g queue'" "budget hash g queue' visited' \<le> budget hash g queue visited"
      using transition_loop_defined [OF args es(2) q'] by blast
    have "search_step hash g following_chars to_var i j cur s queue visited result = Some (?cur, queue', visited', r2)"
      unfolding search_step_def s0 bind.bind_lunit single rs cs cl es(1) tl(1) case_prod_conv using False by auto
    then show ?thesis using tl(2,3) c by (simp add: budget_def)
  qed
qed

lemma search_loop_defined:
  assumes "search_args g following_chars to_var i j" "nfa cur = lex_nfa g" "queue_ok g queue"
  shows "\<exists>cur' r. search_loop hash g following_chars to_var i j cur queue visited result = Some (cur', r) \<and> nfa cur' = lex_nfa g"
  using assms(2,3)
proof (induction "budget hash g queue visited" arbitrary: cur queue visited result rule: less_induct)
  case less
  show ?case
  proof (cases queue)
    case Nil
    then show ?thesis using less.prems by (simp add: search_loop.simps)
  next
    case (Cons s queue1)
    obtain cur' queue' visited' r where st: "search_step hash g following_chars to_var i j cur s queue1 visited result = Some (cur', queue', visited', r)"
      "nfa cur' = lex_nfa g" "queue_ok g queue'" "budget hash g queue' visited' < budget hash g queue visited"
      using search_step_defined [OF assms(1) less.prems(1), of s queue1] less.prems(2) Cons by blast
    show ?thesis using less.hyps [OF st(4,2,3), of r] st(1) Cons by (subst search_loop.simps) simp
  qed
qed

lemma compute_conflict_status_defined:
  assumes "search_args g following_chars to_var i j" "nfa cur = lex_nfa g" "i < length (lex_variables g)" "j < length (lex_variables g)"
  shows "\<exists>cur' r. compute_conflict_status hash cur g following_chars to_var i j = Some (cur', r) \<and> nfa cur' = lex_nfa g"
proof -
  have "queue_ok g [[lv_start_state (lex_variables g ! i), lv_start_state (lex_variables g ! j)]]"
    using assms by (auto simp: queue_ok_def search_args_def lexical_wf_def)
  from search_loop_defined [OF assms(1,2) this] show ?thesis using assms(3,4) by (simp add: compute_conflict_status_def vec_get_def)
qed


section \<open>The matrix and its bit rows\<close>

lemma matrix_index_less: "i < n \<Longrightarrow> j < n \<Longrightarrow> matrix_index n i j < n * n"
proof -
  assume "i < n" "j < n"
  then have "n * i + j < n * Suc i" by simp
  also have "\<dots> \<le> n * n" using \<open>i < n\<close> by (intro mult_le_mono2) simp
  finally show ?thesis by (simp add: matrix_index_def)
qed

lemma status_loop_defined:
  assumes "lexical_wf g" "length to_var = num_states g" "length following_chars = n" "n = length (lex_variables g)"
    "nfa cur = lex_nfa g" "set ps \<subseteq> {..<n} \<times> {..<n}" "length matrix = n * n"
  shows "\<exists>cur' matrix'. status_loop hash g following_chars to_var n ps cur matrix = Some (cur', matrix') \<and> length matrix' = n * n"
  using assms(5-7)
proof (induction ps arbitrary: cur matrix)
  case (Cons ij ps)
  obtain i j where ij: "ij = (i, j)" "i < n" "j < n" using Cons.prems(2) by (cases ij) auto
  have args: "search_args g following_chars to_var i j" using assms ij by (simp add: search_args_def)
  obtain cur' s1 s2 where c: "compute_conflict_status hash cur g following_chars to_var i j = Some (cur', s1, s2)" "nfa cur' = lex_nfa g"
    using compute_conflict_status_defined [OF args Cons.prems(1)] ij assms(4) by (metis surj_pair)
  show ?case using Cons.IH [OF c(2), of "matrix[matrix_index n i j := s1, matrix_index n j i := s2]"] Cons.prems ij
    matrix_index_less [of i n j] matrix_index_less [of j n i] by (simp add: c(1) vec_set_def)
qed simp

definition row_bit :: "nat \<Rightarrow> u64 list \<Rightarrow> nat \<Rightarrow> nat \<Rightarrow> bool" where
  "row_bit rw ws i j = bit (ws ! (i * rw + j div 64)) (j mod 64)"

lemma row_bit_dense:
  assumes "i < n" "j < n" "length ws = n * div_ceil_64 n" "bits_of_words ws = dense (div_ceil_64 n * 64) R" "within n R"
  shows "row_bit (div_ceil_64 n) ws i j \<longleftrightarrow> (i, j) \<in> R"
proof -
  have "j < div_ceil_64 n * 64" using assms(2) le_row_bits [of n] by simp
  then show ?thesis
    using bit_nth_bits [of "i * div_ceil_64 n + j div 64" ws "j mod 64"] row_index [OF assms(1,2)] assms(3,4)
      dense_mem [OF assms(5) le_row_bits, of j i] by (simp add: row_bit_def algebra_simps)
qed

definition flagged :: "nat \<Rightarrow> status list \<Rightarrow> status \<Rightarrow> (nat \<times> nat) \<Rightarrow> bool" where
  "flagged n matrix m = (\<lambda>(i, j). intersects (matrix ! matrix_index n i j) m)"

lemma set_row_if:
  assumes "a < n" "b < n" "length ws = n * div_ceil_64 n" "bits_of_words ws = dense (div_ceil_64 n * 64) R"
  shows "\<exists>ws'. (if c then set_word_bit ws (a * div_ceil_64 n + b div 64) (b mod 64) else Some ws) = Some ws' \<and>
    length ws' = n * div_ceil_64 n \<and> bits_of_words ws' = dense (div_ceil_64 n * 64) (R \<union> {p. p = (a, b) \<and> c})"
  using set_row [OF assms] assms by (cases c) auto

lemma rows_loop_correct:
  assumes "length matrix = n * n" "set ps \<subseteq> {..<n} \<times> {..<n}"
    "length cb = n * div_ceil_64 n" "bits_of_words cb = dense (div_ceil_64 n * 64) R"
    "length ob = n * div_ceil_64 n" "bits_of_words ob = dense (div_ceil_64 n * 64) Q"
  shows "\<exists>cb' ob'. rows_loop n (div_ceil_64 n) matrix ps cb ob = Some (cb', ob') \<and>
    length cb' = n * div_ceil_64 n \<and> bits_of_words cb' = dense (div_ceil_64 n * 64) (R \<union> {p \<in> set ps. flagged n matrix conflict_mask p}) \<and>
    length ob' = n * div_ceil_64 n \<and> bits_of_words ob' = dense (div_ceil_64 n * 64)
      (Q \<union> {(i, j) \<in> set ps. flagged n matrix overlap_mask (i, j) \<or> flagged n matrix overlap_mask (j, i)})"
  using assms(2-)
proof (induction ps arbitrary: cb ob R Q)
  case Nil
  then show ?case by simp
next
  case (Cons ij ps)
  obtain i j where ij: "ij = (i, j)" "i < n" "j < n" using Cons.prems(1) by (cases ij) auto
  let ?c = "flagged n matrix conflict_mask (i, j)"
  let ?o = "flagged n matrix overlap_mask (i, j) \<or> flagged n matrix overlap_mask (j, i)"
  obtain cb1 where cb1: "(if ?c then set_word_bit cb (i * div_ceil_64 n + j div 64) (j mod 64) else Some cb) = Some cb1"
    "length cb1 = n * div_ceil_64 n" "bits_of_words cb1 = dense (div_ceil_64 n * 64) (R \<union> {p. p = (i, j) \<and> ?c})"
    using set_row_if [OF ij(2,3) Cons.prems(2,3)] by blast
  obtain ob1 where ob1: "(if ?o then set_word_bit ob (i * div_ceil_64 n + j div 64) (j mod 64) else Some ob) = Some ob1"
    "length ob1 = n * div_ceil_64 n" "bits_of_words ob1 = dense (div_ceil_64 n * 64) (Q \<union> {p. p = (i, j) \<and> ?o})"
    using set_row_if [OF ij(2,3) Cons.prems(4,5)] by blast
  have get: "vec_get matrix (matrix_index n i j) = Some (matrix ! matrix_index n i j)"
    "vec_get matrix (matrix_index n j i) = Some (matrix ! matrix_index n j i)"
    using matrix_index_less ij assms(1) by (simp_all add: vec_get_def)
  have run: "rows_loop n (div_ceil_64 n) matrix (ij # ps) cb ob = rows_loop n (div_ceil_64 n) matrix ps cb1 ob1"
    unfolding ij(1) rows_loop.simps get bind.bind_lunit using cb1(1) ob1(1) by (simp add: flagged_def)
  have e1: "R \<union> {p. p = (i, j) \<and> ?c} \<union> {p \<in> set ps. flagged n matrix conflict_mask p} =
      R \<union> {p \<in> set (ij # ps). flagged n matrix conflict_mask p}" using ij(1) by auto
  have e2: "Q \<union> {p. p = (i, j) \<and> ?o} \<union> {(i, j) \<in> set ps. flagged n matrix overlap_mask (i, j) \<or> flagged n matrix overlap_mask (j, i)} =
      Q \<union> {(i, j) \<in> set (ij # ps). flagged n matrix overlap_mask (i, j) \<or> flagged n matrix overlap_mask (j, i)}" using ij(1) by auto
  have "set ps \<subseteq> {..<n} \<times> {..<n}" using Cons.prems(1) by simp
  from Cons.IH [OF this cb1(2,3) ob1(2,3)] show ?case unfolding run e1 e2 .
qed

lemma all_pairs: "set (concat (map (\<lambda>i. map (Pair i) [0..<n]) [0..<n])) = {..<n} \<times> {..<n}"
  by auto

lemma lower_pairs: "set (concat (map (\<lambda>i. map (Pair i) [0..<i]) [0..<n])) \<subseteq> {..<n} \<times> {..<n}"
  by auto

lemma new_conflict_map_rep:
  assumes g: "lexical_wf g" and fs: "length following = length (lex_variables g)" "list_all (following_ok (length (lex_variables g))) following"
  shows "\<exists>m. new_conflict_map hash g following = Some m \<and> tc_n m = length (lex_variables g) \<and> row_words m = div_ceil_64 (tc_n m) \<and>
    length (status_matrix m) = tc_n m * tc_n m \<and>
    list_all2 (\<lambda>v cs. canon cs \<and> chars_of cs = starting_chars g v) (lex_variables g) (starting_chars_by_index m) \<and>
    list_all2 (\<lambda>f cs. canon cs \<and> chars_of cs = (\<Union>i \<in> {i. Symbol Terminal i \<in> toks f}. starting_chars g (lex_variables g ! i))) following (following_chars_by_index m) \<and>
    (\<forall>i < tc_n m. \<forall>j < tc_n m. row_bit (row_words m) (conflict_or_prefix_bits m) i j \<longleftrightarrow> flagged (tc_n m) (status_matrix m) conflict_mask (i, j)) \<and>
    (\<forall>i < tc_n m. \<forall>j < tc_n m. row_bit (row_words m) (overlap_either_bits m) i j \<longleftrightarrow>
       flagged (tc_n m) (status_matrix m) overlap_mask (i, j) \<or> flagged (tc_n m) (status_matrix m) overlap_mask (j, i)) \<and>
    length (conflict_or_prefix_bits m) = tc_n m * row_words m \<and> length (overlap_either_bits m) = tc_n m * row_words m"
proof -
  let ?n = "length (lex_variables g)" and ?k = "div_ceil_64 (length (lex_variables g))"
  let ?to = "map (\<lambda>s. variable_index_for_nfa_state g (as_u32 s)) [0..<num_states g]"
  have vs: "\<forall>v \<in> set (lex_variables g). lv_start_state v < num_states g" using g by (simp add: lexical_wf_def)
  obtain cur1 st where st: "get_starting_chars \<lparr>state_ids = [], nfa = lex_nfa g\<rparr> g = Some (cur1, st)" "nfa cur1 = lex_nfa g"
    "list_all2 (\<lambda>v cs. canon cs \<and> chars_of cs = starting_chars g v) (lex_variables g) st"
    using starting_chars_loop_correct [OF g _ vs, of "\<lparr>state_ids = [], nfa = lex_nfa g\<rparr>"] by (auto simp: get_starting_chars_def)
  have sn: "length st = ?n" using list_all2_lengthD [OF st(3)] by simp
  have sc: "list_all canon st" using st(3) by (auto simp: list_all2_conv_all_nth list_all_length)
  obtain fc where fc: "get_following_chars st following = Some fc" "list_all2 (\<lambda>f cs. canon cs \<and>
    chars_of cs = (\<Union>i \<in> {i. Symbol Terminal i \<in> toks f}. chars_of (st ! i))) following fc"
    using get_following_chars_correct [OF _ sc, of following] fs(2) sn by auto
  have fn: "length fc = ?n" using list_all2_lengthD [OF fc(2)] fs(1) by simp
  have fc': "list_all2 (\<lambda>f cs. canon cs \<and> chars_of cs = (\<Union>i \<in> {i. Symbol Terminal i \<in> toks f}. starting_chars g (lex_variables g ! i))) following fc"
  proof (rule list_all2_all_nthI)
    show "length following = length fc" using fn fs(1) by simp
    fix k assume k: "k < length following"
    have ok: "following_ok ?n (following ! k)" using fs(2) k by (simp add: list_all_length)
    have "chars_of (st ! i) = starting_chars g (lex_variables g ! i)" if "Symbol Terminal i \<in> toks (following ! k)" for i
      using ok that st(3) sn by (auto simp: following_ok_def list_all2_conv_all_nth)
    then show "canon (fc ! k) \<and> chars_of (fc ! k) = (\<Union>i \<in> {i. Symbol Terminal i \<in> toks (following ! k)}. starting_chars g (lex_variables g ! i))"
      using fc(2) k by (auto simp: list_all2_conv_all_nth)
  qed
  have to: "length ?to = num_states g" by simp
  obtain cur2 mx where mx: "status_loop hash g fc ?to ?n (concat (map (\<lambda>i. map (Pair i) [0..<i]) [0..<?n])) cur1 (replicate (?n * ?n) 0) = Some (cur2, mx)"
    "length mx = ?n * ?n" using status_loop_defined [OF g to fn refl st(2) lower_pairs length_replicate] by blast
  let ?all = "concat (map (\<lambda>i. map (Pair i) [0..<?n]) [0..<?n])"
  let ?sq = "{..<?n} \<times> {..<?n}"
  let ?C = "{p \<in> ?sq. flagged ?n mx conflict_mask p}"
  let ?O = "{(i, j) \<in> ?sq. flagged ?n mx overlap_mask (i, j) \<or> flagged ?n mx overlap_mask (j, i)}"
  have z: "bits_of_words (replicate (?n * ?k) 0) = dense (?k * 64) {}" by simp
  obtain cb ob where rows: "rows_loop ?n ?k mx ?all (replicate (?n * ?k) 0) (replicate (?n * ?k) 0) = Some (cb, ob)"
    "length cb = ?n * ?k" "bits_of_words cb = dense (?k * 64) ?C" "length ob = ?n * ?k" "bits_of_words ob = dense (?k * 64) ?O"
    using rows_loop_correct [OF mx(2) eq_refl [OF all_pairs] length_replicate z length_replicate z]
    unfolding all_pairs Un_empty_left by (elim exE conjE)
  have wi: "within ?n ?C" "within ?n ?O" unfolding within_def by blast+
  have rb: "row_bit ?k cb i j \<longleftrightarrow> flagged ?n mx conflict_mask (i, j)"
    "row_bit ?k ob i j \<longleftrightarrow> flagged ?n mx overlap_mask (i, j) \<or> flagged ?n mx overlap_mask (j, i)" if ij: "i < ?n" "j < ?n" for i j
    unfolding row_bit_dense [OF ij rows(2,3) wi(1)] row_bit_dense [OF ij rows(4,5) wi(2)] using ij by simp_all
  have "new_conflict_map hash g following = Some \<lparr>tc_n = ?n, status_matrix = mx, following_tokens = following, starting_chars_by_index = st,
       following_chars_by_index = fc, conflict_or_prefix_bits = cb, overlap_either_bits = ob, row_words = ?k\<rparr>"
    by (simp only: new_conflict_map_def new_cursor_empty bind.bind_lunit st(1) fc(1) mx(1) rows(1) case_prod_conv Let_def)
  moreover have "\<forall>i < ?n. \<forall>j < ?n. row_bit ?k cb i j \<longleftrightarrow> flagged ?n mx conflict_mask (i, j)"
    "\<forall>i < ?n. \<forall>j < ?n. row_bit ?k ob i j \<longleftrightarrow> flagged ?n mx overlap_mask (i, j) \<or> flagged ?n mx overlap_mask (j, i)" using rb by blast+
  ultimately show ?thesis using st(3) fc' mx(2) rows(2,4)
    by (intro exI conjI) (assumption | simp only: TokenConflictMap.simps)+
qed


lemma intersects_or: "intersects s (a OR b) \<longleftrightarrow> intersects s a \<or> intersects s b"
  unfolding intersects_def by (auto simp: bit_eq_iff bit_simps)

lemma prefix_flag: "has_flags s MATCHES_PREFIX \<longleftrightarrow> intersects s MATCHES_PREFIX"
  by (simp add: MATCHES_PREFIX_def has_flags_def intersects_def and_one_eq odd_iff_mod_2_eq_one)

section \<open>Properties\<close>

text \<open>C15. Building the conflict map of a well-formed lexical grammar terminates without a panic, whatever the
  hash function, because each state set enters the search at most once per hash value. The
  precomputed bit rows then agree with the pairwise queries for every pair of tokens: the
  conflict row has the bit exactly if \<open>does_conflict\<close> or \<open>does_match_prefix\<close> holds, the overlap row exactly if
  \<open>does_overlap\<close> holds in one direction; and the starting and following character sets are exact.\<close>

theorem conflict_map_rows_exact:
  assumes "lexical_wf g" "length following = length (lex_variables g)" "list_all (following_ok (length (lex_variables g))) following"
    and ij: "i < length (lex_variables g)" "j < length (lex_variables g)"
  shows "\<exists>m c p o_ij o_ji. new_conflict_map hash g following = Some m \<and>
    does_conflict m i j = Some c \<and> does_match_prefix m i j = Some p \<and> does_overlap m i j = Some o_ij \<and> does_overlap m j i = Some o_ji \<and>
    row_bit (row_words m) (conflict_or_prefix_bits m) i j = (c \<or> p) \<and>
    row_bit (row_words m) (overlap_either_bits m) i j = (o_ij \<or> o_ji) \<and>
    chars_of (starting_chars_by_index m ! i) = starting_chars g (lex_variables g ! i) \<and>
    chars_of (following_chars_by_index m ! i) = (\<Union>k \<in> {k. Symbol Terminal k \<in> toks (following ! i)}. starting_chars g (lex_variables g ! k))"
proof -
  obtain m where m: "new_conflict_map hash g following = Some m" "tc_n m = length (lex_variables g)" "length (status_matrix m) = tc_n m * tc_n m"
    "list_all2 (\<lambda>v cs. canon cs \<and> chars_of cs = starting_chars g v) (lex_variables g) (starting_chars_by_index m)"
    "list_all2 (\<lambda>f cs. canon cs \<and> chars_of cs = (\<Union>i \<in> {i. Symbol Terminal i \<in> toks f}. starting_chars g (lex_variables g ! i))) following (following_chars_by_index m)"
    "\<forall>i < tc_n m. \<forall>j < tc_n m. row_bit (row_words m) (conflict_or_prefix_bits m) i j \<longleftrightarrow> flagged (tc_n m) (status_matrix m) conflict_mask (i, j)"
    "\<forall>i < tc_n m. \<forall>j < tc_n m. row_bit (row_words m) (overlap_either_bits m) i j \<longleftrightarrow>
       flagged (tc_n m) (status_matrix m) overlap_mask (i, j) \<or> flagged (tc_n m) (status_matrix m) overlap_mask (j, i)"
    using new_conflict_map_rep [OF assms(1-3), of hash] by (elim exE conjE)
  let ?s = "\<lambda>i j. status_matrix m ! matrix_index (tc_n m) i j"
  have st: "status_at m i j = Some (?s i j)" "status_at m j i = Some (?s j i)"
    using matrix_index_less ij m(2,3) by (auto simp: status_at_def vec_get_def)
  have "row_bit (row_words m) (conflict_or_prefix_bits m) i j =
      (intersects (?s i j) (DOES_MATCH_VALID_CONT OR DOES_MATCH_SEPARATORS OR MATCHES_SAME_STRING) \<or> has_flags (?s i j) MATCHES_PREFIX)"
    using m(6) ij m(2) by (simp add: flagged_def conflict_mask_def prefix_flag intersects_or)
  moreover have "row_bit (row_words m) (overlap_either_bits m) i j =
      (intersects (?s i j) overlap_mask \<or> intersects (?s j i) overlap_mask)"
    using m(7) ij m(2) by (simp add: flagged_def)
  moreover have "chars_of (starting_chars_by_index m ! i) = starting_chars g (lex_variables g ! i)"
    using m(4) ij(1) by (simp add: list_all2_conv_all_nth)
  moreover have "chars_of (following_chars_by_index m ! i) = (\<Union>k \<in> {k. Symbol Terminal k \<in> toks (following ! i)}. starting_chars g (lex_variables g ! k))"
    using m(5) ij(1) assms(2) by (simp add: list_all2_conv_all_nth)
  ultimately show ?thesis using m(1,2) ij st
    by (simp add: does_conflict_def does_match_prefix_def does_overlap_def overlap_mask_def)
qed

definition one_token :: LexicalGrammar where
  "one_token = \<lparr>lex_nfa = \<lparr>nfa_states = [Accept 0 0, Advance [(97, 98)] 0 False 0]\<rparr>,
     lex_variables = [\<lparr>lv_name = 2, lv_kind = Named, lv_implicit_precedence = 0, lv_start_state = 1\<rparr>]\<rparr>"

lemma one_token_wf: "lexical_wf one_token"
  by (simp add: one_token_def lexical_wf_def state_wf_def canon_def)

theorem conflict_map_rows_exact_witness:
  "\<exists>m c p o_ij o_ji. new_conflict_map (\<lambda>_. 0) one_token [new_tokens] = Some m \<and>
    does_conflict m 0 0 = Some c \<and> does_match_prefix m 0 0 = Some p \<and> does_overlap m 0 0 = Some o_ij \<and> does_overlap m 0 0 = Some o_ji \<and>
    row_bit (row_words m) (conflict_or_prefix_bits m) 0 0 = (c \<or> p)"
proof -
  have "length [new_tokens] = length (lex_variables one_token)" "0 < length (lex_variables one_token)" by (simp_all add: one_token_def)
  moreover have "list_all (following_ok (length (lex_variables one_token))) [new_tokens]"
    by (simp add: following_ok_def new_tokens_correct)
  ultimately show ?thesis using conflict_map_rows_exact [OF one_token_wf, of "[new_tokens]" 0 0 "\<lambda>_. 0"] by blast
qed


end
