(* ===== verification/Lex_Table.thy ===== *)
theory Lex_Table
  imports Dedup Coincident_Tokens Token_Conflicts
begin

text \<open>
  \<^verbatim>\<open>crates/generate/src/build_tables/build_lex_table.rs\<close>: the lexer. \<open>LexTableBuilder\<close> determinises the lexical
  NFA by the subset construction, \<open>minimize_lex_table\<close> merges equivalent states with the partition
  refinement of \<open>Dedup\<close>, \<open>sort_states\<close> renumbers them; \<open>merge_token_set\<close> decides which parse states may
  share a lex state. \<open>FxHashMap\<close> is a partial function, or an association list where the source iterates
  over it before it sorts. Logging is left out.
\<close>

unbundle bit_operations_syntax

section \<open>The builder\<close>

record QueueEntry =
  q_state_id :: nat
  q_nfa_states :: "nat list"
  q_eof_valid :: bool

record LexTableBuilder =
  b_grammar :: LexicalGrammar
  b_cursor :: NfaCursor
  b_table :: LexTable
  b_queue :: "QueueEntry list"
  b_ids :: "nat list \<times> bool \<rightharpoonup> nat"

definition default_lex_state :: LexState where
  "default_lex_state = \<lparr>accept_action = None, eof_action = None, advance_actions = []\<rparr>"

definition default_lex_table :: LexTable where
  "default_lex_table = \<lparr>lex_states = []\<rparr>"

definition new_builder :: "LexicalGrammar \<Rightarrow> LexTableBuilder option" where
  "new_builder g = do {
     cur \<leftarrow> new_cursor (lex_nfa g) [];
     Some \<lparr>b_grammar = g, b_cursor = cur, b_table = default_lex_table, b_queue = [], b_ids = Map.empty\<rparr>
   }"

definition reset_builder :: "LexTableBuilder \<Rightarrow> LexTableBuilder" where
  "reset_builder b = b\<lparr>b_table := default_lex_table, b_queue := [], b_ids := Map.empty\<rparr>"

definition add_state :: "LexTableBuilder \<Rightarrow> nat list \<Rightarrow> bool \<Rightarrow> (LexTableBuilder \<times> nat \<times> bool) option" where
  "add_state b nfa_sts eof_valid = do {
     cur \<leftarrow> reset (b_cursor b) nfa_sts;
     let key = (state_ids cur, eof_valid);
     case b_ids b key of
       Some state_id \<Rightarrow> Some (b\<lparr>b_cursor := cur\<rparr>, state_id, False)
     | None \<Rightarrow>
         (let state_id = as_u32 (length (lex_states (b_table b))) in
          Some (b\<lparr>b_cursor := cur,
                  b_table := \<lparr>lex_states = lex_states (b_table b) @ [default_lex_state]\<rparr>,
                  b_queue := b_queue b @ [\<lparr>q_state_id = state_id, q_nfa_states = state_ids cur, q_eof_valid = eof_valid\<rparr>],
                  b_ids := (b_ids b)(key \<mapsto> state_id)\<rparr>, state_id, True))
   }"

text \<open>The preferred completion of the current states.\<close>

fun best_completion :: "LexicalGrammar \<Rightarrow> (nat \<times> int) list \<Rightarrow> (nat \<times> int) option \<Rightarrow> (nat \<times> int) option option" where
  "best_completion g [] completion = Some completion"
| "best_completion g ((vid, pr) # cs) completion = (case completion of
     Some (prev_id, prev_pr) \<Rightarrow> do {
       keep \<leftarrow> prefer_token g (prev_pr, prev_id) (pr, vid);
       best_completion g cs (if keep then completion else Some (vid, pr))
     }
   | None \<Rightarrow> best_completion g cs (Some (vid, pr)))"

definition update_state :: "LexTableBuilder \<Rightarrow> nat \<Rightarrow> (LexState \<Rightarrow> LexState) \<Rightarrow> LexTableBuilder option" where
  "update_state b state_id f = do {
     st \<leftarrow> vec_get (lex_states (b_table b)) state_id;
     Some (b\<lparr>b_table := \<lparr>lex_states = (lex_states (b_table b))[state_id := f st]\<rparr>\<rparr>)
   }"

fun add_transitions :: "nat \<Rightarrow> bool \<Rightarrow> (nat \<times> int) option \<Rightarrow> bool \<Rightarrow> NfaTransition list \<Rightarrow> LexTableBuilder \<Rightarrow> LexTableBuilder option" where
  "add_transitions state_id eof_valid completion has_sep [] b = Some b"
| "add_transitions state_id eof_valid completion has_sep (t # ts) b =
     (if (case completion of
            Some (completed_id, completed_pr) \<Rightarrow> \<not> prefer_transition (b_grammar b) t completed_id completed_pr has_sep
          | None \<Rightarrow> False)
      then add_transitions state_id eof_valid completion has_sep ts b
      else do {
        (b1, next_state_id, _) \<leftarrow> add_state b (t_states t) (eof_valid \<and> is_separator t);
        b2 \<leftarrow> update_state b1 state_id (\<lambda>st. st\<lparr>advance_actions :=
          advance_actions st @ [(characters t, AdvanceAction next_state_id (\<not> is_separator t))]\<rparr>);
        add_transitions state_id eof_valid completion has_sep ts b2
      })"

definition populate_state :: "LexTableBuilder \<Rightarrow> nat \<Rightarrow> nat list \<Rightarrow> bool \<Rightarrow> LexTableBuilder option" where
  "populate_state b state_id nfa_sts eof_valid = do {
     let b0 = b\<lparr>b_cursor := force_reset (b_cursor b) nfa_sts\<rparr>;
     cs \<leftarrow> completions (b_cursor b0);
     completion \<leftarrow> best_completion (b_grammar b0) cs None;
     (ts, has_sep) \<leftarrow> transitions_and_any_sep (b_cursor b0);
     b1 \<leftarrow> (if eof_valid then do {
         (b', next_state_id, _) \<leftarrow> add_state b0 [] False;
         update_state b' state_id (\<lambda>st. st\<lparr>eof_action := Some (AdvanceAction next_state_id True)\<rparr>)
       } else Some b0);
     b2 \<leftarrow> add_transitions state_id eof_valid completion has_sep ts b1;
     case completion of
       Some (complete_id, _) \<Rightarrow> update_state b2 state_id (\<lambda>st. st\<lparr>accept_action := Some (terminal complete_id)\<rparr>)
     | None \<Rightarrow>
         (if state_ids (b_cursor b2) = [] then update_state b2 state_id (\<lambda>st. st\<lparr>accept_action := Some end_sym\<rparr>)
          else Some b2)
   }"

fun token_start_states :: "LexicalGrammar \<Rightarrow> Symbol list \<Rightarrow> bool \<Rightarrow> (nat list \<times> bool) option" where
  "token_start_states g [] eof_valid = Some ([], eof_valid)"
| "token_start_states g (t # ts) eof_valid =
     (if is_terminal t then do {
        v \<leftarrow> vec_get (lex_variables g) (index t);
        (ss, e) \<leftarrow> token_start_states g ts eof_valid;
        Some (lv_start_state v # ss, e)
      } else token_start_states g ts True)"

partial_function (option) drain_queue :: "LexTableBuilder \<Rightarrow> LexTableBuilder option" where
  "drain_queue b = (case b_queue b of
     [] \<Rightarrow> Some b
   | e # es \<Rightarrow> do {
       b' \<leftarrow> populate_state (b\<lparr>b_queue := es\<rparr>) (q_state_id e) (q_nfa_states e) (q_eof_valid e);
       drain_queue b'
     })"

definition add_state_for_tokens :: "LexTableBuilder \<Rightarrow> TokenSet \<Rightarrow> (LexTableBuilder \<times> nat) option" where
  "add_state_for_tokens b tokens = do {
     ts \<leftarrow> iter tokens;
     (nfa_sts, eof_valid) \<leftarrow> token_start_states (b_grammar b) ts False;
     (b1, state_id, _) \<leftarrow> add_state b nfa_sts eof_valid;
     b2 \<leftarrow> drain_queue b1;
     Some (b2, state_id)
   }"

section \<open>Merging token sets\<close>

definition check_token_conflicts :: "nat \<Rightarrow> TokenSet \<Rightarrow> TokenConflictMap \<Rightarrow> CoincidentTokenIndex \<Rightarrow> bool option" where
  "check_token_conflicts i set_without_terminal m c =
     (let wpr = row_words m; row_start = i * wpr; set_bits = terminal_bits_words set_without_terminal in do {
        conflict_row \<leftarrow> vec_slice (conflict_or_prefix_bits m) row_start (row_start + wpr);
        if list_ex (\<lambda>(x, s). x AND s \<noteq> 0) (zip conflict_row set_bits) then Some True
        else do {
          overlap_row \<leftarrow> vec_slice (overlap_either_bits m) row_start (row_start + wpr);
          coincident_row \<leftarrow> vec_slice (ci_row_bits c) row_start (row_start + wpr);
          Some (list_ex (\<lambda>((x, s), y). x AND s AND NOT y \<noteq> 0) (zip (zip overlap_row set_bits) coincident_row))
        }
      })"

definition conflicts_outside :: "TokenSet \<Rightarrow> TokenSet \<Rightarrow> TokenConflictMap \<Rightarrow> CoincidentTokenIndex \<Rightarrow> bool option" where
  "conflicts_outside tokens other m c = do {
     ts \<leftarrow> terminals tokens;
     any_m (\<lambda>t. check_token_conflicts (index t) other m c) (filter (\<lambda>t. \<not> contains_terminal other (index t)) ts)
   }"

definition merge_token_set :: "TokenSet \<Rightarrow> TokenSet \<Rightarrow> TokenConflictMap \<Rightarrow> CoincidentTokenIndex \<Rightarrow> (TokenSet \<times> bool) option" where
  "merge_token_set tokens other m c = do {
     x \<leftarrow> conflicts_outside tokens other m c;
     if x then Some (tokens, False)
     else do {
       y \<leftarrow> conflicts_outside other tokens m c;
       if y then Some (tokens, False) else Some (fst (insert_all_tokens tokens other), True)
     }
   }"

section \<open>Minimization\<close>

type_synonym signature = "bool \<times> Symbol option \<times> bool \<times> (CharacterSet \<times> bool) list"

definition signature_of :: "nat \<Rightarrow> LexState \<Rightarrow> signature" where
  "signature_of i st = (i = 0, accept_action st, eof_action st \<noteq> None,
     map (\<lambda>(cs, a). (cs, in_main_token a)) (advance_actions st))"

fun push_to_group :: "'k \<Rightarrow> nat \<Rightarrow> ('k \<times> nat list) list \<Rightarrow> ('k \<times> nat list) list" where
  "push_to_group k i [] = [(k, [i])]"
| "push_to_group k i ((k', is) # gs) = (if k = k' then (k', is @ [i]) # gs else (k', is) # push_to_group k i gs)"

definition group_by_signature :: "LexState list \<Rightarrow> (signature \<times> nat list) list" where
  "group_by_signature sts = fold (\<lambda>(i, st) gs. push_to_group (signature_of i st) (as_u32 i) gs) (enumerate 0 sts) []"

definition swap_at :: "nat \<Rightarrow> nat \<Rightarrow> 'a list \<Rightarrow> 'a list" where
  "swap_at i j xs = xs[i := xs ! j, j := xs ! i]"

fun assign_ids :: "nat \<Rightarrow> nat list \<Rightarrow> nat list \<Rightarrow> nat list option" where
  "assign_ids g [] gids = Some gids"
| "assign_ids g (s # ss) gids = Option.bind (vec_set gids s g) (assign_ids g ss)"

fun assign_all_ids :: "nat \<Rightarrow> nat list list \<Rightarrow> nat list \<Rightarrow> nat list option" where
  "assign_all_ids g [] gids = Some gids"
| "assign_all_ids g (ss # groups) gids = Option.bind (assign_ids (as_u32 g) ss gids) (assign_all_ids (Suc g) groups)"

definition lex_states_differ :: "LexState splitter" where
  "lex_states_differ left right gids =
     any_m (\<lambda>(l, r). do {
        gl \<leftarrow> vec_get gids (adv_state (snd l));
        gr \<leftarrow> vec_get gids (adv_state (snd r));
        Some (gl \<noteq> gr)
      }) (zip (advance_actions left) (advance_actions right))"

text \<open>Redirecting the transitions of a state along a table of new ids.\<close>

definition redirect :: "nat list \<Rightarrow> AdvanceAction \<Rightarrow> AdvanceAction option" where
  "redirect new_ids a = map_option (\<lambda>s. AdvanceAction s (in_main_token a)) (vec_get new_ids (adv_state a))"

fun redirect_actions :: "nat list \<Rightarrow> (CharacterSet \<times> AdvanceAction) list \<Rightarrow> (CharacterSet \<times> AdvanceAction) list option" where
  "redirect_actions new_ids [] = Some []"
| "redirect_actions new_ids ((cs, a) # as) = do {
     a' \<leftarrow> redirect new_ids a;
     rest \<leftarrow> redirect_actions new_ids as;
     Some ((cs, a') # rest)
   }"

definition redirect_state :: "nat list \<Rightarrow> LexState \<Rightarrow> LexState option" where
  "redirect_state new_ids st = do {
     as \<leftarrow> redirect_actions new_ids (advance_actions st);
     e \<leftarrow> (case eof_action st of None \<Rightarrow> Some None | Some a \<Rightarrow> map_option Some (redirect new_ids a));
     Some (st\<lparr>advance_actions := as, eof_action := e\<rparr>)
   }"

text \<open>Moving the states with the given ids out of the table (a default state stays behind) and redirecting
  them.\<close>

fun take_states :: "nat list \<Rightarrow> LexState list \<Rightarrow> nat list \<Rightarrow> LexState list option" where
  "take_states new_ids sts [] = Some []"
| "take_states new_ids sts (i # is) = do {
     st \<leftarrow> vec_get sts i;
     st' \<leftarrow> redirect_state new_ids st;
     rest \<leftarrow> take_states new_ids (sts[i := default_lex_state]) is;
     Some (st' # rest)
   }"

fun first_ids :: "nat list list \<Rightarrow> nat list option" where
  "first_ids [] = Some []"
| "first_ids (g # gs) = do {
     i \<leftarrow> vec_get g 0;
     rest \<leftarrow> first_ids gs;
     Some (i # rest)
   }"

fun redirect_parse_states :: "nat list \<Rightarrow> 'e ParseState list \<Rightarrow> 'e ParseState list option" where
  "redirect_parse_states new_ids [] = Some []"
| "redirect_parse_states new_ids (st # sts) = do {
     l \<leftarrow> vec_get new_ids (lex_state_id st);
     rest \<leftarrow> redirect_parse_states new_ids sts;
     Some (st\<lparr>lex_state_id := l\<rparr> # rest)
   }"

definition minimize_lex_table :: "LexTable \<Rightarrow> 'e ParseTable \<Rightarrow> (LexTable \<times> 'e ParseTable) option" where
  "minimize_lex_table table parse_table = do {
     let sorted_groups = sort (map snd (group_by_signature (lex_states table)));
     error_group_index \<leftarrow> position (\<lambda>g. 0 \<in> set g) sorted_groups;
     let groups0 = swap_at error_group_index 0 sorted_groups;
     gids0 \<leftarrow> assign_all_ids 0 groups0 (replicate (length (lex_states table)) 0);
     (groups, gids) \<leftarrow> split_until_stable lex_states_differ (lex_states table) groups0 gids0 1;
     firsts \<leftarrow> first_ids groups;
     new_states \<leftarrow> take_states gids (lex_states table) firsts;
     pstates \<leftarrow> redirect_parse_states gids (states parse_table);
     Some (\<lparr>lex_states = new_states\<rparr>, parse_table\<lparr>states := pstates\<rparr>)
   }"

section \<open>Sorting\<close>

fun cmp_option :: "('a \<Rightarrow> 'a \<Rightarrow> ordering) \<Rightarrow> 'a option \<Rightarrow> 'a option \<Rightarrow> ordering" where
  "cmp_option c None None = Equal"
| "cmp_option c None (Some _) = Less"
| "cmp_option c (Some _) None = Greater"
| "cmp_option c (Some x) (Some y) = c x y"

fun cmp_list :: "('a \<Rightarrow> 'a \<Rightarrow> ordering) \<Rightarrow> 'a list \<Rightarrow> 'a list \<Rightarrow> ordering" where
  "cmp_list c [] [] = Equal"
| "cmp_list c [] (_ # _) = Less"
| "cmp_list c (_ # _) [] = Greater"
| "cmp_list c (x # xs) (y # ys) = then_with (c x y) (cmp_list c xs ys)"

definition cmp_advance :: "AdvanceAction \<Rightarrow> AdvanceAction \<Rightarrow> ordering" where
  "cmp_advance a b = then_with (ord_cmp (adv_state a) (adv_state b)) (ord_cmp (in_main_token a) (in_main_token b))"

definition cmp_lex_state :: "LexState \<Rightarrow> LexState \<Rightarrow> ordering" where
  "cmp_lex_state a b =
     then_with (cmp_option ord_cmp (accept_action a) (accept_action b))
      (then_with (cmp_option cmp_advance (eof_action a) (eof_action b))
        (cmp_list (\<lambda>(cs, x) (ds, y). then_with (cmp cs ds) (cmp_advance x y)) (advance_actions a) (advance_actions b)))"

text \<open>\<open>old_ids_by_new_id[1..]\<close> panics on an empty table.\<close>

definition sort_states :: "LexTable \<Rightarrow> 'e ParseTable \<Rightarrow> (LexTable \<times> 'e ParseTable) option" where
  "sort_states table parse_table =
     (let sts = lex_states table; n = length sts in
      if n = 0 then None
      else do {
        let old_ids_by_new_id = 0 # sort_by_cmp (\<lambda>a b. cmp_lex_state (sts ! a) (sts ! b)) [1..<n];
        new_ids_by_old_id \<leftarrow> assign_all_ids 0 (map (\<lambda>i. [i]) old_ids_by_new_id) (replicate n 0);
        new_states \<leftarrow> take_states new_ids_by_old_id sts old_ids_by_new_id;
        pstates \<leftarrow> redirect_parse_states new_ids_by_old_id (states parse_table);
        Some (\<lparr>lex_states = new_states\<rparr>, parse_table\<lparr>states := pstates\<rparr>)
      })"

section \<open>The whole pass\<close>

definition LARGE_CHARACTER_RANGE_COUNT :: nat where
  "LARGE_CHARACTER_RANGE_COUNT = 8"

record LexTables =
  main_lex_table :: LexTable
  keyword_lex_table :: LexTable
  large_character_sets :: "(Symbol option \<times> CharacterSet) list"

fun state_tokens :: "TokenSet \<Rightarrow> Symbol option \<Rightarrow> Symbol list \<Rightarrow> Symbol list option" where
  "state_tokens keywords word [] = Some []"
| "state_tokens keywords word (t # ts) = do {
     kept \<leftarrow> (if is_terminal t then do {
         kw \<leftarrow> contains keywords t;
         Some (if kw then word else Some t)
       } else Some (if is_eof t then Some t else None));
     rest \<leftarrow> state_tokens keywords word ts;
     Some (case kept of None \<Rightarrow> rest | Some s \<Rightarrow> s # rest)
   }"

type_synonym token_groups = "(TokenSet \<times> nat list) list"

fun merge_into :: "TokenConflictMap \<Rightarrow> CoincidentTokenIndex \<Rightarrow> TokenSet \<Rightarrow> nat \<Rightarrow> token_groups \<Rightarrow> (token_groups \<times> bool) option" where
  "merge_into m c tokens i [] = Some ([], False)"
| "merge_into m c tokens i ((ts, is) # gs) = do {
     (ts', merged) \<leftarrow> merge_token_set ts tokens m c;
     if merged then Some ((ts', is @ [as_u32 i]) # gs, True)
     else do {
       (gs', r) \<leftarrow> merge_into m c tokens i gs;
       Some ((ts', is) # gs', r)
     }
   }"

fun group_parse_states :: "TokenConflictMap \<Rightarrow> CoincidentTokenIndex \<Rightarrow> TokenSet \<Rightarrow> Symbol option \<Rightarrow> nat \<Rightarrow> 'e ParseState list \<Rightarrow>
    token_groups \<Rightarrow> token_groups option" where
  "group_parse_states m c keywords word i [] gs = Some gs"
| "group_parse_states m c keywords word i (st # sts) gs = do {
     reserved \<leftarrow> iter (reserved_words st);
     ts \<leftarrow> state_tokens keywords word (map fst (terminal_entries st) @ reserved);
     tokens \<leftarrow> from_iter ts;
     (gs', did_merge) \<leftarrow> merge_into m c tokens i gs;
     group_parse_states m c keywords word (Suc i) sts (if did_merge then gs' else gs' @ [(tokens, [as_u32 i])])
   }"

fun set_lex_state_ids :: "nat \<Rightarrow> nat list \<Rightarrow> 'e ParseState list \<Rightarrow> 'e ParseState list option" where
  "set_lex_state_ids l [] sts = Some sts"
| "set_lex_state_ids l (i # is) sts = do {
     st \<leftarrow> vec_get sts i;
     set_lex_state_ids l is (sts[i := st\<lparr>lex_state_id := l\<rparr>])
   }"

fun add_token_groups :: "token_groups \<Rightarrow> LexTableBuilder \<Rightarrow> 'e ParseState list \<Rightarrow> (LexTableBuilder \<times> 'e ParseState list) option" where
  "add_token_groups [] b sts = Some (b, sts)"
| "add_token_groups ((tokens, is) # gs) b sts = do {
     (b', l) \<leftarrow> add_state_for_tokens b tokens;
     sts' \<leftarrow> set_lex_state_ids l is sts;
     add_token_groups gs b' sts'
   }"

definition add_large_set :: "Symbol option \<Rightarrow> CharacterSet \<Rightarrow> (Symbol option \<times> CharacterSet) list \<Rightarrow> (Symbol option \<times> CharacterSet) list" where
  "add_large_set s cs sets =
     (if range_count cs > LARGE_CHARACTER_RANGE_COUNT \<and> cs \<notin> snd ` set sets then sets @ [(s, cs)] else sets)"

fun large_sets_of_actions :: "(CharacterSet \<times> AdvanceAction) list \<Rightarrow> CharacterSet \<Rightarrow> (Symbol option \<times> CharacterSet) list \<Rightarrow>
    CharacterSet \<times> (Symbol option \<times> CharacterSet) list" where
  "large_sets_of_actions [] cset sets = (cset, sets)"
| "large_sets_of_actions ((cs, a) # as) cset sets =
     (if in_main_token a then large_sets_of_actions as (add cset cs) sets
      else large_sets_of_actions as cset (add_large_set None cs sets))"

fun large_sets_of_states :: "Symbol \<Rightarrow> LexState list \<Rightarrow> (Symbol option \<times> CharacterSet) list \<Rightarrow> (Symbol option \<times> CharacterSet) list" where
  "large_sets_of_states s [] sets = sets"
| "large_sets_of_states s (st # sts) sets =
     (let (cset, sets') = large_sets_of_actions (advance_actions st) empty sets in
      large_sets_of_states s sts (add_large_set (Some s) cset sets'))"

fun large_sets_loop :: "nat list \<Rightarrow> LexTableBuilder \<Rightarrow> (Symbol option \<times> CharacterSet) list \<Rightarrow> (Symbol option \<times> CharacterSet) list option" where
  "large_sets_loop [] b sets = Some sets"
| "large_sets_loop (v # vs) b sets = do {
     tokens \<leftarrow> from_iter [terminal v];
     (b', _) \<leftarrow> add_state_for_tokens (reset_builder b) tokens;
     large_sets_loop vs b' (large_sets_of_states (terminal v) (lex_states (b_table b')) sets)
   }"

definition build_lex_table :: "'e ParseTable \<Rightarrow> SyntaxGrammar \<Rightarrow> LexicalGrammar \<Rightarrow> TokenSet \<Rightarrow> CoincidentTokenIndex \<Rightarrow> TokenConflictMap \<Rightarrow>
    (LexTables \<times> 'e ParseTable) option" where
  "build_lex_table parse_table syntax_grammar g keywords c m = do {
     keyword_table \<leftarrow> (if sg_word_token syntax_grammar \<noteq> None then do {
         b \<leftarrow> new_builder g;
         (b', _) \<leftarrow> add_state_for_tokens b keywords;
         Some (b_table b')
       } else Some default_lex_table);
     groups \<leftarrow> group_parse_states m c keywords (sg_word_token syntax_grammar) 0 (states parse_table) [];
     b0 \<leftarrow> new_builder g;
     (b1, pstates) \<leftarrow> add_token_groups groups b0 (states parse_table);
     (main1, pt1) \<leftarrow> minimize_lex_table (b_table b1) (parse_table\<lparr>states := pstates\<rparr>);
     (main2, pt2) \<leftarrow> sort_states main1 pt1;
     sets \<leftarrow> large_sets_loop [0..<length (lex_variables g)] (b1\<lparr>b_table := default_lex_table\<rparr>) [];
     Some (\<lparr>main_lex_table = main2, keyword_lex_table = keyword_table, large_character_sets = sets\<rparr>, pt2)
   }"


section \<open>What a lex table does\<close>

text \<open>
  Running a table from state \<open>s\<close> on the characters \<open>w\<close>, until no transition applies: in every state reached, what
  is accepted there, what is accepted at the end of the input, and whether the step that follows stays in the
  main token.
\<close>

definition lex_step :: "LexState list \<Rightarrow> nat \<Rightarrow> nat \<Rightarrow> AdvanceAction option" where
  "lex_step sts s c = map_option snd (find (\<lambda>(cs, _). c \<in> chars_of cs) (advance_actions (sts ! s)))"

definition observe :: "LexState list \<Rightarrow> nat \<Rightarrow> Symbol option \<times> (Symbol option \<times> bool) option" where
  "observe sts s = (accept_action (sts ! s),
     map_option (\<lambda>a. (accept_action (sts ! adv_state a), in_main_token a)) (eof_action (sts ! s)))"

fun lex_trace :: "LexState list \<Rightarrow> nat \<Rightarrow> nat list \<Rightarrow> ((Symbol option \<times> (Symbol option \<times> bool) option) \<times> bool option) list" where
  "lex_trace sts s [] = [(observe sts s, None)]"
| "lex_trace sts s (c # w) = (case lex_step sts s c of
     None \<Rightarrow> [(observe sts s, None)]
   | Some a \<Rightarrow> (observe sts s, Some (in_main_token a)) # lex_trace sts (adv_state a) w)"

definition actions_of :: "LexState \<Rightarrow> AdvanceAction set" where
  "actions_of st = snd ` set (advance_actions st) \<union> set_option (eof_action st)"

definition targets_ok :: "nat \<Rightarrow> LexState list \<Rightarrow> bool" where
  "targets_ok n sts \<longleftrightarrow> (\<forall>st \<in> set sts. \<forall>a \<in> actions_of st. adv_state a < n)"

text \<open>\<open>new_ids\<close> maps the states of one table to those of another, along their transitions.\<close>

definition lex_hom :: "nat list \<Rightarrow> LexState list \<Rightarrow> LexState list \<Rightarrow> bool" where
  "lex_hom new_ids old new1 \<longleftrightarrow> length new_ids = length old \<and>
     (\<forall>s < length old. new_ids ! s < length new1 \<and> redirect_state new_ids (old ! s) = Some (new1 ! (new_ids ! s)))"

definition redirected :: "nat list \<Rightarrow> LexState \<Rightarrow> LexState" where
  "redirected f st = st\<lparr>advance_actions := map (\<lambda>(cs, a). (cs, AdvanceAction (f ! adv_state a) (in_main_token a))) (advance_actions st),
     eof_action := map_option (\<lambda>a. AdvanceAction (f ! adv_state a) (in_main_token a)) (eof_action st)\<rparr>"

lemma redirect_actions_correct:
  "\<forall>a \<in> snd ` set as. adv_state a < length f \<Longrightarrow>
     redirect_actions f as = Some (map (\<lambda>(cs, a). (cs, AdvanceAction (f ! adv_state a) (in_main_token a))) as)"
  by (induction as) (auto simp: redirect_def vec_get_def)

lemma redirect_state_correct: "\<forall>a \<in> actions_of st. adv_state a < length f \<Longrightarrow> redirect_state f st = Some (redirected f st)"
  by (cases "eof_action st")
    (auto simp: redirect_state_def redirected_def redirect_actions_correct actions_of_def redirect_def vec_get_def)

lemma targets_okD: "targets_ok n sts \<Longrightarrow> s < length sts \<Longrightarrow> \<forall>a \<in> actions_of (sts ! s). adv_state a < n"
  unfolding targets_ok_def by (meson nth_mem)

lemma lex_homD:
  assumes "lex_hom f old new1" "targets_ok (length old) old" "s < length old"
  shows "new1 ! (f ! s) = redirected f (old ! s)"
  using assms redirect_state_correct [of "old ! s" f] targets_okD [OF assms(2,3)] by (simp add: lex_hom_def)

lemma observe_hom:
  assumes "lex_hom f old new1" "targets_ok (length old) old" "s < length old"
  shows "observe new1 (f ! s) = observe old s"
proof (cases "eof_action (old ! s)")
  case (Some a)
  then have "adv_state a < length old" using targets_okD [OF assms(2,3)] by (simp add: actions_of_def)
  from lex_homD [OF assms(1,2) this] lex_homD [OF assms] Some show ?thesis by (simp add: observe_def redirected_def)
qed (simp add: observe_def lex_homD [OF assms] redirected_def)

lemma find_map_snd: "find (\<lambda>(cs, _). P cs) (map (\<lambda>(cs, a). (cs, f a)) as) = map_option (\<lambda>(cs, a). (cs, f a)) (find (\<lambda>(cs, _). P cs) as)"
  by (induction as) auto

lemma lex_step_hom:
  assumes "lex_hom f old new1" "targets_ok (length old) old" "s < length old"
  shows "lex_step new1 (f ! s) c = map_option (\<lambda>a. AdvanceAction (f ! adv_state a) (in_main_token a)) (lex_step old s c)"
  unfolding lex_step_def lex_homD [OF assms] by (simp add: redirected_def find_map_snd option.map_comp comp_def split_beta)

lemma lex_step_target:
  assumes "targets_ok (length old) old" "s < length old" "lex_step old s c = Some a"
  shows "adv_state a < length old"
proof -
  obtain cs where "(cs, a) \<in> set (advance_actions (old ! s))" using assms(3) by (auto simp: lex_step_def find_Some_iff) (metis nth_mem)
  then have "a \<in> actions_of (old ! s)" unfolding actions_of_def by force
  then show ?thesis using targets_okD [OF assms(1,2)] by blast
qed

lemma lex_trace_hom:
  "lex_hom f old new1 \<Longrightarrow> targets_ok (length old) old \<Longrightarrow> s < length old \<Longrightarrow> lex_trace new1 (f ! s) w = lex_trace old s w"
proof (induction w arbitrary: s)
  case (Cons c w)
  show ?case
  proof (cases "lex_step old s c")
    case (Some a)
    from lex_step_target [OF Cons.prems(2,3) Some] Cons.IH [OF Cons.prems(1,2)] show ?thesis
      using Some lex_step_hom [OF Cons.prems, of c] observe_hom [OF Cons.prems] by simp
  qed (simp add: lex_step_hom [OF Cons.prems] observe_hom [OF Cons.prems])
qed (simp add: observe_hom)

lemma lex_hom_targets:
  assumes h: "lex_hom f old new1" and ok: "targets_ok (length old) old" and onto: "set f = {..<length new1}"
  shows "targets_ok (length new1) new1"
  unfolding targets_ok_def
proof (intro ballI)
  fix st a assume "st \<in> set new1" and a: "a \<in> actions_of st"
  then obtain i where i: "i < length new1" "new1 ! i = st" by (auto simp: in_set_conv_nth)
  have lf: "length f = length old" using h by (simp add: lex_hom_def)
  have "i \<in> set f" using i(1) onto by simp
  then obtain s where s: "s < length old" "f ! s = i" using lf by (auto simp: in_set_conv_nth)
  have st: "st = redirected f (old ! s)" using lex_homD [OF h ok s(1)] s(2) i(2) by simp
  obtain x where x: "x \<in> actions_of (old ! s)" "adv_state a = f ! adv_state x"
  proof (cases "a \<in> snd ` set (advance_actions st)")
    case True
    then obtain q where q: "q \<in> set (advance_actions st)" "a = snd q" by blast
    then obtain p where "p \<in> set (advance_actions (old ! s))" "adv_state a = f ! adv_state (snd p)"
      unfolding st redirected_def by auto
    then show thesis by (intro that [of "snd p"]) (auto simp: actions_of_def)
  next
    case False
    then have "a \<in> set_option (eof_action st)" using a unfolding actions_of_def by auto
    then obtain z where "eof_action (old ! s) = Some z" "adv_state a = f ! adv_state z"
      unfolding st redirected_def by (auto simp: elem_set)
    then show thesis by (intro that [of z]) (auto simp: actions_of_def)
  qed
  have "f ! adv_state x \<in> set f" using targets_okD [OF ok s(1)] x(1) lf by simp
  then show "adv_state a < length new1" using onto x(2) by simp
qed

section \<open>Renumbering\<close>

lemma assign_ids_correct:
  "\<forall>s \<in> set ss. s < length gids \<Longrightarrow> \<exists>gids'. assign_ids g ss gids = Some gids' \<and> length gids' = length gids \<and>
     (\<forall>s < length gids. gids' ! s = (if s \<in> set ss then g else gids ! s))"
proof (induction ss arbitrary: gids)
  case (Cons x ss)
  have "\<forall>s \<in> set ss. s < length (gids[x := g])" using Cons.prems by simp
  from Cons.IH [OF this] obtain gids' where "assign_ids g ss (gids[x := g]) = Some gids'" "length gids' = length gids"
    "\<forall>s < length gids. gids' ! s = (if s \<in> set ss then g else gids[x := g] ! s)" by auto
  then show ?case using Cons.prems by (auto simp: vec_set_def nth_list_update)
qed simp

lemma assign_all_ids_correct:
  assumes "distinct (concat groups)" "\<forall>s \<in> set (concat groups). s < length gids" "k + length groups \<le> 2 ^ 32"
  shows "\<exists>gids'. assign_all_ids k groups gids = Some gids' \<and> length gids' = length gids \<and>
     (\<forall>s < length gids. s \<notin> set (concat groups) \<longrightarrow> gids' ! s = gids ! s) \<and>
     (\<forall>g < length groups. \<forall>s \<in> set (groups ! g). gids' ! s = k + g)"
  using assms
proof (induction groups arbitrary: gids k)
  case Nil
  then show ?case by simp
next
  case (Cons ss groups)
  obtain gids1 where g1: "assign_ids k ss gids = Some gids1" "length gids1 = length gids"
    "\<forall>s < length gids. gids1 ! s = (if s \<in> set ss then k else gids ! s)"
    using assign_ids_correct [of ss gids k] Cons.prems(2) by auto
  have "distinct (concat groups)" "\<forall>s \<in> set (concat groups). s < length gids1" "Suc k + length groups \<le> 2 ^ 32"
    using Cons.prems g1(2) by auto
  from Cons.IH [OF this] obtain gids' where g': "assign_all_ids (Suc k) groups gids1 = Some gids'" "length gids' = length gids1"
    "\<forall>s < length gids1. s \<notin> set (concat groups) \<longrightarrow> gids' ! s = gids1 ! s"
    "\<forall>g < length groups. \<forall>s \<in> set (groups ! g). gids' ! s = Suc k + g" by blast
  have "gids' ! s = k + g" if g: "g < length (ss # groups)" and s: "s \<in> set ((ss # groups) ! g)" for g s
  proof (cases g)
    case 0
    then have "s \<in> set ss" "s \<notin> set (concat groups)" "s < length gids" using s Cons.prems(1,2) by auto
    then show ?thesis using 0 g'(3) g1(2,3) by simp
  next
    case (Suc g0)
    then show ?thesis using g s g'(4) by simp
  qed
  moreover have "as_u32 k = k" using Cons.prems(3) by simp
  ultimately show ?case using g1 g'(1-3) by (intro exI [of _ gids']) simp
qed

lemma take_states_correct:
  assumes "distinct is" "\<forall>i \<in> set is. i < length sts" "\<forall>i \<in> set is. \<forall>a \<in> actions_of (sts ! i). adv_state a < length f"
  shows "take_states f sts is = Some (map (\<lambda>i. redirected f (sts ! i)) is)"
  using assms
proof (induction "is" arbitrary: sts)
  case (Cons i "is")
  have same: "sts[i := default_lex_state] ! j = sts ! j" if "j \<in> set is" for j
  proof -
    have "i \<noteq> j" using Cons.prems(1) that by auto
    then show ?thesis by simp
  qed
  have "take_states f (sts[i := default_lex_state]) is = Some (map (\<lambda>j. redirected f (sts[i := default_lex_state] ! j)) is)"
    using Cons.prems same by (intro Cons.IH) auto
  also have "map (\<lambda>j. redirected f (sts[i := default_lex_state] ! j)) is = map (\<lambda>j. redirected f (sts ! j)) is"
    using same by simp
  finally show ?case using Cons.prems redirect_state_correct [of "sts ! i" f] by (simp add: vec_get_def)
qed simp

definition relabel :: "nat list \<Rightarrow> 'e ParseState list \<Rightarrow> 'e ParseState list" where
  "relabel f = map (\<lambda>st. st\<lparr>lex_state_id := f ! lex_state_id st\<rparr>)"

lemma redirect_parse_states_correct:
  "\<forall>st \<in> set sts. lex_state_id st < length f \<Longrightarrow> redirect_parse_states f sts = Some (relabel f sts)"
  by (induction sts) (auto simp: relabel_def vec_get_def)

text \<open>The inverse of a permutation, as \<open>sort_states\<close> computes it.\<close>

lemma permutation_ids:
  assumes "distinct perm" "set perm = {..<n}" "n < 2 ^ 32"
  shows "\<exists>f. assign_all_ids 0 (map (\<lambda>i. [i]) perm) (replicate n 0) = Some f \<and> length f = n \<and>
    (\<forall>k < n. f ! (perm ! k) = k) \<and> (\<forall>s < n. f ! s < n \<and> perm ! (f ! s) = s)"
proof -
  let ?gs = "map (\<lambda>i. [i]) perm"
  have len: "length perm = n" using distinct_card [OF assms(1)] assms(2) by simp
  have c: "concat (map (\<lambda>i. [i]) xs) = xs" for xs :: "nat list" by (induction xs) auto
  have "distinct (concat ?gs)" "\<forall>s \<in> set (concat ?gs). s < length (replicate n (0 :: nat))" "0 + length ?gs \<le> 2 ^ 32"
    unfolding c using assms len by auto
  from assign_all_ids_correct [OF this] obtain f where f: "assign_all_ids 0 ?gs (replicate n 0) = Some f" "length f = n"
    "\<forall>g < length ?gs. \<forall>s \<in> set (?gs ! g). f ! s = 0 + g" by auto
  have inv: "\<forall>k < n. f ! (perm ! k) = k" using f(3) len by simp
  have "f ! s < n \<and> perm ! (f ! s) = s" if "s < n" for s
  proof -
    have "s \<in> set perm" using that assms(2) by simp
    then obtain k where "k < n" "perm ! k = s" using len by (metis in_set_conv_nth)
    then show ?thesis using inv by auto
  qed
  with f inv show ?thesis by blast
qed

lemma sort_states_hom:
  assumes n: "length (lex_states table) = n" "0 < n" "n < 2 ^ 32" and ok: "targets_ok n (lex_states table)"
    and ps: "\<forall>st \<in> set (states pt). lex_state_id st < n"
  shows "\<exists>f new1. sort_states table pt = Some (\<lparr>lex_states = new1\<rparr>, pt\<lparr>states := relabel f (states pt)\<rparr>) \<and>
    lex_hom f (lex_states table) new1 \<and> length new1 = n \<and> distinct f \<and> f ! 0 = 0"
proof -
  let ?sts = "lex_states table"
  define perm where "perm = 0 # sort_by_cmp (\<lambda>a b. cmp_lex_state (?sts ! a) (?sts ! b)) [1..<n]"
  have "mset perm = mset (0 # [1..<n])" unfolding perm_def by simp
  also have "0 # [1..<n] = [0..<n]" using n(2) by (simp add: upt_conv_Cons)
  finally have ms: "mset perm = mset [0..<n]" .
  have perm: "distinct perm" "set perm = {..<n}" "length perm = n"
    using mset_eq_imp_distinct_iff [OF ms] mset_eq_setD [OF ms] mset_eq_length [OF ms] by (simp_all add: atLeast0LessThan)
  have perm0: "perm ! 0 = 0" unfolding perm_def by simp
  obtain f where f: "assign_all_ids 0 (map (\<lambda>i. [i]) perm) (replicate n 0) = Some f" "length f = n"
    "\<forall>k < n. f ! (perm ! k) = k" "\<forall>s < n. f ! s < n \<and> perm ! (f ! s) = s" using permutation_ids [OF perm(1,2) n(3)] by blast
  have acts: "\<forall>i \<in> set perm. \<forall>a \<in> actions_of (?sts ! i). adv_state a < length f"
    using targets_okD [OF ok] perm(2) n(1) f(2) by simp
  have inr: "\<forall>i \<in> set perm. i < length ?sts" using perm(2) n(1) by simp
  let ?nw = "map (\<lambda>i. redirected f (?sts ! i)) perm"
  note ts = take_states_correct [OF perm(1) inr acts]
  have rp: "redirect_parse_states f (states pt) = Some (relabel f (states pt))" by (rule redirect_parse_states_correct) (use ps f(2) in simp)
  have "sort_states table pt = Some (\<lparr>lex_states = ?nw\<rparr>, pt\<lparr>states := relabel f (states pt)\<rparr>)"
    unfolding sort_states_def Let_def n(1) perm_def [symmetric] f(1) bind.bind_lunit ts rp using n(2) by simp
  moreover have "lex_hom f ?sts ?nw"
    unfolding lex_hom_def
  proof (intro conjI allI impI)
    fix s assume s: "s < length ?sts"
    have fs: "f ! s < n" "perm ! (f ! s) = s" using f(4) s n(1) by auto
    then show "f ! s < length ?nw" using perm(3) by simp
    have "\<forall>a \<in> actions_of (?sts ! s). adv_state a < length f" using targets_okD [OF ok s] f(2) by simp
    then show "redirect_state f (?sts ! s) = Some (?nw ! (f ! s))" using redirect_state_correct fs perm(3) by simp
  qed (use f(2) n(1) in simp)
  moreover have "distinct f" unfolding distinct_conv_nth f(2) using f(4) by metis
  moreover have "f ! 0 = 0" using f(3) n(2) perm0 by force
  ultimately show ?thesis using perm(3) by (intro exI [of _ f] exI [of _ ?nw]) simp
qed


section \<open>The initial partition\<close>

definition class_of :: "(nat \<Rightarrow> 'k) \<Rightarrow> nat \<Rightarrow> 'k \<Rightarrow> nat list" where
  "class_of key m k = filter (\<lambda>i. key i = k) [0..<m]"

definition classes :: "(nat \<Rightarrow> 'k) \<Rightarrow> nat \<Rightarrow> ('k \<times> nat list) list \<Rightarrow> bool" where
  "classes key m gs \<longleftrightarrow> distinct (map fst gs) \<and> (\<forall>(k, is) \<in> set gs. is = class_of key m k \<and> is \<noteq> []) \<and>
     (\<forall>i < m. key i \<in> fst ` set gs)"

lemma push_keys: "fst ` set (push_to_group k i gs) = insert k (fst ` set gs)"
  by (induction k i gs rule: push_to_group.induct) auto

lemma push_distinct: "distinct (map fst gs) \<Longrightarrow> distinct (map fst (push_to_group k i gs))"
proof (induction k i gs rule: push_to_group.induct)
  case (2 k i k' "is" gs)
  then show ?case using push_keys [of k i gs] by (auto simp flip: set_map)
qed simp

lemma push_mem:
  assumes "distinct (map fst gs)" "(k', js) \<in> set (push_to_group k i gs)"
  shows "if k' = k then (k \<notin> fst ` set gs \<and> js = [i]) \<or> (\<exists>is. (k, is) \<in> set gs \<and> js = is @ [i]) else (k', js) \<in> set gs"
  using assms
proof (induction k i gs rule: push_to_group.induct)
  case (2 k i k0 "is" gs)
  show ?case
  proof (cases "k = k0")
    case True
    then show ?thesis using 2(2,3) by (auto simp: image_iff)
  next
    case False
    show ?thesis
    proof (cases "(k', js) = (k0, is)")
      case eq: True
      then show ?thesis using False by simp
    next
      case neq: False
      have "(k', js) \<in> set (push_to_group k i gs)" "distinct (map fst gs)" using 2(2,3) False neq by auto
      note ih = 2(1) [OF False this(2,1)]
      show ?thesis
      proof (cases "k' = k")
        case True
        with ih have "(k \<notin> fst ` set gs \<and> js = [i]) \<or> (\<exists>is. (k, is) \<in> set gs \<and> js = is @ [i])" by simp
        then have "(k \<notin> insert k0 (fst ` set gs) \<and> js = [i]) \<or> (\<exists>isa. (k, isa) \<in> set ((k0, is) # gs) \<and> js = isa @ [i])"
          using False by auto
        then show ?thesis using True by simp
      next
        case False
        then show ?thesis using ih by simp
      qed
    qed
  qed
qed (auto split: if_splits)

lemma classes_step:
  assumes "classes key m gs"
  shows "classes key (Suc m) (push_to_group (key m) m gs)"
  unfolding classes_def
proof (intro conjI)
  have d: "distinct (map fst gs)" and old: "\<And>k is. (k, is) \<in> set gs \<Longrightarrow> is = class_of key m k \<and> is \<noteq> []"
    and cov: "\<forall>i < m. key i \<in> fst ` set gs" using assms by (auto simp: classes_def)
  show "distinct (map fst (push_to_group (key m) m gs))" by (rule push_distinct [OF d])
  show "\<forall>i < Suc m. key i \<in> fst ` set (push_to_group (key m) m gs)" using cov by (auto simp: push_keys less_Suc_eq)
  have c: "class_of key (Suc m) k = class_of key m k @ (if key m = k then [m] else [])" for k by (simp add: class_of_def)
  have e: "class_of key m (key m) = []" if "key m \<notin> fst ` set gs"
  proof -
    have "key i \<noteq> key m" if "i < m" for i using cov that \<open>key m \<notin> fst ` set gs\<close> by metis
    then show ?thesis unfolding class_of_def by (simp add: filter_empty_conv)
  qed
  have "js = class_of key (Suc m) k' \<and> js \<noteq> []" if "(k', js) \<in> set (push_to_group (key m) m gs)" for k' js
  proof (cases "k' = key m")
    case True
    from push_mem [OF d that] have "(key m \<notin> fst ` set gs \<and> js = [m]) \<or> (\<exists>is. (key m, is) \<in> set gs \<and> js = is @ [m])"
      using True by simp
    then show ?thesis using old e c [of "key m"] True by auto
  next
    case False
    from push_mem [OF d that] False have "(k', js) \<in> set gs" by simp
    then show ?thesis using old c [of k'] False by fastforce
  qed
  then show "\<forall>(k, is) \<in> set (push_to_group (key m) m gs). is = class_of key (Suc m) k \<and> is \<noteq> []" by auto
qed

abbreviation sig :: "LexState list \<Rightarrow> nat \<Rightarrow> signature" where
  "sig sts i \<equiv> signature_of i (sts ! i)"

lemma group_by_signature_classes:
  assumes "length sts < 2 ^ 32"
  shows "classes (sig sts) (length sts) (group_by_signature sts)"
proof -
  let ?f = "\<lambda>(i, st) gs. push_to_group (signature_of i st) (as_u32 i) gs"
  have "m \<le> length sts \<Longrightarrow> classes (sig sts) m (fold ?f (enumerate 0 (take m sts)) [])" for m
  proof (induction m)
    case 0
    then show ?case by (simp add: classes_def)
  next
    case (Suc m)
    then have m: "m < length sts" "as_u32 m = m" using assms by auto
    have "enumerate 0 (take (Suc m) sts) = enumerate 0 (take m sts) @ [(m, sts ! m)]"
      using m(1) by (simp add: take_Suc_conv_app_nth enumerate_append_eq min_absorb2)
    then show ?case using Suc classes_step [of "sig sts" m] m by simp
  qed
  from this [of "length sts"] show ?thesis by (simp add: group_by_signature_def)
qed

lemma mset_swap_at: "i < length xs \<Longrightarrow> j < length xs \<Longrightarrow> mset (swap_at i j xs) = mset xs"
  unfolding swap_at_def by (rule mset_swap)

text \<open>The groups handed to the refinement: the classes of equal signatures, the one of state 0 first.\<close>

definition initial_groups :: "LexState list \<Rightarrow> nat list list \<Rightarrow> bool" where
  "initial_groups sts groups \<longleftrightarrow> distinct (concat groups) \<and> set (concat groups) = {..<length sts} \<and> [] \<notin> set groups \<and>
     groups \<noteq> [] \<and> hd groups = [0] \<and>
     (\<forall>g \<in> set groups. \<forall>s \<in> set g. \<forall>t \<in> set g. sig sts s = sig sts t)"

lemma classes_groups:
  assumes cl: "classes key n gs" and ms: "mset G = mset (map snd gs)"
  shows "distinct (concat G)" "set (concat G) = {..<n}" "[] \<notin> set G" "\<forall>g \<in> set G. \<exists>k. g = class_of key n k"
proof -
  have cl: "distinct (map fst gs)" "\<And>k is. (k, is) \<in> set gs \<Longrightarrow> is = class_of key n k \<and> is \<noteq> []"
    "\<forall>i < n. key i \<in> fst ` set gs" using cl by (auto simp: classes_def)
  have mem: "\<exists>k. g = class_of key n k \<and> g \<noteq> []" if g: "g \<in> snd ` set gs" for g
  proof -
    obtain k where "(k, g) \<in> set gs" using g by auto
    then show ?thesis using cl(2) by blast
  qed
  have "inj_on snd (set gs)"
  proof (rule inj_onI)
    fix x y assume xy: "x \<in> set gs" "y \<in> set gs" "snd x = snd y"
    obtain a as b bs where e: "x = (a, as)" "y = (b, bs)" by (cases x; cases y) auto
    have ab: "as = class_of key n a" "bs = class_of key n b" "as \<noteq> []" using cl(2) xy e by auto
    then obtain i where "i \<in> set as" by (metis hd_in_set)
    then have "i \<in> set (class_of key n a)" "i \<in> set (class_of key n b)" using xy(3) e ab(1,2) by (metis snd_conv)+
    then have "a = b" unfolding class_of_def set_filter by blast
    then show "x = y" using xy e by simp
  qed
  then have dS: "distinct (map snd gs)" using cl(1) by (simp add: distinct_map)
  have sG: "set G = snd ` set gs" "distinct G" using mset_eq_setD [OF ms] mset_eq_imp_distinct_iff [OF ms] dS by simp_all
  show cls: "\<forall>g \<in> set G. \<exists>k. g = class_of key n k" using sG(1) mem by blast
  show "[] \<notin> set G" using sG(1) mem by blast
  show "distinct (concat G)"
  proof (rule distinct_concat [OF sG(2)])
    show "distinct g" if "g \<in> set G" for g
    proof -
      obtain k where "g = class_of key n k" using cls \<open>g \<in> set G\<close> by blast
      then show ?thesis by (simp add: class_of_def)
    qed
    show "set g \<inter> set g' = {}" if gg: "g \<in> set G" "g' \<in> set G" "g \<noteq> g'" for g g'
    proof -
      obtain a where a: "g = class_of key n a" using cls gg(1) by blast
      obtain b where b: "g' = class_of key n b" using cls gg(2) by blast
      have "a \<noteq> b" using a b gg(3) by blast
      then show ?thesis unfolding a b class_of_def by auto
    qed
  qed
  show "set (concat G) = {..<n}"
  proof (intro subset_antisym subsetI)
    fix s assume "s \<in> set (concat G)"
    then obtain g where "g \<in> set G" "s \<in> set g" by auto
    then obtain k where "s \<in> set (class_of key n k)" using cls by metis
    then show "s \<in> {..<n}" by (simp add: class_of_def)
  next
    fix s assume "s \<in> {..<n}"
    then obtain is0 where is0: "(key s, is0) \<in> set gs" using cl(3) by force
    then have "is0 = class_of key n (key s)" using cl(2) by blast
    then have "s \<in> set is0" using \<open>s \<in> {..<n}\<close> by (simp add: class_of_def)
    moreover have "is0 \<in> set G" unfolding sG(1) using is0 by (rule rev_image_eqI) simp
    ultimately show "s \<in> set (concat G)" by auto
  qed
qed

lemma initial_groups_correct:
  assumes n: "0 < length sts" "length sts < 2 ^ 32"
  shows "\<exists>i. position (\<lambda>g. 0 \<in> set g) (sort (map snd (group_by_signature sts))) = Some i \<and>
    initial_groups sts (swap_at i 0 (sort (map snd (group_by_signature sts))))"
proof -
  let ?gs = "group_by_signature sts" and ?n = "length sts"
  define S where "S = sort (map snd ?gs)"
  note cl = group_by_signature_classes [OF n(2)]
  have mS: "mset S = mset (map snd ?gs)" by (simp add: S_def)
  have "0 \<in> set (concat S)" using classes_groups(2) [OF cl mS] n(1) by simp
  then have "\<exists>g \<in> set S. 0 \<in> set g" unfolding set_concat by blast
  then obtain i where i: "position (\<lambda>g. 0 \<in> set g) S = Some i" by (rule exE [OF position_ex])
  then have iS: "i < length S" "0 \<in> set (S ! i)" using position_Some [OF i] by auto
  define G where "G = swap_at i 0 S"
  have lS: "0 < length S" by (rule le_less_trans [OF le0 iS(1)])
  have mG: "mset G = mset (map snd ?gs)" unfolding G_def mset_swap_at [OF iS(1) lS] by (rule mS)
  note c = classes_groups [OF cl mG]
  have lG: "length G = length S" by (simp add: G_def swap_at_def)
  have ne: "G \<noteq> []" using lG lS by auto
  have "G ! 0 = S ! i" using iS(1) lS by (cases "i = 0") (simp_all add: G_def swap_at_def)
  then have h: "hd G \<in> set G" "0 \<in> set (hd G)" using iS(2) hd_in_set [OF ne] hd_conv_nth [OF ne] by metis+
  then obtain k where k: "hd G = class_of (sig sts) ?n k" using c(4) by blast
  have sk: "k = sig sts 0" using h(2) unfolding k class_of_def by simp
  have fk: "fst k" unfolding sk by (simp add: signature_of_def)
  have "s = 0" if "s \<in> set (hd G)" for s
  proof -
    have "sig sts s = k" using that unfolding k class_of_def by simp
    then have "fst (sig sts s)" using fk by simp
    then show ?thesis by (simp add: signature_of_def)
  qed
  then have "set (hd G) = {0}" using h(2) by blast
  moreover have "distinct (hd G)" unfolding k class_of_def by (intro distinct_filter distinct_upt)
  ultimately have "length (hd G) = 1" using distinct_card [of "hd G"] by simp
  then obtain x where "hd G = [x]" unfolding One_nat_def length_Suc_conv by blast
  then have h0: "hd G = [0]" using \<open>set (hd G) = {0}\<close> by simp
  have "sig sts s = sig sts t" if g: "g \<in> set G" "s \<in> set g" "t \<in> set g" for g s t
  proof -
    obtain k where "g = class_of (sig sts) ?n k" using c(4) g(1) by blast
    then show ?thesis using g(2,3) by (simp add: class_of_def)
  qed
  then have "initial_groups sts G" unfolding initial_groups_def using c(1-3) h0 ne by (intro conjI ballI) assumption+
  then show ?thesis using i unfolding G_def S_def by (intro exI [of _ i] conjI)
qed

lemma length_excess: "[] \<notin> set groups \<Longrightarrow> length groups + excess groups = length (concat groups)"
proof (induction groups)
  case (Cons g groups)
  then show ?case by (cases g) (auto simp: excess_def)
qed (simp add: excess_def)


section \<open>Minimization preserves lexing\<close>

lemma lex_states_differ_defined: "targets_ok (length sts) sts \<Longrightarrow> splits_defined lex_states_differ sts"
proof -
  assume ok: "targets_ok (length sts) sts"
  have any: "any_m f xs \<noteq> None" if "\<forall>x \<in> set xs. f x \<noteq> None" for f :: "'z \<Rightarrow> bool option" and xs
    using that by (induction xs) auto
  show ?thesis
    unfolding splits_defined_def lex_states_differ_def
  proof (intro allI impI ballI any)
    fix gids :: "nat list" and a b x
    assume h: "length gids = length sts" "a \<in> set sts" "b \<in> set sts" "x \<in> set (zip (advance_actions a) (advance_actions b))"
    obtain l r where x: "x = (l, r)" by (cases x)
    then have "l \<in> set (advance_actions a)" "r \<in> set (advance_actions b)" using h(4) set_zip_leftD set_zip_rightD by metis+
    then have "snd l \<in> actions_of a" "snd r \<in> actions_of b" by (auto simp: actions_of_def)
    then have "adv_state (snd l) < length gids" "adv_state (snd r) < length gids" using ok h(1-3) by (auto simp: targets_ok_def)
    then show "(case x of (l, r) \<Rightarrow> vec_get gids (adv_state (snd l)) \<bind> (\<lambda>gl. vec_get gids (adv_state (snd r)) \<bind> (\<lambda>gr. Some (gl \<noteq> gr)))) \<noteq> None"
      by (simp add: x vec_get_def)
  qed
qed

lemma any_m_False: "any_m f xs = Some False \<Longrightarrow> x \<in> set xs \<Longrightarrow> f x = Some False"
  by (induction xs) (auto simp: bind_eq_Some_conv split: if_splits)

text \<open>All end-of-file transitions lead to one state, as the builder makes them.\<close>

definition eof_uniform :: "LexState list \<Rightarrow> bool" where
  "eof_uniform sts \<longleftrightarrow> (\<forall>st \<in> set sts. \<forall>st' \<in> set sts. \<forall>a b. eof_action st = Some a \<and> eof_action st' = Some b \<longrightarrow> a = b)"

text \<open>States with one signature that are not told apart are redirected to the same state.\<close>

lemma redirected_same:
  assumes sg: "signature_of i a = signature_of j b" and eq: "lex_states_differ a b f = Some False"
    and u: "\<And>x y. eof_action a = Some x \<Longrightarrow> eof_action b = Some y \<Longrightarrow> x = y"
  shows "redirected f a = redirected f b"
proof -
  let ?A = "advance_actions a" and ?B = "advance_actions b"
  have acc: "accept_action a = accept_action b" "(eof_action a \<noteq> None) = (eof_action b \<noteq> None)"
    "map (\<lambda>(cs, x). (cs, in_main_token x)) ?A = map (\<lambda>(cs, x). (cs, in_main_token x)) ?B" using sg by (auto simp: signature_of_def)
  have len: "length ?A = length ?B" using map_eq_imp_length_eq [OF acc(3)] .
  let ?h = "\<lambda>(cs, x). (cs, AdvanceAction (f ! adv_state x) (in_main_token x))" and ?m = "\<lambda>(cs, x). (cs, in_main_token x)"
  have "map ?h ?A = map ?h ?B"
  proof (rule nth_equalityI)
    fix k assume "k < length (map ?h ?A)"
    then have k: "k < length ?A" by simp
    have "(?A ! k, ?B ! k) \<in> set (zip ?A ?B)" using k len by (auto simp: in_set_zip)
    from any_m_False [OF eq [unfolded lex_states_differ_def] this]
    have 1: "f ! adv_state (snd (?A ! k)) = f ! adv_state (snd (?B ! k))" by (auto simp: bind_eq_Some_conv)
    have "map ?m ?A ! k = map ?m ?B ! k" by (simp only: acc(3))
    then have 2: "?m (?A ! k) = ?m (?B ! k)" using k len by (simp only: nth_map)
    show "map ?h ?A ! k = map ?h ?B ! k" using 1 2 k len by (simp add: split_beta)
  qed (simp add: len)
  moreover have "eof_action a = eof_action b"
  proof (cases "eof_action a")
    case (Some x)
    then obtain y where y: "eof_action b = Some y" using acc(2) by auto
    show ?thesis unfolding Some y using u [OF Some y] by simp
  qed (use acc(2) in simp)
  ultimately show ?thesis using acc(1) by (simp add: redirected_def)
qed

lemma first_ids_correct: "[] \<notin> set groups \<Longrightarrow> first_ids groups = Some (map hd groups)"
  by (induction groups) (auto simp: vec_get_def hd_conv_nth)

lemma part_of_groups:
  assumes "distinct (concat groups)" "set (concat groups) = {..<n}" "length groups \<le> 2 ^ 32"
  shows "\<exists>gids. assign_all_ids 0 groups (replicate n 0) = Some gids \<and> length gids = n \<and> part groups gids"
proof -
  have "\<forall>s \<in> set (concat groups). s < length (replicate n (0 :: nat))" using assms(2) by simp
  from assign_all_ids_correct [OF assms(1) this, of 0] assms(3) obtain gids where g: "assign_all_ids 0 groups (replicate n 0) = Some gids"
    "length gids = n" "\<forall>g < length groups. \<forall>s \<in> set (groups ! g). gids ! s = g" by auto
  have ex: "\<exists>g < length groups. s \<in> set (groups ! g)" if s: "s < n" for s
  proof -
    have "s \<in> set (concat groups)" using s assms(2) by simp
    then show ?thesis unfolding set_concat by (metis UN_E in_set_conv_nth)
  qed
  have "part groups gids"
    unfolding part_def g(2)
  proof (intro conjI allI impI)
    show "gids ! s < length groups" if s: "s < n" for s using ex [OF s] g(3) by auto
    fix k assume k: "k < length groups"
    show "distinct (groups ! k)" using assms(1) k by (simp add: distinct_concat_iff)
    fix s show "s \<in> set (groups ! k) \<longleftrightarrow> s < n \<and> gids ! s = k"
    proof
      assume s: "s \<in> set (groups ! k)"
      then have "s \<in> set (concat groups)" using k nth_mem by auto
      then show "s < n \<and> gids ! s = k" using s k g(3) assms(2) by auto
    next
      assume s: "s < n \<and> gids ! s = k"
      then obtain k' where "k' < length groups" "s \<in> set (groups ! k')" using ex by blast
      then show "s \<in> set (groups ! k)" using s g(3) by metis
    qed
  qed
  with g show ?thesis by blast
qed

lemma minimize_hom:
  assumes n: "0 < length (lex_states table)" "length (lex_states table) < 2 ^ 32"
    and ok: "targets_ok (length (lex_states table)) (lex_states table)" and u: "eof_uniform (lex_states table)"
    and ps: "\<forall>st \<in> set (states pt). lex_state_id st < length (lex_states table)"
  shows "\<exists>f new1. minimize_lex_table table pt = Some (\<lparr>lex_states = new1\<rparr>, pt\<lparr>states := relabel f (states pt)\<rparr>) \<and>
    lex_hom f (lex_states table) new1 \<and> 0 < length new1 \<and> length new1 \<le> length (lex_states table) \<and>
    set f = {..<length new1} \<and> f ! 0 = 0"
proof -
  let ?sts = "lex_states table"
  let ?n = "length ?sts"
  obtain i where i: "position (\<lambda>g. 0 \<in> set g) (sort (map snd (group_by_signature ?sts))) = Some i"
    "initial_groups ?sts (swap_at i 0 (sort (map snd (group_by_signature ?sts))))"
    using initial_groups_correct [OF n] by (elim exE conjE)
  define G0 where "G0 = swap_at i 0 (sort (map snd (group_by_signature ?sts)))"
  note ig = i(2) [folded G0_def, unfolded initial_groups_def]
  have sz: "length G0 + excess G0 = ?n" using length_excess ig distinct_card [of "concat G0"] by simp
  then have "length G0 \<le> 2 ^ 32" using n(2) by simp
  then obtain gids0 where g0: "assign_all_ids 0 G0 (replicate ?n 0) = Some gids0" "length gids0 = ?n" "part G0 gids0"
    using part_of_groups [of G0 ?n] ig by blast
  obtain groups f where st: "split_until_stable lex_states_differ ?sts G0 gids0 1 = Some (groups, f)"
    "part groups f" "finer f gids0" "take 1 groups = take 1 G0" "length G0 \<le> length groups"
    "length groups + excess groups = length G0 + excess G0" "[] \<notin> set G0 \<longrightarrow> [] \<notin> set groups"
    "\<forall>g. 1 \<le> g \<and> g < length groups \<longrightarrow> stable_group lex_states_differ ?sts f (groups ! g)"
    using split_until_stable_spec [OF g0(3) g0(2) [symmetric] _ lex_states_differ_defined [OF ok], of 1] sz n(2) by auto
  have lf: "length f = ?n" using st(3) g0(2) by (simp add: finer_def)
  have ne: "[] \<notin> set groups" using st(7) ig by blast
  have "hd G0 = [0]" "G0 \<noteq> []" using ig by auto
  then have h0: "groups ! 0 = [0]" "0 < length groups" using st(4,5) by (cases groups; cases G0; simp)+
  have hd: "hd (groups ! g) \<in> set (groups ! g)" if "g < length groups" for g using ne that nth_mem by (metis hd_in_set)
  have hdf: "hd (groups ! g) < ?n \<and> f ! hd (groups ! g) = g" if g: "g < length groups" for g
    using partD(3) [OF st(2) g] hd [OF g] lf by simp
  have same: "redirected f (?sts ! hd (groups ! (f ! s))) = redirected f (?sts ! s)" if s: "s < ?n" for s
  proof -
    have g: "f ! s < length groups" using partD(1) [OF st(2)] s lf by simp
    have sg: "s \<in> set (groups ! (f ! s))" using partD(3) [OF st(2) g] s lf by simp
    let ?r = "hd (groups ! (f ! s))"
    have r: "?r < ?n" "f ! ?r = f ! s" using hdf [OF g] by auto
    show ?thesis
    proof (cases "?r = s")
      case False
      obtain j where j: "j < length (groups ! (f ! s))" "groups ! (f ! s) ! j = s" using sg by (auto simp: in_set_conv_nth)
      have gne: "groups ! (f ! s) \<noteq> []" using sg by auto
      have "0 < j" using False j hd_conv_nth [of "groups ! (f ! s)"] by (cases j) auto
      moreover have "1 \<le> f ! s"
      proof (rule ccontr)
        assume "\<not> 1 \<le> f ! s"
        then have "f ! s = 0" by simp
        then have "groups ! (f ! s) = [0]" using h0(1) by simp
        then show False using False sg by simp
      qed
      ultimately have "lex_states_differ (?sts ! (groups ! (f ! s) ! 0)) (?sts ! (groups ! (f ! s) ! j)) f = Some False"
        using st(8) [rule_format, of "f ! s"] g j(1) unfolding stable_group_def by blast
      then have d: "lex_states_differ (?sts ! ?r) (?sts ! s) f = Some False" by (simp only: hd_conv_nth [OF gne] j(2))
      have "gids0 ! ?r = gids0 ! s" by (rule finerD [OF st(3) _ _ r(2)]) (use r(1) s g0(2) in simp_all)
      then have k: "?r \<in> set (G0 ! (gids0 ! s))" "s \<in> set (G0 ! (gids0 ! s))" "gids0 ! s < length G0"
        using partD(1,3) [OF g0(3)] r(1) s g0(2) by auto
      then have sgn: "signature_of ?r (?sts ! ?r) = signature_of s (?sts ! s)" using ig nth_mem by blast
      show ?thesis
      proof (rule redirected_same [OF sgn d])
        show "x = y" if "eof_action (?sts ! ?r) = Some x" "eof_action (?sts ! s) = Some y" for x y
          using u that nth_mem [OF r(1)] nth_mem [OF s] unfolding eof_uniform_def by blast
      qed
    qed simp
  qed
  let ?nw = "map (\<lambda>i. redirected f (?sts ! i)) (map hd groups)"
  have dist: "distinct (map hd groups)" unfolding distinct_conv_nth using hdf by (metis length_map nth_map)
  have inr: "\<forall>i \<in> set (map hd groups). i < ?n" using hdf by (auto simp: in_set_conv_nth)
  have acts: "\<forall>i \<in> set (map hd groups). \<forall>a \<in> actions_of (?sts ! i). adv_state a < length f"
    unfolding lf using inr targets_okD [OF ok] by blast
  have rp: "redirect_parse_states f (states pt) = Some (relabel f (states pt))"
    by (rule redirect_parse_states_correct) (use ps lf in simp)
  have run: "minimize_lex_table table pt = Some (\<lparr>lex_states = ?nw\<rparr>, pt\<lparr>states := relabel f (states pt)\<rparr>)"
    unfolding minimize_lex_table_def Let_def i(1) bind.bind_lunit G0_def [symmetric] g0(1) st(1) case_prod_conv
      first_ids_correct [OF ne] take_states_correct [OF dist inr acts] rp ..
  have "lex_hom f ?sts ?nw"
    unfolding lex_hom_def
  proof (intro conjI allI impI)
    fix s assume s: "s < ?n"
    have g: "f ! s < length groups" using partD(1) [OF st(2)] s lf by simp
    then show "f ! s < length ?nw" by simp
    have "\<forall>a \<in> actions_of (?sts ! s). adv_state a < length f" using targets_okD [OF ok s] lf by simp
    then show "redirect_state f (?sts ! s) = Some (?nw ! (f ! s))" using redirect_state_correct same [OF s] g by simp
  qed (rule lf)
  moreover have "set f = {..<length ?nw}"
  proof (intro subset_antisym subsetI)
    fix g assume "g \<in> set f"
    then show "g \<in> {..<length ?nw}" using partD(1) [OF st(2)] by (auto simp: in_set_conv_nth)
  next
    fix g assume "g \<in> {..<length ?nw}"
    then have "hd (groups ! g) < length f" "f ! hd (groups ! g) = g" using hdf lf by auto
    then show "g \<in> set f" by (metis nth_mem)
  qed
  moreover have "f ! 0 = 0" using hdf [OF h0(2)] h0(1) by simp
  moreover have "length ?nw \<le> ?n" using st(6) sz by simp
  ultimately show ?thesis using run h0(2) by (intro exI [of _ f] exI [of _ ?nw] conjI) simp_all
qed


section \<open>The subset construction\<close>

text \<open>What the builder should make of a set of NFA states: the preferred completion, the transitions that are kept
  beside it, and the keys (state sets with the end-of-file flag) reached from given ones.\<close>

definition best_of :: "LexicalGrammar \<Rightarrow> nat list \<Rightarrow> (nat \<times> int) option" where
  "best_of g sids = (case best_completion g (completions_at g sids) None of Some c \<Rightarrow> c | None \<Rightarrow> None)"

definition all_transitions :: "LexicalGrammar \<Rightarrow> nat list \<Rightarrow> NfaTransition list" where
  "all_transitions g sids = (case group_transitions (raws_at g sids) of Some es \<Rightarrow> es | None \<Rightarrow> [])"

definition keeps :: "LexicalGrammar \<Rightarrow> (nat \<times> int) option \<Rightarrow> bool \<Rightarrow> NfaTransition \<Rightarrow> bool" where
  "keeps g completion has_sep t = (case completion of Some (v, p) \<Rightarrow> prefer_transition g t v p has_sep | None \<Rightarrow> True)"

definition has_sep_at :: "LexicalGrammar \<Rightarrow> nat list \<Rightarrow> bool" where
  "has_sep_at g sids = list_ex (\<lambda>(_, sep, _, _). sep) (raws_at g sids)"

definition kept_transitions :: "LexicalGrammar \<Rightarrow> nat list \<Rightarrow> NfaTransition list" where
  "kept_transitions g sids = filter (keeps g (best_of g sids) (has_sep_at g sids)) (all_transitions g sids)"

definition expand_list :: "LexicalGrammar \<Rightarrow> nat list \<Rightarrow> nat list" where
  "expand_list g sids = sorted_list_of_set (expand g (set sids))"

definition next_key :: "LexicalGrammar \<Rightarrow> bool \<Rightarrow> NfaTransition \<Rightarrow> nat list \<times> bool" where
  "next_key g eof_valid t = (expand_list g (t_states t), eof_valid \<and> is_separator t)"

inductive_set lex_keys :: "LexicalGrammar \<Rightarrow> (nat list \<times> bool) set \<Rightarrow> (nat list \<times> bool) set" for g A where
  start: "k \<in> A \<Longrightarrow> k \<in> lex_keys g A"
| eof_step: "(s, True) \<in> lex_keys g A \<Longrightarrow> ([], False) \<in> lex_keys g A"
| char_step: "(s, e) \<in> lex_keys g A \<Longrightarrow> t \<in> set (kept_transitions g s) \<Longrightarrow> next_key g e t \<in> lex_keys g A"

inductive_cases lex_keysE: "k \<in> lex_keys g A"

lemma lex_keys_mono: "k \<in> lex_keys g A \<Longrightarrow> A \<subseteq> B \<Longrightarrow> k \<in> lex_keys g B"
  by (induction rule: lex_keys.induct) (auto intro: lex_keys.intros)

definition key_ok :: "LexicalGrammar \<Rightarrow> nat list \<times> bool \<Rightarrow> bool" where
  "key_ok g k \<longleftrightarrow> sorted_wrt (<) (fst k) \<and> set (fst k) \<subseteq> {..<num_states g}"

lemma expand_list_ok:
  assumes "lexical_wf g" "set sids \<subseteq> {..<num_states g}"
  shows "sorted_wrt (<) (expand_list g sids)" "set (expand_list g sids) \<subseteq> {..<num_states g}" "set (expand_list g sids) = expand g (set sids)"
  using expand_range [OF assms] finite_subset [OF expand_range [OF assms]] by (auto simp: expand_list_def)

lemma transitions_at:
  assumes "lexical_wf g" "set sids \<subseteq> {..<num_states g}"
  shows "group_transitions (raws_at g sids) = Some (all_transitions g sids)" "\<forall>t \<in> set (all_transitions g sids). transition_wf g t"
  using group_transitions_wf [OF assms] by (auto simp: all_transitions_def list_all_iff)

lemma lex_keys_ok:
  assumes g: "lexical_wf g" and A: "\<forall>k \<in> A. key_ok g k"
  shows "k \<in> lex_keys g A \<Longrightarrow> key_ok g k"
proof (induction rule: lex_keys.induct)
  case (char_step s e t)
  then have "set s \<subseteq> {..<num_states g}" by (simp add: key_ok_def)
  from transitions_at(2) [OF g this] char_step(2) have "transition_wf g t" by (auto simp: kept_transitions_def)
  then have "set (t_states t) \<subseteq> {..<num_states g}" by (simp add: transition_wf_def)
  from expand_list_ok(1,2) [OF g this] show ?case by (simp add: key_ok_def next_key_def)
qed (use A in \<open>auto simp: key_ok_def\<close>)

lemma finite_lex_keys:
  assumes "lexical_wf g" "\<forall>k \<in> A. key_ok g k"
  shows "finite (lex_keys g A)"
proof (rule finite_subset)
  show "lex_keys g A \<subseteq> state_sets g \<times> UNIV"
  proof
    fix k assume "k \<in> lex_keys g A"
    then have "key_ok g k" using lex_keys_ok [OF assms] by blast
    then have "fst k \<in> state_sets g" unfolding state_sets_def key_ok_def
      by (intro image_eqI [of _ _ "set (fst k)"] strict_sorted_equal) auto
    then show "k \<in> state_sets g \<times> UNIV" by (cases k) auto
  qed
  show "finite (state_sets g \<times> (UNIV :: bool set))" by simp
qed

text \<open>The preferred completion is the one with the largest preference key.\<close>

lemma best_completion_max:
  assumes "\<forall>(v, p) \<in> set cs. v < length (lex_variables g)" "\<forall>v p. c = Some (v, p) \<longrightarrow> v < length (lex_variables g)"
  shows "\<exists>r. best_completion g cs c = Some r \<and> (r = None \<longleftrightarrow> cs = [] \<and> c = None) \<and>
    (\<forall>v p. r = Some (v, p) \<longrightarrow> (v, p) \<in> set cs \<union> set_option c \<and>
      (\<forall>(v', p') \<in> set cs \<union> set_option c. pref_key g (p', v') \<le> pref_key g (p, v)))"
  using assms
proof (induction cs arbitrary: c)
  case Nil
  then show ?case by (cases c) auto
next
  case (Cons vp cs)
  obtain v p where vp: "vp = (v, p)" by (cases vp)
  have v: "v < length (lex_variables g)" and cs: "\<forall>(v, p) \<in> set cs. v < length (lex_variables g)" using Cons.prems(1) vp by auto
  show ?case
  proof (cases c)
    case None
    have "\<forall>w q. Some (v, p) = Some (w, q) \<longrightarrow> w < length (lex_variables g)" using v by simp
    from Cons.IH [OF cs this] obtain r where r: "best_completion g cs (Some (v, p)) = Some r" "r \<noteq> None"
      "\<forall>w q. r = Some (w, q) \<longrightarrow> (w, q) \<in> set cs \<union> {(v, p)} \<and> (\<forall>(v', p') \<in> set cs \<union> {(v, p)}. pref_key g (p', v') \<le> pref_key g (q, w))"
      by auto
    then show ?thesis unfolding vp None by (intro exI [of _ r]) auto
  next
    case (Some wq)
    obtain w q where wq: "wq = (w, q)" by (cases wq)
    have w: "w < length (lex_variables g)" using Cons.prems(2) Some wq by simp
    note pt = prefer_token_key [OF w v, of q p]
    let ?b = "pref_key g (p, v) < pref_key g (q, w)"
    let ?c = "if ?b then (w, q) else (v, p)"
    have "\<forall>x y. Some ?c = Some (x, y) \<longrightarrow> x < length (lex_variables g)" using v w by auto
    from Cons.IH [OF cs this] obtain r where r: "best_completion g cs (Some ?c) = Some r" "r \<noteq> None"
      "\<forall>x y. r = Some (x, y) \<longrightarrow> (x, y) \<in> set cs \<union> {?c} \<and> (\<forall>(v', p') \<in> set cs \<union> {?c}. pref_key g (p', v') \<le> pref_key g (y, x))"
      by auto
    have run: "best_completion g (vp # cs) c = Some r"
      unfolding vp Some wq best_completion.simps option.case case_prod_conv pt bind.bind_lunit using r(1) by (cases ?b) simp_all
    have "(x, y) \<in> set (vp # cs) \<union> set_option c \<and> (\<forall>(v', p') \<in> set (vp # cs) \<union> set_option c. pref_key g (p', v') \<le> pref_key g (y, x))"
      if e: "r = Some (x, y)" for x y
    proof -
      have i: "(x, y) \<in> set cs \<union> {?c}" and m: "\<forall>(v', p') \<in> set cs. pref_key g (p', v') \<le> pref_key g (y, x)"
        and b: "pref_key g (snd ?c, fst ?c) \<le> pref_key g (y, x)" using r(3) e by (auto split: if_splits)
      have "pref_key g (p, v) \<le> pref_key g (y, x)" "pref_key g (q, w) \<le> pref_key g (y, x)"
        using b by (auto split: if_splits)
      then show ?thesis using i m unfolding vp Some wq by (auto split: if_splits)
    qed
    then show ?thesis using run r(2) by (intro exI [of _ r]) auto
  qed
qed

lemma best_of_correct:
  assumes "lexical_wf g" "set sids \<subseteq> {..<num_states g}"
  shows "best_completion g (completions_at g sids) None = Some (best_of g sids)"
    "best_of g sids = None \<longleftrightarrow> completions_at g sids = []"
    "best_of g sids = Some (v, p) \<Longrightarrow> (v, p) \<in> set (completions_at g sids) \<and>
       (\<forall>(v', p') \<in> set (completions_at g sids). pref_key g (p', v') \<le> pref_key g (p, v))"
  using best_completion_max [of "completions_at g sids" g None] completions_at_wf [OF assms] by (fastforce simp: best_of_def)+


text \<open>A finished state of the table, for a key and the map from keys to state ids.\<close>

definition action_for :: "LexicalGrammar \<Rightarrow> (nat list \<times> bool \<rightharpoonup> nat) \<Rightarrow> bool \<Rightarrow> NfaTransition \<Rightarrow> CharacterSet \<times> AdvanceAction \<Rightarrow> bool" where
  "action_for g M e t = (\<lambda>(cs, a). cs = characters t \<and> M (next_key g e t) = Some (adv_state a) \<and> in_main_token a = (\<not> is_separator t))"

definition last_set :: "LexicalGrammar \<Rightarrow> bool \<Rightarrow> nat list \<Rightarrow> nat list" where
  "last_set g e s = (if kept_transitions g s \<noteq> [] then expand_list g (t_states (last (kept_transitions g s))) else if e then [] else s)"

definition accept_at :: "LexicalGrammar \<Rightarrow> bool \<Rightarrow> nat list \<Rightarrow> Symbol option" where
  "accept_at g e s = (case best_of g s of Some (v, _) \<Rightarrow> Some (terminal v) | None \<Rightarrow> if last_set g e s = [] then Some end_sym else None)"

definition state_done :: "LexicalGrammar \<Rightarrow> (nat list \<times> bool \<rightharpoonup> nat) \<Rightarrow> nat list \<times> bool \<Rightarrow> LexState \<Rightarrow> bool" where
  "state_done g M = (\<lambda>(s, e) st. list_all2 (action_for g M e) (kept_transitions g s) (advance_actions st) \<and>
     (if e then \<exists>n. M ([], False) = Some n \<and> eof_action st = Some (AdvanceAction n True) else eof_action st = None) \<and>
     accept_action st = accept_at g e s)"

lemma map_leD: "M \<subseteq>\<^sub>m M' \<Longrightarrow> M k = Some v \<Longrightarrow> M' k = Some v"
  by (force simp: map_le_def dom_def)

lemma action_for_mono: "action_for g M e t x \<Longrightarrow> M \<subseteq>\<^sub>m M' \<Longrightarrow> action_for g M' e t x"
  using map_leD [of M M' "next_key g e t"] by (cases x) (simp add: action_for_def)

definition one_one :: "('k \<rightharpoonup> 'v) \<Rightarrow> bool" where
  "one_one M \<longleftrightarrow> (\<forall>k k' v. M k = Some v \<longrightarrow> M k' = Some v \<longrightarrow> k = k')"

lemma one_one_card: "one_one M \<Longrightarrow> card (ran M) = card (dom M)"
proof -
  assume "one_one M"
  then have "inj_on (\<lambda>k. the (M k)) (dom M)" by (auto simp: inj_on_def dom_def one_one_def)
  moreover have "ran M = (\<lambda>k. the (M k)) ` dom M" by (force simp: ran_def dom_def)
  ultimately show ?thesis by (simp add: card_image)
qed

lemma one_one_update: "one_one M \<Longrightarrow> v \<notin> ran M \<Longrightarrow> one_one (M(k \<mapsto> v))"
  by (auto simp: one_one_def ran_def)

lemma state_done_mono:
  assumes "state_done g M k st" "M \<subseteq>\<^sub>m M'"
  shows "state_done g M' k st"
proof -
  obtain s e where k: "k = (s, e)" by (cases k)
  have "list_all2 (action_for g M' e) (kept_transitions g s) (advance_actions st)"
    using assms(1) action_for_mono [OF _ assms(2)] unfolding k state_done_def by (auto intro: list_all2_mono)
  then show ?thesis using assms(1) map_leD [OF assms(2)] unfolding k state_done_def by (cases e) auto
qed

abbreviation table_states :: "LexTableBuilder \<Rightarrow> LexState list" where
  "table_states b \<equiv> lex_states (b_table b)"

abbreviation queued :: "LexTableBuilder \<Rightarrow> nat set" where
  "queued b \<equiv> q_state_id ` set (b_queue b)"

text \<open>The invariant of the builder; the states in \<open>S\<close> are being populated.\<close>

definition binv :: "LexicalGrammar \<Rightarrow> (nat list \<times> bool) set \<Rightarrow> LexTableBuilder \<Rightarrow> nat set \<Rightarrow> bool" where
  "binv g A b S \<longleftrightarrow> b_grammar b = g \<and> nfa (b_cursor b) = lex_nfa g \<and> dom (b_ids b) \<subseteq> lex_keys g A \<and>
     one_one (b_ids b) \<and> ran (b_ids b) = {..<length (table_states b)} \<and> S \<subseteq> {..<length (table_states b)} \<and>
     S \<inter> queued b = {} \<and> distinct (map q_state_id (b_queue b)) \<and>
     (\<forall>q \<in> set (b_queue b). b_ids b (q_nfa_states q, q_eof_valid q) = Some (q_state_id q) \<and> table_states b ! q_state_id q = default_lex_state) \<and>
     (\<forall>k i. b_ids b k = Some i \<and> i \<notin> S \<and> i \<notin> queued b \<longrightarrow> state_done g (b_ids b) k (table_states b ! i))"

definition potential :: "LexicalGrammar \<Rightarrow> (nat list \<times> bool) set \<Rightarrow> LexTableBuilder \<Rightarrow> nat" where
  "potential g A b = 2 * card (lex_keys g A - dom (b_ids b)) + length (b_queue b)"

text \<open>The start keys are in range and there are fewer than \<open>2 ^ 32\<close> keys, so that state ids do not wrap.\<close>

definition small :: "LexicalGrammar \<Rightarrow> (nat list \<times> bool) set \<Rightarrow> bool" where
  "small g A \<longleftrightarrow> lexical_wf g \<and> (\<forall>k \<in> A. key_ok g k) \<and> card (lex_keys g A) < 2 ^ 32"

lemma binvD:
  assumes "binv g A b S"
  shows "b_grammar b = g" "nfa (b_cursor b) = lex_nfa g" "dom (b_ids b) \<subseteq> lex_keys g A" "one_one (b_ids b)"
    "ran (b_ids b) = {..<length (table_states b)}" "S \<subseteq> {..<length (table_states b)}" "S \<inter> queued b = {}"
    "distinct (map q_state_id (b_queue b))"
proof -
  from assms show "b_grammar b = g" unfolding binv_def by (elim conjE)
  from assms show "nfa (b_cursor b) = lex_nfa g" unfolding binv_def by (elim conjE)
  from assms show "dom (b_ids b) \<subseteq> lex_keys g A" unfolding binv_def by (elim conjE)
  from assms show "one_one (b_ids b)" unfolding binv_def by (elim conjE)
  from assms show "ran (b_ids b) = {..<length (table_states b)}" unfolding binv_def by (elim conjE)
  from assms show "S \<subseteq> {..<length (table_states b)}" unfolding binv_def by (elim conjE)
  from assms show "S \<inter> queued b = {}" unfolding binv_def by (elim conjE)
  from assms show "distinct (map q_state_id (b_queue b))" unfolding binv_def by (elim conjE)
qed

lemma binv_queue:
  "binv g A b S \<Longrightarrow> q \<in> set (b_queue b) \<Longrightarrow>
     b_ids b (q_nfa_states q, q_eof_valid q) = Some (q_state_id q) \<and> table_states b ! q_state_id q = default_lex_state"
  unfolding binv_def by blast

lemma binv_done:
  "binv g A b S \<Longrightarrow> b_ids b k = Some i \<Longrightarrow> i \<notin> S \<Longrightarrow> i \<notin> queued b \<Longrightarrow> state_done g (b_ids b) k (table_states b ! i)"
  unfolding binv_def by blast

lemma binv_size:
  assumes "binv g A b S" "small g A"
  shows "length (table_states b) = card (dom (b_ids b))"
  using one_one_card [OF binvD(4) [OF assms(1)]] binvD(5) [OF assms(1)] by simp

lemma add_state_spec:
  assumes inv: "binv g A b S" and sm: "small g A" and sts: "set sts \<subseteq> {..<num_states g}" and key: "(expand_list g sts, e) \<in> lex_keys g A"
  shows "\<exists>b' i fresh. add_state b sts e = Some (b', i, fresh) \<and> binv g A b' S \<and> b_ids b' (expand_list g sts, e) = Some i \<and>
    b_ids b \<subseteq>\<^sub>m b_ids b' \<and> state_ids (b_cursor b') = expand_list g sts \<and> length (table_states b) \<le> length (table_states b') \<and>
    (\<forall>j < length (table_states b). table_states b' ! j = table_states b ! j) \<and> potential g A b' \<le> potential g A b"
proof -
  have g: "lexical_wf g" using sm by (simp add: small_def)
  note D = binvD [OF inv]
  have rs: "reset (b_cursor b) sts = Some ((b_cursor b)\<lparr>state_ids := expand_list g sts\<rparr>)"
    unfolding expand_list_def by (rule reset_correct [OF g D(2) sts])
  let ?cur = "(b_cursor b)\<lparr>state_ids := expand_list g sts\<rparr>" and ?k = "(expand_list g sts, e)" and ?n = "length (table_states b)"
  show ?thesis
  proof (cases "b_ids b ?k")
    case (Some i)
    have "add_state b sts e = Some (b\<lparr>b_cursor := ?cur\<rparr>, i, False)" by (simp add: add_state_def rs Let_def Some)
    moreover have "binv g A (b\<lparr>b_cursor := ?cur\<rparr>) S" using inv unfolding binv_def by simp
    ultimately show ?thesis using Some
      by (intro exI [of _ "b\<lparr>b_cursor := ?cur\<rparr>"] exI [of _ i] exI [of _ False]) (simp add: potential_def)
  next
    case None
    let ?q = "\<lparr>q_state_id = ?n, q_nfa_states = expand_list g sts, q_eof_valid = e\<rparr>"
    let ?b = "b\<lparr>b_cursor := ?cur, b_table := \<lparr>lex_states = table_states b @ [default_lex_state]\<rparr>,
      b_queue := b_queue b @ [?q], b_ids := (b_ids b)(?k \<mapsto> ?n)\<rparr>"
    have fin: "finite (lex_keys g A)" using finite_lex_keys sm by (simp add: small_def)
    have kd: "?k \<in> lex_keys g A - dom (b_ids b)" using key None by auto
    then have "card (dom (b_ids b)) < card (lex_keys g A)" using D(3) fin by (intro psubset_card_mono) auto
    then have "as_u32 ?n = ?n" using binv_size [OF inv sm] sm by (simp add: small_def)
    then have run: "add_state b sts e = Some (?b, ?n, True)" by (simp add: add_state_def rs Let_def None)
    have le: "b_ids b \<subseteq>\<^sub>m b_ids ?b" using None by (auto simp: map_le_def dom_def)
    have ids: "b_ids b k = Some i \<Longrightarrow> i < ?n" for k i using D(5) ranI [of "b_ids b" k i] by blast
    have qn: "i \<in> queued b \<Longrightarrow> i < ?n" for i using binv_queue [OF inv] ids by blast
    have nr: "?n \<notin> ran (b_ids b)" using D(5) by simp
    have "binv g A ?b S"
      unfolding binv_def
    proof (intro conjI)
      show "dom (b_ids ?b) \<subseteq> lex_keys g A" using D(3) key by auto
      show "one_one (b_ids ?b)" using one_one_update [OF D(4) nr] by simp
      show "ran (b_ids ?b) = {..<length (table_states ?b)}" using D(5) ran_map_upd [of "b_ids b" ?k ?n, OF None] by (simp add: lessThan_Suc)
      show "S \<subseteq> {..<length (table_states ?b)}" using D(6) by auto
      show "S \<inter> queued ?b = {}" using D(6,7) by auto
      show "distinct (map q_state_id (b_queue ?b))" using D(8) qn by auto
      show "\<forall>q \<in> set (b_queue ?b). b_ids ?b (q_nfa_states q, q_eof_valid q) = Some (q_state_id q) \<and>
          table_states ?b ! q_state_id q = default_lex_state"
      proof
        fix q assume "q \<in> set (b_queue ?b)"
        then consider "q \<in> set (b_queue b)" | "q = ?q" by auto
        then show "b_ids ?b (q_nfa_states q, q_eof_valid q) = Some (q_state_id q) \<and> table_states ?b ! q_state_id q = default_lex_state"
        proof cases
          case 1
          have "table_states ?b ! q_state_id q = table_states b ! q_state_id q" using qn [of "q_state_id q"] 1 by (simp add: nth_append)
          with binv_queue [OF inv 1] map_leD [OF le, of "(q_nfa_states q, q_eof_valid q)" "q_state_id q"] show ?thesis by metis
        qed simp
      qed
      show "\<forall>k i. b_ids ?b k = Some i \<and> i \<notin> S \<and> i \<notin> queued ?b \<longrightarrow> state_done g (b_ids ?b) k (table_states ?b ! i)"
      proof (intro allI impI, elim conjE)
        fix k i assume k: "b_ids ?b k = Some i" and i: "i \<notin> S" "i \<notin> queued ?b"
        have kk: "b_ids b k = Some i" using k i(2) by (cases "k = ?k") auto
        then have "state_done g (b_ids b) k (table_states b ! i)" using binv_done [OF inv kk i(1)] i(2) by simp
        moreover have "table_states ?b ! i = table_states b ! i" using ids [OF kk] by (simp add: nth_append)
        ultimately show "state_done g (b_ids ?b) k (table_states ?b ! i)" using state_done_mono [OF _ le] by metis
      qed
    qed (use D(1,2) in simp_all)
    moreover have "card (lex_keys g A - dom (b_ids ?b)) < card (lex_keys g A - dom (b_ids b))"
      using kd fin by (intro psubset_card_mono) auto
    then have "potential g A ?b \<le> potential g A b" by (simp add: potential_def)
    ultimately show ?thesis using run le by (intro exI [of _ ?b] exI [of _ ?n] exI [of _ True]) (simp add: nth_append)
  qed
qed


lemma update_state_spec:
  assumes inv: "binv g A b S" and i: "i \<in> S"
  shows "update_state b i f = Some (b\<lparr>b_table := \<lparr>lex_states = (table_states b)[i := f (table_states b ! i)]\<rparr>\<rparr>)"
    "binv g A (b\<lparr>b_table := \<lparr>lex_states = (table_states b)[i := f (table_states b ! i)]\<rparr>\<rparr>) S"
proof -
  let ?b = "b\<lparr>b_table := \<lparr>lex_states = (table_states b)[i := f (table_states b ! i)]\<rparr>\<rparr>"
  note D = binvD [OF inv]
  have il: "i < length (table_states b)" using D(6) i by auto
  then show "update_state b i f = Some ?b" by (simp add: update_state_def vec_get_def)
  have other: "j \<noteq> i \<Longrightarrow> table_states ?b ! j = table_states b ! j" for j by simp
  show "binv g A ?b S"
    unfolding binv_def
  proof (intro conjI)
    show "\<forall>q \<in> set (b_queue ?b). b_ids ?b (q_nfa_states q, q_eof_valid q) = Some (q_state_id q) \<and> table_states ?b ! q_state_id q = default_lex_state"
    proof
      fix q assume "q \<in> set (b_queue ?b)"
      then have q: "q \<in> set (b_queue b)" by simp
      then have "q_state_id q \<noteq> i" using D(7) i by auto
      with binv_queue [OF inv q] show "b_ids ?b (q_nfa_states q, q_eof_valid q) = Some (q_state_id q) \<and> table_states ?b ! q_state_id q = default_lex_state"
        by simp
    qed
    show "\<forall>k j. b_ids ?b k = Some j \<and> j \<notin> S \<and> j \<notin> queued ?b \<longrightarrow> state_done g (b_ids ?b) k (table_states ?b ! j)"
    proof (intro allI impI, elim conjE)
      fix k j assume "b_ids ?b k = Some j" "j \<notin> S" "j \<notin> queued ?b"
      then show "state_done g (b_ids ?b) k (table_states ?b ! j)" using binv_done [OF inv, of k j] i by (cases "j = i") simp_all
    qed
  qed (use D in simp_all)
qed

lemma add_transitions_spec:
  assumes sm: "small g A" and inv: "binv g A b S" and i: "i \<in> S"
    and ts: "\<forall>t \<in> set ts. transition_wf g t \<and> (keeps g c hs t \<longrightarrow> next_key g e t \<in> lex_keys g A)"
  shows "\<exists>b' as. add_transitions i e c hs ts b = Some b' \<and> binv g A b' S \<and> b_ids b \<subseteq>\<^sub>m b_ids b' \<and>
    list_all2 (action_for g (b_ids b') e) (filter (keeps g c hs) ts) as \<and>
    table_states b' ! i = (table_states b ! i)\<lparr>advance_actions := advance_actions (table_states b ! i) @ as\<rparr> \<and>
    state_ids (b_cursor b') = (if filter (keeps g c hs) ts = [] then state_ids (b_cursor b)
      else expand_list g (t_states (last (filter (keeps g c hs) ts)))) \<and>
    potential g A b' \<le> potential g A b"
  using inv ts
proof (induction ts arbitrary: b)
  case Nil
  then show ?case by (intro exI [of _ b] exI [of _ "[]"]) simp
next
  case (Cons t ts)
  note D = binvD [OF Cons.prems(1)]
  have ts: "\<forall>t \<in> set ts. transition_wf g t \<and> (keeps g c hs t \<longrightarrow> next_key g e t \<in> lex_keys g A)" using Cons.prems(2) by simp
  have cond: "(case c of Some (v, p) \<Rightarrow> \<not> prefer_transition (b_grammar b) t v p hs | None \<Rightarrow> False) \<longleftrightarrow> \<not> keeps g c hs t"
    using D(1) by (auto simp: keeps_def split: option.splits)
  show ?case
  proof (cases "keeps g c hs t")
    case False
    have run: "add_transitions i e c hs (t # ts) b = add_transitions i e c hs ts b" using cond False by simp
    have f: "filter (keeps g c hs) (t # ts) = filter (keeps g c hs) ts" using False by simp
    show ?thesis unfolding run f by (rule Cons.IH [OF Cons.prems(1) ts])
  next
    case True
    have t: "set (t_states t) \<subseteq> {..<num_states g}" "(expand_list g (t_states t), e \<and> is_separator t) \<in> lex_keys g A"
      using Cons.prems(2) True by (auto simp: transition_wf_def next_key_def)
    obtain b1 n fr where b1: "add_state b (t_states t) (e \<and> is_separator t) = Some (b1, n, fr)" "binv g A b1 S"
      "b_ids b1 (expand_list g (t_states t), e \<and> is_separator t) = Some n" "b_ids b \<subseteq>\<^sub>m b_ids b1"
      "state_ids (b_cursor b1) = expand_list g (t_states t)" "length (table_states b) \<le> length (table_states b1)"
      "\<forall>j < length (table_states b). table_states b1 ! j = table_states b ! j" "potential g A b1 \<le> potential g A b"
      using add_state_spec [OF Cons.prems(1) sm t] by (elim exE conjE)
    let ?x = "(characters t, AdvanceAction n (\<not> is_separator t))"
    let ?f = "\<lambda>st. st\<lparr>advance_actions := advance_actions st @ [?x]\<rparr>"
    let ?b2 = "b1\<lparr>b_table := \<lparr>lex_states = (table_states b1)[i := ?f (table_states b1 ! i)]\<rparr>\<rparr>"
    note up = update_state_spec [OF b1(2) i, of ?f]
    have il: "i < length (table_states b)" using D(6) i by auto
    obtain b' as where ih: "add_transitions i e c hs ts ?b2 = Some b'" "binv g A b' S" "b_ids ?b2 \<subseteq>\<^sub>m b_ids b'"
      "list_all2 (action_for g (b_ids b') e) (filter (keeps g c hs) ts) as"
      "table_states b' ! i = (table_states ?b2 ! i)\<lparr>advance_actions := advance_actions (table_states ?b2 ! i) @ as\<rparr>"
      "state_ids (b_cursor b') = (if filter (keeps g c hs) ts = [] then state_ids (b_cursor ?b2)
        else expand_list g (t_states (last (filter (keeps g c hs) ts))))"
      "potential g A b' \<le> potential g A ?b2"
      using Cons.IH [OF up(2) ts] by (elim exE conjE)
    have run: "add_transitions i e c hs (t # ts) b = Some b'"
      using cond True by (simp add: b1(1) up(1) ih(1))
    have "b_ids b1 \<subseteq>\<^sub>m b_ids b'" using ih(3) by simp
    then have act: "action_for g (b_ids b') e t ?x" using b1(3) map_leD [of "b_ids b1" "b_ids b'" "next_key g e t"]
      by (simp add: action_for_def next_key_def)
    have le: "b_ids b \<subseteq>\<^sub>m b_ids b'" using map_le_trans [OF b1(4) \<open>b_ids b1 \<subseteq>\<^sub>m b_ids b'\<close>] .
    have st: "table_states b' ! i = (table_states b ! i)\<lparr>advance_actions := advance_actions (table_states b ! i) @ ?x # as\<rparr>"
      using ih(5) b1(6,7) il by simp
    have "potential g A ?b2 = potential g A b1" by (simp add: potential_def)
    then have pot: "potential g A b' \<le> potential g A b" using ih(7) b1(8) by simp
    show ?thesis
      using run ih(2) le act ih(4) st ih(6) b1(5) True pot by (intro exI [of _ b'] exI [of _ "?x # as"]) simp
  qed
qed

lemma default_simps [simp]: "accept_action default_lex_state = None" "eof_action default_lex_state = None" "advance_actions default_lex_state = []"
  by (simp_all add: default_lex_state_def)

lemma binv_pop:
  assumes inv: "binv g A b {}" and q: "b_queue b = q # qs"
  shows "binv g A (b\<lparr>b_queue := qs\<rparr>) {q_state_id q}" "table_states b ! q_state_id q = default_lex_state"
    "b_ids b (q_nfa_states q, q_eof_valid q) = Some (q_state_id q)" "(q_nfa_states q, q_eof_valid q) \<in> lex_keys g A"
proof -
  note D = binvD [OF inv]
  have bq: "b_ids b (q_nfa_states q, q_eof_valid q) = Some (q_state_id q) \<and> table_states b ! q_state_id q = default_lex_state"
    using binv_queue [OF inv, of q] q by simp
  then show "table_states b ! q_state_id q = default_lex_state" "b_ids b (q_nfa_states q, q_eof_valid q) = Some (q_state_id q)" by auto
  then show "(q_nfa_states q, q_eof_valid q) \<in> lex_keys g A" using D(3) by auto
  have "q_state_id q < length (table_states b)" using bq D(5) ranI by (metis lessThan_iff)
  moreover have "\<forall>k i. b_ids b k = Some i \<and> i \<notin> {q_state_id q} \<and> i \<notin> q_state_id ` set qs \<longrightarrow> state_done g (b_ids b) k (table_states b ! i)"
    using binv_done [OF inv] q by auto
  moreover have "\<forall>p \<in> set qs. b_ids b (q_nfa_states p, q_eof_valid p) = Some (q_state_id p) \<and> table_states b ! q_state_id p = default_lex_state"
    using binv_queue [OF inv] q by simp
  ultimately show "binv g A (b\<lparr>b_queue := qs\<rparr>) {q_state_id q}" unfolding binv_def using D q by simp
qed

lemma binv_finish:
  assumes inv: "binv g A b {i}" and k: "b_ids b k = Some i" and st: "state_done g (b_ids b) k (table_states b ! i)"
  shows "binv g A b {}"
proof -
  note D = binvD [OF inv]
  have "state_done g (b_ids b) k' (table_states b ! j)" if "b_ids b k' = Some j" "j \<notin> queued b" for k' j
  proof (cases "j = i")
    case True
    then have "k' = k" using that(1) k D(4) unfolding one_one_def by blast
    then show ?thesis using st True by simp
  next
    case False
    then show ?thesis using binv_done [OF inv that(1)] that(2) by simp
  qed
  then show ?thesis using inv unfolding binv_def by simp
qed


lemma eof_branch_spec:
  assumes sm: "small g A" and inv: "binv g A b {i}" and key: "e \<longrightarrow> ([], False) \<in> lex_keys g A"
    and d: "table_states b ! i = default_lex_state" and cur: "state_ids (b_cursor b) = s"
  shows "\<exists>b' n. (if e then do {
         (b', next_state_id, _) \<leftarrow> add_state b [] False;
         update_state b' i (\<lambda>st. st\<lparr>eof_action := Some (AdvanceAction next_state_id True)\<rparr>)
       } else Some b) = Some b' \<and> binv g A b' {i} \<and> b_ids b \<subseteq>\<^sub>m b_ids b' \<and> (e \<longrightarrow> b_ids b' ([], False) = Some n) \<and>
    table_states b' ! i = default_lex_state\<lparr>eof_action := (if e then Some (AdvanceAction n True) else None)\<rparr> \<and>
    state_ids (b_cursor b') = (if e then [] else s) \<and> potential g A b' \<le> potential g A b"
proof (cases e)
  case False
  have "default_lex_state\<lparr>eof_action := None\<rparr> = default_lex_state" by (simp add: default_lex_state_def)
  then show ?thesis using inv d cur False by (intro exI [of _ b]) simp
next
  case True
  have x: "expand_list g [] = []" by (simp add: expand_list_def)
  have k: "(expand_list g [], False) \<in> lex_keys g A" using key True x by simp
  obtain b1 n fr where b1: "add_state b [] False = Some (b1, n, fr)" "binv g A b1 {i}"
      "b_ids b1 (expand_list g [], False) = Some n" "b_ids b \<subseteq>\<^sub>m b_ids b1"
      "state_ids (b_cursor b1) = expand_list g []" "length (table_states b) \<le> length (table_states b1)"
      "\<forall>j < length (table_states b). table_states b1 ! j = table_states b ! j" "potential g A b1 \<le> potential g A b"
    using add_state_spec [OF inv sm _ k] by (auto simp only: list.set empty_subsetI)
  have il: "i < length (table_states b)" using binvD(6) [OF inv] by simp
  let ?f = "\<lambda>st. st\<lparr>eof_action := Some (AdvanceAction n True)\<rparr>"
  let ?b2 = "b1\<lparr>b_table := \<lparr>lex_states = (table_states b1)[i := ?f (table_states b1 ! i)]\<rparr>\<rparr>"
  note up = update_state_spec [OF b1(2) singletonI, of ?f]
  have "table_states ?b2 ! i = default_lex_state\<lparr>eof_action := Some (AdvanceAction n True)\<rparr>" using b1(6,7) il d by simp
  moreover have "potential g A ?b2 = potential g A b1" by (simp add: potential_def)
  ultimately show ?thesis using True b1 up x by (intro exI [of _ ?b2] exI [of _ n]) simp
qed

lemma populate_state_spec:
  assumes sm: "small g A" and inv: "binv g A b {i}" and k: "b_ids b (s, e) = Some i" and d: "table_states b ! i = default_lex_state"
  shows "\<exists>b'. populate_state b i s e = Some b' \<and> binv g A b' {} \<and> b_ids b \<subseteq>\<^sub>m b_ids b' \<and> potential g A b' \<le> potential g A b"
proof -
  note D = binvD [OF inv]
  have g: "lexical_wf g" and A: "\<forall>k \<in> A. key_ok g k" using sm by (simp_all add: small_def)
  have key: "(s, e) \<in> lex_keys g A" using D(3) k by auto
  then have s: "set s \<subseteq> {..<num_states g}" using lex_keys_ok [OF g A key] by (simp add: key_ok_def)
  let ?b0 = "b\<lparr>b_cursor := force_reset (b_cursor b) s\<rparr>"
  let ?c = "best_of g s" and ?hs = "has_sep_at g s" and ?ts = "all_transitions g s"
  have c0: "nfa (b_cursor ?b0) = lex_nfa g" "state_ids (b_cursor ?b0) = s" using D(2) by (simp_all add: force_reset_def)
  have inv0: "binv g A ?b0 {i}" using inv c0(1) unfolding binv_def by simp
  have cs: "completions (b_cursor ?b0) = Some (completions_at g s)" using completions_correct [OF c0(1)] c0(2) s by simp
  have bc: "best_completion (b_grammar ?b0) (completions_at g s) None = Some ?c" using best_of_correct(1) [OF g s] D(1) by simp
  have tr: "transitions_and_any_sep (b_cursor ?b0) = Some (?ts, ?hs)"
    unfolding transitions_and_any_sep_def using raw_transitions_correct [OF c0(1)] c0(2) s transitions_at(1) [OF g s]
    by (simp add: has_sep_at_def)
  have d0: "table_states ?b0 ! i = default_lex_state" using d by simp
  have ek: "e \<longrightarrow> ([], False) \<in> lex_keys g A" using lex_keys.eof_step [of s g A] key by (cases e) simp_all
  obtain b1 n where b1: "(if e then do {
         (b', next_state_id, _) \<leftarrow> add_state ?b0 [] False;
         update_state b' i (\<lambda>st. st\<lparr>eof_action := Some (AdvanceAction next_state_id True)\<rparr>)
       } else Some ?b0) = Some b1" "binv g A b1 {i}" "b_ids ?b0 \<subseteq>\<^sub>m b_ids b1" "e \<longrightarrow> b_ids b1 ([], False) = Some n"
    "table_states b1 ! i = default_lex_state\<lparr>eof_action := (if e then Some (AdvanceAction n True) else None)\<rparr>"
    "state_ids (b_cursor b1) = (if e then [] else s)" "potential g A b1 \<le> potential g A ?b0"
    using eof_branch_spec [where e = e, OF sm inv0 ek d0 c0(2)] by (elim exE conjE)
  have ts: "\<forall>t \<in> set ?ts. transition_wf g t \<and> (keeps g ?c ?hs t \<longrightarrow> next_key g e t \<in> lex_keys g A)"
    using transitions_at(2) [OF g s] lex_keys.char_step [OF key] by (simp add: kept_transitions_def)
  obtain b2 as where b2: "add_transitions i e ?c ?hs ?ts b1 = Some b2" "binv g A b2 {i}" "b_ids b1 \<subseteq>\<^sub>m b_ids b2"
    "list_all2 (action_for g (b_ids b2) e) (kept_transitions g s) as"
    "table_states b2 ! i = (table_states b1 ! i)\<lparr>advance_actions := advance_actions (table_states b1 ! i) @ as\<rparr>"
    "state_ids (b_cursor b2) = (if kept_transitions g s = [] then state_ids (b_cursor b1) else expand_list g (t_states (last (kept_transitions g s))))"
    "potential g A b2 \<le> potential g A b1"
    using add_transitions_spec [OF sm b1(2) singletonI ts] unfolding kept_transitions_def by (elim exE conjE)
  have cur2: "state_ids (b_cursor b2) = last_set g e s" unfolding b2(6) b1(6) last_set_def by simp
  let ?a = "accept_at g e s"
  let ?b3 = "if ?a = None then b2 else b2\<lparr>b_table := \<lparr>lex_states = (table_states b2)[i := (table_states b2 ! i)\<lparr>accept_action := ?a\<rparr>]\<rparr>\<rparr>"
  have up: "update_state b2 i (\<lambda>st. st\<lparr>accept_action := x\<rparr>) =
      Some (b2\<lparr>b_table := \<lparr>lex_states = (table_states b2)[i := (table_states b2 ! i)\<lparr>accept_action := x\<rparr>]\<rparr>\<rparr>)"
    "binv g A (b2\<lparr>b_table := \<lparr>lex_states = (table_states b2)[i := (table_states b2 ! i)\<lparr>accept_action := x\<rparr>]\<rparr>\<rparr>) {i}" for x
    using update_state_spec [OF b2(2) singletonI, of "\<lambda>st. st\<lparr>accept_action := x\<rparr>"] by auto
  have fin: "(case ?c of Some (v, _) \<Rightarrow> update_state b2 i (\<lambda>st. st\<lparr>accept_action := Some (terminal v)\<rparr>)
     | None \<Rightarrow> (if state_ids (b_cursor b2) = [] then update_state b2 i (\<lambda>st. st\<lparr>accept_action := Some end_sym\<rparr>) else Some b2)) = Some ?b3"
    unfolding cur2 accept_at_def using up(1) by (auto split: option.splits)
  have run: "populate_state b i s e = Some ?b3"
    unfolding populate_state_def Let_def cs bc bind.bind_lunit tr case_prod_conv b1(1) b2(1) fin ..
  have i3: "binv g A ?b3 {i}" using up(2) b2(2) by simp
  have il: "i < length (table_states b2)" using binvD(6) [OF b2(2)] by simp
  have m3: "b_ids ?b3 = b_ids b2" by simp
  have le: "b_ids b \<subseteq>\<^sub>m b_ids ?b3" unfolding m3 using map_le_trans [OF b1(3) b2(3)] by simp
  have st3: "table_states ?b3 ! i = (table_states b2 ! i)\<lparr>accept_action := ?a\<rparr>"
  proof (cases "?a = None")
    case True
    have "(table_states b2 ! i)\<lparr>accept_action := None\<rparr> = table_states b2 ! i" unfolding b2(5) b1(5) by (simp add: default_lex_state_def)
    then show ?thesis using True by simp
  next
    case False
    then show ?thesis using il by auto
  qed
  have eo: "e \<longrightarrow> b_ids b2 ([], False) = Some n" using b1(4) map_leD [OF b2(3)] by blast
  have ok: "state_done g (b_ids ?b3) (s, e) (table_states ?b3 ! i)"
    unfolding st3 m3 unfolding b2(5) b1(5) state_done_def using b2(4) eo by (cases e) simp_all
  have k3: "b_ids ?b3 (s, e) = Some i" using map_leD [OF le] k by blast
  have "binv g A ?b3 {}" by (rule binv_finish [OF i3 k3 ok])
  moreover have "potential g A ?b3 = potential g A b2" "potential g A ?b0 = potential g A b" by (simp_all add: potential_def)
  then have "potential g A ?b3 \<le> potential g A b" using b2(7) b1(7) by simp
  ultimately show ?thesis using run le by (intro exI [of _ ?b3] conjI)
qed

lemma drain_queue_spec:
  assumes sm: "small g A" and inv: "binv g A b {}"
  shows "\<exists>b'. drain_queue b = Some b' \<and> binv g A b' {} \<and> b_queue b' = [] \<and> b_ids b \<subseteq>\<^sub>m b_ids b'"
  using inv
proof (induction "potential g A b" arbitrary: b rule: less_induct)
  case less
  show ?case
  proof (cases "b_queue b")
    case Nil
    then show ?thesis using less.prems by (subst drain_queue.simps) simp
  next
    case (Cons q qs)
    note pop = binv_pop [OF less.prems Cons]
    have p: "potential g A (b\<lparr>b_queue := qs\<rparr>) < potential g A b" using Cons by (simp add: potential_def)
    obtain b1 where b1: "populate_state (b\<lparr>b_queue := qs\<rparr>) (q_state_id q) (q_nfa_states q) (q_eof_valid q) = Some b1"
      "binv g A b1 {}" "b_ids (b\<lparr>b_queue := qs\<rparr>) \<subseteq>\<^sub>m b_ids b1" "potential g A b1 \<le> potential g A (b\<lparr>b_queue := qs\<rparr>)"
      using populate_state_spec [OF sm pop(1), of "q_nfa_states q" "q_eof_valid q"] pop(2,3) by auto
    have lt: "potential g A b1 < potential g A b" using b1(4) p by simp
    obtain b' where b': "drain_queue b1 = Some b'" "binv g A b' {}" "b_queue b' = []" "b_ids b1 \<subseteq>\<^sub>m b_ids b'"
      using less.hyps [OF lt b1(2)] by blast
    have "b_ids b \<subseteq>\<^sub>m b_ids b'" using map_le_trans [OF b1(3) b'(4)] by simp
    moreover have "drain_queue b = Some b'" using Cons b1(1) b'(1) by (subst drain_queue.simps) simp
    ultimately show ?thesis using b' by blast
  qed
qed


text \<open>The key of a set of tokens, and builders whose table is complete for the keys \<open>A\<close> asked for.\<close>

definition tokens_key :: "LexicalGrammar \<Rightarrow> TokenSet \<Rightarrow> nat list \<times> bool" where
  "tokens_key g tokens = (sorted_list_of_set (expand g ((\<lambda>i. lv_start_state (lex_variables g ! i)) ` {i. Symbol Terminal i \<in> toks tokens})),
     \<exists>t \<in> toks tokens. \<not> is_terminal t)"

definition complete :: "LexicalGrammar \<Rightarrow> (nat list \<times> bool) set \<Rightarrow> LexTableBuilder \<Rightarrow> bool" where
  "complete g A b \<longleftrightarrow> b_grammar b = g \<and> nfa (b_cursor b) = lex_nfa g \<and> b_queue b = [] \<and>
     dom (b_ids b) = lex_keys g A \<and> one_one (b_ids b) \<and> ran (b_ids b) = {..<length (table_states b)} \<and>
     (\<forall>k i. b_ids b k = Some i \<longrightarrow> state_done g (b_ids b) k (table_states b ! i))"

lemma complete_binv: "complete g A b \<Longrightarrow> A \<subseteq> B \<Longrightarrow> binv g B b {}"
  unfolding complete_def binv_def using lex_keys_mono [of _ g A B] by auto

lemma binv_complete:
  assumes inv: "binv g A b {}" and q: "b_queue b = []" and A: "A \<subseteq> dom (b_ids b)"
  shows "complete g A b"
proof -
  note D = binvD [OF inv]
  have sd: "b_ids b k = Some i \<Longrightarrow> state_done g (b_ids b) k (table_states b ! i)" for k i
    using binv_done [OF inv, of k i] q by simp
  have "k \<in> lex_keys g A \<Longrightarrow> k \<in> dom (b_ids b)" for k
  proof (induction rule: lex_keys.induct)
    case (start k)
    then show ?case using A by blast
  next
    case (eof_step s)
    then obtain i where "b_ids b (s, True) = Some i" by auto
    from sd [OF this] show ?case by (auto simp: state_done_def)
  next
    case (char_step s e t)
    then obtain i where i: "b_ids b (s, e) = Some i" by auto
    from sd [OF i] have "list_all2 (action_for g (b_ids b) e) (kept_transitions g s) (advance_actions (table_states b ! i))"
      by (simp add: state_done_def)
    then obtain x where "action_for g (b_ids b) e t x" using char_step(2) unfolding list_all2_conv_all_nth in_set_conv_nth by metis
    then show ?case by (cases x) (auto simp: action_for_def)
  qed
  then have "dom (b_ids b) = lex_keys g A" using D(3) by blast
  then show ?thesis using D q sd unfolding complete_def by blast
qed

lemma token_start_states_correct:
  assumes "\<forall>t \<in> set ts. is_terminal t \<longrightarrow> index t < length (lex_variables g)"
  shows "\<exists>ss. token_start_states g ts e = Some (ss, e \<or> (\<exists>t \<in> set ts. \<not> is_terminal t)) \<and>
    set ss = (\<lambda>t. lv_start_state (lex_variables g ! index t)) ` {t \<in> set ts. is_terminal t}"
  using assms
proof (induction ts arbitrary: e)
  case Nil
  then show ?case by simp
next
  case (Cons t ts)
  have ts: "\<forall>t \<in> set ts. is_terminal t \<longrightarrow> index t < length (lex_variables g)" using Cons.prems by simp
  show ?case
  proof (cases "is_terminal t")
    case True
    obtain ss where "token_start_states g ts e = Some (ss, e \<or> (\<exists>t \<in> set ts. \<not> is_terminal t))"
      "set ss = (\<lambda>t. lv_start_state (lex_variables g ! index t)) ` {t \<in> set ts. is_terminal t}" using Cons.IH [OF ts] by blast
    moreover have "{x \<in> set (t # ts). is_terminal x} = insert t {x \<in> set ts. is_terminal x}" using True by auto
    ultimately show ?thesis using True Cons.prems
      by (intro exI [of _ "lv_start_state (lex_variables g ! index t) # ss"]) (simp add: vec_get_def)
  next
    case False
    obtain ss where "token_start_states g ts True = Some (ss, True \<or> (\<exists>t \<in> set ts. \<not> is_terminal t))"
      "set ss = (\<lambda>t. lv_start_state (lex_variables g ! index t)) ` {t \<in> set ts. is_terminal t}" using Cons.IH [OF ts] by blast
    moreover have "{x \<in> set (t # ts). is_terminal x} = {x \<in> set ts. is_terminal x}" using False by auto
    ultimately show ?thesis using False by simp
  qed
qed

lemma add_state_for_tokens_spec:
  assumes c: "complete g A b" and sm: "small g (insert (tokens_key g tokens) A)"
    and tk: "following_ok (length (lex_variables g)) tokens"
  shows "\<exists>b' i. add_state_for_tokens b tokens = Some (b', i) \<and> complete g (insert (tokens_key g tokens) A) b' \<and>
    b_ids b' (tokens_key g tokens) = Some i \<and> b_ids b \<subseteq>\<^sub>m b_ids b'"
proof -
  let ?A = "insert (tokens_key g tokens) A"
  have g: "lexical_wf g" using sm by (simp add: small_def)
  have ti: "ts_inv tokens" "\<And>i. Symbol Terminal i \<in> toks tokens \<Longrightarrow> i < length (lex_variables g)" using tk by (auto simp: following_ok_def)
  obtain ts where ts: "iter tokens = Some ts" "set ts = toks tokens" using iter_correct [OF ti(1)] by blast
  have inr: "\<forall>t \<in> set ts. is_terminal t \<longrightarrow> index t < length (lex_variables g)"
    unfolding ts(2) is_terminal_def using ti(2) by (metis Symbol.collapse)
  obtain ss where ss: "token_start_states g ts False = Some (ss, \<exists>t \<in> toks tokens. \<not> is_terminal t)"
    "set ss = (\<lambda>t. lv_start_state (lex_variables g ! index t)) ` {t \<in> set ts. is_terminal t}"
    using token_start_states_correct [OF inr, of False] unfolding ts(2) by auto
  have "{t \<in> set ts. is_terminal t} = Symbol Terminal ` {i. Symbol Terminal i \<in> toks tokens}"
    unfolding ts(2) is_terminal_def by (auto simp: image_iff) (metis Symbol.collapse)
  then have sset: "set ss = (\<lambda>i. lv_start_state (lex_variables g ! i)) ` {i. Symbol Terminal i \<in> toks tokens}" using ss(2) by (simp add: image_image)
  have sr: "set ss \<subseteq> {..<num_states g}" unfolding sset using g ti(2) by (auto simp: lexical_wf_def)
  have key: "(expand_list g ss, \<exists>t \<in> toks tokens. \<not> is_terminal t) = tokens_key g tokens"
    by (simp add: expand_list_def tokens_key_def sset)
  have mem: "(expand_list g ss, \<exists>t \<in> toks tokens. \<not> is_terminal t) \<in> lex_keys g ?A" unfolding key by (rule lex_keys.start) simp
  have inv: "binv g ?A b {}" using complete_binv [OF c] by blast
  obtain b1 i fr where b1: "add_state b ss (\<exists>t \<in> toks tokens. \<not> is_terminal t) = Some (b1, i, fr)" "binv g ?A b1 {}"
    "b_ids b1 (tokens_key g tokens) = Some i" "b_ids b \<subseteq>\<^sub>m b_ids b1"
    using add_state_spec [OF inv sm sr mem] unfolding key by (elim exE conjE)
  obtain b' where b': "drain_queue b1 = Some b'" "binv g ?A b' {}" "b_queue b' = []" "b_ids b1 \<subseteq>\<^sub>m b_ids b'"
    using drain_queue_spec [OF sm b1(2)] by blast
  have gb: "b_grammar b = g" using c by (simp add: complete_def)
  have run: "add_state_for_tokens b tokens = Some (b', i)"
    unfolding add_state_for_tokens_def ts(1) bind.bind_lunit gb ss(1) case_prod_conv b1(1) b'(1) ..
  have le: "b_ids b \<subseteq>\<^sub>m b_ids b'" using map_le_trans [OF b1(4) b'(4)] .
  have k': "b_ids b' (tokens_key g tokens) = Some i" using map_leD [OF b'(4) b1(3)] .
  have "A \<subseteq> lex_keys g A" by (auto intro: lex_keys.start)
  also have "\<dots> = dom (b_ids b)" using c by (simp add: complete_def)
  also have "\<dots> \<subseteq> dom (b_ids b')" using map_le_implies_dom_le [OF le] .
  finally have "?A \<subseteq> dom (b_ids b')" using k' by auto
  with binv_complete [OF b'(2,3)] run k' le show ?thesis by blast
qed

lemma new_builder_complete: "\<exists>b. new_builder g = Some b \<and> complete g {} b"
proof -
  have "k \<notin> lex_keys g {}" for k
  proof
    assume "k \<in> lex_keys g {}"
    then show False by induction auto
  qed
  then have "lex_keys g {} = {}" by blast
  then show ?thesis by (simp add: new_builder_def new_cursor_empty complete_def one_one_def default_lex_table_def)
qed

text \<open>A complete table satisfies what minimization relies on.\<close>

lemma complete_table:
  assumes c: "complete g A b"
  shows "targets_ok (length (table_states b)) (table_states b)" "eof_uniform (table_states b)"
proof -
  have r: "ran (b_ids b) = {..<length (table_states b)}" and sd: "\<And>k i. b_ids b k = Some i \<Longrightarrow> state_done g (b_ids b) k (table_states b ! i)"
    using c by (auto simp: complete_def)
  have ids: "b_ids b k = Some n \<Longrightarrow> n < length (table_states b)" for k n using r ranI [of "b_ids b" k n] by blast
  have ex: "\<exists>k. state_done g (b_ids b) k st" if st: "st \<in> set (table_states b)" for st
  proof -
    obtain i where i: "i < length (table_states b)" "table_states b ! i = st" using st by (auto simp: in_set_conv_nth)
    then have "i \<in> ran (b_ids b)" using r by simp
    then obtain k where "b_ids b k = Some i" unfolding ran_def by blast
    then show ?thesis using sd i by blast
  qed
  show "targets_ok (length (table_states b)) (table_states b)"
    unfolding targets_ok_def
  proof (intro ballI)
    fix st a assume st: "st \<in> set (table_states b)" and a: "a \<in> actions_of st"
    obtain s e where k: "state_done g (b_ids b) (s, e) st" using ex [OF st] by auto
    consider x where "x \<in> set (advance_actions st)" "snd x = a" | "eof_action st = Some a" using a by (auto simp: actions_of_def)
    then show "adv_state a < length (table_states b)"
    proof cases
      case 1
      then obtain t where "action_for g (b_ids b) e t x" using k unfolding state_done_def list_all2_conv_all_nth in_set_conv_nth by auto
      then have "b_ids b (next_key g e t) = Some (adv_state a)" using 1(2) by (cases x) (auto simp: action_for_def)
      then show ?thesis by (rule ids)
    next
      case 2
      then show ?thesis using k ids by (cases e) (auto simp: state_done_def)
    qed
  qed
  show "eof_uniform (table_states b)"
    unfolding eof_uniform_def
  proof (intro ballI allI impI)
    fix st st' x y assume st: "st \<in> set (table_states b)" "st' \<in> set (table_states b)" and xy: "eof_action st = Some x \<and> eof_action st' = Some y"
    obtain s e where k: "state_done g (b_ids b) (s, e) st" using ex [OF st(1)] by auto
    obtain s' e' where k': "state_done g (b_ids b) (s', e') st'" using ex [OF st(2)] by auto
    show "x = y" using k k' xy by (cases e; cases e') (auto simp: state_done_def)
  qed
qed


section \<open>Merging token sets against the bit rows\<close>

text \<open>Two terminals that must not share a lex state.\<close>

definition clash :: "TokenConflictMap \<Rightarrow> CoincidentTokenIndex \<Rightarrow> nat \<Rightarrow> nat \<Rightarrow> bool" where
  "clash m c i j \<longleftrightarrow> row_bit (row_words m) (conflict_or_prefix_bits m) i j \<or>
     row_bit (row_words m) (overlap_either_bits m) i j \<and> \<not> row_bit (row_words m) (ci_row_bits c) i j"

definition rows_ok :: "nat \<Rightarrow> TokenConflictMap \<Rightarrow> CoincidentTokenIndex \<Rightarrow> bool" where
  "rows_ok n m c \<longleftrightarrow> row_words m = div_ceil_64 n \<and> length (conflict_or_prefix_bits m) = n * row_words m \<and>
     length (overlap_either_bits m) = n * row_words m \<and> length (ci_row_bits c) = n * row_words m"

lemma word_meet: "(x AND y \<noteq> 0) \<longleftrightarrow> (\<exists>b. bit (x :: u64) b \<and> bit y b)"
  using bit_imp_le_length [of x] by (auto simp: bit_eq_iff bit_and_iff)

lemma row_slice:
  assumes "length ws = n * w" "i < n"
  shows "vec_slice ws (i * w) (i * w + w) = Some (map (\<lambda>k. ws ! (i * w + k)) [0..<w])"
proof -
  have "Suc i * w \<le> n * w" using assms(2) by (intro mult_le_mono1) simp
  then have le: "i * w + w \<le> length ws" using assms(1) by simp
  have "take w (drop (i * w) ws) = map (\<lambda>k. ws ! (i * w + k)) [0..<w]"
    using le by (intro nth_equalityI) auto
  then show ?thesis using le by (simp add: vec_slice_def)
qed

lemma row_meets:
  assumes "\<forall>j \<in> bits_of_words sb. j < n"
  shows "(\<exists>k < min (div_ceil_64 n) (length sb). \<exists>b. P k b \<and> bit (sb ! k) b) \<longleftrightarrow>
    (\<exists>j \<in> bits_of_words sb. P (j div 64) (j mod 64))"
proof
  assume "\<exists>k < min (div_ceil_64 n) (length sb). \<exists>b. P k b \<and> bit (sb ! k) b"
  then obtain k b where kb: "k < length sb" "P k b" "bit (sb ! k) b" by auto
  have b: "b < 64" using bit_imp_le_length [OF kb(3)] by simp
  have "k * 64 + b \<in> bits_of_words sb" by (rule word_bit_index [OF kb(1,3)])
  then show "\<exists>j \<in> bits_of_words sb. P (j div 64) (j mod 64)" using kb(2) b by (intro bexI [of _ "k * 64 + b"]) simp_all
next
  assume "\<exists>j \<in> bits_of_words sb. P (j div 64) (j mod 64)"
  then obtain j where j: "j \<in> bits_of_words sb" "P (j div 64) (j mod 64)" by blast
  then have "j div 64 < div_ceil_64 n" using assms div_ceil_64_less by blast
  then show "\<exists>k < min (div_ceil_64 n) (length sb). \<exists>b. P k b \<and> bit (sb ! k) b"
    using j by (intro exI [of _ "j div 64"] conjI exI [of _ "j mod 64"]) (auto simp: mem_bits_of_words)
qed

lemma list_ex_zip: "list_ex (\<lambda>(x, s). Q x s) (zip (map f [0..<w]) sb) \<longleftrightarrow> (\<exists>k < min w (length sb). Q (f k) (sb ! k))"
  by (auto simp: list_ex_length)

lemma list_ex_zip3:
  "list_ex (\<lambda>((x, s), y). Q x s y) (zip (zip (map f [0..<w]) sb) (map h [0..<w])) \<longleftrightarrow> (\<exists>k < min w (length sb). Q (f k) (sb ! k) (h k))"
  by (auto simp: list_ex_length)

lemma terminals_of_set: "ts_inv ts \<Longrightarrow> bits_of_words (terminal_bits_words ts) = {j. Symbol Terminal j \<in> toks ts}"
  by (simp add: terminal_bits_words_def bits_of_as_slice ts_inv_def mem_toks)

lemma check_token_conflicts_correct:
  assumes ok: "rows_ok n m c" and i: "i < n" and ts: "following_ok n ts"
  shows "check_token_conflicts i ts m c = Some (\<exists>j. Symbol Terminal j \<in> toks ts \<and> clash m c i j)"
proof -
  let ?w = "row_words m" and ?sb = "terminal_bits_words ts"
  have w: "?w = div_ceil_64 n" using ok by (simp add: rows_ok_def)
  have sb: "bits_of_words ?sb = {j. Symbol Terminal j \<in> toks ts}" using terminals_of_set ts by (simp add: following_ok_def)
  then have lt: "\<forall>j \<in> bits_of_words ?sb. j < n" using ts by (simp add: following_ok_def)
  have sl: "vec_slice (conflict_or_prefix_bits m) (i * ?w) (i * ?w + ?w) = Some (map (\<lambda>k. conflict_or_prefix_bits m ! (i * ?w + k)) [0..<?w])"
    "vec_slice (overlap_either_bits m) (i * ?w) (i * ?w + ?w) = Some (map (\<lambda>k. overlap_either_bits m ! (i * ?w + k)) [0..<?w])"
    "vec_slice (ci_row_bits c) (i * ?w) (i * ?w + ?w) = Some (map (\<lambda>k. ci_row_bits c ! (i * ?w + k)) [0..<?w])"
    using ok unfolding rows_ok_def by (auto intro!: row_slice [OF _ i])
  have 1: "(\<exists>k < min ?w (length ?sb). conflict_or_prefix_bits m ! (i * ?w + k) AND ?sb ! k \<noteq> 0) \<longleftrightarrow>
      (\<exists>j \<in> bits_of_words ?sb. row_bit ?w (conflict_or_prefix_bits m) i j)"
    using row_meets [OF lt, of "\<lambda>k b. bit (conflict_or_prefix_bits m ! (i * ?w + k)) b"] by (simp add: word_meet w row_bit_def)
  have "(x AND s AND NOT y \<noteq> 0) \<longleftrightarrow> (\<exists>b. (bit x b \<and> \<not> bit y b) \<and> bit s b)" for x s y :: u64
    using word_meet [of "x AND NOT y" s] bit_imp_le_length [of x] by (auto simp: bit_simps ac_simps)
  then have 2: "(\<exists>k < min ?w (length ?sb). overlap_either_bits m ! (i * ?w + k) AND ?sb ! k AND NOT (ci_row_bits c ! (i * ?w + k)) \<noteq> 0) \<longleftrightarrow>
      (\<exists>j \<in> bits_of_words ?sb. row_bit ?w (overlap_either_bits m) i j \<and> \<not> row_bit ?w (ci_row_bits c) i j)"
    using row_meets [OF lt, of "\<lambda>k b. bit (overlap_either_bits m ! (i * ?w + k)) b \<and> \<not> bit (ci_row_bits c ! (i * ?w + k)) b"]
    by (simp add: w row_bit_def)
  show ?thesis
    unfolding check_token_conflicts_def Let_def sl bind.bind_lunit list_ex_zip list_ex_zip3 1 2 sb clash_def by auto
qed

lemma conflicts_outside_correct:
  assumes ok: "rows_ok n m c" and a: "following_ok n a" and b: "following_ok n b"
  shows "conflicts_outside a b m c = Some (\<exists>i j. Symbol Terminal i \<in> toks a \<and> Symbol Terminal i \<notin> toks b \<and> Symbol Terminal j \<in> toks b \<and> clash m c i j)"
proof -
  have inv: "ts_inv a" "ts_inv b" using a b by (simp_all add: following_ok_def)
  obtain ss where ss: "terminals a = Some ss" "set ss = {s \<in> toks a. is_terminal s}" using terminals_correct [OF inv(1)] by blast
  let ?ss = "filter (\<lambda>t. \<not> contains_terminal b (index t)) ss"
  have mem: "t \<in> set ?ss \<longleftrightarrow> t \<in> toks a \<and> t \<notin> toks b \<and> is_terminal t" for t
    using inv(2) unfolding set_filter ss(2) contains_terminal_def is_terminal_def
    by (cases t) (auto simp: get_unwrap ts_inv_def mem_toks)
  have "\<forall>t \<in> set ?ss. check_token_conflicts (index t) b m c = Some (\<exists>j. Symbol Terminal j \<in> toks b \<and> clash m c (index t) j)"
  proof
    fix t assume "t \<in> set ?ss"
    then have "Symbol Terminal (index t) \<in> toks a" using mem [of t] by (metis Symbol.collapse is_terminal_def)
    then have "index t < n" using a by (simp add: following_ok_def)
    then show "check_token_conflicts (index t) b m c = Some (\<exists>j. Symbol Terminal j \<in> toks b \<and> clash m c (index t) j)"
      by (rule check_token_conflicts_correct [OF ok _ b])
  qed
  then have "list_all2 (\<lambda>t t'. check_token_conflicts (index t) b m c = Some (\<exists>j. Symbol Terminal j \<in> toks b \<and> clash m c (index t') j)) ?ss ?ss"
    by (simp add: list_all2_same)
  from any_m_rel [OF this] have "conflicts_outside a b m c = Some (\<exists>t \<in> set ?ss. \<exists>j. Symbol Terminal j \<in> toks b \<and> clash m c (index t) j)"
    by (simp add: conflicts_outside_def ss(1) list_ex_iff)
  also have "(\<exists>t \<in> set ?ss. \<exists>j. Symbol Terminal j \<in> toks b \<and> clash m c (index t) j) \<longleftrightarrow>
      (\<exists>i j. Symbol Terminal i \<in> toks a \<and> Symbol Terminal i \<notin> toks b \<and> Symbol Terminal j \<in> toks b \<and> clash m c i j)"
    unfolding Bex_def mem is_terminal_def by (metis Symbol.collapse Symbol.sel)
  finally show ?thesis .
qed

section \<open>Properties\<close>

text \<open>C8. The builder's worklist terminates and performs the subset construction: asked for a set of tokens, a
  builder whose table is complete for the keys \<open>A\<close> returns a table that is complete for \<open>A\<close> and the tokens'
  key. Its states correspond one to one to the reachable sets of NFA states (paired with the end-of-file
  flag); each state's transitions are the grouped NFA transitions preferred over its completion, with the
  states of their successor sets as targets; it accepts its preferred completion, and earlier states
  keep their ids. The only bound is that there are fewer than \<open>2 ^ 32\<close> reachable sets.\<close>

theorem add_state_for_tokens_complete:
  assumes "complete g A b" "small g (insert (tokens_key g tokens) A)" "following_ok (length (lex_variables g)) tokens"
  shows "\<exists>b' i. add_state_for_tokens b tokens = Some (b', i) \<and>
    b_ids b' (tokens_key g tokens) = Some i \<and> b_ids b \<subseteq>\<^sub>m b_ids b' \<and>
    dom (b_ids b') = lex_keys g (insert (tokens_key g tokens) A) \<and> one_one (b_ids b') \<and>
    ran (b_ids b') = {..<length (table_states b')} \<and>
    (\<forall>k i. b_ids b' k = Some i \<longrightarrow> state_done g (b_ids b') k (table_states b' ! i))"
  using add_state_for_tokens_spec [OF assms] unfolding complete_def by blast

lemma one_token_small: "small one_token (insert (tokens_key one_token new_tokens) {})"
proof -
  let ?k = "tokens_key one_token new_tokens"
  have k: "?k = ([], False)" by (simp add: tokens_key_def new_tokens_correct)
  have "best_of one_token [] = None" by (simp add: best_of_def completions_at_def)
  have "all_transitions one_token [] = []" by (simp add: all_transitions_def group_transitions_def raws_at_def merge_loop.simps sort_by_cmp_def)
  then have kt: "kept_transitions one_token [] = []" by (simp add: kept_transitions_def)
  have "x = ([], False)" if "x \<in> lex_keys one_token {([], False)}" for x using that by induction (auto simp: kt)
  then have "lex_keys one_token {([], False)} \<subseteq> {([], False)}" by blast
  then have "card (lex_keys one_token {([], False)}) \<le> 1" using card_mono [of "{([] :: nat list, False)}"] by simp
  then show ?thesis by (simp add: small_def one_token_wf k key_ok_def)
qed

theorem add_state_for_tokens_complete_witness:
  "\<exists>b b' i. new_builder one_token = Some b \<and> add_state_for_tokens b new_tokens = Some (b', i) \<and> one_one (b_ids b')"
proof -
  obtain b where b: "new_builder one_token = Some b" "complete one_token {} b" using new_builder_complete by blast
  have "following_ok (length (lex_variables one_token)) new_tokens" by (simp add: following_ok_def new_tokens_correct)
  from add_state_for_tokens_complete [OF b(2) one_token_small this] b(1) show ?thesis by blast
qed

text \<open>C5. Minimizing a lex table and sorting its states changes neither what it accepts nor how: for every parse
  state and every input, running the new table from the state's new lex state gives the same observations
  (accepted symbols, end-of-file behaviour, main-token flags) as the old table from the old one. Both
  steps terminate, state 0 stays state 0, and no state is added. The tables the builder produces satisfy the
  hypotheses: targets in range and one target for all end-of-file transitions.\<close>

theorem minimize_and_sort_preserve_lexing:
  assumes n: "0 < length (lex_states table)" "length (lex_states table) < 2 ^ 32"
    and ok: "targets_ok (length (lex_states table)) (lex_states table)" and u: "eof_uniform (lex_states table)"
    and ps: "\<forall>st \<in> set (states pt). lex_state_id st < length (lex_states table)"
  shows "\<exists>t1 p1 t2 p2. minimize_lex_table table pt = Some (t1, p1) \<and> sort_states t1 p1 = Some (t2, p2) \<and>
    length (lex_states t2) \<le> length (lex_states table) \<and> length (states p2) = length (states pt) \<and>
    lex_trace (lex_states t2) 0 w = lex_trace (lex_states table) 0 w \<and>
    (\<forall>i < length (states pt). lex_trace (lex_states t2) (lex_state_id (states p2 ! i)) w =
       lex_trace (lex_states table) (lex_state_id (states pt ! i)) w)"
proof -
  obtain f new1 where m: "minimize_lex_table table pt = Some (\<lparr>lex_states = new1\<rparr>, pt\<lparr>states := relabel f (states pt)\<rparr>)"
    "lex_hom f (lex_states table) new1" "0 < length new1" "length new1 \<le> length (lex_states table)" "set f = {..<length new1}" "f ! 0 = 0"
    using minimize_hom [OF n ok u ps] by blast
  have ok1: "targets_ok (length new1) new1" by (rule lex_hom_targets [OF m(2) ok m(5)])
  let ?p1 = "pt\<lparr>states := relabel f (states pt)\<rparr>"
  have lf: "length f = length (lex_states table)" using m(2) by (simp add: lex_hom_def)
  have ps1: "\<forall>st \<in> set (states ?p1). lex_state_id st < length new1"
    using ps m(5) lf nth_mem [of _ f] by (auto simp: relabel_def)
  obtain h new2 where s: "sort_states \<lparr>lex_states = new1\<rparr> ?p1 = Some (\<lparr>lex_states = new2\<rparr>, ?p1\<lparr>states := relabel h (states ?p1)\<rparr>)"
    "lex_hom h new1 new2" "length new2 = length new1" "h ! 0 = 0"
    using sort_states_hom [of "\<lparr>lex_states = new1\<rparr>" "length new1" ?p1] m(3,4) n(2) ok1 ps1 by auto
  have tr: "lex_trace new2 (h ! (f ! x)) w = lex_trace (lex_states table) x w" if x: "x < length (lex_states table)" for x
  proof -
    have "f ! x < length new1" using m(2) x by (simp add: lex_hom_def)
    then show ?thesis using lex_trace_hom [OF s(2) ok1] lex_trace_hom [OF m(2) ok x] by simp
  qed
  show ?thesis
  proof (intro exI conjI)
    show "minimize_lex_table table pt = Some (\<lparr>lex_states = new1\<rparr>, ?p1)" by (rule m(1))
    show "sort_states \<lparr>lex_states = new1\<rparr> ?p1 = Some (\<lparr>lex_states = new2\<rparr>, ?p1\<lparr>states := relabel h (states ?p1)\<rparr>)" by (rule s(1))
    show "lex_trace (lex_states \<lparr>lex_states = new2\<rparr>) 0 w = lex_trace (lex_states table) 0 w" using tr [OF n(1)] m(6) s(4) by simp
    show "\<forall>i < length (states pt). lex_trace (lex_states \<lparr>lex_states = new2\<rparr>) (lex_state_id (states (?p1\<lparr>states := relabel h (states ?p1)\<rparr>) ! i)) w =
       lex_trace (lex_states table) (lex_state_id (states pt ! i)) w"
      using tr ps by (simp add: relabel_def)
  qed (use m(4) s(3) in \<open>simp_all add: relabel_def\<close>)
qed


definition two_states :: LexTable where
  "two_states = \<lparr>lex_states = [\<lparr>accept_action = None, eof_action = None, advance_actions = [([(97, 98)], AdvanceAction 1 True)]\<rparr>,
     \<lparr>accept_action = Some (Symbol Terminal 0), eof_action = None, advance_actions = []\<rparr>]\<rparr>"

theorem minimize_and_sort_preserve_lexing_witness:
  "\<exists>t1 p1 t2 p2. minimize_lex_table two_states sample_parse_table = Some (t1, p1) \<and> sort_states t1 p1 = Some (t2, p2) \<and>
    lex_trace (lex_states t2) 0 [97] = lex_trace (lex_states two_states) 0 [97]"
proof -
  have "0 < length (lex_states two_states)" "length (lex_states two_states) < 2 ^ 32"
    "targets_ok (length (lex_states two_states)) (lex_states two_states)" "eof_uniform (lex_states two_states)"
    "\<forall>st \<in> set (states sample_parse_table). lex_state_id st < length (lex_states two_states)"
    by (simp_all add: two_states_def targets_ok_def actions_of_def eof_uniform_def sample_parse_table_def)
  from minimize_and_sort_preserve_lexing [OF this, of "[97]"] show ?thesis by blast
qed

text \<open>C16. \<open>merge_token_set\<close> merges exactly when no terminal of one set that is missing from the other clashes with a
  terminal of the other: the word-parallel scan over the bit rows equals the pairwise test. On success the
  first set becomes the union, otherwise it is unchanged; no branch panics.\<close>

theorem merge_token_set_correct:
  assumes ok: "rows_ok n m c" and a: "following_ok n a" and b: "following_ok n b"
  shows "\<exists>a' merged. merge_token_set a b m c = Some (a', merged) \<and>
    (merged \<longleftrightarrow> \<not> (\<exists>i j. Symbol Terminal i \<in> toks a \<and> Symbol Terminal j \<in> toks b \<and>
      (Symbol Terminal i \<notin> toks b \<and> clash m c i j \<or> Symbol Terminal j \<notin> toks a \<and> clash m c j i))) \<and>
    (if merged then ts_inv a' \<and> toks a' = toks a \<union> toks b else a' = a)"
proof -
  have inv: "ts_inv a" "ts_inv b" using a b by (simp_all add: following_ok_def)
  show ?thesis
    unfolding merge_token_set_def conflicts_outside_correct [OF ok a b] conflicts_outside_correct [OF ok b a] bind.bind_lunit
    using insert_all_tokens_correct(1,2) [OF inv] by auto
qed

text \<open>Three tokens: 0 conflicts with 1, 2 overlaps with both but is valid in one state with 0 only.\<close>

definition three_conflicts :: TokenConflictMap where
  "three_conflicts = \<lparr>tc_n = 3, status_matrix = [], following_tokens = [], starting_chars_by_index = [], following_chars_by_index = [],
     conflict_or_prefix_bits = [2, 0, 0], overlap_either_bits = [4, 4, 3], row_words = 1\<rparr>"

definition three_coincident :: CoincidentTokenIndex where
  "three_coincident = \<lparr>contains_bits = [], without_word_bits = [], ci_row_bits = [4, 0, 1], ci_n = 3\<rparr>"

lemma three_clash: "clash three_conflicts three_coincident 0 1" "clash three_conflicts three_coincident 1 2"
  "\<not> clash three_conflicts three_coincident 0 2" "\<not> clash three_conflicts three_coincident 2 0"
  by (simp_all add: clash_def row_bit_def three_conflicts_def three_coincident_def bit_numeral_rec)

lemma single_token:
  assumes "i < 3"
  shows "\<exists>ts. from_iter [terminal i] = Some ts \<and> following_ok 3 ts \<and> toks ts = {Symbol Terminal i}"
  using from_iter_correct [of "[terminal i]"] assms by (auto simp: storable_def symbol_defs following_ok_def)

theorem merge_token_set_correct_witness:
  "\<exists>a b c a'. from_iter [terminal 0] = Some a \<and> from_iter [terminal 1] = Some b \<and> from_iter [terminal 2] = Some c \<and>
     merge_token_set a b three_conflicts three_coincident = Some (a, False) \<and>
     merge_token_set b c three_conflicts three_coincident = Some (b, False) \<and>
     merge_token_set a c three_conflicts three_coincident = Some (a', True) \<and> toks a' = {terminal 0, terminal 2}"
proof -
  have ok: "rows_ok 3 three_conflicts three_coincident"
    by (simp add: rows_ok_def three_conflicts_def three_coincident_def div_ceil_64_def)
  obtain a b c where s: "from_iter [terminal 0] = Some a" "following_ok 3 a" "toks a = {Symbol Terminal 0}"
    "from_iter [terminal 1] = Some b" "following_ok 3 b" "toks b = {Symbol Terminal 1}"
    "from_iter [terminal 2] = Some c" "following_ok 3 c" "toks c = {Symbol Terminal 2}"
    using single_token [of 0] single_token [of 1] single_token [of 2] by auto
  have "merge_token_set a b three_conflicts three_coincident = Some (a, False)"
    using merge_token_set_correct [OF ok s(2,5)] three_clash(1) unfolding s(3,6) by auto
  moreover have "merge_token_set b c three_conflicts three_coincident = Some (b, False)"
    using merge_token_set_correct [OF ok s(5,8)] three_clash(2) unfolding s(6,9) by auto
  moreover have "\<exists>a'. merge_token_set a c three_conflicts three_coincident = Some (a', True) \<and> toks a' = {Symbol Terminal 0, Symbol Terminal 2}"
    using merge_token_set_correct [OF ok s(2,8)] three_clash(3,4) unfolding s(3,9) by auto
  ultimately show ?thesis using s(1,4,7) by (auto simp: terminal_def)
qed

end
