(* ===== verification/Validate_Precedences.thy ===== *)
theory Validate_Precedences
  imports Grammars
begin

text \<open>
  \<^verbatim>\<open>crates/generate/src/prepare_grammar.rs\<close>, \<open>validate_precedences\<close>: the declared orderings of precedences must
  not contradict each other, and every precedence name used in a rule must be declared. The hash map of
  pairs is a partial function; strings are compared bytewise. In the pair loop \<open>entry1\<close> is the variable of the
  outer loop, which the swap overwrites for the rest of the inner loop.
\<close>

section \<open>Definitions\<close>

datatype ValidatePrecedenceError =
    UndeclaredPrecedence string string
  | ConflictingPrecedenceOrdering string string

definition display :: "'t InputGrammar \<Rightarrow> PrecedenceEntry \<Rightarrow> string option" where
  "display g e = (case e of
     EntryName sid \<Rightarrow> map_option (\<lambda>s. [CHR 0x27] @ s @ [CHR 0x27]) (resolve (str_pool (g_pool g)) sid)
   | EntrySymbol sid \<Rightarrow> map_option (\<lambda>s. ''$.'' @ s) (resolve (str_pool (g_pool g)) sid))"

definition cmp_str :: "string \<Rightarrow> string \<Rightarrow> ordering" where
  "cmp_str a b = ord_cmp (map of_char a :: nat list) (map of_char b)"

definition cmp_names :: "'t InputGrammar \<Rightarrow> StrId \<Rightarrow> StrId \<Rightarrow> ordering option" where
  "cmp_names g a b = do {
     sa \<leftarrow> resolve (str_pool (g_pool g)) a;
     sb \<leftarrow> resolve (str_pool (g_pool g)) b;
     Some (cmp_str sa sb)
   }"

fun cmp_entries :: "'t InputGrammar \<Rightarrow> PrecedenceEntry \<Rightarrow> PrecedenceEntry \<Rightarrow> ordering option" where
  "cmp_entries g (EntryName a) (EntryName b) = cmp_names g a b"
| "cmp_entries g (EntrySymbol a) (EntrySymbol b) = cmp_names g a b"
| "cmp_entries g (EntryName a) (EntrySymbol b) = Some Less"
| "cmp_entries g (EntrySymbol a) (EntryName b) = Some Greater"

type_synonym precedence_pairs = "PrecedenceEntry \<times> PrecedenceEntry \<rightharpoonup> ordering"

fun check_entry :: "'t InputGrammar \<Rightarrow> PrecedenceEntry \<Rightarrow> PrecedenceEntry list \<Rightarrow> precedence_pairs \<Rightarrow> (ValidatePrecedenceError + precedence_pairs) option" where
  "check_entry g entry1 [] pairs = Some (Inr pairs)"
| "check_entry g entry1 (entry2 # entries) pairs =
     (if entry1 = entry2 then check_entry g entry1 entries pairs
      else do {
        c \<leftarrow> cmp_entries g entry1 entry2;
        let (ordering, e1, e2) = (if c = Greater then (Less, entry2, entry1) else (Greater, entry1, entry2));
        case pairs (e1, e2) of
          None \<Rightarrow> check_entry g e1 entries (pairs((e1, e2) \<mapsto> ordering))
        | Some known \<Rightarrow>
            if known \<noteq> ordering then do {
              s1 \<leftarrow> display g e1;
              s2 \<leftarrow> display g e2;
              Some (Inl (ConflictingPrecedenceOrdering s1 s2))
            } else check_entry g e1 entries pairs
      })"

fun check_ordering :: "'t InputGrammar \<Rightarrow> PrecedenceEntry list \<Rightarrow> precedence_pairs \<Rightarrow> (ValidatePrecedenceError + precedence_pairs) option" where
  "check_ordering g [] pairs = Some (Inr pairs)"
| "check_ordering g (entry1 # entries) pairs =
     and_then (check_entry g entry1 entries pairs) (\<lambda>pairs'. check_ordering g entries pairs')"

fun check_orderings :: "'t InputGrammar \<Rightarrow> PrecedenceEntry list list \<Rightarrow> precedence_pairs \<Rightarrow> (ValidatePrecedenceError + precedence_pairs) option" where
  "check_orderings g [] pairs = Some (Inr pairs)"
| "check_orderings g (l # ls) pairs = and_then (check_ordering g l pairs) (\<lambda>pairs'. check_orderings g ls pairs')"

definition precedence_names :: "'t InputGrammar \<Rightarrow> StrId set" where
  "precedence_names g = set (List.map_filter (\<lambda>p. case p of EntryName sid \<Rightarrow> Some sid | EntrySymbol _ \<Rightarrow> None) (concat (g_precedence_orderings g)))"

partial_function (option) declared_loop :: "'t InputGrammar \<Rightarrow> Variable \<Rightarrow> RuleId list \<Rightarrow> (ValidatePrecedenceError + unit) option" where
  "declared_loop g v stack = (case stack of
     [] \<Rightarrow> Some (Inr ())
   | i # stack' \<Rightarrow> do {
       n \<leftarrow> node (g_pool g) i;
       case n of
         Repeat inner \<Rightarrow> declared_loop g v (inner # stack')
       | Seq r \<Rightarrow> do { cs \<leftarrow> child_slice (g_pool g) r; declared_loop g v (rev cs @ stack') }
       | Choice r \<Rightarrow> do { cs \<leftarrow> child_slice (g_pool g) r; declared_loop g v (rev cs @ stack') }
       | Metadata pid rule \<Rightarrow> do {
           p \<leftarrow> params (g_pool g) pid;
           if (case precedence p of PrecName sid \<Rightarrow> sid \<notin> precedence_names g | _ \<Rightarrow> False) then
             (case precedence p of
                PrecName sid \<Rightarrow> do {
                  s \<leftarrow> resolve (str_pool (g_pool g)) sid;
                  r \<leftarrow> resolve (str_pool (g_pool g)) (v_name v);
                  Some (Inl (UndeclaredPrecedence s r))
                }
              | _ \<Rightarrow> None)
           else declared_loop g v (rule # stack')
         }
       | _ \<Rightarrow> declared_loop g v stack'
     })"

fun check_declared :: "'t InputGrammar \<Rightarrow> Variable list \<Rightarrow> (ValidatePrecedenceError + unit) option" where
  "check_declared g [] = Some (Inr ())"
| "check_declared g (v # vs) = and_then (declared_loop g v [v_root v]) (\<lambda>_. check_declared g vs)"

definition validate_precedences :: "'t InputGrammar \<Rightarrow> (ValidatePrecedenceError + unit) option" where
  "validate_precedences g =
     and_then (check_orderings g (g_precedence_orderings g) Map.empty) (\<lambda>_. check_declared g (g_variables g))"


section \<open>Orderings\<close>

definition before :: "'a list list \<Rightarrow> 'a \<Rightarrow> 'a \<Rightarrow> bool" where
  "before ls x y \<longleftrightarrow> (\<exists>l \<in> set ls. \<exists>i j. i < j \<and> j < length l \<and> l ! i = x \<and> l ! j = y)"

definition conflicting :: "'a list list \<Rightarrow> 'a \<Rightarrow> 'a \<Rightarrow> bool" where
  "conflicting ls x y \<longleftrightarrow> x \<noteq> y \<and> before ls x y \<and> before ls y x"

definition entry_id :: "PrecedenceEntry \<Rightarrow> StrId" where
  "entry_id e = (case e of EntryName sid \<Rightarrow> sid | EntrySymbol sid \<Rightarrow> sid)"

definition resolvable :: "'t InputGrammar \<Rightarrow> StrId \<Rightarrow> bool" where
  "resolvable g sid \<longleftrightarrow> resolve (str_pool (g_pool g)) sid \<noteq> None"

text \<open>The recorded pairs are facts about the declared lists.\<close>

definition pairs_ok :: "PrecedenceEntry list list \<Rightarrow> precedence_pairs \<Rightarrow> bool" where
  "pairs_ok ls pairs \<longleftrightarrow> (\<forall>a b d. pairs (a, b) = Some d \<longrightarrow> a \<noteq> b \<and> (d = Greater \<and> before ls a b \<or> d = Less \<and> before ls b a))"

definition entry_outcome :: "'t InputGrammar \<Rightarrow> PrecedenceEntry list list \<Rightarrow> (ValidatePrecedenceError + precedence_pairs) option \<Rightarrow> bool" where
  "entry_outcome g ls r \<longleftrightarrow> (\<exists>pairs. r = Some (Inr pairs) \<and> pairs_ok ls pairs) \<or>
     (\<exists>a b s1 s2. r = Some (Inl (ConflictingPrecedenceOrdering s1 s2)) \<and> conflicting ls a b \<and> display g a = Some s1 \<and> display g b = Some s2)"

lemma list_before: "l \<in> set ls \<Longrightarrow> sorted_wrt (before ls) l"
  unfolding sorted_wrt_iff_nth_less before_def by blast

lemma cmp_entries_total: "resolvable g (entry_id a) \<Longrightarrow> resolvable g (entry_id b) \<Longrightarrow> \<exists>c. cmp_entries g a b = Some c"
  by (cases a; cases b) (auto simp: resolvable_def entry_id_def cmp_names_def)

lemma display_total: "resolvable g (entry_id a) \<Longrightarrow> \<exists>s. display g a = Some s"
  by (cases a) (auto simp: resolvable_def entry_id_def display_def)

lemma check_entry_correct:
  "sorted_wrt (before ls) (e1 # es) \<Longrightarrow> pairs_ok ls pairs \<Longrightarrow> \<forall>e \<in> set (e1 # es). resolvable g (entry_id e) \<Longrightarrow>
     entry_outcome g ls (check_entry g e1 es pairs)"
proof (induction es arbitrary: e1 pairs)
  case (Cons e2 es)
  show ?case
  proof (cases "e1 = e2")
    case True
    then show ?thesis using Cons by simp
  next
    case False
    obtain c where c: "cmp_entries g e1 e2 = Some c" using cmp_entries_total [of g e1 e2] Cons.prems(3) by auto
    define d a b where "d = (if c = Greater then Less else Greater)" and "a = (if c = Greater then e2 else e1)"
      and "b = (if c = Greater then e1 else e2)"
    have ab: "a \<noteq> b" "d = Greater \<and> before ls a b \<or> d = Less \<and> before ls b a" "{a, b} = {e1, e2}"
      using Cons.prems(1) False by (auto simp: a_def b_def d_def)
    have srt: "sorted_wrt (before ls) (a # es)" "\<forall>e \<in> set (a # es). resolvable g (entry_id e)" "resolvable g (entry_id b)"
      using Cons.prems(1,3) by (auto simp: a_def b_def)
    have eq: "check_entry g e1 (e2 # es) pairs = (case pairs (a, b) of
        None \<Rightarrow> check_entry g a es (pairs((a, b) \<mapsto> d))
      | Some known \<Rightarrow> if known \<noteq> d then do { s1 \<leftarrow> display g a; s2 \<leftarrow> display g b; Some (Inl (ConflictingPrecedenceOrdering s1 s2)) }
          else check_entry g a es pairs)"
    proof (cases "c = Greater")
      case True
      then have e: "a = e2" "b = e1" "d = Less" by (simp_all add: a_def b_def d_def)
      show ?thesis unfolding e using False c True by simp
    next
      case False
      then have e: "a = e1" "b = e2" "d = Greater" by (simp_all add: a_def b_def d_def)
      show ?thesis unfolding e using \<open>e1 \<noteq> e2\<close> c False by simp
    qed
    show ?thesis
    proof (cases "pairs (a, b)")
      case None
      have "pairs_ok ls (pairs((a, b) \<mapsto> d))" using Cons.prems(2) ab(1,2) unfolding pairs_ok_def by auto
      then show ?thesis using Cons.IH [OF srt(1) _ srt(2)] eq None by simp
    next
      case (Some known)
      show ?thesis
      proof (cases "known = d")
        case True
        then show ?thesis using Cons.IH [OF srt(1) Cons.prems(2) srt(2)] eq Some by simp
      next
        case diff: False
        have "known = Greater \<and> before ls a b \<or> known = Less \<and> before ls b a" using Cons.prems(2) Some unfolding pairs_ok_def by blast
        then have "conflicting ls a b" using ab(1,2) diff by (auto simp: conflicting_def)
        moreover obtain s1 s2 where "display g a = Some s1" "display g b = Some s2" using display_total srt(2,3) by (meson list.set_intros(1))
        ultimately show ?thesis using eq Some diff unfolding entry_outcome_def by auto
      qed
    qed
  qed
qed (simp add: entry_outcome_def)

lemma entry_outcome_then:
  assumes "entry_outcome g ls r" "\<And>pairs. pairs_ok ls pairs \<Longrightarrow> entry_outcome g ls (k pairs)"
  shows "entry_outcome g ls (and_then r k)"
  using assms(1) unfolding entry_outcome_def [of g ls r]
proof (elim disjE exE conjE)
  fix pairs assume "r = Some (Inr pairs)" "pairs_ok ls pairs"
  then show ?thesis using assms(2) by simp
next
  fix a b s1 s2 assume "r = Some (Inl (ConflictingPrecedenceOrdering s1 s2))" "conflicting ls a b" "display g a = Some s1" "display g b = Some s2"
  then show ?thesis unfolding entry_outcome_def by auto
qed

lemma check_ordering_correct:
  "sorted_wrt (before ls) l \<Longrightarrow> pairs_ok ls pairs \<Longrightarrow> \<forall>e \<in> set l. resolvable g (entry_id e) \<Longrightarrow> entry_outcome g ls (check_ordering g l pairs)"
proof (induction l arbitrary: pairs)
  case (Cons e es)
  have "entry_outcome g ls (check_entry g e es pairs)" by (rule check_entry_correct [OF Cons.prems])
  then show ?case unfolding check_ordering.simps using Cons by (elim entry_outcome_then) simp
qed (simp add: entry_outcome_def)

lemma check_orderings_correct:
  "set l \<subseteq> set ls \<Longrightarrow> pairs_ok ls pairs \<Longrightarrow> \<forall>e \<in> set (concat l). resolvable g (entry_id e) \<Longrightarrow> entry_outcome g ls (check_orderings g l pairs)"
proof (induction l arbitrary: pairs)
  case (Cons x xs)
  have "entry_outcome g ls (check_ordering g x pairs)" using Cons.prems list_before [of x ls] by (intro check_ordering_correct) auto
  then show ?case unfolding check_orderings.simps using Cons by (elim entry_outcome_then) simp
qed (simp add: entry_outcome_def)

section \<open>Declared names\<close>

text \<open>The precedence names the check looks at: it does not descend into \<open>reserved\<close>.\<close>

fun prec_names :: "rtree \<Rightarrow> StrId set" where
  "prec_names (TSeq ts) = \<Union> (set (map prec_names ts))"
| "prec_names (TChoice ts) = \<Union> (set (map prec_names ts))"
| "prec_names (TRepeat t) = prec_names t"
| "prec_names (TMeta p t) = (case precedence p of PrecName sid \<Rightarrow> {sid} | _ \<Rightarrow> {}) \<union> prec_names t"
| "prec_names _ = {}"

definition declared_outcome :: "'t InputGrammar \<Rightarrow> StrId set \<Rightarrow> (ValidatePrecedenceError + unit) option \<Rightarrow> bool" where
  "declared_outcome g N r \<longleftrightarrow> (if N \<subseteq> precedence_names g then r = Some (Inr ())
     else \<exists>sid s v. r = Some (Inl (UndeclaredPrecedence s v)) \<and> sid \<in> N - precedence_names g \<and> resolve (str_pool (g_pool g)) sid = Some s)"

lemma declared_outcome_insert:
  "declared_outcome g N r \<Longrightarrow> M \<subseteq> precedence_names g \<Longrightarrow> declared_outcome g (M \<union> N) r"
  unfolding declared_outcome_def by (auto split: if_splits)

lemma prec_names_list: "(\<Union>t \<in> set (rev ts @ us). prec_names t) = (\<Union>t \<in> set ts. prec_names t) \<union> (\<Union>t \<in> set us. prec_names t)"
  by auto

lemma declared_loop_correct:
  assumes v: "resolvable g (v_name v)"
  shows "list_all2 (rep (g_pool g)) is ts \<Longrightarrow> \<forall>sid \<in> (\<Union>t \<in> set ts. prec_names t). resolvable g sid \<Longrightarrow>
    declared_outcome g (\<Union>t \<in> set ts. prec_names t) (declared_loop g v is)"
proof (induction "sum_list (map tsize ts)" arbitrary: "is" ts rule: less_induct)
  case less
  show ?case
  proof (cases "is")
    case Nil
    then show ?thesis using less.prems(1) by (subst declared_loop.simps) (auto simp: declared_outcome_def)
  next
    case (Cons i rest)
    then obtain t us where ts: "ts = t # us" "rep (g_pool g) i t" "list_all2 (rep (g_pool g)) rest us"
      using less.prems(1) by (auto simp: list_all2_Cons1)
    have many: ?thesis if "node (g_pool g) i = Some n" "n = Seq r \<or> n = Choice r" "child_slice (g_pool g) r = Some cs"
      "list_all2 (rep (g_pool g)) cs vs" "prec_names t = (\<Union>t \<in> set vs. prec_names t)" "tsize t = Suc (sum_list (map tsize vs))" for n r cs vs
    proof -
      have "declared_loop g v is = declared_loop g v (rev cs @ rest)" using that(1-3) Cons by (subst declared_loop.simps) auto
      moreover have "declared_outcome g (\<Union>t \<in> set (rev vs @ us). prec_names t) (declared_loop g v (rev cs @ rest))"
        using less.prems(2) ts that(4-6)
        by (intro less.hyps) (auto simp: sum_list_rev rev_map [symmetric] list_all2_rev intro!: list_all2_appendI)
      ultimately show ?thesis using that(5) ts(1) by (simp add: prec_names_list)
    qed
    have one: ?thesis if "declared_loop g v is = declared_loop g v (c # rest)" "rep (g_pool g) c u" "tsize u < tsize t"
      "prec_names t = M \<union> prec_names u" "M \<subseteq> precedence_names g" for c u M
    proof -
      have "declared_outcome g (\<Union>t \<in> set (u # us). prec_names t) (declared_loop g v (c # rest))"
        using less.prems(2) ts that by (intro less.hyps) auto
      from declared_outcome_insert [OF this that(5)] show ?thesis using that(1,4) ts(1) by (simp add: Un_assoc)
    qed
    have skip: ?thesis if "declared_loop g v is = declared_loop g v rest" "prec_names t = {}" "tsize t \<ge> 1"
    proof -
      have "declared_outcome g (\<Union>t \<in> set us. prec_names t) (declared_loop g v rest)"
        using less.prems(2) ts that by (intro less.hyps) auto
      then show ?thesis using that ts(1) by simp
    qed
    show ?thesis
    proof (cases t)
      case (TSeq vs)
      then show ?thesis using ts(2) by (auto elim!: rep_cases intro!: many)
    next
      case (TChoice vs)
      then show ?thesis using ts(2) by (auto elim!: rep_cases intro!: many)
    next
      case (TRepeat u)
      then obtain c where n: "node (g_pool g) i = Some (Repeat c)" "rep (g_pool g) c u" using ts(2) by (auto elim: rep_cases)
      then have "declared_loop g v is = declared_loop g v (c # rest)" using Cons by (subst declared_loop.simps) simp
      then show ?thesis using n TRepeat by (intro one [of c u "{}"]) simp_all
    next
      case (TMeta p u)
      then obtain pid c where n: "node (g_pool g) i = Some (Metadata pid c)" "params (g_pool g) pid = Some p" "rep (g_pool g) c u"
        using ts(2) by (auto elim: rep_cases)
      show ?thesis
      proof (cases "\<exists>sid. precedence p = PrecName sid \<and> sid \<notin> precedence_names g")
        case True
        then obtain sid where sid: "precedence p = PrecName sid" "sid \<notin> precedence_names g" by blast
        then obtain s r where s: "resolve (str_pool (g_pool g)) sid = Some s" "resolve (str_pool (g_pool g)) (v_name v) = Some r"
          using less.prems(2) v ts(1) TMeta by (auto simp: resolvable_def)
        then have "declared_loop g v is = Some (Inl (UndeclaredPrecedence s r))" using n sid Cons by (subst declared_loop.simps) simp
        then show ?thesis using sid s(1) ts(1) TMeta by (auto simp: declared_outcome_def)
      next
        case False
        then have "declared_loop g v is = declared_loop g v (c # rest)" using n Cons by (subst declared_loop.simps) (auto split: Precedence.splits)
        then show ?thesis using n False TMeta
          by (intro one [of c u "case precedence p of PrecName sid \<Rightarrow> {sid} | _ \<Rightarrow> {}"]) (auto split: Precedence.splits)
      qed
    next
      case (TReserved u ctx)
      then obtain c where n: "node (g_pool g) i = Some (Reserved c ctx)" using ts(2) by (auto elim: rep_cases)
      then have "declared_loop g v is = declared_loop g v rest" using Cons by (subst declared_loop.simps) simp
      then show ?thesis using TReserved by (intro skip) simp_all
    qed (rule skip; use ts(2) Cons in \<open>auto elim!: rep_cases simp: declared_loop.simps [of _ _ "i # _"]\<close>)+
  qed
qed


lemma check_declared_correct:
  "list_all2 (\<lambda>v t. rep (g_pool g) (v_root v) t) vs ts \<Longrightarrow> \<forall>sid \<in> (\<Union>t \<in> set ts. prec_names t). resolvable g sid \<Longrightarrow>
     \<forall>v \<in> set vs. resolvable g (v_name v) \<Longrightarrow> declared_outcome g (\<Union>t \<in> set ts. prec_names t) (check_declared g vs)"
proof (induction vs ts rule: list_all2_induct)
  case Nil
  then show ?case by (simp add: declared_outcome_def)
next
  case (Cons v vs t ts)
  have one: "declared_outcome g (prec_names t) (declared_loop g v [v_root v])"
    using declared_loop_correct [of g v "[v_root v]" "[t]"] Cons.hyps(1) Cons.prems by simp
  show ?case
  proof (cases "prec_names t \<subseteq> precedence_names g")
    case True
    then have "declared_loop g v [v_root v] = Some (Inr ())" using one by (simp add: declared_outcome_def)
    then have eq: "check_declared g (v # vs) = check_declared g vs" by simp
    have "declared_outcome g (\<Union>t \<in> set ts. prec_names t) (check_declared g vs)" using Cons.IH Cons.prems by simp
    from declared_outcome_insert [OF this True] show ?thesis unfolding eq by simp
  next
    case False
    then obtain sid s r where "declared_loop g v [v_root v] = Some (Inl (UndeclaredPrecedence s r))" "sid \<in> prec_names t - precedence_names g"
      "resolve (str_pool (g_pool g)) sid = Some s" using one unfolding declared_outcome_def if_not_P [OF False] by blast
    then show ?thesis using False by (auto simp: declared_outcome_def)
  qed
qed

section \<open>Properties\<close>

text \<open>C34. Validating the precedences terminates without a panic, and every error it reports is real: the two
  entries of a reported conflict are declared in both orders, a reported name is used in a rule and
  not declared. When it succeeds, every precedence name in the rules, outside of \<open>reserved\<close>, is declared.
  A grammar without contradictory orderings and without undeclared names is accepted.\<close>

theorem validate_precedences_sound:
  fixes g :: "'t InputGrammar"
  assumes r: "list_all2 (\<lambda>v t. rep (g_pool g) (v_root v) t) (g_variables g) ts"
    and nm: "\<forall>sid \<in> (\<Union>t \<in> set ts. prec_names t). resolvable g sid" "\<forall>v \<in> set (g_variables g). resolvable g (v_name v)"
      "\<forall>e \<in> set (concat (g_precedence_orderings g)). resolvable g (entry_id e)"
  shows "\<exists>r. validate_precedences g = Some r \<and> (case r of
      Inl (ConflictingPrecedenceOrdering s1 s2) \<Rightarrow>
        \<exists>a b. conflicting (g_precedence_orderings g) a b \<and> display g a = Some s1 \<and> display g b = Some s2
    | Inl (UndeclaredPrecedence s v) \<Rightarrow>
        \<exists>sid \<in> (\<Union>t \<in> set ts. prec_names t) - precedence_names g. resolve (str_pool (g_pool g)) sid = Some s
    | Inr _ \<Rightarrow> (\<Union>t \<in> set ts. prec_names t) \<subseteq> precedence_names g)"
proof -
  have "pairs_ok (g_precedence_orderings g) Map.empty" by (simp add: pairs_ok_def)
  then have o: "entry_outcome g (g_precedence_orderings g) (check_orderings g (g_precedence_orderings g) Map.empty)"
    using nm(3) by (intro check_orderings_correct) simp_all
  have d: "declared_outcome g (\<Union>t \<in> set ts. prec_names t) (check_declared g (g_variables g))"
    by (rule check_declared_correct [OF r nm(1,2)])
  show ?thesis
  proof (cases "\<exists>pairs. check_orderings g (g_precedence_orderings g) Map.empty = Some (Inr pairs)")
    case True
    then have eq: "validate_precedences g = check_declared g (g_variables g)" by (auto simp: validate_precedences_def)
    show ?thesis
    proof (cases "(\<Union>t \<in> set ts. prec_names t) \<subseteq> precedence_names g")
      case True
      then show ?thesis using d unfolding eq declared_outcome_def by simp
    next
      case False
      then obtain sid s v where "check_declared g (g_variables g) = Some (Inl (UndeclaredPrecedence s v))"
        "sid \<in> (\<Union>t \<in> set ts. prec_names t) - precedence_names g" "resolve (str_pool (g_pool g)) sid = Some s"
        using d unfolding declared_outcome_def if_not_P [OF False] by blast
      then show ?thesis unfolding eq by (intro exI [of _ "Inl (UndeclaredPrecedence s v)"]) auto
    qed
  next
    case False
    then obtain a b s1 s2 where "check_orderings g (g_precedence_orderings g) Map.empty = Some (Inl (ConflictingPrecedenceOrdering s1 s2))"
      "conflicting (g_precedence_orderings g) a b" "display g a = Some s1" "display g b = Some s2"
      using o unfolding entry_outcome_def by blast
    then show ?thesis unfolding validate_precedences_def by auto
  qed
qed

definition prec_pool :: "unit StrPool" where
  "prec_pool = \<lparr>buf = ''abc'', spans = [\<lparr>span_start = 0, span_end = 1\<rparr>, \<lparr>span_start = 1, span_end = 2\<rparr>, \<lparr>span_start = 2, span_end = 3\<rparr>], ids = ()\<rparr>"

definition prec_grammar :: "MetadataParams list \<Rightarrow> Rule list \<Rightarrow> RuleId \<Rightarrow> PrecedenceEntry list list \<Rightarrow> unit InputGrammar" where
  "prec_grammar ps ns root orderings = \<lparr>g_pool = \<lparr>nodes = ns, children = [], params_vec = ps, str_pool = prec_pool, scratch = []\<rparr>,
     g_name = 1, g_variables = [\<lparr>v_name = 1, v_root = root\<rparr>], g_external_roots = [], g_extra_roots = [], g_reserved_sets = [],
     g_supertype_names = [], g_conflict_names = [], g_inline_names = [], g_word_name = None, g_precedence_orderings = orderings\<rparr>"

lemma declared_loop_root: "node (g_pool g) i = Some n \<Longrightarrow> n = Blank \<or> (\<exists>c ctx. n = Reserved c ctx) \<Longrightarrow> declared_loop g v [i] = Some (Inr ())"
  by (subst declared_loop.simps) (auto simp: declared_loop.simps [of _ _ "[]"])

lemma prec_pool_names: "resolve prec_pool 1 = Some ''a''" "resolve prec_pool 2 = Some ''b''" "resolve prec_pool 3 = Some ''c''"
  by (simp_all add: prec_pool_def resolve_def span_str_def vec_get_def vec_slice_def id_index_def)

theorem validate_precedences_sound_witness:
  "\<exists>r. validate_precedences (prec_grammar [] [Blank] 0 [[EntryName 1, EntryName 2]]) = Some r"
proof -
  let ?g = "prec_grammar [] [Blank] 0 [[EntryName 1, EntryName 2]]"
  have "list_all2 (\<lambda>v t. rep (g_pool ?g) (v_root v) t) (g_variables ?g) [TBlank]"
    by (auto intro!: rep_Blank simp: prec_grammar_def node_def vec_get_def)
  moreover have "\<forall>sid \<in> (\<Union>t \<in> set [TBlank]. prec_names t). resolvable ?g sid" by simp
  moreover have "\<forall>v \<in> set (g_variables ?g). resolvable ?g (v_name v)" "\<forall>e \<in> set (concat (g_precedence_orderings ?g)). resolvable ?g (entry_id e)"
    by (simp_all add: prec_grammar_def resolvable_def entry_id_def prec_pool_names prec_pool_names [unfolded One_nat_def])
  ultimately show ?thesis using validate_precedences_sound [of ?g "[TBlank]"] by blast
qed

text \<open>C35. A contradiction can go unnoticed: with the orderings \<open>c, a, b\<close> and \<open>b, c\<close> the entry \<open>c\<close> is declared before and
  after \<open>b\<close>, and the grammar is accepted. Comparing \<open>c\<close> with \<open>a\<close> swaps the two variables, so the rest of the
  inner loop compares \<open>a\<close> instead of \<open>c\<close>, and the pair of \<open>c\<close> and \<open>b\<close> is never recorded.\<close>

theorem ordering_conflict_missed:
  "validate_precedences (prec_grammar [] [Blank] 0 [[EntryName 3, EntryName 1, EntryName 2], [EntryName 2, EntryName 3]]) = Some (Inr ()) \<and>
   conflicting [[EntryName 3, EntryName 1, EntryName 2], [EntryName 2, EntryName 3]] (EntryName 2) (EntryName 3)"
proof
  let ?ls = "[[EntryName 3, EntryName 1, EntryName 2], [EntryName 2, EntryName 3]]"
  let ?g = "prec_grammar [] [Blank] 0 ?ls"
  have c: "cmp_names ?g 3 1 = Some Greater" "cmp_names ?g 1 2 = Some Less" "cmp_names ?g 2 3 = Some Less"
    using prec_pool_names by (simp_all add: cmp_names_def prec_grammar_def cmp_str_def ord_cmp_def del: One_nat_def)
  have "\<exists>p. check_orderings ?g ?ls Map.empty = Some (Inr p)" by (simp add: c del: One_nat_def)
  moreover have "check_declared ?g (g_variables ?g) = Some (Inr ())"
    by (simp add: prec_grammar_def declared_loop_root node_def vec_get_def)
  ultimately show "validate_precedences ?g = Some (Inr ())" by (auto simp: validate_precedences_def prec_grammar_def)
  show "conflicting ?ls (EntryName 2) (EntryName 3)"
    unfolding conflicting_def before_def
    by (intro conjI bexI [of _ "[EntryName 2, EntryName 3]"] bexI [of _ "[EntryName 3, EntryName 1, EntryName 2]"] exI [of _ 0] exI [of _ 1] exI [of _ 2])
      simp_all
qed

text \<open>A precedence name inside \<open>reserved\<close> is not checked.\<close>

lemma reserved_precedence_unchecked:
  "validate_precedences (prec_grammar [default_params\<lparr>precedence := PrecName 3\<rparr>] [Blank, Metadata 0 0, Reserved 1 2] 2 []) = Some (Inr ()) \<and>
   precedence_names (prec_grammar [default_params\<lparr>precedence := PrecName 3\<rparr>] [Blank, Metadata 0 0, Reserved 1 2] 2 []) = {}"
  by (simp add: validate_precedences_def prec_grammar_def declared_loop_root node_def vec_get_def precedence_names_def map_filter_simps)


end
