(* ===== verification/Indirect_Recursion.thy ===== *)
theory Indirect_Recursion
  imports Validate_Precedences
begin

text \<open>
  \<^verbatim>\<open>crates/generate/src/prepare_grammar.rs\<close>, \<open>validate_indirect_recursion\<close> and \<open>get_cycle\<close>: a variable whose rule may be
  a single reference to another variable has an edge to it; the depth-first search from every variable
  reports a cycle of such edges. The \<open>IndexMap\<close> is an association list in insertion order, a \<open>BTreeSet\<close> that is
  iterated a sorted list. The recursion of \<open>get_cycle\<close> and the loop over the successors are one partial function:
  \<open>Inl\<close> is the call, \<open>Inr\<close> the rest of the loop in the caller.
\<close>

section \<open>Definitions\<close>

partial_function (option) unit_loop :: "'t InputGrammar \<Rightarrow> Variable \<Rightarrow> RuleId list \<Rightarrow> StrId list \<Rightarrow> StrId list option" where
  "unit_loop g v stack prods = (case stack of
     [] \<Rightarrow> Some prods
   | i # stack' \<Rightarrow> do {
       n \<leftarrow> node (g_pool g) i;
       case n of
         NamedSymbol sid \<Rightarrow> unit_loop g v stack' (if sid \<noteq> v_name v then insert_sorted sid prods else prods)
       | Choice r \<Rightarrow> do { cs \<leftarrow> child_slice (g_pool g) r; unit_loop g v (rev cs @ stack') prods }
       | Metadata _ rule \<Rightarrow> unit_loop g v (rule # stack') prods
       | _ \<Rightarrow> unit_loop g v stack' prods
     })"

type_synonym transitions = "(StrId \<times> StrId list) list"

fun epsilon_transitions :: "'t InputGrammar \<Rightarrow> Variable list \<Rightarrow> transitions \<Rightarrow> transitions option" where
  "epsilon_transitions g [] acc = Some acc"
| "epsilon_transitions g (v # vs) acc = do {
     productions \<leftarrow> unit_loop g v [v_root v] [];
     epsilon_transitions g vs (assoc_insert (v_name v) productions acc)
   }"

type_synonym search_state = "StrId set \<times> StrId list"

partial_function (option) cycle_search :: "transitions \<Rightarrow> StrId + StrId list \<Rightarrow> search_state \<Rightarrow> ((nat \<times> nat) option \<times> search_state) option" where
  "cycle_search tr job st = (case job of
     Inl current \<Rightarrow>
       (case position (\<lambda>s. s = current) (snd st) of
          Some first_idx \<Rightarrow>
            (let path = snd st @ [current] in Some (Some (first_idx, length path - 1), (fst st, path)))
        | None \<Rightarrow>
            if current \<in> fst st then Some (None, st)
            else do {
              r \<leftarrow> (case map_of tr current of
                  Some next_symbols \<Rightarrow> cycle_search tr (Inr next_symbols) (insert current (fst st), snd st @ [current])
                | None \<Rightarrow> Some (None, (insert current (fst st), snd st @ [current])));
              if fst r \<noteq> None then Some r else Some (None, (fst (snd r), butlast (snd (snd r))))
            })
   | Inr [] \<Rightarrow> Some (None, st)
   | Inr (next # next_symbols) \<Rightarrow> do {
       r \<leftarrow> cycle_search tr (Inl next) st;
       if fst r \<noteq> None then Some r else cycle_search tr (Inr next_symbols) (snd r)
     })"

definition get_cycle :: "StrId \<Rightarrow> transitions \<Rightarrow> StrId set \<Rightarrow> StrId list \<Rightarrow> ((nat \<times> nat) option \<times> search_state) option" where
  "get_cycle current tr visited path = cycle_search tr (Inl current) (visited, path)"

fun those_names :: "'t InputGrammar \<Rightarrow> StrId list \<Rightarrow> string list option" where
  "those_names g [] = Some []"
| "those_names g (s # ss) = do { n \<leftarrow> resolve (str_pool (g_pool g)) s; ns \<leftarrow> those_names g ss; Some (n # ns) }"

fun check_starts :: "'t InputGrammar \<Rightarrow> transitions \<Rightarrow> StrId list \<Rightarrow> (string list + unit) option" where
  "check_starts g tr [] = Some (Inr ())"
| "check_starts g tr (start_symbol # starts) = do {
     r \<leftarrow> get_cycle start_symbol tr {} [];
     case fst r of
       Some c \<Rightarrow> do {
         slice \<leftarrow> vec_slice (snd (snd r)) (fst c) (snd c + 1);
         cycle_symbols \<leftarrow> those_names g slice;
         Some (Inl cycle_symbols)
       }
     | None \<Rightarrow> check_starts g tr starts
   }"

definition validate_indirect_recursion :: "'t InputGrammar \<Rightarrow> (string list + unit) option" where
  "validate_indirect_recursion g = do {
     ts \<leftarrow> epsilon_transitions g (g_variables g) [];
     check_starts g ts (map fst ts)
   }"


section \<open>The graph of unit references\<close>

fun unit_refs :: "rtree \<Rightarrow> StrId set" where
  "unit_refs (TNamed sid) = {sid}"
| "unit_refs (TChoice ts) = \<Union> (set (map unit_refs ts))"
| "unit_refs (TMeta p t) = unit_refs t"
| "unit_refs _ = {}"

definition unit_edges :: "Variable list \<Rightarrow> rtree list \<Rightarrow> StrId rel" where
  "unit_edges vs ts = {(a, b). \<exists>t. map_of (rev (zip (map v_name vs) ts)) a = Some t \<and> b \<in> unit_refs t - {a}}"

definition edges :: "transitions \<Rightarrow> StrId rel" where
  "edges tr = {(a, b). \<exists>bs. map_of tr a = Some bs \<and> b \<in> set bs}"

lemma unit_loop_correct:
  "list_all2 (rep (g_pool g)) is ts \<Longrightarrow> sorted_wrt (<) prods \<Longrightarrow>
    \<exists>ps. unit_loop g v is prods = Some ps \<and> sorted_wrt (<) ps \<and> set ps = set prods \<union> (\<Union>t \<in> set ts. unit_refs t - {v_name v})"
proof (induction "sum_list (map tsize ts)" arbitrary: "is" ts prods rule: less_induct)
  case less
  show ?case
  proof (cases "is")
    case Nil
    then show ?thesis using less.prems by (subst unit_loop.simps) auto
  next
    case (Cons i rest)
    then obtain t us where ts: "ts = t # us" "rep (g_pool g) i t" "list_all2 (rep (g_pool g)) rest us"
      using less.prems(1) by (auto simp: list_all2_Cons1)
    have step: ?thesis if "unit_loop g v is prods = unit_loop g v (cs @ rest) prods'" "list_all2 (rep (g_pool g)) cs vs"
      "sum_list (map tsize vs) < tsize t" "sorted_wrt (<) prods'"
      "set prods' \<union> (\<Union>t \<in> set vs. unit_refs t - {v_name v}) = set prods \<union> (unit_refs t - {v_name v})" for cs vs prods'
    proof -
      have "\<exists>ps. unit_loop g v (cs @ rest) prods' = Some ps \<and> sorted_wrt (<) ps \<and>
          set ps = set prods' \<union> (\<Union>t \<in> set (vs @ us). unit_refs t - {v_name v})"
        using ts that by (intro less.hyps) (auto intro!: list_all2_appendI)
      then obtain ps where ps: "unit_loop g v (cs @ rest) prods' = Some ps" "sorted_wrt (<) ps"
        "set ps = (set prods' \<union> (\<Union>t \<in> set vs. unit_refs t - {v_name v})) \<union> (\<Union>t \<in> set us. unit_refs t - {v_name v})"
        by (auto simp: Un_assoc)
      have "set ps = set prods \<union> (\<Union>t \<in> set ts. unit_refs t - {v_name v})" unfolding ps(3) that(5) ts(1) by auto
      then show ?thesis using that(1) ps by simp
    qed
    have skip: ?thesis if "unit_loop g v is prods = unit_loop g v rest prods" "unit_refs t = {}" "tsize t \<ge> 1"
      using that less.prems(2) by (intro step [of "[]" prods "[]"]) auto
    show ?thesis
    proof (cases t)
      case (TNamed s)
      then have "unit_loop g v is prods = unit_loop g v rest (if s \<noteq> v_name v then insert_sorted s prods else prods)"
        using ts(2) Cons by (subst unit_loop.simps) (auto elim: rep_cases)
      then show ?thesis using TNamed less.prems(2)
        by (intro step [of "[]" "if s \<noteq> v_name v then insert_sorted s prods else prods" "[]"]) (auto simp: insert_sorted_correct)
    next
      case (TChoice vs)
      then obtain r cs where n: "node (g_pool g) i = Some (Choice r)" "child_slice (g_pool g) r = Some cs" "list_all2 (rep (g_pool g)) cs vs"
        using ts(2) by (auto elim: rep_cases)
      then have "unit_loop g v is prods = unit_loop g v (rev cs @ rest) prods" using Cons by (subst unit_loop.simps) simp
      then show ?thesis using n(3) TChoice less.prems(2)
        by (intro step [of "rev cs" prods "rev vs"]) (auto simp: list_all2_rev sum_list_rev rev_map [symmetric])
    next
      case (TMeta p u)
      then obtain pid c where n: "node (g_pool g) i = Some (Metadata pid c)" "rep (g_pool g) c u" using ts(2) by (auto elim: rep_cases)
      then have "unit_loop g v is prods = unit_loop g v (c # rest) prods" using Cons by (subst unit_loop.simps) simp
      then show ?thesis using n TMeta less.prems(2) by (intro step [of "[c]" prods "[u]"]) auto
    qed (rule skip; use ts(2) Cons in \<open>auto elim!: rep_cases simp: unit_loop.simps [of _ _ "i # _"]\<close>)+
  qed
qed

lemma map_of_assoc_insert: "map_of (assoc_insert k v es) = (map_of es)(k \<mapsto> v)"
  by (induction k v es rule: assoc_insert.induct) (auto simp: fun_upd_twist)

lemma epsilon_transitions_correct:
  "list_all2 (\<lambda>v t. rep (g_pool g) (v_root v) t) vs ts \<Longrightarrow>
    \<exists>tr. epsilon_transitions g vs acc = Some tr \<and>
      (\<forall>a. map_option set (map_of tr a) = (case map_of (rev (zip (map v_name vs) ts)) a of
         Some t \<Rightarrow> Some (unit_refs t - {a}) | None \<Rightarrow> map_option set (map_of acc a)))"
proof (induction vs ts arbitrary: acc rule: list_all2_induct)
  case (Cons v vs t ts)
  obtain ps where ps: "unit_loop g v [v_root v] [] = Some ps" "set ps = unit_refs t - {v_name v}"
    using unit_loop_correct [of g "[v_root v]" "[t]" "[]" v] Cons.hyps(1) by auto
  obtain tr where tr: "epsilon_transitions g vs (assoc_insert (v_name v) ps acc) = Some tr"
    "\<And>a. map_option set (map_of tr a) = (case map_of (rev (zip (map v_name vs) ts)) a of
         Some t \<Rightarrow> Some (unit_refs t - {a}) | None \<Rightarrow> map_option set (map_of (assoc_insert (v_name v) ps acc) a))"
    using Cons.IH [of "assoc_insert (v_name v) ps acc"] by blast
  have "map_option set (map_of tr a) = (case map_of (rev (zip (map v_name (v # vs)) (t # ts))) a of
         Some t \<Rightarrow> Some (unit_refs t - {a}) | None \<Rightarrow> map_option set (map_of acc a))" for a
    unfolding tr(2) [of a] using ps(2)
    by (cases "map_of (rev (zip (map v_name vs) ts)) a") (simp_all add: map_of_assoc_insert map_add_def)
  then show ?case using ps(1) tr(1) by simp
qed simp

lemma epsilon_transitions_edges:
  assumes "list_all2 (\<lambda>v t. rep (g_pool g) (v_root v) t) vs ts"
  shows "\<exists>tr. epsilon_transitions g vs [] = Some tr \<and> edges tr = unit_edges vs ts \<and> fst ` set tr = v_name ` set vs"
proof -
  let ?m = "map_of (rev (zip (map v_name vs) ts))"
  obtain tr where tr: "epsilon_transitions g vs [] = Some tr"
    "\<And>a. map_option set (map_of tr a) = (case ?m a of Some t \<Rightarrow> Some (unit_refs t - {a}) | None \<Rightarrow> map_option set (map_of [] a))"
    using epsilon_transitions_correct [OF assms, of "[]"] by blast
  have "(a, b) \<in> edges tr \<longleftrightarrow> (a, b) \<in> unit_edges vs ts" for a b
    using tr(2) [of a] by (cases "map_of tr a"; cases "?m a") (auto simp: edges_def unit_edges_def)
  then have "edges tr = unit_edges vs ts" by auto
  moreover have "dom (map_of tr) = dom ?m"
  proof (rule set_eqI)
    fix a show "a \<in> dom (map_of tr) \<longleftrightarrow> a \<in> dom ?m" using tr(2) [of a] by (cases "map_of tr a"; cases "?m a") auto
  qed
  then have "fst ` set tr = v_name ` set vs"
    using list_all2_lengthD [OF assms] unfolding dom_map_of_conv_image_fst by (metis length_map list.set_map map_fst_zip set_rev)
  ultimately show ?thesis using tr(1) by auto
qed

section \<open>The depth-first search\<close>

text \<open>Visited symbols that are not on the path are finished: no edge leaves them for an unfinished symbol,
  and none of them lies on a cycle.\<close>

definition search_inv :: "StrId rel \<Rightarrow> search_state \<Rightarrow> bool" where
  "search_inv E st \<longleftrightarrow> set (snd st) \<subseteq> fst st \<and> distinct (snd st) \<and> successively (\<lambda>a b. (a, b) \<in> E) (snd st) \<and>
     E `` (fst st - set (snd st)) \<subseteq> fst st - set (snd st) \<and> (\<forall>x \<in> fst st - set (snd st). (x, x) \<notin> E\<^sup>+)"

definition is_cycle :: "StrId rel \<Rightarrow> nat \<Rightarrow> nat \<Rightarrow> StrId list \<Rightarrow> bool" where
  "is_cycle E i j path \<longleftrightarrow> successively (\<lambda>a b. (a, b) \<in> E) path \<and> i < j \<and> Suc j = length path \<and> path ! i = path ! j"

definition search_outcome :: "StrId rel \<Rightarrow> StrId set \<Rightarrow> search_state \<Rightarrow> ((nat \<times> nat) option \<times> search_state) option \<Rightarrow> bool" where
  "search_outcome E N st r \<longleftrightarrow>
     (\<exists>V'. r = Some (None, (V', snd st)) \<and> search_inv E (V', snd st) \<and> fst st \<subseteq> V' \<and> N \<subseteq> V' - set (snd st)) \<or>
     (\<exists>i j V' path. r = Some (Some (i, j), (V', path)) \<and> is_cycle E i j path)"

lemma closed_trancl: "E `` F \<subseteq> F \<Longrightarrow> x \<in> F \<Longrightarrow> (x, y) \<in> E\<^sup>* \<Longrightarrow> y \<in> F"
  by (metis Image_closed_trancl Image_singleton_iff rev_ImageI)

lemma finish_current:
  assumes inv: "search_inv E (V, P @ [c])" and out: "E `` {c} \<subseteq> V - set (P @ [c])"
  shows "search_inv E (V, P)" "c \<in> V - set P"
proof -
  let ?F = "V - set (P @ [c])"
  have F: "V - set P = insert c ?F" "c \<notin> set P" "E `` ?F \<subseteq> ?F" using inv by (auto simp: search_inv_def)
  have "(c, c) \<notin> E\<^sup>+"
  proof
    assume "(c, c) \<in> E\<^sup>+"
    then obtain y where "(c, y) \<in> E" "(y, c) \<in> E\<^sup>*" by (meson tranclD)
    then show False using closed_trancl [OF F(3), of y c] out by auto
  qed
  then show "search_inv E (V, P)" using inv out F unfolding search_inv_def fst_conv snd_conv by (auto simp: successively_append_iff)
  show "c \<in> V - set P" using F by auto
qed

lemma each_correct:
  assumes enter: "\<And>c st'. c \<in> set ns \<Longrightarrow> V \<subseteq> fst st' \<Longrightarrow> snd st' = P \<Longrightarrow> search_inv (edges tr) st' \<Longrightarrow> search_outcome (edges tr) {c} st' (cycle_search tr (Inl c) st')"
  shows "search_inv (edges tr) (V, P) \<Longrightarrow> search_outcome (edges tr) (set ns) (V, P) (cycle_search tr (Inr ns) (V, P))"
  using enter
proof (induction ns arbitrary: V)
  case Nil
  then show ?case by (subst cycle_search.simps) (simp add: search_outcome_def)
next
  case (Cons n ns)
  have "search_outcome (edges tr) {n} (V, P) (cycle_search tr (Inl n) (V, P))" using Cons.prems by simp
  then consider (none) V' where "cycle_search tr (Inl n) (V, P) = Some (None, (V', P))" "search_inv (edges tr) (V', P)" "V \<subseteq> V'" "n \<in> V' - set P"
    | (found) i j V' path where "cycle_search tr (Inl n) (V, P) = Some (Some (i, j), (V', path))" "is_cycle (edges tr) i j path"
    unfolding search_outcome_def by auto
  then show ?case
  proof cases
    case none
    have "search_outcome (edges tr) (set ns) (V', P) (cycle_search tr (Inr ns) (V', P))"
      using none(3) by (intro Cons.IH [OF none(2)] Cons.prems(2)) auto
    moreover have "cycle_search tr (Inr (n # ns)) (V, P) = cycle_search tr (Inr ns) (V', P)" using none(1) by (subst cycle_search.simps) simp
    ultimately show ?thesis using none(3,4) unfolding search_outcome_def fst_conv snd_conv by (auto simp: subset_iff)
  next
    case found
    have "cycle_search tr (Inr (n # ns)) (V, P) = Some (Some (i, j), (V', path))" using found(1) by (subst cycle_search.simps) simp
    then show ?thesis using found(2) unfolding search_outcome_def by blast
  qed
qed


lemma successively_snoc: "successively P xs \<Longrightarrow> (xs \<noteq> [] \<longrightarrow> P (List.last xs) x) \<Longrightarrow> successively P (xs @ [x])"
  by (auto simp: successively_append_iff)

lemma cycle_found:
  assumes "search_inv E (V, P)" "P \<noteq> [] \<longrightarrow> (List.last P, c) \<in> E" "position (\<lambda>s. s = c) P = Some i"
  shows "is_cycle E i (length P) (P @ [c])"
  using assms position_Some [OF assms(3)] successively_snoc [of "\<lambda>a b. (a, b) \<in> E" P c]
  by (simp add: is_cycle_def search_inv_def nth_append)

lemma push_inv:
  assumes "search_inv E (V, P)" "P \<noteq> [] \<longrightarrow> (List.last P, c) \<in> E" "c \<notin> V"
  shows "search_inv E (insert c V, P @ [c])"
proof -
  have "c \<notin> set P" "insert c V - set (P @ [c]) = V - set P" using assms by (auto simp: search_inv_def)
  then show ?thesis using assms successively_snoc [of "\<lambda>a b. (a, b) \<in> E" P c] unfolding search_inv_def fst_conv snd_conv by auto
qed

lemma enter_correct:
  assumes U: "finite U" "edges tr \<subseteq> U \<times> U"
  shows "c \<in> U \<Longrightarrow> search_inv (edges tr) st \<Longrightarrow> snd st \<noteq> [] \<longrightarrow> (List.last (snd st), c) \<in> edges tr \<Longrightarrow>
    search_outcome (edges tr) {c} st (cycle_search tr (Inl c) st)"
proof (induction "card (U - fst st)" arbitrary: c st rule: less_induct)
  case less
  obtain V P where st: "st = (V, P)" by fastforce
  note prems = less.prems [unfolded st snd_conv]
  show ?case
  proof (cases "position (\<lambda>s. s = c) P")
    case (Some i)
    then have "cycle_search tr (Inl c) st = Some (Some (i, length P), (V, P @ [c]))" unfolding st by (subst cycle_search.simps) simp
    then show ?thesis using cycle_found [OF prems(2,3) Some] unfolding search_outcome_def by blast
  next
    case None
    then have cP: "c \<notin> set P" using position_ex [of P "\<lambda>s. s = c"] by auto
    show ?thesis
    proof (cases "c \<in> V")
      case True
      then have "cycle_search tr (Inl c) st = Some (None, st)" using None unfolding st by (subst cycle_search.simps) simp
      then show ?thesis using prems True cP unfolding search_outcome_def st by auto
    next
      case False
      let ?st = "(insert c V, P @ [c])"
      let ?ns = "case map_of tr c of Some ns \<Rightarrow> ns | None \<Rightarrow> []"
      have ns: "edges tr `` {c} = set ?ns" by (cases "map_of tr c") (auto simp: edges_def)
      have "search_outcome (edges tr) (set ?ns) ?st (cycle_search tr (Inr ?ns) ?st)"
      proof (rule each_correct [OF _ push_inv [OF prems(2,3) False]])
        fix n st' assume n: "n \<in> set ?ns" "insert c V \<subseteq> fst st'" "snd st' = P @ [c]" "search_inv (edges tr) st'"
        have "card (U - fst st') < card (U - V)" using U(1) prems(1) False n(2) by (intro psubset_card_mono) auto
        moreover have "(c, n) \<in> edges tr" using n(1) unfolding ns [symmetric] by simp
        ultimately show "search_outcome (edges tr) {n} st' (cycle_search tr (Inl n) st')"
          using n U(2) by (intro less.hyps) (auto simp: st)
      qed
      moreover have eq: "cycle_search tr (Inl c) st = Option.bind (cycle_search tr (Inr ?ns) ?st)
          (\<lambda>r. if fst r \<noteq> None then Some r else Some (None, (fst (snd r), butlast (snd (snd r)))))"
        using None False unfolding st by (subst cycle_search.simps) (simp add: cycle_search.simps [of _ "Inr []"] split: option.splits)
      ultimately consider (none) V' where "cycle_search tr (Inr ?ns) ?st = Some (None, (V', P @ [c]))" "search_inv (edges tr) (V', P @ [c])"
          "insert c V \<subseteq> V'" "set ?ns \<subseteq> V' - set (P @ [c])"
        | (found) i j V' path where "cycle_search tr (Inr ?ns) ?st = Some (Some (i, j), (V', path))" "is_cycle (edges tr) i j path"
        unfolding search_outcome_def by auto
      then show ?thesis
      proof cases
        case none
        then show ?thesis using finish_current [OF none(2)] ns eq unfolding search_outcome_def st by auto
      next
        case found
        then show ?thesis using eq unfolding search_outcome_def by auto
      qed
    qed
  qed
qed

lemma is_cycle_trancl:
  assumes "is_cycle E i j path"
  shows "(path ! i, path ! i) \<in> E\<^sup>+"
proof -
  have "successively (\<lambda>a b. (a, b) \<in> E\<^sup>+) path" using assms by (auto simp: is_cycle_def intro: successively_mono)
  then have "sorted_wrt (\<lambda>a b. (a, b) \<in> E\<^sup>+) path" by (subst (asm) successively_conv_sorted_wrt) (auto intro: transpI trancl_trans)
  then have "(path ! i, path ! j) \<in> E\<^sup>+" using assms unfolding sorted_wrt_iff_nth_less is_cycle_def by (metis lessI)
  then show ?thesis using assms by (simp add: is_cycle_def)
qed

lemma get_cycle_correct:
  "search_outcome (edges tr) {c} ({}, []) (get_cycle c tr {} [])"
proof -
  define U where "U = insert c (fst ` set tr \<union> (\<Union>e \<in> set tr. set (snd e)))"
  have "edges tr \<subseteq> U \<times> U" unfolding U_def edges_def by (force dest: map_of_SomeD)
  moreover have "search_inv (edges tr) ({}, [])" by (simp add: search_inv_def)
  ultimately show ?thesis unfolding get_cycle_def by (intro enter_correct [of U]) (auto simp: U_def)
qed

lemma those_names_ok: "\<forall>s \<in> set ss. resolve (str_pool (g_pool g)) s \<noteq> None \<Longrightarrow>
  those_names g ss = Some (map (\<lambda>s. the (resolve (str_pool (g_pool g)) s)) ss)"
  by (induction ss) auto

text \<open>A reported cycle: a closed walk along the edges, given by its names.\<close>

definition cycle_names :: "'t InputGrammar \<Rightarrow> StrId rel \<Rightarrow> string list \<Rightarrow> bool" where
  "cycle_names g E names \<longleftrightarrow> (\<exists>ss. length ss \<ge> 2 \<and> hd ss = List.last ss \<and> successively (\<lambda>a b. (a, b) \<in> E) ss \<and>
     map (resolve (str_pool (g_pool g))) ss = map Some names)"

lemma cycle_slice:
  assumes "is_cycle E i j path"
  shows "\<exists>ss. vec_slice path i (j + 1) = Some ss \<and> length ss \<ge> 2 \<and> hd ss = List.last ss \<and> successively (\<lambda>a b. (a, b) \<in> E) ss \<and> set ss \<subseteq> Domain E"
proof -
  have path: "i < j" "Suc j = length path" "path ! i = path ! j" "successively (\<lambda>a b. (a, b) \<in> E) path" using assms by (auto simp: is_cycle_def)
  let ?ss = "drop i path"
  have ss: "length ?ss \<ge> 2" "hd ?ss = List.last ?ss" "successively (\<lambda>a b. (a, b) \<in> E) ?ss"
    using path by (auto simp: hd_drop_conv_nth last_conv_nth successively_conv_nth simp flip: path(2))
  have "x \<in> Domain E" if "x \<in> set ?ss" for x
  proof -
    obtain k where k: "k < length ?ss" "x = ?ss ! k" using \<open>x \<in> set ?ss\<close> by (auto simp: in_set_conv_nth)
    show ?thesis
    proof (cases "Suc k < length ?ss")
      case True
      then show ?thesis using ss(3) k by (auto simp: successively_conv_nth)
    next
      case False
      then have "i + k = j" using k(1) path(1,2) by simp
      then have "x = ?ss ! 0" using k path by simp
      moreover have "(?ss ! 0, ?ss ! 1) \<in> E" using ss(1) spec [OF ss(3) [unfolded successively_conv_nth], of 0] by simp
      ultimately show ?thesis by auto
    qed
  qed
  then show ?thesis using ss path by (auto simp: vec_slice_def)
qed

lemma check_starts_correct:
  assumes "\<forall>s \<in> Domain (edges tr). resolvable g s"
  shows "check_starts g tr cs = Some (Inr ()) \<and> (\<forall>c \<in> set cs. (c, c) \<notin> (edges tr)\<^sup>+) \<or>
    (\<exists>names x. check_starts g tr cs = Some (Inl names) \<and> cycle_names g (edges tr) names \<and> (x, x) \<in> (edges tr)\<^sup>+)"
proof (induction cs)
  case (Cons c cs)
  consider (none) V where "get_cycle c tr {} [] = Some (None, (V, []))" "search_inv (edges tr) (V, [])" "c \<in> V"
    | (found) i j V path where "get_cycle c tr {} [] = Some (Some (i, j), (V, path))" "is_cycle (edges tr) i j path"
    using get_cycle_correct [of tr c] unfolding search_outcome_def by auto
  then show ?case
  proof cases
    case none
    then have "(c, c) \<notin> (edges tr)\<^sup>+" by (simp add: search_inv_def)
    then show ?thesis using none(1) Cons.IH by auto
  next
    case found
    obtain ss where ss: "vec_slice path i (j + 1) = Some ss" "length ss \<ge> 2" "hd ss = List.last ss"
      "successively (\<lambda>a b. (a, b) \<in> edges tr) ss" "set ss \<subseteq> Domain (edges tr)"
      using cycle_slice [OF found(2)] by blast
    have n: "\<forall>s \<in> set ss. resolve (str_pool (g_pool g)) s \<noteq> None" using ss(5) assms by (auto simp: resolvable_def)
    have "check_starts g tr (c # cs) = Some (Inl (map (\<lambda>s. the (resolve (str_pool (g_pool g)) s)) ss))"
      using found(1) ss(1) those_names_ok [OF n] by simp
    moreover have "cycle_names g (edges tr) (map (\<lambda>s. the (resolve (str_pool (g_pool g)) s)) ss)"
      unfolding cycle_names_def using ss n by (intro exI [of _ ss]) auto
    ultimately show ?thesis using is_cycle_trancl [OF found(2)] by blast
  qed
qed simp

section \<open>Properties\<close>

text \<open>C11. The check for indirect recursion terminates, and it is exact: it succeeds if and only if the graph of
  single references between variables has no cycle, and otherwise it reports the names along a closed
  walk of that graph.\<close>

theorem validate_indirect_recursion_exact:
  fixes g :: "'t InputGrammar"
  assumes r: "list_all2 (\<lambda>v t. rep (g_pool g) (v_root v) t) (g_variables g) ts"
    and nm: "\<forall>v \<in> set (g_variables g). resolvable g (v_name v)"
  shows "if acyclic (unit_edges (g_variables g) ts) then validate_indirect_recursion g = Some (Inr ())
    else \<exists>names. validate_indirect_recursion g = Some (Inl names) \<and> cycle_names g (unit_edges (g_variables g) ts) names"
proof -
  let ?E = "unit_edges (g_variables g) ts"
  obtain tr where tr: "epsilon_transitions g (g_variables g) [] = Some tr" "edges tr = ?E" "fst ` set tr = v_name ` set (g_variables g)"
    using epsilon_transitions_edges [OF r] by blast
  have dom: "Domain (edges tr) \<subseteq> fst ` set tr" unfolding edges_def by (force dest: map_of_SomeD)
  then have "\<forall>s \<in> Domain (edges tr). resolvable g s" using nm tr(3) by auto
  note check = check_starts_correct [OF this, of "map fst tr"]
  have ac: "acyclic ?E \<longleftrightarrow> (\<forall>c \<in> fst ` set tr. (c, c) \<notin> ?E\<^sup>+)"
    unfolding acyclic_def using dom tr(2) by (metis Domain.DomainI subsetD tranclD)
  have eq: "validate_indirect_recursion g = check_starts g tr (map fst tr)" using tr(1) by (simp add: validate_indirect_recursion_def)
  show ?thesis
  proof (cases "acyclic ?E")
    case True
    then show ?thesis using check unfolding eq tr(2) acyclic_def by auto
  next
    case False
    then show ?thesis using check ac unfolding eq tr(2) by auto
  qed
qed

theorem validate_indirect_recursion_exact_witness:
  "validate_indirect_recursion (prec_grammar [] [Blank] 0 []) = Some (Inr ())"
proof -
  let ?g = "prec_grammar [] [Blank] 0 []"
  have "list_all2 (\<lambda>v t. rep (g_pool ?g) (v_root v) t) (g_variables ?g) [TBlank]"
    by (auto intro!: rep_Blank simp: prec_grammar_def node_def vec_get_def)
  moreover have "\<forall>v \<in> set (g_variables ?g). resolvable ?g (v_name v)"
    by (simp add: prec_grammar_def resolvable_def prec_pool_names [unfolded One_nat_def])
  moreover have "unit_edges (g_variables ?g) [TBlank] = {}" by (auto simp: unit_edges_def prec_grammar_def split: if_splits)
  ultimately show ?thesis using validate_indirect_recursion_exact [of ?g "[TBlank]"] by (simp add: acyclic_def)
qed

end
