(* ===== verification/Intern_Symbols.thy ===== *)
theory Intern_Symbols
  imports Grammars
begin

text \<open>
  \<^verbatim>\<open>crates/generate/src/prepare_grammar/intern_symbols.rs\<close>: every named symbol of the rule arena is replaced in
  place by the variable or external token of that name. Warnings (\<open>Diagnostic\<close> of \<^verbatim>\<open>generate.rs\<close>) are collected in a
  list. On an error only the error is returned.
\<close>

section \<open>Errors, warnings and the result\<close>

datatype InternSymbolsError =
    HiddenStartRule
  | Undefined string
  | UndefinedSupertype string
  | UndefinedConflict string
  | UndefinedWordToken string

datatype Diagnostic =
    UnnecessaryConflicts "string list list"
  | UnaryChoice "string option"
  | UnarySeq "string option"
  | EmptyStringMatch string
  | UnsupportedRegexFlag char string
  | SupertypeInlined string

record InternedGrammarMeta =
  im_kinds :: "VariableType list"
  im_external_tokens :: "(StrId option \<times> VariableType) list"
  im_supertypes :: "Symbol list"
  im_conflicts :: "Symbol list list"
  im_inline :: "Symbol list"
  im_word :: "Symbol option"

definition variable_type_for_name :: "string \<Rightarrow> VariableType" where
  "variable_type_for_name s = (if take 1 s = ''_'' then Hidden else Named)"

section \<open>Rewriting one root\<close>

definition unary_diagnostic :: "'t RulePool \<Rightarrow> bool \<Rightarrow> StrId option \<Rightarrow> RuleId list \<Rightarrow> Diagnostic list \<Rightarrow> Diagnostic list option" where
  "unary_diagnostic P is_choice var_name cs diagnostics =
     (case cs of
        [child] \<Rightarrow> do {
          n \<leftarrow> node P child;
          if (case n of String _ \<Rightarrow> True | Pattern _ _ \<Rightarrow> True | _ \<Rightarrow> False) then do {
            nm \<leftarrow> (case var_name of None \<Rightarrow> Some None | Some s \<Rightarrow> map_option Some (resolve (str_pool P) s));
            Some (diagnostics @ [if is_choice then UnaryChoice nm else UnarySeq nm])
          } else Some diagnostics
        }
      | _ \<Rightarrow> Some diagnostics)"

text \<open>The state of the walk is the pool with the diagnostics.\<close>

type_synonym 't intern_state = "'t RulePool \<times> Diagnostic list"

partial_function (option) intern_loop :: "(StrId \<rightharpoonup> Symbol) \<Rightarrow> StrId option \<Rightarrow> 't intern_state \<Rightarrow> RuleId list \<Rightarrow>
    (InternSymbolsError + 't intern_state) option" where
  "intern_loop name_of_symbol var_name st stack = (case stack of
     [] \<Rightarrow> Some (Inr st)
   | i # stack' \<Rightarrow> do {
       n \<leftarrow> node (fst st) i;
       case n of
         NamedSymbol sid \<Rightarrow>
           (case name_of_symbol sid of
              Some s \<Rightarrow> do {
                pool \<leftarrow> set_node (fst st) i (Sym (kind s) (index s));
                intern_loop name_of_symbol var_name (pool, snd st) stack'
              }
            | None \<Rightarrow> map_option (\<lambda>s. Inl (Undefined s)) (resolve (str_pool (fst st)) sid))
       | Seq r \<Rightarrow> do {
           cs \<leftarrow> child_slice (fst st) r;
           d \<leftarrow> unary_diagnostic (fst st) False var_name cs (snd st);
           intern_loop name_of_symbol var_name (fst st, d) (cs @ stack')
         }
       | Choice r \<Rightarrow> do {
           cs \<leftarrow> child_slice (fst st) r;
           d \<leftarrow> unary_diagnostic (fst st) True var_name cs (snd st);
           intern_loop name_of_symbol var_name (fst st, d) (cs @ stack')
         }
       | Repeat inner \<Rightarrow> intern_loop name_of_symbol var_name st (inner # stack')
       | Metadata _ inner \<Rightarrow> intern_loop name_of_symbol var_name st (inner # stack')
       | Reserved inner _ \<Rightarrow> intern_loop name_of_symbol var_name st (inner # stack')
       | _ \<Rightarrow> intern_loop name_of_symbol var_name st stack'
     })"

definition intern_root :: "(StrId \<rightharpoonup> Symbol) \<Rightarrow> 't RulePool \<Rightarrow> RuleId \<Rightarrow> StrId option \<Rightarrow> Diagnostic list \<Rightarrow>
    (InternSymbolsError + 't intern_state) option" where
  "intern_root name_of_symbol P root var_name diagnostics = intern_loop name_of_symbol var_name (P, diagnostics) [root]"

fun intern_roots :: "(StrId \<rightharpoonup> Symbol) \<Rightarrow> (StrId option \<times> RuleId) list \<Rightarrow> 't RulePool \<Rightarrow> Diagnostic list \<Rightarrow>
    (InternSymbolsError + 't RulePool \<times> Diagnostic list) option" where
  "intern_roots name_of_symbol [] P diagnostics = Some (Inr (P, diagnostics))"
| "intern_roots name_of_symbol ((var_name, root) # roots) P diagnostics =
     and_then (intern_root name_of_symbol P root var_name diagnostics) (\<lambda>(P', d). intern_roots name_of_symbol roots P' d)"

section \<open>The pass\<close>

text \<open>The symbol of a name: a later variable replaces an earlier one of the same name, an external token
  never replaces a variable or an earlier external token.\<close>

definition variable_symbols :: "Variable list \<Rightarrow> StrId \<rightharpoonup> Symbol" where
  "variable_symbols vs = map_of (rev (zip (map v_name vs) (map non_terminal [0..<length vs])))"

fun add_external_names :: "'t RulePool \<Rightarrow> nat \<Rightarrow> RuleId list \<Rightarrow> (StrId \<rightharpoonup> Symbol) \<Rightarrow> (StrId \<rightharpoonup> Symbol) option" where
  "add_external_names P i [] m = Some m"
| "add_external_names P i (root # roots) m = do {
     n \<leftarrow> node P root;
     add_external_names P (i + 1) roots (case n of
       NamedSymbol sid \<Rightarrow> if m sid = None then m(sid \<mapsto> external i) else m
     | _ \<Rightarrow> m)
   }"

definition external_token :: "'t RulePool \<Rightarrow> RuleId \<Rightarrow> (StrId option \<times> VariableType) option" where
  "external_token P root = do {
     n \<leftarrow> node P root;
     case n of
       NamedSymbol sid \<Rightarrow> map_option (\<lambda>s. (Some sid, variable_type_for_name s)) (resolve (str_pool P) sid)
     | _ \<Rightarrow> Some (None, Anonymous)
   }"

definition lookup_name :: "'t RulePool \<Rightarrow> (StrId \<rightharpoonup> Symbol) \<Rightarrow> (string \<Rightarrow> InternSymbolsError) \<Rightarrow> StrId \<Rightarrow> (InternSymbolsError + Symbol) option" where
  "lookup_name P name_of_symbol err sid = (case name_of_symbol sid of
     Some s \<Rightarrow> Some (Inr s)
   | None \<Rightarrow> map_option (\<lambda>s. Inl (err s)) (resolve (str_pool P) sid))"

fun drop_inlined :: "'t RulePool \<Rightarrow> Symbol list \<Rightarrow> (StrId \<times> Symbol) list \<Rightarrow> Diagnostic list \<Rightarrow> (Symbol list \<times> Diagnostic list) option" where
  "drop_inlined P inline [] diagnostics = Some ([], diagnostics)"
| "drop_inlined P inline ((nm, sy) # rest) diagnostics =
     (if sy \<in> set inline then do {
        s \<leftarrow> resolve (str_pool P) nm;
        drop_inlined P inline rest (diagnostics @ [SupertypeInlined s])
      } else map_option (\<lambda>(ss, d). (sy # ss, d)) (drop_inlined P inline rest diagnostics))"

fun hide_supertypes :: "Symbol list \<Rightarrow> VariableType list \<Rightarrow> VariableType list option" where
  "hide_supertypes [] kinds = Some kinds"
| "hide_supertypes (s # ss) kinds =
     (if is_non_terminal s then do { kinds' \<leftarrow> vec_set kinds (index s) Hidden; hide_supertypes ss kinds' }
      else hide_supertypes ss kinds)"

definition grammar_roots :: "'t InputGrammar \<Rightarrow> (StrId option \<times> RuleId) list" where
  "grammar_roots g = map (\<lambda>v. (Some (v_name v), v_root v)) (g_variables g) @
     map (Pair None) (g_external_roots g @ g_extra_roots g) @ map (Pair None) (concat (map rw_roots (g_reserved_sets g)))"

definition intern_symbols :: "'t InputGrammar \<Rightarrow> Diagnostic list \<Rightarrow>
    (InternSymbolsError + 't InputGrammar \<times> Diagnostic list \<times> InternedGrammarMeta) option" where
  "intern_symbols g diagnostics = (let P = g_pool g in do {
     name_of_symbol \<leftarrow> add_external_names P 0 (g_external_roots g) (variable_symbols (g_variables g));
     v0 \<leftarrow> vec_get (g_variables g) 0;
     start_name \<leftarrow> resolve (str_pool P) (v_name v0);
     if variable_type_for_name start_name = Hidden then Some (Inl HiddenStartRule)
     else do {
       external_tokens \<leftarrow> those (map (external_token P) (g_external_roots g));
       kinds \<leftarrow> those (map (\<lambda>v. map_option variable_type_for_name (resolve (str_pool P) (v_name v))) (g_variables g));
       and_then (intern_roots name_of_symbol (grammar_roots g) P diagnostics) (\<lambda>(P', d1).
       and_then (try_map (lookup_name P' name_of_symbol UndefinedSupertype) (g_supertype_names g)) (\<lambda>supertypes0.
       and_then (try_map (try_map (lookup_name P' name_of_symbol UndefinedConflict)) (g_conflict_names g)) (\<lambda>conflicts.
       let inline = List.map_filter name_of_symbol (g_inline_names g) in
       Option.bind (drop_inlined P' inline (zip (g_supertype_names g) supertypes0) d1) (\<lambda>(supertypes, d2).
       and_then (case g_word_name g of
           None \<Rightarrow> Some (Inr None)
         | Some s \<Rightarrow> and_then (lookup_name P' name_of_symbol UndefinedWordToken s) (\<lambda>sy. Some (Inr (Some sy)))) (\<lambda>word.
       Option.bind (hide_supertypes supertypes kinds) (\<lambda>kinds'.
       Some (Inr (g\<lparr>g_pool := P'\<rparr>, d2, \<lparr>im_kinds = kinds', im_external_tokens = external_tokens, im_supertypes = supertypes,
         im_conflicts = conflicts, im_inline = inline, im_word = word\<rparr>))))))))
     }
   })"


section \<open>The interned tree\<close>

fun intern_tree :: "(StrId \<rightharpoonup> Symbol) \<Rightarrow> rtree \<Rightarrow> rtree" where
  "intern_tree f (TNamed s) = TSym (kind (the (f s))) (index (the (f s)))"
| "intern_tree f (TSeq ts) = TSeq (map (intern_tree f) ts)"
| "intern_tree f (TChoice ts) = TChoice (map (intern_tree f) ts)"
| "intern_tree f (TRepeat t) = TRepeat (intern_tree f t)"
| "intern_tree f (TMeta p t) = TMeta p (intern_tree f t)"
| "intern_tree f (TReserved t c) = TReserved (intern_tree f t) c"
| "intern_tree f t = t"

definition tree_names :: "rtree \<Rightarrow> StrId set" where
  "tree_names t = set (t_names t False)"

lemma tree_names_simps [simp]:
  "tree_names (TNamed s) = {s}" "tree_names (TSeq ts) = \<Union> (tree_names ` set ts)" "tree_names (TChoice ts) = \<Union> (tree_names ` set ts)"
  "tree_names (TRepeat t) = tree_names t" "tree_names (TMeta p t) = tree_names t" "tree_names (TReserved t c) = tree_names t"
  "tree_names TBlank = {}" "tree_names (TString s) = {}" "tree_names (TPattern s g) = {}" "tree_names (TSym k n) = {}" "tree_names TEof = {}"
  by (auto simp: tree_names_def)

definition intern_node :: "(StrId \<rightharpoonup> Symbol) \<Rightarrow> Rule \<Rightarrow> Rule" where
  "intern_node f n = (case n of NamedSymbol s \<Rightarrow> (case f s of Some y \<Rightarrow> Sym (kind y) (index y) | None \<Rightarrow> n) | _ \<Rightarrow> n)"

text \<open>The pool with the named symbols among the nodes \<open>D\<close> rewritten.\<close>

definition rewritten :: "(StrId \<rightharpoonup> Symbol) \<Rightarrow> 't RulePool \<Rightarrow> nat set \<Rightarrow> 't RulePool" where
  "rewritten f P D = P\<lparr>nodes := map (\<lambda>i. if i \<in> D then intern_node f (nodes P ! i) else nodes P ! i) [0..<length (nodes P)]\<rparr>"

lemma rewritten_simps [simp]:
  "node (rewritten f P D) i = map_option (\<lambda>n. if i \<in> D then intern_node f n else n) (node P i)"
  "child_slice (rewritten f P D) r = child_slice P r" "params (rewritten f P D) pid = params P pid"
  "str_pool (rewritten f P D) = str_pool P" "children (rewritten f P D) = children P" "params_vec (rewritten f P D) = params_vec P"
  by (simp_all add: rewritten_def node_def vec_get_def child_slice_def params_def)

lemma rewritten_empty: "rewritten f P {} = P"
  by (simp add: rewritten_def map_nth)

lemma set_node_rewritten:
  assumes "node P i = Some (NamedSymbol s)" "f s = Some y"
  shows "set_node (rewritten f P D) i (Sym (kind y) (index y)) = Some (rewritten f P (insert i D))"
proof -
  have i: "i < length (nodes P)" "nodes P ! i = NamedSymbol s" using assms(1) by (auto simp: node_def)
  have "(map (\<lambda>j. if j \<in> D then intern_node f (nodes P ! j) else nodes P ! j) [0..<length (nodes P)])[i := Sym (kind y) (index y)] =
      map (\<lambda>j. if j \<in> insert i D then intern_node f (nodes P ! j) else nodes P ! j) [0..<length (nodes P)]"
    using i assms(2) by (intro nth_equalityI) (auto simp: nth_list_update intern_node_def)
  then show ?thesis using i(1) by (simp add: set_node_def rewritten_def vec_set_def)
qed

section \<open>The walk\<close>

definition interned :: "(StrId \<rightharpoonup> Symbol) \<Rightarrow> 't RulePool \<Rightarrow> nat set \<Rightarrow> RuleId list \<Rightarrow> rtree list \<Rightarrow> bool" where
  "interned f P D is ts \<longleftrightarrow> (\<forall>E. D \<subseteq> E \<longrightarrow> list_all2 (\<lambda>i t. rep (rewritten f P E) i (intern_tree f t)) is ts)"

lemma internedD: "interned f P D is ts \<Longrightarrow> D \<subseteq> E \<Longrightarrow> list_all2 (\<lambda>i t. rep (rewritten f P E) i (intern_tree f t)) is ts"
  by (simp add: interned_def)

lemma interned_Cons:
  assumes "interned f P D is ts" "\<And>E. D \<subseteq> E \<Longrightarrow> rep (rewritten f P E) i (intern_tree f t)"
  shows "interned f P D (i # is) (t # ts)"
  using assms by (simp add: interned_def)

text \<open>The warnings of a tree, in the order of the walk: a sequence or a choice with one string or pattern only.\<close>

definition unary_warnings :: "bool \<Rightarrow> string option \<Rightarrow> rtree list \<Rightarrow> Diagnostic list" where
  "unary_warnings is_choice nm ts = (case ts of
     [t] \<Rightarrow> (case t of TString _ \<Rightarrow> [if is_choice then UnaryChoice nm else UnarySeq nm]
             | TPattern _ _ \<Rightarrow> [if is_choice then UnaryChoice nm else UnarySeq nm] | _ \<Rightarrow> [])
   | _ \<Rightarrow> [])"

fun warnings :: "string option \<Rightarrow> rtree \<Rightarrow> Diagnostic list" where
  "warnings nm (TSeq ts) = unary_warnings False nm ts @ concat (map (warnings nm) ts)"
| "warnings nm (TChoice ts) = unary_warnings True nm ts @ concat (map (warnings nm) ts)"
| "warnings nm (TRepeat t) = warnings nm t"
| "warnings nm (TMeta p t) = warnings nm t"
| "warnings nm (TReserved t c) = warnings nm t"
| "warnings nm _ = []"

definition own_warnings :: "string option \<Rightarrow> rtree \<Rightarrow> Diagnostic list" where
  "own_warnings nm t = (case t of TSeq ts \<Rightarrow> unary_warnings False nm ts | TChoice ts \<Rightarrow> unary_warnings True nm ts | _ \<Rightarrow> [])"

abbreviation pool_name :: "'t RulePool \<Rightarrow> StrId \<Rightarrow> string" where
  "pool_name P s \<equiv> the (resolve (str_pool P) s)"

lemma intern_node_leaf:
  "(case intern_node f n of String _ \<Rightarrow> True | Pattern _ _ \<Rightarrow> True | _ \<Rightarrow> False) = (case n of String _ \<Rightarrow> True | Pattern _ _ \<Rightarrow> True | _ \<Rightarrow> False)"
  by (cases n) (auto simp: intern_node_def split: option.splits)

lemma unary_diagnostic_correct:
  assumes cs: "list_all2 (rep P) cs ts" and vn: "\<forall>s. var_name = Some s \<longrightarrow> resolve (str_pool P) s \<noteq> None"
  shows "unary_diagnostic (rewritten f P D) b var_name cs diags = Some (diags @ unary_warnings b (map_option (pool_name P) var_name) ts)"
proof (cases "\<exists>c t. cs = [c] \<and> ts = [t]")
  case True
  then obtain c t where c: "cs = [c]" "ts = [t]" by blast
  then obtain n where n: "node P c = Some n" "rep P c t" using cs rep_node by fastforce
  have nm: "(case var_name of None \<Rightarrow> Some None | Some s \<Rightarrow> map_option Some (resolve (str_pool (rewritten f P D)) s)) = Some (map_option (pool_name P) var_name)"
    using vn by (cases var_name) auto
  show ?thesis using n(1) rep_node [OF n(2)] c
    by (cases n) (auto simp: unary_diagnostic_def unary_warnings_def intern_node_leaf nm)
next
  case False
  then have "length cs \<noteq> 1" "length ts \<noteq> 1" using list_all2_lengthD [OF cs] by (auto simp: length_Suc_conv)
  then show ?thesis by (auto simp: unary_diagnostic_def unary_warnings_def split: list.splits)
qed

text \<open>What a walk over several roots returns: every root interned, with the diagnostics \<open>dd\<close>, or the first name that is undefined.\<close>

definition names_of :: "rtree list \<Rightarrow> StrId list" where
  "names_of ts = concat (map (\<lambda>t. t_names t False) ts)"

definition first_undefined :: "(StrId \<rightharpoonup> Symbol) \<Rightarrow> StrId list \<Rightarrow> StrId option" where
  "first_undefined f ss = find (\<lambda>s. f s = None) ss"

lemma names_of_simps [simp]: "names_of [] = []" "names_of (t # ts) = t_names t False @ names_of ts" "names_of (ts @ us) = names_of ts @ names_of us"
  by (simp_all add: names_of_def)

lemma set_names_of: "set (names_of ts) = (\<Union>t \<in> set ts. tree_names t)"
  by (simp add: names_of_def tree_names_def)

lemma first_undefined_simps [simp]: "first_undefined f [] = None"
  "first_undefined f (s # ss) = (if f s = None then Some s else first_undefined f ss)"
  by (simp_all add: first_undefined_def)

lemma first_undefined_append: "first_undefined f (xs @ ys) = (case first_undefined f xs of None \<Rightarrow> first_undefined f ys | Some s \<Rightarrow> Some s)"
  by (induction xs) simp_all

lemma first_undefined_None: "first_undefined f ss = None \<longleftrightarrow> set ss \<subseteq> dom f"
  by (induction ss) auto

lemma first_undefined_Some: "first_undefined f ss = Some s \<Longrightarrow> s \<in> set ss \<and> f s = None"
  by (induction ss) (auto split: if_splits)

definition walk_outcome :: "(StrId \<rightharpoonup> Symbol) \<Rightarrow> 't RulePool \<Rightarrow> nat set \<Rightarrow> RuleId list \<Rightarrow> rtree list \<Rightarrow> Diagnostic list \<Rightarrow>
    (InternSymbolsError + 't intern_state) option \<Rightarrow> bool" where
  "walk_outcome f P D is ts dd r \<longleftrightarrow> (case first_undefined f (names_of ts) of
     None \<Rightarrow> \<exists>E. r = Some (Inr (rewritten f P E, dd)) \<and> D \<subseteq> E \<and> interned f P E is ts
   | Some sid \<Rightarrow> r = Some (Inl (Undefined (pool_name P sid))))"

lemma walk_outcome_step:
  assumes out: "walk_outcome f P D' is' ts' dd r" and D: "D \<subseteq> D'" and names: "names_of ts' = names_of ts"
    and ok: "\<And>E. D' \<subseteq> E \<Longrightarrow> interned f P E is' ts' \<Longrightarrow> interned f P E is ts"
  shows "walk_outcome f P D is ts dd r"
proof (cases "first_undefined f (names_of ts)")
  case None
  then obtain E where E: "r = Some (Inr (rewritten f P E, dd))" "D' \<subseteq> E" "interned f P E is' ts'"
    using out names unfolding walk_outcome_def by auto
  then have "interned f P E is ts" "D \<subseteq> E" using ok D by auto
  then show ?thesis using None E(1) unfolding walk_outcome_def by auto
next
  case (Some sid)
  then show ?thesis using out names unfolding walk_outcome_def by auto
qed

lemma walk_outcome_prepend:
  assumes out: "walk_outcome f P D' is us dd r" and D: "D \<subseteq> D'" and names: "first_undefined f (t_names t False) = None"
    and ok: "\<And>F. D' \<subseteq> F \<Longrightarrow> rep (rewritten f P F) i (intern_tree f t)"
  shows "walk_outcome f P D (i # is) (t # us) dd r"
proof (cases "first_undefined f (names_of us)")
  case None
  then obtain E where E: "r = Some (Inr (rewritten f P E, dd))" "D' \<subseteq> E" "interned f P E is us"
    using out unfolding walk_outcome_def by auto
  have "interned f P E (i # is) (t # us)" using ok E(2) by (intro interned_Cons [OF E(3)]) auto
  moreover have "D \<subseteq> E" using D E(2) by auto
  ultimately show ?thesis using E(1) None names unfolding walk_outcome_def by (auto simp: first_undefined_append)
next
  case (Some sid)
  then show ?thesis using out names unfolding walk_outcome_def by (simp add: first_undefined_append)
qed

fun kids :: "rtree \<Rightarrow> rtree list" where
  "kids (TSeq ts) = ts"
| "kids (TChoice ts) = ts"
| "kids (TRepeat t) = [t]"
| "kids (TMeta p t) = [t]"
| "kids (TReserved t c) = [t]"
| "kids _ = []"

definition is_named :: "rtree \<Rightarrow> bool" where
  "is_named t \<longleftrightarrow> (\<exists>s. t = TNamed s)"

lemma kids_size: "sum_list (map tsize (kids t)) < tsize t"
  by (cases t) simp_all

lemma kids_names: "\<not> is_named t \<Longrightarrow> names_of (kids t) = t_names t False"
  by (cases t) (auto simp: is_named_def names_of_def)

lemma kids_warnings: "warnings nm t = own_warnings nm t @ concat (map (warnings nm) (kids t))"
  by (cases t) (simp_all add: own_warnings_def)

lemma rep_nodes: "list_all2 (rep P) cs ts \<Longrightarrow> \<forall>j \<in> set cs. node P j \<noteq> None"
  using rep_node by (fastforce simp: list_all2_conv_all_nth in_set_conv_nth)

text \<open>At a node that is not a named symbol the walk goes on with its children.\<close>

lemma intern_loop_descend:
  assumes t: "rep P i t" "\<not> is_named t" and vn: "\<forall>s. var_name = Some s \<longrightarrow> resolve (str_pool P) s \<noteq> None"
  shows "\<exists>cs. list_all2 (rep P) cs (kids t) \<and>
    (\<forall>stack. intern_loop f var_name (rewritten f P D, d) (i # stack) =
       intern_loop f var_name (rewritten f P D, d @ own_warnings (map_option (pool_name P) var_name) t) (cs @ stack)) \<and>
    (\<forall>F. list_all2 (\<lambda>i t. rep (rewritten f P F) i (intern_tree f t)) cs (kids t) \<longrightarrow> rep (rewritten f P F) i (intern_tree f t))"
proof (cases t)
  case (TSeq vs)
  then obtain r cs where n: "node P i = Some (Seq r)" "child_slice P r = Some cs" "list_all2 (rep P) cs vs" using t(1) by (auto elim: rep_cases)
  note u = unary_diagnostic_correct [OF n(3) vn]
  show ?thesis using n TSeq
    by (intro exI [of _ cs]) (auto intro!: rep_Seq simp: list.rel_map intern_node_def own_warnings_def u intern_loop.simps [of _ _ _ "i # _"])
next
  case (TChoice vs)
  then obtain r cs where n: "node P i = Some (Choice r)" "child_slice P r = Some cs" "list_all2 (rep P) cs vs" using t(1) by (auto elim: rep_cases)
  note u = unary_diagnostic_correct [OF n(3) vn]
  show ?thesis using n TChoice
    by (intro exI [of _ cs]) (auto intro!: rep_Choice simp: list.rel_map intern_node_def own_warnings_def u intern_loop.simps [of _ _ _ "i # _"])
next
  case (TRepeat u)
  then obtain c where "node P i = Some (Repeat c)" "rep P c u" using t(1) by (auto elim: rep_cases)
  then show ?thesis using TRepeat
    by (intro exI [of _ "[c]"]) (auto intro!: rep_Repeat simp: intern_node_def own_warnings_def intern_loop.simps [of _ _ _ "i # _"])
next
  case (TMeta p u)
  then obtain pid c where "node P i = Some (Metadata pid c)" "params P pid = Some p" "rep P c u" using t(1) by (auto elim: rep_cases)
  then show ?thesis using TMeta
    by (intro exI [of _ "[c]"]) (auto intro!: rep_Meta simp: intern_node_def own_warnings_def intern_loop.simps [of _ _ _ "i # _"])
next
  case (TReserved u ctx)
  then obtain c where "node P i = Some (Reserved c ctx)" "rep P c u" using t(1) by (auto elim: rep_cases)
  then show ?thesis using TReserved
    by (intro exI [of _ "[c]"]) (auto intro!: rep_Reserved simp: intern_node_def own_warnings_def intern_loop.simps [of _ _ _ "i # _"])
qed (use t in \<open>auto elim!: rep_cases simp: is_named_def intern_node_def own_warnings_def intern_loop.simps [of _ _ _ "i # _"] intro!: rep.intros\<close>)

lemma intern_named:
  assumes n: "node P i = Some (NamedSymbol s)" and y: "f s = Some y"
  shows "intern_loop f var_name (rewritten f P D, d) (i # stack) = intern_loop f var_name (rewritten f P (insert i D), d) stack"
proof (cases "i \<in> D")
  case True
  then have "insert i D = D" by blast
  then show ?thesis using n y True by (subst intern_loop.simps) (simp add: intern_node_def)
next
  case False
  then show ?thesis using n y set_node_rewritten [OF n, of f y D] by (subst intern_loop.simps) simp
qed

lemma intern_loop_correct:
  assumes vn: "\<forall>s. var_name = Some s \<longrightarrow> resolve (str_pool P) s \<noteq> None"
  defines "nm \<equiv> map_option (pool_name P) var_name"
  shows "list_all2 (rep P) is ts \<Longrightarrow> \<forall>sid \<in> set (names_of ts). resolve (str_pool P) sid \<noteq> None \<Longrightarrow>
    walk_outcome f P D is ts (d @ concat (map (warnings nm) ts)) (intern_loop f var_name (rewritten f P D, d) is)"
proof (induction "sum_list (map tsize ts)" arbitrary: "is" ts D d rule: less_induct)
  case less
  show ?case
  proof (cases "is")
    case Nil
    then show ?thesis using less.prems(1) by (subst intern_loop.simps) (auto simp: walk_outcome_def interned_def)
  next
    case (Cons i rest)
    then obtain t us where ts: "ts = t # us" "rep P i t" "list_all2 (rep P) rest us" using less.prems(1) by (auto simp: list_all2_Cons1)
    consider s where "t = TNamed s" "f s = None" | s y where "t = TNamed s" "f s = Some y" | "\<not> is_named t"
      unfolding is_named_def by (metis not_None_eq)
    then show ?thesis
    proof cases
      case 1
      then have n: "node P i = Some (NamedSymbol s)" using ts(2) by (auto elim: rep_cases)
      obtain nam where nam: "resolve (str_pool P) s = Some nam" using less.prems(2) ts 1 by auto
      have "intern_node f (NamedSymbol s) = NamedSymbol s" by (simp add: intern_node_def 1)
      then have "intern_loop f var_name (rewritten f P D, d) is = Some (Inl (Undefined nam))"
        using n nam 1 Cons by (subst intern_loop.simps) simp
      then show ?thesis using 1 nam ts by (simp add: walk_outcome_def)
    next
      case 2
      then have n: "node P i = Some (NamedSymbol s)" using ts(2) by (auto elim: rep_cases)
      have "walk_outcome f P (insert i D) rest us (d @ concat (map (warnings nm) us)) (intern_loop f var_name (rewritten f P D, d) is)"
        unfolding Cons intern_named [of P i s f y, OF n 2(2)] using less.prems(2) ts 2 by (intro less.hyps) auto
      moreover have "rep (rewritten f P F) i (intern_tree f t)" if "i \<in> F" for F
        using n 2 that by (auto intro!: rep_Sym simp: intern_node_def)
      moreover have "d @ concat (map (warnings nm) ts) = d @ concat (map (warnings nm) us)" using 2 ts(1) by simp
      ultimately show ?thesis unfolding Cons ts(1) using 2 by (auto elim!: walk_outcome_prepend)
    next
      case 3
      obtain cs where c: "list_all2 (rep P) cs (kids t)"
        "\<forall>stack. intern_loop f var_name (rewritten f P D, d) (i # stack) = intern_loop f var_name (rewritten f P D, d @ own_warnings nm t) (cs @ stack)"
        "\<forall>F. list_all2 (\<lambda>i t. rep (rewritten f P F) i (intern_tree f t)) cs (kids t) \<longrightarrow> rep (rewritten f P F) i (intern_tree f t)"
        using intern_loop_descend [OF ts(2) 3 vn, folded nm_def] by blast
      note kn = kids_names [OF 3]
      have eq: "d @ concat (map (warnings nm) ts) = (d @ own_warnings nm t) @ concat (map (warnings nm) (kids t @ us))"
        using kids_warnings [of nm t] ts(1) by simp
      have "walk_outcome f P D (cs @ rest) (kids t @ us) (d @ concat (map (warnings nm) ts)) (intern_loop f var_name (rewritten f P D, d) is)"
        unfolding Cons c(2) [rule_format] eq using less.prems(2) ts c(1) kids_size [of t] kn
        by (intro less.hyps) (auto intro: list_all2_appendI)
      then show ?thesis
      proof (rule walk_outcome_step)
        fix E assume "interned f P E (cs @ rest) (kids t @ us)"
        then show "interned f P E is ts"
          using c(3) list_all2_lengthD [OF c(1)] unfolding Cons ts(1) interned_def by (simp add: list_all2_append)
      qed (use ts kn in auto)
    qed
  qed
qed

definition root_warnings :: "'t RulePool \<Rightarrow> StrId option list \<Rightarrow> rtree list \<Rightarrow> Diagnostic list" where
  "root_warnings P vns ts = concat (map2 (\<lambda>vn t. warnings (map_option (pool_name P) vn) t) vns ts)"

lemma root_warnings_simps [simp]: "root_warnings P [] ts = []"
  "root_warnings P (vn # vns) (t # ts) = warnings (map_option (pool_name P) vn) t @ root_warnings P vns ts"
  by (simp_all add: root_warnings_def)

lemma intern_roots_correct:
  "list_all2 (rep P) (map snd roots) ts \<Longrightarrow> \<forall>sid \<in> set (names_of ts). resolve (str_pool P) sid \<noteq> None \<Longrightarrow>
     \<forall>s \<in> set (map fst roots). s \<noteq> None \<longrightarrow> resolve (str_pool P) (the s) \<noteq> None \<Longrightarrow>
     walk_outcome f P D (map snd roots) ts (d @ root_warnings P (map fst roots) ts) (intern_roots f roots (rewritten f P D) d)"
proof (induction roots arbitrary: ts D d)
  case Nil
  then show ?case by (auto simp: walk_outcome_def interned_def)
next
  case (Cons r roots)
  obtain vn i where r: "r = (vn, i)" by (cases r) blast
  obtain t us where ts: "ts = t # us" "rep P i t" "list_all2 (rep P) (map snd roots) us"
    using Cons.prems(1) r by (auto simp: list_all2_Cons1)
  have vn: "\<forall>s. vn = Some s \<longrightarrow> resolve (str_pool P) s \<noteq> None" using Cons.prems(3) r by auto
  let ?w = "warnings (map_option (pool_name P) vn) t"
  have w: "walk_outcome f P D [i] [t] (d @ ?w) (intern_root f (rewritten f P D) i vn d)"
    using intern_loop_correct [OF vn, of "[i]" "[t]" f D d] ts(1,2) Cons.prems(2) by (simp add: intern_root_def)
  show ?case
  proof (cases "first_undefined f (t_names t False)")
    case (Some sid)
    then show ?thesis using w r ts(1) by (simp add: walk_outcome_def first_undefined_append)
  next
    case None
    then obtain E where E: "intern_root f (rewritten f P D) i vn d = Some (Inr (rewritten f P E, d @ ?w))" "D \<subseteq> E" "interned f P E [i] [t]"
      using w by (auto simp: walk_outcome_def)
    have rs: "intern_roots f (r # roots) (rewritten f P D) d = intern_roots f roots (rewritten f P E) (d @ ?w)" using r E(1) by simp
    have IH: "walk_outcome f P E (map snd roots) us ((d @ ?w) @ root_warnings P (map fst roots) us) (intern_roots f (r # roots) (rewritten f P D) d)"
      unfolding rs using ts Cons.prems(2,3) by (intro Cons.IH) auto
    have "rep (rewritten f P F) i (intern_tree f t)" if "E \<subseteq> F" for F using internedD [OF E(3) that] by simp
    then show ?thesis using walk_outcome_prepend [OF IH E(2) None] r ts(1) by simp
  qed
qed

section \<open>The pass\<close>

lemma add_external_correct:
  "\<forall>i \<in> set roots. node P i \<noteq> None \<Longrightarrow> \<exists>f. add_external_names P k roots m = Some f \<and>
     (\<forall>s. f s = (case m s of Some y \<Rightarrow> Some y
       | None \<Rightarrow> map_option (\<lambda>j. external (k + j)) (position (\<lambda>i. node P i = Some (NamedSymbol s)) roots)))"
proof (induction roots arbitrary: k m)
  case Nil
  then show ?case by (auto split: option.splits)
next
  case (Cons i roots)
  then obtain n where n: "node P i = Some n" by auto
  let ?m = "case n of NamedSymbol sid \<Rightarrow> if m sid = None then m(sid \<mapsto> external k) else m | _ \<Rightarrow> m"
  obtain f where f: "add_external_names P (k + 1) roots ?m = Some f"
    "\<forall>s. f s = (case ?m s of Some y \<Rightarrow> Some y
       | None \<Rightarrow> map_option (\<lambda>j. external (k + 1 + j)) (position (\<lambda>i. node P i = Some (NamedSymbol s)) roots))"
    using Cons.IH [of "k + 1" ?m] Cons.prems by auto
  have "f s = (case m s of Some y \<Rightarrow> Some y
      | None \<Rightarrow> map_option (\<lambda>j. external (k + j)) (position (\<lambda>i. node P i = Some (NamedSymbol s)) (i # roots)))" for s
  proof (cases "n = NamedSymbol s")
    case True
    then show ?thesis using f(2) n by (auto split: option.splits)
  next
    case False
    then have "?m s = m s" by (auto split: Rule.splits)
    then show ?thesis using f(2) n False by (auto simp: option.map_comp comp_def split: option.splits)
  qed
  then show ?case using f(1) n by auto
qed

lemma position_least: "position p xs = Some i \<longleftrightarrow> i < length xs \<and> p (xs ! i) \<and> (\<forall>j < i. \<not> p (xs ! j))"
proof (induction xs arbitrary: i)
  case (Cons x xs)
  then show ?case by (cases i) (auto simp: All_less_Suc2)
qed simp

lemma position_none: "position p xs = None \<longleftrightarrow> (\<forall>x \<in> set xs. \<not> p x)"
  by (induction xs) auto

lemma variable_symbols_snoc: "variable_symbols (vs @ [v]) = (variable_symbols vs)(v_name v \<mapsto> non_terminal (length vs))"
  by (simp add: variable_symbols_def)

lemma variable_symbols_iff:
  "variable_symbols vs s = Some y \<longleftrightarrow>
     (\<exists>i < length vs. v_name (vs ! i) = s \<and> (\<forall>j < length vs. v_name (vs ! j) = s \<longrightarrow> j \<le> i) \<and> y = non_terminal i)"
proof (induction vs rule: rev_induct)
  case Nil
  then show ?case by (simp add: variable_symbols_def)
next
  case (snoc v vs)
  show ?case
  proof (cases "v_name v = s")
    case True
    have "i = length vs" if "i < Suc (length vs)" "\<forall>j < Suc (length vs). v_name ((vs @ [v]) ! j) = s \<longrightarrow> j \<le> i" for i
      using that True by (auto dest: spec [of _ "length vs"])
    then show ?thesis using True by (auto simp: variable_symbols_snoc intro!: exI [of _ "length vs"])
  next
    case False
    have "(\<exists>i < Suc (length vs). v_name ((vs @ [v]) ! i) = s \<and> (\<forall>j < Suc (length vs). v_name ((vs @ [v]) ! j) = s \<longrightarrow> j \<le> i) \<and> y = non_terminal i) \<longleftrightarrow>
        (\<exists>i < length vs. v_name (vs ! i) = s \<and> (\<forall>j < length vs. v_name (vs ! j) = s \<longrightarrow> j \<le> i) \<and> y = non_terminal i)"
      using False by (auto simp: less_Suc_eq nth_append)
    then show ?thesis using False snoc.IH by (simp add: variable_symbols_snoc)
  qed
qed

lemma variable_symbols_none: "variable_symbols vs s = None \<longleftrightarrow> s \<notin> v_name ` set vs"
  by (induction vs rule: rev_induct) (auto simp: variable_symbols_snoc, simp add: variable_symbols_def)

text \<open>The symbol a name stands for: the last variable of that name, and otherwise the first external token that is this name.\<close>

definition stands_for :: "'t InputGrammar \<Rightarrow> StrId \<Rightarrow> Symbol \<Rightarrow> bool" where
  "stands_for g s y \<longleftrightarrow>
     (\<exists>i < length (g_variables g). v_name (g_variables g ! i) = s \<and>
        (\<forall>j < length (g_variables g). v_name (g_variables g ! j) = s \<longrightarrow> j \<le> i) \<and> y = non_terminal i) \<or>
     s \<notin> v_name ` set (g_variables g) \<and>
     (\<exists>i < length (g_external_roots g). node (g_pool g) (g_external_roots g ! i) = Some (NamedSymbol s) \<and>
        (\<forall>j < i. node (g_pool g) (g_external_roots g ! j) \<noteq> Some (NamedSymbol s)) \<and> y = external i)"

lemma lookup_all:
  assumes "\<forall>s \<in> set names. resolve (str_pool P) s \<noteq> None"
  shows "try_map (lookup_name P f err) names = (case first_undefined f names of
    None \<Rightarrow> Some (Inr (map (the \<circ> f) names)) | Some s \<Rightarrow> Some (Inl (err (pool_name P s))))"
  using assms by (induction names) (auto simp: lookup_name_def split: option.splits)

lemma lookup_all_lists:
  assumes "\<forall>s \<in> set (concat nss). resolve (str_pool P) s \<noteq> None"
  shows "try_map (try_map (lookup_name P f err)) nss = (case first_undefined f (concat nss) of
    None \<Rightarrow> Some (Inr (map (map (the \<circ> f)) nss)) | Some s \<Rightarrow> Some (Inl (err (pool_name P s))))"
  using assms
proof (induction nss)
  case (Cons ns nss)
  then have "\<forall>s \<in> set ns. resolve (str_pool P) s \<noteq> None" by simp
  from lookup_all [OF this] show ?case using Cons by (cases "first_undefined f ns") (auto simp: first_undefined_append split: option.splits)
qed simp

lemma drop_inlined_correct:
  "\<forall>(nm, sy) \<in> set ps. resolve (str_pool P) nm \<noteq> None \<Longrightarrow>
     drop_inlined P inline ps d = Some (filter (\<lambda>sy. sy \<notin> set inline) (map snd ps),
       d @ map (\<lambda>(nm, _). SupertypeInlined (pool_name P nm)) (filter (\<lambda>(_, sy). sy \<in> set inline) ps))"
  by (induction P inline ps d rule: drop_inlined.induct) fastforce+

lemma hide_supertypes_correct:
  "\<forall>s \<in> set ss. is_non_terminal s \<longrightarrow> index s < length ks \<Longrightarrow>
     \<exists>ks'. hide_supertypes ss ks = Some ks' \<and> length ks' = length ks \<and>
       (\<forall>i < length ks. ks' ! i = (if Symbol NonTerminal i \<in> set ss then Hidden else ks ! i))"
proof (induction ss arbitrary: ks)
  case (Cons s ss)
  show ?case
  proof (cases "is_non_terminal s")
    case True
    then obtain ks' where "hide_supertypes ss (ks[index s := Hidden]) = Some ks'" "length ks' = length ks"
      "\<forall>i < length ks. ks' ! i = (if Symbol NonTerminal i \<in> set ss then Hidden else ks[index s := Hidden] ! i)"
      using Cons.IH [of "ks[index s := Hidden]"] Cons.prems by auto
    moreover have "s = Symbol NonTerminal (index s)" using True by (cases s) (simp add: is_non_terminal_def)
    ultimately show ?thesis using True Cons.prems by (auto simp: vec_set_def nth_list_update)
  next
    case False
    then have "Symbol NonTerminal i \<noteq> s" for i by (auto simp: is_non_terminal_def)
    then show ?thesis using False Cons.IH [of ks] Cons.prems by auto
  qed
qed simp

lemma those_map: "(\<And>x. x \<in> set xs \<Longrightarrow> f x = Some (g x)) \<Longrightarrow> those (map f xs) = Some (map g xs)"
  by (induction xs) simp_all


lemma variable_symbols_range:
  assumes "variable_symbols vs s = Some y"
  shows "is_non_terminal y \<and> index y < length vs"
proof -
  from assms obtain i where "i < length vs" "y = non_terminal i" unfolding variable_symbols_iff by blast
  then show ?thesis by (simp add: is_non_terminal_def non_terminal_def as_u32_def le_less_trans [OF mod_less_eq_dividend])
qed

text \<open>What an external token is recorded as.\<close>

definition external_entry :: "'t InputGrammar \<Rightarrow> RuleId \<Rightarrow> StrId option \<times> VariableType" where
  "external_entry g i = (case node (g_pool g) i of
     Some (NamedSymbol s) \<Rightarrow> (Some s, variable_type_for_name (pool_name (g_pool g) s))
   | _ \<Rightarrow> (None, Anonymous))"

lemma external_tokens_correct:
  assumes ext: "\<forall>i \<in> set roots. \<exists>t \<in> set ts. rep (g_pool g) i t" and nm: "\<forall>sid \<in> set (names_of ts). resolve (str_pool (g_pool g)) sid \<noteq> None"
  shows "those (map (external_token (g_pool g)) roots) = Some (map (external_entry g) roots)"
proof (rule those_map)
  fix i assume "i \<in> set roots"
  then obtain t where t: "t \<in> set ts" "rep (g_pool g) i t" using ext by blast
  then obtain n where n: "node (g_pool g) i = Some n" using rep_node by blast
  show "external_token (g_pool g) i = Some (external_entry g i)"
  proof (cases "\<exists>sid. n = NamedSymbol sid")
    case True
    then obtain sid where sid: "n = NamedSymbol sid" by blast
    then have "t = TNamed sid" using rep_node [OF t(2)] n by auto
    then have "sid \<in> set (names_of ts)" unfolding set_names_of using t(1) by force
    then show ?thesis using n sid nm by (auto simp: external_token_def external_entry_def)
  qed (use n in \<open>cases n; simp add: external_token_def external_entry_def\<close>)
qed

definition name_of :: "'t InputGrammar \<Rightarrow> StrId \<Rightarrow> string" where
  "name_of g s = the (resolve (str_pool (g_pool g)) s)"

definition mentioned :: "'t InputGrammar \<Rightarrow> rtree list \<Rightarrow> StrId set" where
  "mentioned g ts = v_name ` set (g_variables g) \<union> set (names_of ts) \<union> set (g_supertype_names g) \<union>
     set (concat (g_conflict_names g)) \<union> set_option (g_word_name g)"

text \<open>What follows the rewriting of the rules, for a table \<open>f\<close> under which all rules are defined.\<close>

definition finish_interning :: "'t InputGrammar \<Rightarrow> (StrId \<rightharpoonup> Symbol) \<Rightarrow> (StrId option \<times> VariableType) list \<Rightarrow> VariableType list \<Rightarrow>
    't RulePool \<Rightarrow> Diagnostic list \<Rightarrow> (InternSymbolsError + 't InputGrammar \<times> Diagnostic list \<times> InternedGrammarMeta) option" where
  "finish_interning g f external_tokens kinds P' d1 =
       and_then (try_map (lookup_name P' f UndefinedSupertype) (g_supertype_names g)) (\<lambda>supertypes0.
       and_then (try_map (try_map (lookup_name P' f UndefinedConflict)) (g_conflict_names g)) (\<lambda>conflicts.
       let inline = List.map_filter f (g_inline_names g) in
       Option.bind (drop_inlined P' inline (zip (g_supertype_names g) supertypes0) d1) (\<lambda>(supertypes, d2).
       and_then (case g_word_name g of
           None \<Rightarrow> Some (Inr None)
         | Some s \<Rightarrow> and_then (lookup_name P' f UndefinedWordToken s) (\<lambda>sy. Some (Inr (Some sy)))) (\<lambda>word.
       Option.bind (hide_supertypes supertypes kinds) (\<lambda>kinds'.
       Some (Inr (g\<lparr>g_pool := P'\<rparr>, d2, \<lparr>im_kinds = kinds', im_external_tokens = external_tokens, im_supertypes = supertypes,
         im_conflicts = conflicts, im_inline = inline, im_word = word\<rparr>)))))))"

text \<open>The warnings about supertypes that are inlined.\<close>

definition inlined_warnings :: "'t InputGrammar \<Rightarrow> (StrId \<rightharpoonup> Symbol) \<Rightarrow> Diagnostic list" where
  "inlined_warnings g f = [SupertypeInlined (name_of g s). s \<leftarrow> g_supertype_names g, the (f s) \<in> set (List.map_filter f (g_inline_names g))]"

definition finished :: "'t InputGrammar \<Rightarrow> (StrId \<rightharpoonup> Symbol) \<Rightarrow> InternedGrammarMeta \<Rightarrow> bool" where
  "finished g f meta \<longleftrightarrow> im_inline meta = List.map_filter f (g_inline_names g) \<and>
     im_external_tokens meta = map (external_entry g) (g_external_roots g) \<and>
     im_supertypes meta = filter (\<lambda>s. s \<notin> set (im_inline meta)) (map (the \<circ> f) (g_supertype_names g)) \<and>
     im_conflicts meta = map (map (the \<circ> f)) (g_conflict_names g) \<and> im_word meta = map_option (the \<circ> f) (g_word_name g) \<and>
     length (im_kinds meta) = length (g_variables g) \<and>
     (\<forall>i < length (g_variables g). im_kinds meta ! i =
        (if Symbol NonTerminal i \<in> set (im_supertypes meta) then Hidden else variable_type_for_name (name_of g (v_name (g_variables g ! i)))))"

definition word_names :: "'t InputGrammar \<Rightarrow> StrId list" where
  "word_names g = (case g_word_name g of None \<Rightarrow> [] | Some s \<Rightarrow> [s])"

lemma finish_interning_correct:
  assumes nm: "\<forall>s \<in> set (g_supertype_names g) \<union> set (concat (g_conflict_names g)) \<union> set (word_names g). resolve (str_pool P') s \<noteq> None"
    and rng: "\<forall>s y. f s = Some y \<longrightarrow> is_non_terminal y \<longrightarrow> index y < length (g_variables g)" and P': "str_pool P' = str_pool (g_pool g)"
  shows "case first_undefined f (g_supertype_names g) of
      Some s \<Rightarrow> finish_interning g f (map (external_entry g) (g_external_roots g)) (map (\<lambda>v. variable_type_for_name (name_of g (v_name v))) (g_variables g)) P' d1 =
        Some (Inl (UndefinedSupertype (name_of g s)))
    | None \<Rightarrow> (case first_undefined f (concat (g_conflict_names g)) of
      Some s \<Rightarrow> finish_interning g f (map (external_entry g) (g_external_roots g)) (map (\<lambda>v. variable_type_for_name (name_of g (v_name v))) (g_variables g)) P' d1 =
        Some (Inl (UndefinedConflict (name_of g s)))
    | None \<Rightarrow> (case first_undefined f (word_names g) of
      Some s \<Rightarrow> finish_interning g f (map (external_entry g) (g_external_roots g)) (map (\<lambda>v. variable_type_for_name (name_of g (v_name v))) (g_variables g)) P' d1 =
        Some (Inl (UndefinedWordToken (name_of g s)))
    | None \<Rightarrow> \<exists>meta. finish_interning g f (map (external_entry g) (g_external_roots g)) (map (\<lambda>v. variable_type_for_name (name_of g (v_name v))) (g_variables g)) P' d1 =
        Some (Inr (g\<lparr>g_pool := P'\<rparr>, d1 @ inlined_warnings g f, meta)) \<and> finished g f meta))"
proof -
  let ?ext = "map (external_entry g) (g_external_roots g)" and ?kinds = "map (\<lambda>v. variable_type_for_name (name_of g (v_name v))) (g_variables g)"
  let ?sup = "map (the \<circ> f) (g_supertype_names g)" and ?in = "List.map_filter f (g_inline_names g)"
  have name: "pool_name P' s = name_of g s" for s by (simp add: name_of_def P')
  have sup: "try_map (lookup_name P' f UndefinedSupertype) (g_supertype_names g) = (case first_undefined f (g_supertype_names g) of
      None \<Rightarrow> Some (Inr ?sup) | Some s \<Rightarrow> Some (Inl (UndefinedSupertype (name_of g s))))"
    using lookup_all [of "g_supertype_names g" P' f UndefinedSupertype] nm unfolding name by simp
  have con: "try_map (try_map (lookup_name P' f UndefinedConflict)) (g_conflict_names g) = (case first_undefined f (concat (g_conflict_names g)) of
      None \<Rightarrow> Some (Inr (map (map (the \<circ> f)) (g_conflict_names g))) | Some s \<Rightarrow> Some (Inl (UndefinedConflict (name_of g s))))"
    using lookup_all_lists [of "g_conflict_names g" P' f UndefinedConflict] nm unfolding name by simp
  have word: "(case g_word_name g of None \<Rightarrow> Some (Inr None)
      | Some s \<Rightarrow> and_then (lookup_name P' f UndefinedWordToken s) (\<lambda>sy. Some (Inr (Some sy)))) = (case first_undefined f (word_names g) of
      None \<Rightarrow> Some (Inr (map_option (the \<circ> f) (g_word_name g))) | Some s \<Rightarrow> Some (Inl (UndefinedWordToken (name_of g s))))"
    using nm by (cases "g_word_name g") (auto simp: word_names_def lookup_name_def name [symmetric] split: option.splits)
  show ?thesis
  proof (cases "first_undefined f (g_supertype_names g)")
    case (Some s)
    then show ?thesis unfolding finish_interning_def sup by simp
  next
    case sn: None
    show ?thesis
    proof (cases "first_undefined f (concat (g_conflict_names g))")
      case (Some s)
      then show ?thesis
        using drop_inlined_correct [of "zip (g_supertype_names g) ?sup" P' ?in d1] unfolding finish_interning_def sup con sn by simp
    next
      case cn: None
      have d: "drop_inlined P' ?in (zip (g_supertype_names g) ?sup) d1 = Some (filter (\<lambda>sy. sy \<notin> set ?in) ?sup, d1 @ inlined_warnings g f)"
      proof -
        have "map (\<lambda>(nm, _). SupertypeInlined (pool_name P' nm)) (filter (\<lambda>(_, sy). sy \<in> set ?in) (zip ns (map (the \<circ> f) ns))) =
            [SupertypeInlined (name_of g s). s \<leftarrow> ns, the (f s) \<in> set ?in]" for ns
          by (induction ns) (simp_all add: name)
        then show ?thesis using drop_inlined_correct [of "zip (g_supertype_names g) ?sup" P' ?in d1] nm
          by (auto simp: inlined_warnings_def dest: set_zip_leftD)
      qed
      have "set (g_supertype_names g) \<subseteq> dom f" using sn by (simp add: first_undefined_None)
      then have "\<forall>sy \<in> set (filter (\<lambda>sy. sy \<notin> set ?in) ?sup). is_non_terminal sy \<longrightarrow> index sy < length ?kinds" using rng by auto
      from hide_supertypes_correct [OF this] obtain ks where
        ks: "hide_supertypes (filter (\<lambda>sy. sy \<notin> set ?in) ?sup) ?kinds = Some ks" "length ks = length ?kinds"
          "\<forall>i < length ?kinds. ks ! i = (if Symbol NonTerminal i \<in> set (filter (\<lambda>sy. sy \<notin> set ?in) ?sup) then Hidden else ?kinds ! i)" by blast
      show ?thesis
      proof (cases "first_undefined f (word_names g)")
        case (Some s)
        then show ?thesis unfolding finish_interning_def sup con sn cn word by (simp add: d Let_def)
      next
        case None
        then show ?thesis using ks unfolding finish_interning_def finished_def sup con sn cn word by (simp add: d Let_def)
      qed
    qed
  qed
qed

section \<open>Properties\<close>

text \<open>C9. Interning a grammar terminates, and the outcome is determined. A name stands for the last variable of that name, or else for the
  first external token that is this name. The pass reports a hidden start rule, or else the first name that stands for nothing, in
  the order of the rules, then in the supertypes, the conflicts and as the word token. Otherwise every root stands for its old
  tree with each name replaced by its symbol, although nodes may be shared; the lists of names are translated, undefined inline
  names being skipped, inlined supertypes dropped and the remaining supertypes hidden; the external tokens are recorded by
  their names; and the warnings are those about sequences and choices of a single string or pattern, in order, followed by
  those about inlined supertypes.\<close>

theorem intern_symbols_correct:
  fixes g :: "'t InputGrammar"
  assumes r: "list_all2 (rep (g_pool g)) (map snd (grammar_roots g)) ts" and ne: "g_variables g \<noteq> []"
    and nm: "\<forall>s \<in> mentioned g ts. resolve (str_pool (g_pool g)) s \<noteq> None"
  shows "\<exists>f. (\<forall>s y. f s = Some y \<longleftrightarrow> stands_for g s y) \<and>
    (if variable_type_for_name (name_of g (v_name (hd (g_variables g)))) = Hidden then intern_symbols g d = Some (Inl HiddenStartRule)
     else case first_undefined f (names_of ts) of Some s \<Rightarrow> intern_symbols g d = Some (Inl (Undefined (name_of g s)))
     | None \<Rightarrow> (case first_undefined f (g_supertype_names g) of Some s \<Rightarrow> intern_symbols g d = Some (Inl (UndefinedSupertype (name_of g s)))
     | None \<Rightarrow> (case first_undefined f (concat (g_conflict_names g)) of Some s \<Rightarrow> intern_symbols g d = Some (Inl (UndefinedConflict (name_of g s)))
     | None \<Rightarrow> (case first_undefined f (word_names g) of Some s \<Rightarrow> intern_symbols g d = Some (Inl (UndefinedWordToken (name_of g s)))
     | None \<Rightarrow> \<exists>P' meta. intern_symbols g d = Some (Inr (g\<lparr>g_pool := P'\<rparr>,
           d @ root_warnings (g_pool g) (map fst (grammar_roots g)) ts @ inlined_warnings g f, meta)) \<and>
         list_all2 (\<lambda>i t. rep P' i (intern_tree f t)) (map snd (grammar_roots g)) ts \<and> finished g f meta))))"
proof -
  let ?P = "g_pool g" and ?vs = "g_variables g" and ?kinds = "map (\<lambda>v. variable_type_for_name (name_of g (v_name v))) (g_variables g)"
  let ?toks = "map (external_entry g) (g_external_roots g)"
  have res: "resolve (str_pool ?P) s = Some (name_of g s)" if "s \<in> mentioned g ts" for s using nm that by (auto simp: name_of_def)
  have nt: "\<forall>sid \<in> set (names_of ts). resolve (str_pool ?P) sid \<noteq> None" using nm by (auto simp: mentioned_def)
  have ext: "\<forall>i \<in> set (g_external_roots g). \<exists>t \<in> set ts. rep ?P i t"
  proof
    fix i assume "i \<in> set (g_external_roots g)"
    then have "i \<in> set (map snd (grammar_roots g))" by (auto simp: grammar_roots_def)
    then show "\<exists>t \<in> set ts. rep ?P i t" using r by (metis in_set_conv_nth list_all2_conv_all_nth)
  qed
  have "\<forall>i \<in> set (g_external_roots g). node ?P i \<noteq> None" using ext rep_node by fastforce
  from add_external_correct [OF this, of 0 "variable_symbols ?vs", unfolded add_0] obtain f where
    f: "add_external_names ?P 0 (g_external_roots g) (variable_symbols ?vs) = Some f"
    "\<forall>s. f s = (case variable_symbols ?vs s of Some y \<Rightarrow> Some y
       | None \<Rightarrow> map_option external (position (\<lambda>i. node ?P i = Some (NamedSymbol s)) (g_external_roots g)))" by blast
  have stands: "f s = Some y \<longleftrightarrow> stands_for g s y" for s y
  proof (cases "variable_symbols ?vs s")
    case None
    then have "s \<notin> v_name ` set ?vs" by (simp add: variable_symbols_none)
    moreover from this have "\<not> (\<exists>i < length ?vs. v_name (?vs ! i) = s)" by (metis image_eqI nth_mem)
    ultimately show ?thesis using f(2) None unfolding stands_for_def by (auto simp: position_least)
  next
    case (Some z)
    then have "s \<in> v_name ` set ?vs" using variable_symbols_none by (metis option.distinct(1))
    then show ?thesis using f(2) Some variable_symbols_iff [of ?vs s y] unfolding stands_for_def by auto
  qed
  have v0: "vec_get ?vs 0 = Some (hd ?vs)" using ne by (simp add: vec_get_def hd_conv_nth)
  have "v_name (hd ?vs) \<in> mentioned g ts" using ne by (simp add: mentioned_def)
  note start = res [OF this]
  note tok = external_tokens_correct [OF ext nt]
  have kinds: "those (map (\<lambda>v. map_option variable_type_for_name (resolve (str_pool ?P) (v_name v))) ?vs) = Some ?kinds"
    using res by (intro those_map) (simp add: mentioned_def)
  let ?roots = "intern_roots f (grammar_roots g) ?P d"
  have eq: "intern_symbols g d = (if variable_type_for_name (name_of g (v_name (hd ?vs))) = Hidden then Some (Inl HiddenStartRule)
      else and_then ?roots (\<lambda>(P', d1). finish_interning g f ?toks ?kinds P' d1))"
    unfolding intern_symbols_def Let_def f(1) bind.bind_lunit v0 start tok kinds finish_interning_def ..
  have vn: "\<forall>s \<in> set (map fst (grammar_roots g)). s \<noteq> None \<longrightarrow> resolve (str_pool ?P) (the s) \<noteq> None"
    using res by (auto simp: grammar_roots_def mentioned_def)
  let ?dd = "d @ root_warnings ?P (map fst (grammar_roots g)) ts"
  have w: "walk_outcome f ?P {} (map snd (grammar_roots g)) ts ?dd ?roots"
    using intern_roots_correct [OF r nt vn, of f "{}" d] by (simp add: rewritten_empty)
  have rng: "\<forall>s y. f s = Some y \<longrightarrow> is_non_terminal y \<longrightarrow> index y < length ?vs"
  proof (intro allI impI)
    fix s y assume y: "f s = Some y" "is_non_terminal y"
    have "variable_symbols ?vs s = Some y"
    proof (cases "variable_symbols ?vs s")
      case None
      then show ?thesis using f(2) y by (auto simp: is_non_terminal_def external_def)
    qed (use f(2) y in auto)
    then show "index y < length ?vs" using variable_symbols_range [of ?vs s y] by simp
  qed
  show ?thesis
  proof (intro exI [of _ f] conjI allI stands)
    show "if variable_type_for_name (name_of g (v_name (hd (g_variables g)))) = Hidden then intern_symbols g d = Some (Inl HiddenStartRule)
     else case first_undefined f (names_of ts) of Some s \<Rightarrow> intern_symbols g d = Some (Inl (Undefined (name_of g s)))
     | None \<Rightarrow> (case first_undefined f (g_supertype_names g) of Some s \<Rightarrow> intern_symbols g d = Some (Inl (UndefinedSupertype (name_of g s)))
     | None \<Rightarrow> (case first_undefined f (concat (g_conflict_names g)) of Some s \<Rightarrow> intern_symbols g d = Some (Inl (UndefinedConflict (name_of g s)))
     | None \<Rightarrow> (case first_undefined f (word_names g) of Some s \<Rightarrow> intern_symbols g d = Some (Inl (UndefinedWordToken (name_of g s)))
     | None \<Rightarrow> \<exists>P' meta. intern_symbols g d = Some (Inr (g\<lparr>g_pool := P'\<rparr>,
           d @ root_warnings (g_pool g) (map fst (grammar_roots g)) ts @ inlined_warnings g f, meta)) \<and>
         list_all2 (\<lambda>i t. rep P' i (intern_tree f t)) (map snd (grammar_roots g)) ts \<and> finished g f meta)))"
    proof (cases "variable_type_for_name (name_of g (v_name (hd ?vs))) = Hidden")
      case True
      then show ?thesis unfolding if_P [OF True] eq by simp
    next
      case visible: False
      show ?thesis
      proof (cases "first_undefined f (names_of ts)")
        case (Some s)
        then have "?roots = Some (Inl (Undefined (name_of g s)))" using w unfolding walk_outcome_def name_of_def by simp
        then show ?thesis unfolding if_not_P [OF visible] eq Some by simp
      next
        case None
        then obtain E where E: "?roots = Some (Inr (rewritten f ?P E, ?dd))" "interned f ?P E (map snd (grammar_roots g)) ts"
          using w unfolding walk_outcome_def by auto
        have e: "intern_symbols g d = finish_interning g f ?toks ?kinds (rewritten f ?P E) ?dd"
          unfolding eq if_not_P [OF visible] E(1) by simp
        have nf: "\<forall>s \<in> set (g_supertype_names g) \<union> set (concat (g_conflict_names g)) \<union> set (word_names g).
            resolve (str_pool (rewritten f ?P E)) s \<noteq> None" using nm by (auto simp: mentioned_def word_names_def split: option.splits)
        have "list_all2 (\<lambda>i t. rep (rewritten f ?P E) i (intern_tree f t)) (map snd (grammar_roots g)) ts" by (rule internedD [OF E(2) subset_refl])
        then show ?thesis using finish_interning_correct [OF nf rng rewritten_simps(4), of ?dd]
          unfolding e if_not_P [OF visible] None append_assoc by (auto split: option.splits)
      qed
    qed
  qed
qed

text \<open>A variable \<open>a\<close> that is the sequence of the external token \<open>b\<close> and itself; \<open>b\<close> is the word token, \<open>a\<close> a supertype.\<close>

definition two_names :: "unit InputGrammar" where
  "two_names = \<lparr>g_pool = \<lparr>nodes = [Seq (RuleIdRange 0 2), NamedSymbol 2, NamedSymbol 1, NamedSymbol 2], children = [1, 2], params_vec = [],
       str_pool = \<lparr>buf = ''ab'', spans = [\<lparr>span_start = 0, span_end = 1\<rparr>, \<lparr>span_start = 1, span_end = 2\<rparr>], ids = ()\<rparr>, scratch = []\<rparr>,
     g_name = 1, g_variables = [\<lparr>v_name = 1, v_root = 0\<rparr>], g_external_roots = [3], g_extra_roots = [], g_reserved_sets = [],
     g_supertype_names = [1], g_conflict_names = [], g_inline_names = [], g_word_name = Some 2, g_precedence_orderings = []\<rparr>"

theorem intern_symbols_correct_witness:
  "\<exists>P' meta. intern_symbols two_names [] = Some (Inr (two_names\<lparr>g_pool := P'\<rparr>, [], meta)) \<and>
     rep P' 0 (TSeq [TSym External 0, TSym NonTerminal 0]) \<and> im_external_tokens meta = [(Some 2, Named)] \<and>
     im_supertypes meta = [Symbol NonTerminal 0] \<and> im_word meta = Some (Symbol External 0)"
proof -
  have nodes: "node (g_pool two_names) 0 = Some (Seq (RuleIdRange 0 2))" "node (g_pool two_names) 1 = Some (NamedSymbol 2)"
    "node (g_pool two_names) 2 = Some (NamedSymbol 1)" "node (g_pool two_names) 3 = Some (NamedSymbol 2)"
    by (simp_all add: two_names_def node_def vec_get_def)
  have res: "resolve (str_pool (g_pool two_names)) 1 = Some ''a''" "resolve (str_pool (g_pool two_names)) 2 = Some ''b''"
    by (simp_all add: two_names_def resolve_def span_str_def vec_get_def vec_slice_def id_index_def)
  have roots: "grammar_roots two_names = [(Some 1, 0), (None, 3)]" by (simp add: grammar_roots_def two_names_def)
  let ?ts = "[TSeq [TNamed 2, TNamed 1], TNamed 2]"
  have "child_slice (g_pool two_names) (RuleIdRange 0 2) = Some [1, 2]" by (simp add: two_names_def child_slice_def vec_slice_def)
  then have "rep (g_pool two_names) 0 (TSeq [TNamed 2, TNamed 1])" using nodes by (intro rep_Seq) (auto intro: rep_Named)
  then have r: "list_all2 (rep (g_pool two_names)) (map snd (grammar_roots two_names)) ?ts"
    using nodes(4) by (auto simp: roots intro: rep_Named)
  have g: "g_variables two_names = [\<lparr>v_name = 1, v_root = 0\<rparr>]" "g_external_roots two_names = [3]" "g_supertype_names two_names = [1]"
    "g_conflict_names two_names = []" "g_inline_names two_names = []" "g_word_name two_names = Some 2" by (simp_all add: two_names_def)
  have nm: "\<forall>s \<in> mentioned two_names ?ts. resolve (str_pool (g_pool two_names)) s \<noteq> None"
    using res by (simp add: mentioned_def g)
  have ne: "g_variables two_names \<noteq> []" by (simp add: g)
  have name: "name_of two_names 1 = ''a''" "name_of two_names 2 = ''b''" using res by (simp_all add: name_of_def)
  have st: "stands_for two_names 1 (Symbol NonTerminal 0)" "stands_for two_names 2 (Symbol External 0)"
    using nodes(4) by (auto simp: stands_for_def g non_terminal_def external_def)
  from intern_symbols_correct [OF r ne nm, of "[]"] obtain f where f: "\<forall>s y. f s = Some y \<longleftrightarrow> stands_for two_names s y"
    and out: "if variable_type_for_name (name_of two_names (v_name (hd (g_variables two_names)))) = Hidden then intern_symbols two_names [] = Some (Inl HiddenStartRule)
     else case first_undefined f (names_of ?ts) of Some s \<Rightarrow> intern_symbols two_names [] = Some (Inl (Undefined (name_of two_names s)))
     | None \<Rightarrow> (case first_undefined f (g_supertype_names two_names) of Some s \<Rightarrow> intern_symbols two_names [] = Some (Inl (UndefinedSupertype (name_of two_names s)))
     | None \<Rightarrow> (case first_undefined f (concat (g_conflict_names two_names)) of Some s \<Rightarrow> intern_symbols two_names [] = Some (Inl (UndefinedConflict (name_of two_names s)))
     | None \<Rightarrow> (case first_undefined f (word_names two_names) of Some s \<Rightarrow> intern_symbols two_names [] = Some (Inl (UndefinedWordToken (name_of two_names s)))
     | None \<Rightarrow> \<exists>P' meta. intern_symbols two_names [] = Some (Inr (two_names\<lparr>g_pool := P'\<rparr>,
           [] @ root_warnings (g_pool two_names) (map fst (grammar_roots two_names)) ?ts @ inlined_warnings two_names f, meta)) \<and>
         list_all2 (\<lambda>i t. rep P' i (intern_tree f t)) (map snd (grammar_roots two_names)) ?ts \<and> finished two_names f meta)))"
    by (elim exE conjE)
  have fs: "f 1 = Some (Symbol NonTerminal 0)" "f 2 = Some (Symbol External 0)" using f st by blast+
  have "variable_type_for_name ''a'' \<noteq> Hidden" "variable_type_for_name ''b'' = Named" by (simp_all add: variable_type_for_name_def)
  then have vis: "variable_type_for_name (name_of two_names (v_name (hd (g_variables two_names)))) \<noteq> Hidden" by (simp add: g name [simplified])
  have u: "first_undefined f (names_of ?ts) = None" "first_undefined f (g_supertype_names two_names) = None"
    "first_undefined f (concat (g_conflict_names two_names)) = None" "first_undefined f (word_names two_names) = None"
    using fs by (simp_all add: g word_names_def)
  obtain P' meta where m: "intern_symbols two_names [] = Some (Inr (two_names\<lparr>g_pool := P'\<rparr>,
      root_warnings (g_pool two_names) [Some 1, None] ?ts @ inlined_warnings two_names f, meta))"
    "rep P' 0 (intern_tree f (TSeq [TNamed 2, TNamed 1]))" "finished two_names f meta"
    using out unfolding if_not_P [OF vis] u option.case append_Nil by (auto simp: roots)
  have "root_warnings (g_pool two_names) [Some 1, None] ?ts = []" by (simp add: unary_warnings_def)
  moreover have "inlined_warnings two_names f = []" by (simp add: inlined_warnings_def g map_filter_simps)
  moreover have "external_entry two_names 3 = (Some 2, Named)" using nodes(4) res(2) \<open>variable_type_for_name ''b'' = Named\<close> by (simp add: external_entry_def)
  ultimately show ?thesis using m fs by (auto simp: finished_def g map_filter_simps)
qed

end
