(* ===== verification/Production_Store.thy ===== *)
theory Production_Store
  imports Grammars
begin

text \<open>
  What the passes over flattened grammars share: the metadata record they read
  (\<^verbatim>\<open>prepare_grammar/extract_tokens.rs\<close>), reading and appending productions of a \<open>ProductionStore\<close>, and the
  view of a store as the list of its productions with their steps.
\<close>

section \<open>Definitions\<close>

record ExtractedGrammarMeta =
  m_kinds :: "VariableType list"
  m_extra_symbols :: "Symbol list"
  m_external_tokens :: "ExternalToken list"
  m_reserved_sets :: "(StrId \<times> Symbol list) list"
  m_supertypes :: "Symbol list"
  m_conflicts :: "Symbol list list"
  m_inline :: "Symbol list"
  m_word :: "Symbol option"

definition prod_steps :: "ProductionStore \<Rightarrow> Production \<Rightarrow> ProductionStep list option" where
  "prod_steps out p = vec_slice (st_steps out) (fst (step_range p)) (snd (step_range p))"

definition push_production :: "ProductionStore \<Rightarrow> ProductionStep list \<Rightarrow> int \<Rightarrow> bool \<Rightarrow> ProductionStore" where
  "push_production out sts dyn at_eof = out\<lparr>
     st_steps := st_steps out @ sts,
     st_productions := st_productions out @ [\<lparr>steps_start = as_u32 (length (st_steps out)), steps_len = as_u32 (length sts),
       prod_dynamic_precedence = dyn, requires_eof_lookahead = at_eof\<rparr>]\<rparr>"

text \<open>\<open>i32::abs\<close>; the absolute value of the least number does not fit and wraps to it.\<close>

definition i32_abs :: "int \<Rightarrow> int" where
  "i32_abs x = (if x = - (2 ^ 31) then x else \<bar>x\<bar>)"

section \<open>The productions of a store\<close>

type_synonym flat_production = "ProductionStep list \<times> int \<times> bool"

definition view :: "ProductionStore \<Rightarrow> Production \<Rightarrow> flat_production" where
  "view out p = (take (steps_len p) (drop (steps_start p) (st_steps out)), prod_dynamic_precedence p, requires_eof_lookahead p)"

definition views :: "ProductionStore \<Rightarrow> flat_production list" where
  "views out = map (view out) (st_productions out)"

definition store_inv :: "ProductionStore \<Rightarrow> bool" where
  "store_inv out \<longleftrightarrow> (\<forall>p \<in> set (st_productions out). steps_start p + steps_len p \<le> length (st_steps out))"

lemma store_invD: "store_inv out \<Longrightarrow> p \<in> set (st_productions out) \<Longrightarrow> prod_steps out p = Some (fst (view out p))"
  by (auto simp: store_inv_def prod_steps_def step_range_def vec_slice_def view_def)

lemma view_flags [simp]:
  "fst (snd (view out p)) = prod_dynamic_precedence p" "snd (snd (view out p)) = requires_eof_lookahead p"
  by (simp_all add: view_def)

lemma view_var_prods [simp]: "view (out\<lparr>st_var_prods := x\<rparr>) = view out" "views (out\<lparr>st_var_prods := x\<rparr>) = views out"
  by (simp_all add: view_def views_def fun_eq_iff)

lemma length_views [simp]: "length (views out) = length (st_productions out)"
  by (simp add: views_def)

lemma push_production_correct:
  assumes inv: "store_inv out" and small: "length (st_steps out) + length sts < 2 ^ 32"
  shows "store_inv (push_production out sts dyn at_eof)"
    "views (push_production out sts dyn at_eof) = views out @ [(sts, dyn, at_eof)]"
    "st_var_prods (push_production out sts dyn at_eof) = st_var_prods out"
    "st_steps (push_production out sts dyn at_eof) = st_steps out @ sts"
    "length (st_productions (push_production out sts dyn at_eof)) = Suc (length (st_productions out))"
proof -
  have old: "view (push_production out sts dyn at_eof) p = view out p" if p: "p \<in> set (st_productions out)" for p
  proof -
    have le: "steps_start p + steps_len p \<le> length (st_steps out)" using inv p by (simp add: store_inv_def)
    then have "steps_len p \<le> length (drop (steps_start p) (st_steps out))" by simp
    then show ?thesis using le by (simp add: view_def push_production_def)
  qed
  show "views (push_production out sts dyn at_eof) = views out @ [(sts, dyn, at_eof)]"
    using old small unfolding views_def by (simp add: push_production_def view_def)
  show "store_inv (push_production out sts dyn at_eof)"
    using inv small by (auto simp: store_inv_def push_production_def)
qed (simp_all add: push_production_def)

lemma vec_slice_all [simp]: "k \<le> length xs \<Longrightarrow> vec_slice xs k (length xs) = Some (drop k xs)"
  by (simp add: vec_slice_def)

section \<open>Steps keep their symbol\<close>

lemma kind_set_flags:
  assumes "m AND KIND_MASK = 0" "b AND KIND_MASK = 0"
  shows "step_symbol (set_flags m b st) = step_symbol st"
proof -
  have "flags (set_flags m b st) AND KIND_MASK = flags st AND KIND_MASK" unfolding flags_set_flags by (rule mask_other [OF assms])
  moreover have "sym_index (set_flags m b st) = sym_index st" by (simp add: set_flags_def)
  ultimately show ?thesis by (simp only: step_symbol_def)
qed

lemma step_symbol_update [simp]:
  "step_symbol (st\<lparr>prec_val := x\<rparr>) = step_symbol st" "step_symbol (st\<lparr>ps_alias := y\<rparr>) = step_symbol st"
  "step_symbol (st\<lparr>ps_field := y\<rparr>) = step_symbol st"
  by (simp_all add: step_symbol_def)

lemma step_symbol_set [simp]:
  "step_symbol (set_precedence pr st) = step_symbol st" "step_symbol (set_associativity a st) = step_symbol st"
  "step_symbol (set_alias al st) = step_symbol st" "step_symbol (set_field f st) = step_symbol st"
proof -
  have d: "PREC_MASK AND KIND_MASK = 0" "ASSOC_MASK AND KIND_MASK = 0" "ALIAS_NAMED AND KIND_MASK = 0" "PREC_INTEGER AND KIND_MASK = 0"
    "PREC_NAME AND KIND_MASK = 0" "ASSOC_LEFT AND KIND_MASK = 0" "ASSOC_RIGHT AND KIND_MASK = 0"
    by (simp_all add: mask_defs)
  show "step_symbol (set_precedence pr st) = step_symbol st"
    by (cases pr) (simp_all add: set_precedence_def kind_set_flags d)
  show "step_symbol (set_associativity a st) = step_symbol st"
    by (cases a; cases "the a") (simp_all add: set_associativity_def kind_set_flags d)
  show "step_symbol (set_alias al st) = step_symbol st"
    by (simp add: set_alias_def set_alias_named_def kind_set_flags d)
  show "step_symbol (set_field f st) = step_symbol st" by (simp add: set_field_def)
qed

end
