(* ===== verification/Flatten_Grammar.thy ===== *)
theory Flatten_Grammar
  imports Production_Store
begin

text \<open>
  \<^verbatim>\<open>crates/generate/src/prepare_grammar/flatten_grammar.rs\<close>: every variable's rule tree becomes a list of
  productions. A walk follows one branch of every choice, as a cursor prescribes; the cursor is then
  advanced like a mixed-radix counter and the walk repeated. The walks recurse over node ids, so they
  are partial functions; an error is an \<^term>\<open>Inl\<close>. Debug assertions are left out.
\<close>

section \<open>Errors and the state of a walk\<close>

datatype FlattenGrammarError =
    NoReservedWordSet string
  | TooManyReservedWordSets nat
  | EmptyString string
  | RecursiveInline string
  | NoReachableProductions string

record FlattenCtx =
  fc_prec :: Precedence
  fc_assoc :: "Associativity option"
  fc_alias :: "Alias option"
  fc_field :: "StrId option"
  fc_reserved :: nat

definition default_ctx :: FlattenCtx where
  "default_ctx = \<lparr>fc_prec = PrecNone, fc_assoc = None, fc_alias = None, fc_field = None, fc_reserved = 0\<rparr>"

record ChoiceCursor =
  cc_decisions :: "nat list"
  cc_arities :: "nat list"
  cc_depth :: nat

definition reset_choices :: "ChoiceCursor \<Rightarrow> ChoiceCursor" where
  "reset_choices c = c\<lparr>cc_decisions := [], cc_arities := [], cc_depth := 0\<rparr>"

definition begin_path :: "ChoiceCursor \<Rightarrow> ChoiceCursor" where
  "begin_path c = c\<lparr>cc_arities := [], cc_depth := 0\<rparr>"

definition decision :: "nat list \<Rightarrow> nat \<Rightarrow> nat" where
  "decision ds i = (case vec_get ds i of Some d \<Rightarrow> d | None \<Rightarrow> 0)"

definition select :: "ChoiceCursor \<Rightarrow> nat \<Rightarrow> ChoiceCursor \<times> nat" where
  "select c arity = (c\<lparr>cc_arities := cc_arities c @ [arity], cc_depth := cc_depth c + 1\<rparr>, decision (cc_decisions c) (cc_depth c))"

text \<open>The search of \<open>advance\<close> below a depth; the depth is always less than the number of arities.\<close>

fun advance_below :: "nat list \<Rightarrow> nat list \<Rightarrow> nat \<Rightarrow> nat list option" where
  "advance_below ars ds 0 = None"
| "advance_below ars ds (Suc i) =
     (if decision ds i + 1 < ars ! i then Some ((vec_resize (i + 1) 0 ds)[i := decision ds i + 1])
      else advance_below ars ds i)"

definition advance :: "ChoiceCursor \<Rightarrow> ChoiceCursor \<times> bool" where
  "advance c = (case advance_below (cc_arities c) (cc_decisions c) (length (cc_arities c)) of
     Some ds \<Rightarrow> (c\<lparr>cc_decisions := ds\<rparr>, True)
   | None \<Rightarrow> (c, False))"

record FlattenState =
  fs_steps :: "ProductionStep list"
  fs_choices :: ChoiceCursor
  fs_dyn_prec :: int
  fs_dead :: bool

definition default_state :: FlattenState where
  "default_state = \<lparr>fs_steps = [], fs_choices = \<lparr>cc_decisions = [], cc_arities = [], cc_depth = 0\<rparr>, fs_dyn_prec = 0, fs_dead = False\<rparr>"

definition reset_path :: "FlattenState \<Rightarrow> FlattenState" where
  "reset_path st = st\<lparr>fs_steps := [], fs_dyn_prec := 0, fs_dead := False, fs_choices := begin_path (fs_choices st)\<rparr>"

definition reset_variable :: "FlattenState \<Rightarrow> FlattenState" where
  "reset_variable st = reset_path (st\<lparr>fs_choices := reset_choices (fs_choices st)\<rparr>)"

definition push_step :: "FlattenState \<Rightarrow> SymbolType \<Rightarrow> nat \<Rightarrow> FlattenCtx \<Rightarrow> FlattenState" where
  "push_step st k i c = st\<lparr>fs_steps := fs_steps st @
     [pack (Symbol k i) (fc_prec c) (fc_assoc c) (fc_alias c) (fc_field c) (fc_reserved c)]\<rparr>"

definition update_last :: "(ProductionStep \<Rightarrow> ProductionStep) \<Rightarrow> FlattenState \<Rightarrow> FlattenState option" where
  "update_last f st = (if fs_steps st = [] then None
     else Some (st\<lparr>fs_steps := butlast (fs_steps st) @ [f (last (fs_steps st))]\<rparr>))"

definition restore_outer_prec :: "Precedence \<Rightarrow> FlattenState \<Rightarrow> FlattenState option" where
  "restore_outer_prec outer st = update_last (set_precedence outer) st"

definition restore_outer_assoc :: "Associativity option \<Rightarrow> FlattenState \<Rightarrow> FlattenState option" where
  "restore_outer_assoc outer st = update_last (set_associativity outer) st"

section \<open>One walk\<close>

definition metadata_ctx :: "MetadataParams \<Rightarrow> FlattenCtx \<Rightarrow> FlattenCtx" where
  "metadata_ctx p c = c\<lparr>
     fc_prec := (if precedence p \<noteq> PrecNone then precedence p else fc_prec c),
     fc_assoc := (if associativity p \<noteq> None then associativity p else fc_assoc c),
     fc_alias := (if p_alias p \<noteq> None then p_alias p else fc_alias c),
     fc_field := (if p_field p \<noteq> None then p_field p else fc_field c)\<rparr>"

definition raise_dyn_prec :: "int \<Rightarrow> int \<Rightarrow> int" where
  "raise_dyn_prec d d0 = (if i32_abs d > i32_abs d0 then d else d0)"

definition restore_outer :: "MetadataParams \<Rightarrow> FlattenCtx \<Rightarrow> FlattenState \<Rightarrow> FlattenState option" where
  "restore_outer p c st = do {
     st1 \<leftarrow> (if precedence p \<noteq> PrecNone then restore_outer_prec (fc_prec c) st else Some st);
     (if associativity p \<noteq> None then restore_outer_assoc (fc_assoc c) st1 else Some st1)
   }"

type_synonym walk_result = "(FlattenGrammarError + FlattenState \<times> bool) option"

fun apply_children :: "(RuleId \<Rightarrow> bool \<Rightarrow> FlattenState \<Rightarrow> walk_result) \<Rightarrow> bool \<Rightarrow> RuleId list \<Rightarrow> bool \<Rightarrow> FlattenState \<Rightarrow> walk_result" where
  "apply_children f at_end [] did_push st = Some (Inr (st, did_push))"
| "apply_children f at_end (c # cs) did_push st =
     Option.bind (f c (at_end \<and> cs = []) st) (\<lambda>r. case r of
       Inl e \<Rightarrow> Some (Inl e)
     | Inr q \<Rightarrow> if fs_dead (fst q) then Some (Inr (fst q, did_push \<or> snd q))
         else apply_children f at_end cs (did_push \<or> snd q) (fst q))"

lemma apply_children_mono [partial_function_mono]:
  assumes mono: "\<And>c b s. mono_option (\<lambda>f. B f c b s)"
  shows "mono_option (\<lambda>f. apply_children (B f) e cs d st)"
proof (induction cs arbitrary: d st)
  case (Cons c cs)
  have "mono_option (\<lambda>f. case r of
      Inl e \<Rightarrow> Some (Inl e)
    | Inr q \<Rightarrow> if fs_dead (fst q) then Some (Inr (fst q, d \<or> snd q)) else apply_children (B f) e cs (d \<or> snd q) (fst q))"
    for r :: "FlattenGrammarError + FlattenState \<times> bool"
    by (cases r) (auto intro!: partial_function_mono Cons.IH)
  then show ?case unfolding apply_children.simps by (rule bind_mono [OF mono])
qed (auto intro: partial_function_mono)

partial_function (option) apply_rule :: "'t RulePool \<Rightarrow> (StrId \<rightharpoonup> nat) \<Rightarrow> RuleId \<Rightarrow> FlattenCtx \<Rightarrow> bool \<Rightarrow> FlattenState \<Rightarrow> walk_result" where
  "apply_rule P reserved_ids i c at_end st = do {
     n \<leftarrow> node P i;
     case n of
       Sym k ix \<Rightarrow> Some (Inr (push_step st k ix c, True))
     | Seq r \<Rightarrow> do {
         cs \<leftarrow> child_slice P r;
         apply_children (\<lambda>child end_here s. apply_rule P reserved_ids child c end_here s) at_end cs False st
       }
     | Choice r \<Rightarrow>
         if r_len r = 0 then Some (Inr (st\<lparr>fs_dead := True\<rparr>, False))
         else do {
           let (cur, selected) = select (fs_choices st) (r_len r);
           cs \<leftarrow> child_slice P r;
           child \<leftarrow> vec_get cs selected;
           apply_rule P reserved_ids child c at_end (st\<lparr>fs_choices := cur\<rparr>)
         }
     | Eof \<Rightarrow> Some (Inr (push_step st (kind end_sym) (index end_sym) c, True))
     | Metadata pid rule \<Rightarrow> do {
         p \<leftarrow> params P pid;
         res \<leftarrow> apply_rule P reserved_ids rule (metadata_ctx p c) at_end
           (st\<lparr>fs_dyn_prec := raise_dyn_prec (dynamic_precedence p) (fs_dyn_prec st)\<rparr>);
         case res of
           Inl e \<Rightarrow> Some (Inl e)
         | Inr q \<Rightarrow> if snd q \<and> \<not> at_end then do { st' \<leftarrow> restore_outer p c (fst q); Some (Inr (st', snd q)) } else Some (Inr q)
       }
     | Reserved rule ctx \<Rightarrow>
         (case reserved_ids ctx of
            None \<Rightarrow> map_option (\<lambda>s. Inl (NoReservedWordSet s)) (resolve (str_pool P) ctx)
          | Some rs \<Rightarrow> apply_rule P reserved_ids rule (c\<lparr>fc_reserved := rs\<rparr>) at_end st)
     | _ \<Rightarrow> Some (Inr (st, False))
   }"

section \<open>Emitting productions\<close>

definition emit_ready :: "FlattenState \<Rightarrow> ProductionStore \<Rightarrow> nat \<Rightarrow> bool \<Rightarrow> (ProductionStore \<times> bool) option" where
  "emit_ready st out prod_start at_eof = do {
     ps \<leftarrow> vec_slice (st_productions out) prod_start (length (st_productions out));
     known \<leftarrow> any_m (\<lambda>p.
       if prod_dynamic_precedence p = fs_dyn_prec st \<and> requires_eof_lookahead p = at_eof
       then map_option (\<lambda>sts. sts = fs_steps st) (prod_steps out p)
       else Some False) ps;
     Some (if known then out else push_production out (fs_steps st) (fs_dyn_prec st) at_eof, True)
   }"

definition emit :: "FlattenState \<Rightarrow> ProductionStore \<Rightarrow> nat \<Rightarrow> (FlattenState \<times> ProductionStore \<times> bool) option" where
  "emit st out prod_start =
     (case position (\<lambda>s. step_symbol s = end_sym) (fs_steps st) of
        None \<Rightarrow> map_option (\<lambda>(out', b). (st, out', b)) (emit_ready st out prod_start False)
      | Some eof_index \<Rightarrow>
          if eof_index \<noteq> length (fs_steps st) - 1 then Some (st, out, False)
          else (let st' = st\<lparr>fs_steps := butlast (fs_steps st)\<rparr> in
            map_option (\<lambda>(out', b). (st', out', b)) (emit_ready st' out prod_start True)))"

section \<open>The pass\<close>

type_synonym flatten_result = "(FlattenGrammarError + FlattenState \<times> ProductionStore \<times> bool) option"

definition emit_path :: "FlattenState \<Rightarrow> ProductionStore \<Rightarrow> nat \<Rightarrow> bool \<Rightarrow> (FlattenState \<times> ProductionStore \<times> bool) option" where
  "emit_path st out prod_start dropped_for_eof =
     (if fs_dead st then Some (st, out, dropped_for_eof)
      else map_option (\<lambda>(st', out', b). (st', out', dropped_for_eof \<or> \<not> b)) (emit st out prod_start))"

partial_function (option) path_loop :: "'t RulePool \<Rightarrow> (StrId \<rightharpoonup> nat) \<Rightarrow> RuleId \<Rightarrow> nat \<Rightarrow> FlattenState \<Rightarrow> ProductionStore \<Rightarrow> bool \<Rightarrow> flatten_result" where
  "path_loop P reserved_ids root prod_start st out dropped_for_eof = do {
     res \<leftarrow> apply_rule P reserved_ids root default_ctx True st;
     case res of
       Inl e \<Rightarrow> Some (Inl e)
     | Inr q \<Rightarrow> do {
         (st1, out1, dropped1) \<leftarrow> emit_path (fst q) out prod_start dropped_for_eof;
         let (cur, advanced) = advance (fs_choices st1);
         if advanced then path_loop P reserved_ids root prod_start (reset_path (st1\<lparr>fs_choices := cur\<rparr>)) out1 dropped1
         else Some (Inr (st1\<lparr>fs_choices := cur\<rparr>, out1, dropped1))
       }
   }"

fun flatten_variables :: "'t RulePool \<Rightarrow> (StrId \<rightharpoonup> nat) \<Rightarrow> Variable list \<Rightarrow> FlattenState \<Rightarrow> ProductionStore \<Rightarrow>
    (FlattenGrammarError + FlattenState \<times> ProductionStore) option" where
  "flatten_variables P reserved_ids [] st out = Some (Inr (st, out))"
| "flatten_variables P reserved_ids (v # vs) st out = do {
     let prod_start = as_u32 (length (st_productions out));
     res \<leftarrow> path_loop P reserved_ids (v_root v) prod_start (reset_variable st) out False;
     case res of
       Inl e \<Rightarrow> Some (Inl e)
     | Inr (st1, out1, dropped_for_eof) \<Rightarrow>
         if dropped_for_eof \<and> prod_start = as_u32 (length (st_productions out1))
         then map_option (\<lambda>s. Inl (NoReachableProductions s)) (resolve (str_pool P) (v_name v))
         else flatten_variables P reserved_ids vs st1
           (out1\<lparr>st_var_prods := st_var_prods out1 @ [(prod_start, as_u32 (length (st_productions out1)))]\<rparr>)
   }"

definition variable_name :: "'t InputGrammar \<Rightarrow> nat \<Rightarrow> string option" where
  "variable_name g i = do { v \<leftarrow> vec_get (g_variables g) i; resolve (str_pool (g_pool g)) (v_name v) }"

fun check_productions :: "'t InputGrammar \<Rightarrow> ProductionStore \<Rightarrow> nat \<Rightarrow> bool \<Rightarrow> bool \<Rightarrow> Production list \<Rightarrow> (FlattenGrammarError + unit) option" where
  "check_productions g out i used inlined [] = Some (Inr ())"
| "check_productions g out i used inlined (p # ps) =
     (if used \<and> steps_len p = 0 \<and> \<not> requires_eof_lookahead p then map_option (\<lambda>s. Inl (EmptyString s)) (variable_name g i)
      else do {
        recursive \<leftarrow> (if inlined then map_option (list_ex (\<lambda>s. step_symbol s = non_terminal i)) (prod_steps out p) else Some False);
        if recursive then map_option (\<lambda>s. Inl (RecursiveInline s)) (variable_name g i)
        else check_productions g out i used inlined ps
      })"

fun check_variables :: "'t InputGrammar \<Rightarrow> ExtractedGrammarMeta \<Rightarrow> ProductionStore \<Rightarrow> nat \<Rightarrow> (nat \<times> nat) list \<Rightarrow> (FlattenGrammarError + unit) option" where
  "check_variables g meta out i [] = Some (Inr ())"
| "check_variables g meta out i ((p_start, p_end) # rs) = do {
     ps \<leftarrow> vec_slice (st_productions out) p_start p_end;
     res \<leftarrow> check_productions g out i (list_ex (\<lambda>s. step_symbol s = non_terminal i) (st_steps out))
       (non_terminal i \<in> set (m_inline meta)) ps;
     case res of Inl e \<Rightarrow> Some (Inl e) | Inr _ \<Rightarrow> check_variables g meta out (i + 1) rs
   }"

definition check :: "'t InputGrammar \<Rightarrow> ExtractedGrammarMeta \<Rightarrow> ProductionStore \<Rightarrow> (FlattenGrammarError + unit) option" where
  "check g meta out = check_variables g meta out 0 (st_var_prods out)"

text \<open>The index of a reserved word set; a later set of the same name wins.\<close>

definition reserved_ids_of :: "ExtractedGrammarMeta \<Rightarrow> StrId \<rightharpoonup> nat" where
  "reserved_ids_of meta = map_of (rev (zip (map fst (m_reserved_sets meta)) (map (\<lambda>i. i mod 2 ^ 16) [0..<length (m_reserved_sets meta)])))"

definition flatten_grammar :: "'t InputGrammar \<Rightarrow> ExtractedGrammarMeta \<Rightarrow> FlattenState \<Rightarrow> ProductionStore \<Rightarrow>
    (FlattenGrammarError + FlattenState \<times> ProductionStore) option" where
  "flatten_grammar g meta st out =
     (if length (m_reserved_sets meta) > 65535 then Some (Inl (TooManyReservedWordSets (length (m_reserved_sets meta))))
      else do {
        res \<leftarrow> flatten_variables (g_pool g) (reserved_ids_of meta) (g_variables g) st out;
        case res of
          Inl e \<Rightarrow> Some (Inl e)
        | Inr (st', out') \<Rightarrow> map_option (\<lambda>r. case r of Inl e \<Rightarrow> Inl e | Inr _ \<Rightarrow> Inr (st', out')) (check g meta out')
      })"

fun token_sets_of :: "(StrId \<times> Symbol list) list \<Rightarrow> TokenSet list option" where
  "token_sets_of [] = Some []"
| "token_sets_of ((_, symbols) # rest) = do { ts \<leftarrow> from_iter symbols; tss \<leftarrow> token_sets_of rest; Some (ts # tss) }"

definition assemble_syntax_grammar :: "'t InputGrammar \<Rightarrow> ExtractedGrammarMeta \<Rightarrow> ProductionStore \<Rightarrow> (SyntaxGrammar \<times> 't StrPool) option" where
  "assemble_syntax_grammar g meta out = do {
     sets \<leftarrow> token_sets_of (m_reserved_sets meta);
     Some (\<lparr>sg_variables = map (\<lambda>(v, k). \<lparr>sv_name = v_name v, sv_kind = k\<rparr>) (zip (g_variables g) (m_kinds meta)),
       sg_extra_symbols = m_extra_symbols meta, sg_expected_conflicts = m_conflicts meta, sg_external_tokens = m_external_tokens meta,
       sg_supertype_symbols = m_supertypes meta, sg_variables_to_inline = m_inline meta, sg_word_token = m_word meta,
       sg_precedence_orderings = g_precedence_orderings g,
       sg_reserved_word_sets = (if sets = [] then [new_tokens] else sets),
       sg_steps = st_steps out, sg_productions = st_productions out, sg_var_prods = st_var_prods out\<rparr>,
       str_pool (g_pool g))
   }"


section \<open>Decision trees\<close>

text \<open>The choices a walk meets form a tree; a list of decisions, missing ones read as 0, selects a leaf.\<close>

datatype 'r dtree = Leaf 'r | Branch "'r dtree list"

primrec leaves :: "'r dtree \<Rightarrow> 'r list" where
  "leaves (Leaf r) = [r]"
| "leaves (Branch ts) = concat (map leaves ts)"

primrec run :: "'r dtree \<Rightarrow> nat list \<Rightarrow> 'r \<times> nat list" where
  "run (Leaf r) ds = (r, [])"
| "run (Branch ts) ds = (let (r, ars) = (map run ts ! decision ds 0) (tl ds) in (r, length ts # ars))"

primrec fits :: "'r dtree \<Rightarrow> nat list \<Rightarrow> bool" where
  "fits (Leaf r) ds = True"
| "fits (Branch ts) ds = (decision ds 0 < length ts \<and> (map fits ts ! decision ds 0) (tl ds))"

primrec remaining :: "'r dtree \<Rightarrow> nat list \<Rightarrow> 'r list" where
  "remaining (Leaf r) ds = [r]"
| "remaining (Branch ts) ds = (map remaining ts ! decision ds 0) (tl ds) @ concat (map leaves (drop (Suc (decision ds 0)) ts))"

primrec proper :: "'r dtree \<Rightarrow> bool" where
  "proper (Leaf r) = True"
| "proper (Branch ts) = (ts \<noteq> [] \<and> list_all (\<lambda>x. x) (map proper ts))"

primrec dbind :: "'a dtree \<Rightarrow> ('a \<Rightarrow> 'b dtree) \<Rightarrow> 'b dtree" where
  "dbind (Leaf r) f = f r"
| "dbind (Branch ts) f = Branch (map (\<lambda>t. dbind t f) ts)"

lemma decision_simps [simp]: "decision [] i = 0" "decision (d # ds) 0 = d" "decision (d # ds) (Suc i) = decision ds i"
  by (simp_all add: decision_def vec_get_def)

lemma decision_Suc: "decision ds (Suc i) = decision (tl ds) i"
  by (cases ds) simp_all

lemma decision_drop: "decision (drop k ds) 0 = decision ds k"
  by (simp add: decision_def vec_get_def)

lemma proper_Branch: "proper (Branch ts) \<longleftrightarrow> ts \<noteq> [] \<and> (\<forall>t \<in> set ts. proper t)"
  by (simp add: list_all_iff)

lemma fits_start: "proper d \<Longrightarrow> fits d [] \<and> remaining d [] = leaves d"
proof (induction d)
  case (Branch ts)
  then have "ts \<noteq> []" "\<forall>t \<in> set ts. proper t" by (simp_all add: proper_Branch del: proper.simps)
  then obtain t us where ts: "ts = t # us" "proper t" by (cases ts) auto
  then have "fits t []" "remaining t [] = leaves t" using Branch.IH [of t] by simp_all
  then show ?case using ts by simp
qed simp

lemma concat_map_concat: "concat (map f (concat (map g xs))) = concat (map (\<lambda>x. concat (map f (g x))) xs)"
  by (induction xs) simp_all

lemma leaves_dbind: "leaves (dbind d f) = concat (map (\<lambda>r. leaves (f r)) (leaves d))"
proof (induction d)
  case (Branch ts)
  then show ?case by (simp add: comp_def concat_map_concat cong: map_cong)
qed simp

lemma proper_dbind: "proper d \<Longrightarrow> \<forall>r \<in> set (leaves d). proper (f r) \<Longrightarrow> proper (dbind d f)"
  by (induction d) (simp_all add: proper_Branch del: proper.simps(2))

lemma fits_nth: "k < length ts \<Longrightarrow> (map fits ts ! k) = fits (ts ! k)" "k < length ts \<Longrightarrow> (map run ts ! k) = run (ts ! k)"
  "k < length ts \<Longrightarrow> (map remaining ts ! k) = remaining (ts ! k)"
  by simp_all

lemma tl_drop_Suc: "tl ds = drop 1 ds" "drop n (tl ds) = drop (Suc n) ds"
  by (simp_all add: drop_Suc)

lemma dbind_run:
  "fits d ds \<Longrightarrow> run (dbind d f) ds =
     (fst (run (f (fst (run d ds))) (drop (length (snd (run d ds))) ds)),
      snd (run d ds) @ snd (run (f (fst (run d ds))) (drop (length (snd (run d ds))) ds)))"
proof (induction d arbitrary: ds)
  case (Branch ts)
  let ?k = "decision ds 0"
  have k: "?k < length ts" "fits (ts ! ?k) (tl ds)" using Branch.prems by auto
  from Branch.IH [OF nth_mem [OF k(1)] k(2)] show ?case
    using k(1) by (simp add: split_beta tl_drop_Suc del: tl_drop_Suc(1))
qed simp

lemma dbind_fits:
  "fits d ds \<Longrightarrow> fits (dbind d f) ds \<longleftrightarrow> fits (f (fst (run d ds))) (drop (length (snd (run d ds))) ds)"
proof (induction d arbitrary: ds)
  case (Branch ts)
  let ?k = "decision ds 0"
  have k: "?k < length ts" "fits (ts ! ?k) (tl ds)" using Branch.prems by auto
  from Branch.IH [OF nth_mem [OF k(1)] k(2)] show ?case
    using k(1) by (simp add: split_beta tl_drop_Suc del: tl_drop_Suc(1))
qed simp

lemma dbind_fits_left: "fits (dbind d f) ds \<Longrightarrow> fits d ds"
  by (induction d arbitrary: ds) auto

section \<open>Advancing the cursor\<close>

text \<open>The path after a given one, computed from the root; \<open>advance\<close> computes it from the deepest choice.\<close>

fun next_path :: "nat list \<Rightarrow> nat list \<Rightarrow> nat list option" where
  "next_path [] ds = None"
| "next_path (a # ars) ds = (case next_path ars (tl ds) of
     Some ds' \<Rightarrow> Some (decision ds 0 # ds')
   | None \<Rightarrow> if decision ds 0 + 1 < a then Some [decision ds 0 + 1] else None)"

lemma vec_resize_Suc: "vec_resize (Suc (Suc n)) 0 ds = decision ds 0 # vec_resize (Suc n) 0 (tl ds)"
  by (cases ds) (simp_all add: vec_resize_def)

lemma advance_below_Cons:
  "advance_below (a # ars) ds (Suc n) = (case advance_below ars (tl ds) n of
     Some ds' \<Rightarrow> Some (decision ds 0 # ds')
   | None \<Rightarrow> if decision ds 0 + 1 < a then Some [decision ds 0 + 1] else None)"
proof (induction n)
  case 0
  show ?case by (cases ds) (simp_all add: vec_resize_def)
next
  case (Suc n)
  show ?case
    unfolding advance_below.simps(2) [of "a # ars" ds "Suc n"] Suc.IH
    by (simp add: decision_Suc vec_resize_Suc)
qed

lemma advance_below_next: "advance_below ars ds (length ars) = next_path ars ds"
  by (induction ars arbitrary: ds) (simp_all add: advance_below_Cons del: advance_below.simps(2))

lemma next_path_correct:
  "proper d \<Longrightarrow> fits d ds \<Longrightarrow> (case next_path (snd (run d ds)) ds of
     None \<Rightarrow> remaining d ds = [fst (run d ds)]
   | Some ds' \<Rightarrow> fits d ds' \<and> remaining d ds = fst (run d ds) # remaining d ds')"
proof (induction d arbitrary: ds)
  case (Branch ts)
  let ?k = "decision ds 0"
  have k: "?k < length ts" "fits (ts ! ?k) (tl ds)" using Branch.prems by auto
  have pr: "proper t" if "t \<in> set ts" for t using Branch.prems(1) that by (simp add: proper_Branch del: proper.simps)
  note IH = Branch.IH [OF nth_mem [OF k(1)] pr [OF nth_mem [OF k(1)]] k(2)]
  show ?case
  proof (cases "next_path (snd (run (ts ! ?k) (tl ds))) (tl ds)")
    case (Some ds')
    then show ?thesis using IH k by (simp add: split_beta)
  next
    case None
    show ?thesis
    proof (cases "Suc ?k < length ts")
      case True
      have "drop (Suc ?k) ts = ts ! Suc ?k # drop (Suc (Suc ?k)) ts" using True by (simp add: Cons_nth_drop_Suc)
      then show ?thesis using IH None True k fits_start [OF pr [OF nth_mem [OF True]]] by (simp add: split_beta)
    next
      case False
      then show ?thesis using IH None k by (simp add: split_beta)
    qed
  qed
qed simp


section \<open>The paths of a rule tree\<close>

text \<open>A path through a tree is its steps, the dynamic precedences met on the way and whether it ends in an
  empty choice. The paths are listed with the first choice most significant.\<close>

type_synonym path = "ProductionStep list \<times> int list \<times> bool"

definition step_of :: "Symbol \<Rightarrow> FlattenCtx \<Rightarrow> ProductionStep" where
  "step_of s c = pack s (fc_prec c) (fc_assoc c) (fc_alias c) (fc_field c) (fc_reserved c)"

definition restored :: "MetadataParams \<Rightarrow> FlattenCtx \<Rightarrow> ProductionStep \<Rightarrow> ProductionStep" where
  "restored p c s = (if associativity p \<noteq> None then set_associativity (fc_assoc c) else (\<lambda>s. s))
     ((if precedence p \<noteq> PrecNone then set_precedence (fc_prec c) else (\<lambda>s. s)) s)"

definition leave_region :: "MetadataParams \<Rightarrow> FlattenCtx \<Rightarrow> bool \<Rightarrow> path \<Rightarrow> path" where
  "leave_region p c at_end = (\<lambda>(sts, dyns, dead).
     (if at_end \<or> sts = [] then sts else butlast sts @ [restored p c (last sts)], dynamic_precedence p # dyns, dead))"

definition join :: "path \<Rightarrow> path \<Rightarrow> path" where
  "join = (\<lambda>(s1, d1, _) (s2, d2, dead). (s1 @ s2, d1 @ d2, dead))"

definition is_dead :: "path \<Rightarrow> bool" where
  "is_dead q = snd (snd q)"

fun paths :: "(StrId \<rightharpoonup> nat) \<Rightarrow> rtree \<Rightarrow> FlattenCtx \<Rightarrow> bool \<Rightarrow> path list"
  and paths_seq :: "(StrId \<rightharpoonup> nat) \<Rightarrow> rtree list \<Rightarrow> FlattenCtx \<Rightarrow> bool \<Rightarrow> path list" where
  "paths R (TSym k n) c e = [([step_of (Symbol k n) c], [], False)]"
| "paths R TEof c e = [([step_of end_sym c], [], False)]"
| "paths R (TSeq ts) c e = paths_seq R ts c e"
| "paths R (TChoice ts) c e = (if ts = [] then [([], [], True)] else concat (map (\<lambda>t. paths R t c e) ts))"
| "paths R (TMeta p t) c e = map (leave_region p c e) (paths R t (metadata_ctx p c) e)"
| "paths R (TReserved t ctx) c e = paths R t (c\<lparr>fc_reserved := the (R ctx)\<rparr>) e"
| "paths R TBlank c e = [([], [], False)]"
| "paths R (TString s) c e = [([], [], False)]"
| "paths R (TPattern s f) c e = [([], [], False)]"
| "paths R (TNamed s) c e = [([], [], False)]"
| "paths R (TRepeat t) c e = [([], [], False)]"
| "paths_seq R [] c e = [([], [], False)]"
| "paths_seq R (t # ts) c e =
     concat (map (\<lambda>q. if is_dead q then [q] else map (join q) (paths_seq R ts c e)) (paths R t c (e \<and> ts = [])))"

fun reserved_names :: "rtree \<Rightarrow> StrId set" where
  "reserved_names (TSeq ts) = \<Union> (set (map reserved_names ts))"
| "reserved_names (TChoice ts) = \<Union> (set (map reserved_names ts))"
| "reserved_names (TMeta p t) = reserved_names t"
| "reserved_names (TReserved t ctx) = insert ctx (reserved_names t)"
| "reserved_names _ = {}"

text \<open>The same as a decision tree.\<close>

fun walks :: "(StrId \<rightharpoonup> nat) \<Rightarrow> rtree \<Rightarrow> FlattenCtx \<Rightarrow> bool \<Rightarrow> path dtree"
  and walks_seq :: "(StrId \<rightharpoonup> nat) \<Rightarrow> rtree list \<Rightarrow> FlattenCtx \<Rightarrow> bool \<Rightarrow> path dtree" where
  "walks R (TSym k n) c e = Leaf ([step_of (Symbol k n) c], [], False)"
| "walks R TEof c e = Leaf ([step_of end_sym c], [], False)"
| "walks R (TSeq ts) c e = walks_seq R ts c e"
| "walks R (TChoice ts) c e = (if ts = [] then Leaf ([], [], True) else Branch (map (\<lambda>t. walks R t c e) ts))"
| "walks R (TMeta p t) c e = dbind (walks R t (metadata_ctx p c) e) (\<lambda>q. Leaf (leave_region p c e q))"
| "walks R (TReserved t ctx) c e = walks R t (c\<lparr>fc_reserved := the (R ctx)\<rparr>) e"
| "walks R TBlank c e = Leaf ([], [], False)"
| "walks R (TString s) c e = Leaf ([], [], False)"
| "walks R (TPattern s f) c e = Leaf ([], [], False)"
| "walks R (TNamed s) c e = Leaf ([], [], False)"
| "walks R (TRepeat t) c e = Leaf ([], [], False)"
| "walks_seq R [] c e = Leaf ([], [], False)"
| "walks_seq R (t # ts) c e = dbind (walks R t c (e \<and> ts = []))
     (\<lambda>q. if is_dead q then Leaf q else dbind (walks_seq R ts c e) (\<lambda>q'. Leaf (join q q')))"

lemma concat_singletons [simp]: "concat (map (\<lambda>x. [f x]) xs) = map f xs"
  by (induction xs) simp_all

lemma leaves_walks: "leaves (walks R t c e) = paths R t c e" "leaves (walks_seq R ts c e) = paths_seq R ts c e"
proof (induction R t c e and R ts c e rule: paths_paths_seq.induct)
  case (4 R ts c e)
  then show ?case by (simp add: comp_def cong: map_cong)
next
  case (13 R t ts c e)
  then show ?case by (auto simp: leaves_dbind if_distrib [of leaves] intro!: arg_cong [of _ _ concat])
qed (simp_all add: leaves_dbind)

lemma proper_walks: "proper (walks R t c e)" "proper (walks_seq R ts c e)"
proof (induction R t c e and R ts c e rule: paths_paths_seq.induct)
  case (4 R ts c e)
  then show ?case by (simp add: list_all_iff)
next
  case (13 R t ts c e)
  then show ?case by (auto simp: leaves_walks intro!: proper_dbind)
qed (auto intro!: proper_dbind)

text \<open>What a walk does to its state.\<close>

definition after :: "FlattenState \<Rightarrow> path \<times> nat list \<Rightarrow> FlattenState" where
  "after st = (\<lambda>((sts, dyns, dead), ars). st\<lparr>fs_steps := fs_steps st @ sts,
     fs_choices := (fs_choices st)\<lparr>cc_arities := cc_arities (fs_choices st) @ ars, cc_depth := cc_depth (fs_choices st) + length ars\<rparr>,
     fs_dyn_prec := fold raise_dyn_prec dyns (fs_dyn_prec st), fs_dead := fs_dead st \<or> dead\<rparr>)"

definition ahead :: "FlattenState \<Rightarrow> nat list" where
  "ahead st = drop (cc_depth (fs_choices st)) (cc_decisions (fs_choices st))"

definition walked :: "FlattenState \<Rightarrow> path dtree \<Rightarrow> walk_result" where
  "walked st d = Some (Inr (after st (run d (ahead st)), fst (fst (run d (ahead st))) \<noteq> []))"

lemma after_after:
  "after (after st (q1, a1)) (q2, a2) = after st (join q1 q2, a1 @ a2)" if "\<not> is_dead q1"
  using that by (cases q1; cases q2) (simp add: after_def join_def is_dead_def add.assoc)

lemma ahead_after [simp]: "ahead (after st (q, a)) = drop (length a) (ahead st)"
  by (cases q) (simp add: ahead_def after_def add.commute)

lemma dead_after [simp]: "fs_dead (after st (q, a)) \<longleftrightarrow> fs_dead st \<or> is_dead q"
  by (cases q) (simp add: after_def is_dead_def)

lemma after_blank [simp]: "after st (([], [], False), []) = st"
  by (simp add: after_def)

lemma fst_join: "fst (join q1 q2) = fst q1 @ fst q2"
  by (cases q1; cases q2) (simp add: join_def)

lemma restore_outer_correct:
  assumes "sts \<noteq> []"
  shows "restore_outer p c (after st ((sts, dyns, dead), ars)) = Some (after st ((butlast sts @ [restored p c (last sts)], dyns, dead), ars))"
  using assms by (simp add: restore_outer_def restore_outer_prec_def restore_outer_assoc_def update_last_def after_def restored_def butlast_append)


section \<open>A walk follows its decisions\<close>

lemma apply_children_correct:
  assumes child: "\<And>i t e st. (i, t) \<in> set (zip is ts) \<Longrightarrow> fits (walks R t c e) (ahead st) \<Longrightarrow> \<not> fs_dead st \<Longrightarrow>
      f i e st = walked st (walks R t c e)"
    and len: "length is = length ts" and fit: "fits (walks_seq R ts c e) (ahead st)" and live: "\<not> fs_dead st"
  shows "apply_children f e is did st =
    Some (Inr (after st (run (walks_seq R ts c e) (ahead st)), did \<or> fst (fst (run (walks_seq R ts c e) (ahead st))) \<noteq> []))"
  using len child fit live
proof (induction "is" ts arbitrary: did st rule: list_induct2)
  case (Cons i "is" t ts)
  let ?d = "walks R t c (e \<and> ts = [])" and ?w = "walks_seq R ts c e"
  let ?f = "\<lambda>q. if is_dead q then Leaf q else dbind ?w (\<lambda>q'. Leaf (join q q'))"
  have fit: "fits ?d (ahead st)" using Cons.prems(2) unfolding walks_seq.simps by (rule dbind_fits_left)
  obtain q a where r: "run ?d (ahead st) = (q, a)" by (cases "run ?d (ahead st)") blast
  have nil: "is = [] \<longleftrightarrow> ts = []" using Cons.hyps by auto
  have f: "f i (e \<and> is = []) st = Some (Inr (after st (q, a), fst q \<noteq> []))"
    using Cons.prems(1) [of i t "e \<and> ts = []" st] fit Cons.prems(3) r by (simp add: nil walked_def)
  have rest: "fits (?f q) (drop (length a) (ahead st))"
    using dbind_fits [OF fit, of ?f] Cons.prems(2) unfolding walks_seq.simps r fst_conv snd_conv by blast
  have run: "run (walks_seq R (t # ts) c e) (ahead st) =
      (fst (run (?f q) (drop (length a) (ahead st))), a @ snd (run (?f q) (drop (length a) (ahead st))))"
    using dbind_run [OF fit, of ?f] unfolding walks_seq.simps r fst_conv snd_conv by blast
  show ?case
  proof (cases "is_dead q")
    case True
    then show ?thesis using f run by simp
  next
    case False
    have w: "fits ?w (drop (length a) (ahead st))" using rest False dbind_fits_left by auto
    obtain q' a' where r': "run ?w (drop (length a) (ahead st)) = (q', a')" by (cases "run ?w (drop (length a) (ahead st))") blast
    have "apply_children f e is (did \<or> fst q \<noteq> []) (after st (q, a)) =
        Some (Inr (after (after st (q, a)) (q', a'), (did \<or> fst q \<noteq> []) \<or> fst q' \<noteq> []))"
      using Cons.IH [of "after st (q, a)" "did \<or> fst q \<noteq> []"] Cons.prems(1,3) w r' False by simp
    then show ?thesis
      using f run False dbind_run [OF w, of "\<lambda>q'. Leaf (join q q')"] r' Cons.prems(3) by (auto simp: after_after fst_join)
  qed
qed simp

lemma walked_Leaf: "walked st (Leaf q) = Some (Inr (after st (q, []), fst q \<noteq> []))"
  by (simp add: walked_def)

lemma push_step_after: "push_step st k i c = after st (([step_of (Symbol k i) c], [], False), [])"
  by (simp add: push_step_def after_def step_of_def)

lemma apply_choice:
  assumes child: "\<And>i t st. (i, t) \<in> set (zip cs ts) \<Longrightarrow> fits (walks R t c e) (ahead st) \<Longrightarrow> \<not> fs_dead st \<Longrightarrow>
      f i st = walked st (walks R t c e)"
    and len: "length cs = length ts" and ne: "ts \<noteq> []" and fit: "fits (walks R (TChoice ts) c e) (ahead st)" and live: "\<not> fs_dead st"
  shows "(case select (fs_choices st) (length ts) of (cur, selected) \<Rightarrow>
      Option.bind (vec_get cs selected) (\<lambda>ch. f ch (st\<lparr>fs_choices := cur\<rparr>))) = walked st (walks R (TChoice ts) c e)"
proof -
  let ?k = "decision (ahead st) 0"
  let ?cur = "(fs_choices st)\<lparr>cc_arities := cc_arities (fs_choices st) @ [length ts], cc_depth := cc_depth (fs_choices st) + 1\<rparr>"
  let ?st = "st\<lparr>fs_choices := ?cur\<rparr>"
  have k: "?k < length ts" "fits (walks R (ts ! ?k) c e) (tl (ahead st))" using fit ne by auto
  have ah: "ahead ?st = tl (ahead st)" by (simp add: ahead_def drop_Suc tl_drop)
  have sel: "select (fs_choices st) (length ts) = (?cur, ?k)" by (simp add: select_def ahead_def decision_drop)
  have "(cs ! ?k, ts ! ?k) \<in> set (zip cs ts)" using k(1) len by (auto simp: in_set_zip)
  then have "f (cs ! ?k) ?st = walked ?st (walks R (ts ! ?k) c e)" using child k(2) ah live by simp
  moreover obtain q a where r: "run (walks R (ts ! ?k) c e) (tl (ahead st)) = (q, a)"
    by (cases "run (walks R (ts ! ?k) c e) (tl (ahead st))") blast
  moreover have "after ?st (q, a) = after st (q, length ts # a)" by (cases q) (simp add: after_def)
  ultimately show ?thesis unfolding sel using k(1) ne ah len by (simp add: walked_def split_beta vec_get_def)
qed

lemma apply_rule_correct:
  "rep P i t \<Longrightarrow> reserved_names t \<subseteq> dom R \<Longrightarrow> fits (walks R t c e) (ahead st) \<Longrightarrow> \<not> fs_dead st \<Longrightarrow>
     apply_rule P R i c e st = walked st (walks R t c e)"
proof (induction t arbitrary: i c e st)
  case (TSeq ts)
  from TSeq.prems(1) obtain r cs where n: "node P i = Some (Seq r)" "child_slice P r = Some cs" "list_all2 (rep P) cs ts"
    by (auto elim: rep_cases)
  have "apply_rule P R j c e' s = walked s (walks R t c e')"
    if "(j, t) \<in> set (zip cs ts)" "fits (walks R t c e') (ahead s)" "\<not> fs_dead s" for j t e' s
  proof -
    have "rep P j t" "t \<in> set ts" using that(1) n(3) by (auto simp: list_all2_iff dest: set_zip_rightD)
    then show ?thesis using TSeq.IH [of t j c e' s] TSeq.prems(2) that by auto
  qed
  from apply_children_correct [where f = "\<lambda>j e' s. apply_rule P R j c e' s", OF this list_all2_lengthD [OF n(3)], of e st False]
  show ?case using TSeq.prems(3,4) n by (subst apply_rule.simps) (simp add: walked_def)
next
  case (TChoice ts)
  from TChoice.prems(1) obtain r cs where n: "node P i = Some (Choice r)" "child_slice P r = Some cs" "list_all2 (rep P) cs ts"
    by (auto elim: rep_cases)
  have len: "r_len r = length ts" "length cs = length ts" using child_slice_rep_len [OF n(2,3)] list_all2_lengthD [OF n(3)] by simp_all
  have ch: "apply_rule P R j c e s = walked s (walks R t c e)"
    if "(j, t) \<in> set (zip cs ts)" "fits (walks R t c e) (ahead s)" "\<not> fs_dead s" for j t s
  proof -
    have "rep P j t" "t \<in> set ts" using that(1) n(3) by (auto simp: list_all2_iff dest: set_zip_rightD)
    then show ?thesis using TChoice.IH [of t j c e s] TChoice.prems(2) that by auto
  qed
  show ?case
  proof (cases "ts = []")
    case True
    then show ?thesis using n len by (subst apply_rule.simps) (simp add: walked_def after_def)
  next
    case False
    from apply_choice [where f = "\<lambda>j s. apply_rule P R j c e s", OF ch len(2) False TChoice.prems(3,4)] show ?thesis
      using n len False by (subst apply_rule.simps) (simp add: select_def)
  qed
next
  case (TMeta p t)
  from TMeta.prems(1) obtain pid r where n: "node P i = Some (Metadata pid r)" "params P pid = Some p" "rep P r t"
    by (auto elim: rep_cases)
  let ?d = "walks R t (metadata_ctx p c) e" and ?st = "st\<lparr>fs_dyn_prec := raise_dyn_prec (dynamic_precedence p) (fs_dyn_prec st)\<rparr>"
  have ah: "ahead ?st = ahead st" by (simp add: ahead_def)
  have fit: "fits ?d (ahead st)" using TMeta.prems(3) dbind_fits_left by auto
  obtain sts dyns dead a where r: "run ?d (ahead st) = ((sts, dyns, dead), a)" by (metis prod.exhaust)
  have "apply_rule P R r (metadata_ctx p c) e ?st = Some (Inr (after ?st ((sts, dyns, dead), a), sts \<noteq> []))"
    using TMeta.IH [OF n(3), of "metadata_ctx p c" e ?st] TMeta.prems(2,4) fit ah r by (simp add: walked_def)
  moreover have "after ?st ((ss, dyns, dead), a) = after st ((ss, dynamic_precedence p # dyns, dead), a)" for ss by (simp add: after_def)
  moreover have "run (walks R (TMeta p t) c e) (ahead st) = (leave_region p c e (sts, dyns, dead), a)"
    using dbind_run [OF fit, of "\<lambda>q. Leaf (leave_region p c e q)"] r by simp
  ultimately show ?case using n
    by (subst apply_rule.simps) (auto simp: walked_def leave_region_def restore_outer_correct)
next
  case (TReserved t ctx)
  from TReserved.prems(1) obtain r where n: "node P i = Some (Reserved r ctx)" "rep P r t" by (auto elim: rep_cases)
  obtain rs where "R ctx = Some rs" using TReserved.prems(2) by auto
  then show ?case
    using TReserved.IH [OF n(2), of "c\<lparr>fc_reserved := rs\<rparr>" e st] TReserved.prems n by (subst apply_rule.simps) (simp add: walked_def)
qed (auto elim!: rep_cases simp: apply_rule.simps walked_Leaf push_step_after end_sym_def)


section \<open>The productions of a variable\<close>

text \<open>The production a path stands for: none for a dead path and for one with an \<open>eof()\<close> before its last
  step; a final \<open>eof()\<close> becomes the flag of the production.\<close>

definition produced :: "path \<Rightarrow> flat_production option" where
  "produced = (\<lambda>(sts, dyns, dead). if dead then None else
     case position (\<lambda>s. step_symbol s = end_sym) sts of
       None \<Rightarrow> Some (sts, fold raise_dyn_prec dyns 0, False)
     | Some i \<Rightarrow> if i = length sts - 1 then Some (butlast sts, fold raise_dyn_prec dyns 0, True) else None)"

definition dropped :: "path \<Rightarrow> bool" where
  "dropped q \<longleftrightarrow> \<not> is_dead q \<and> produced q = None"

definition add_new :: "nat \<Rightarrow> 'a list \<Rightarrow> 'a \<Rightarrow> 'a list" where
  "add_new k vs v = (if v \<in> set (drop k vs) then vs else vs @ [v])"

definition add_path :: "nat \<Rightarrow> flat_production list \<Rightarrow> path \<Rightarrow> flat_production list" where
  "add_path k vs q = (case produced q of None \<Rightarrow> vs | Some v \<Rightarrow> add_new k vs v)"

lemma foldl_add_new: "foldl (add_new (length old)) (old @ ys) xs = old @ foldl (add_new 0) ys xs"
proof (induction xs arbitrary: ys)
  case (Cons x xs)
  have "add_new (length old) (old @ ys) x = old @ add_new 0 ys x" by (simp add: add_new_def)
  then show ?case using Cons.IH by simp
qed simp

lemma foldl_add_path: "foldl (add_path k) vs qs = foldl (add_new k) vs (List.map_filter produced qs)"
  by (induction qs arbitrary: vs) (simp_all add: add_path_def map_filter_simps split: option.split)

lemma foldl_add_new_set: "distinct ys \<Longrightarrow> distinct (foldl (add_new 0) ys xs) \<and> set (foldl (add_new 0) ys xs) = set ys \<union> set xs"
proof (induction xs arbitrary: ys)
  case (Cons x xs)
  have "distinct (add_new 0 ys x)" "set (add_new 0 ys x) = insert x (set ys)" using Cons.prems by (auto simp: add_new_def)
  then show ?case using Cons.IH by simp
qed simp

lemma length_add_path: "length (foldl (add_path k) vs qs) \<le> length vs + length qs"
proof (induction qs arbitrary: vs)
  case (Cons q qs)
  have "length (add_path k vs q) \<le> Suc (length vs)" by (simp add: add_path_def add_new_def split: option.split)
  then show ?case using Cons.IH [of "add_path k vs q"] by simp
qed simp

lemma length_add_path_le: "length vs \<le> length (add_path k vs q)"
  by (simp add: add_path_def add_new_def split: option.split)

definition tight :: "ProductionStore \<Rightarrow> bool" where
  "tight out \<longleftrightarrow> store_inv out \<and> set (st_steps out) = (\<Union>v \<in> set (views out). set (fst v))"

definition stored :: "ProductionStore \<Rightarrow> flat_production list \<Rightarrow> nat \<Rightarrow> ProductionStore \<Rightarrow> bool" where
  "stored out vs n out' \<longleftrightarrow> views out' = vs \<and> tight out' \<and> st_var_prods out' = st_var_prods out \<and>
     length (st_steps out') \<le> length (st_steps out) + n"

lemma stored_refl: "tight out \<Longrightarrow> stored out (views out) n out"
  by (simp add: stored_def)

lemma stored_trans: "stored out vs n out1 \<Longrightarrow> stored out1 vs' n' out2 \<Longrightarrow> stored out vs' (n + n') out2"
  by (simp add: stored_def)

lemma emit_ready_correct:
  assumes t: "tight out" and k: "k \<le> length (st_productions out)" and small: "length (st_steps out) + length (fs_steps st) < 2 ^ 32"
  shows "\<exists>out'. emit_ready st out k b = Some (out', True) \<and>
    stored out (add_new k (views out) (fs_steps st, fs_dyn_prec st, b)) (length (fs_steps st)) out'"
proof -
  let ?v = "(fs_steps st, fs_dyn_prec st, b)" and ?ps = "drop k (st_productions out)"
  let ?f = "\<lambda>p. if prod_dynamic_precedence p = fs_dyn_prec st \<and> requires_eof_lookahead p = b
       then map_option (\<lambda>sts. sts = fs_steps st) (prod_steps out p) else Some False"
  have inv: "store_inv out" using t by (simp add: tight_def)
  have "?f p = Some (view out p = ?v)" if "p \<in> set ?ps" for p
    using store_invD [OF inv in_set_dropD [OF that]] by (auto simp: prod_eq_iff)
  then have "list_all2 (\<lambda>x p. ?f x = Some (view out p = ?v)) ?ps ?ps" by (simp add: list_all2_same)
  from any_m_rel [OF this] have any: "any_m ?f ?ps = Some (?v \<in> set (drop k (views out)))"
    by (simp add: list_ex_iff views_def drop_map image_iff Bex_def eq_commute [of ?v] cong: conj_cong)
  show ?thesis
  proof (cases "?v \<in> set (drop k (views out))")
    case True
    then show ?thesis using any k stored_refl [OF t] by (simp add: emit_ready_def add_new_def)
  next
    case False
    let ?out = "push_production out (fs_steps st) (fs_dyn_prec st) b"
    note pp = push_production_correct [OF inv small, of "fs_dyn_prec st" b]
    have "tight ?out" using t pp(1,2,4) by (auto simp: tight_def)
    then have "stored out (views out @ [?v]) (length (fs_steps st)) ?out" using pp by (simp add: stored_def)
    then show ?thesis using any k False by (simp add: emit_ready_def add_new_def)
  qed
qed

definition shows_path :: "FlattenState \<Rightarrow> path \<Rightarrow> bool" where
  "shows_path st q \<longleftrightarrow> fs_steps st = fst q \<and> fs_dyn_prec st = fold raise_dyn_prec (fst (snd q)) 0 \<and> fs_dead st = is_dead q"

lemma emit_path_correct:
  assumes st: "shows_path st q" and t: "tight out" and k: "k \<le> length (st_productions out)"
    and small: "length (st_steps out) + length (fst q) < 2 ^ 32"
  shows "\<exists>st' out'. emit_path st out k dr = Some (st', out', dr \<or> dropped q) \<and> fs_choices st' = fs_choices st \<and>
    stored out (add_path k (views out) q) (length (fst q)) out'"
proof -
  obtain sts dyns dead where q: "q = (sts, dyns, dead)" by (metis prod.exhaust)
  have st': "fs_steps st = sts" "fs_dyn_prec st = fold raise_dyn_prec dyns 0" "fs_dead st = dead"
    using st by (simp_all add: shows_path_def q is_dead_def)
  let ?at = "position (\<lambda>s. step_symbol s = end_sym) sts"
  consider "dead" | "\<not> dead" "?at = None" | i where "\<not> dead" "?at = Some i" "i \<noteq> length sts - 1" | "\<not> dead" "?at = Some (length sts - 1)"
    by (cases ?at) auto
  then show ?thesis
  proof cases
    case 1
    then show ?thesis using stored_refl [OF t] st' by (simp add: emit_path_def add_path_def produced_def q dropped_def is_dead_def)
  next
    case 2
    from emit_ready_correct [OF t k, of st False] obtain out' where "emit_ready st out k False = Some (out', True)"
      "stored out (add_new k (views out) (sts, fold raise_dyn_prec dyns 0, False)) (length sts) out'"
      using small st' q by auto
    then show ?thesis using 2 st' by (simp add: emit_path_def emit_def add_path_def produced_def q dropped_def is_dead_def)
  next
    case 3
    then show ?thesis using stored_refl [OF t] st'
      by (simp add: emit_path_def emit_def add_path_def produced_def q dropped_def is_dead_def)
  next
    case 4
    let ?st = "st\<lparr>fs_steps := butlast sts\<rparr>"
    have "length (st_steps out) + length (fs_steps ?st) < 2 ^ 32" using small by (simp add: q)
    from emit_ready_correct [OF t k this, of True] obtain out' where "emit_ready ?st out k True = Some (out', True)"
      "stored out (add_new k (views out) (butlast sts, fold raise_dyn_prec dyns 0, True)) (length sts - 1) out'"
      using st' by auto
    then show ?thesis using 4 st'
      by (auto simp: emit_path_def emit_def add_path_def produced_def q dropped_def is_dead_def stored_def)
  qed
qed

definition fresh :: "FlattenState \<Rightarrow> bool" where
  "fresh st \<longleftrightarrow> fs_steps st = [] \<and> fs_dyn_prec st = 0 \<and> \<not> fs_dead st \<and> cc_depth (fs_choices st) = 0 \<and> cc_arities (fs_choices st) = []"

lemma fresh_reset: "fresh (reset_path st)" "fresh (reset_variable st)" "cc_decisions (fs_choices (reset_variable st)) = []"
  "cc_decisions (fs_choices (reset_path st)) = cc_decisions (fs_choices st)"
  by (simp_all add: fresh_def reset_path_def begin_path_def reset_variable_def reset_choices_def)

definition total_steps :: "path list \<Rightarrow> nat" where
  "total_steps qs = sum_list (map (\<lambda>q. length (fst q)) qs)"

lemma path_loop_correct:
  assumes r: "rep P i t" and n: "reserved_names t \<subseteq> dom R"
  shows "fresh st \<Longrightarrow> fits (walks R t default_ctx True) (cc_decisions (fs_choices st)) \<Longrightarrow>
    qs = remaining (walks R t default_ctx True) (cc_decisions (fs_choices st)) \<Longrightarrow> tight out \<Longrightarrow> k \<le> length (st_productions out) \<Longrightarrow>
    length (st_steps out) + total_steps qs < 2 ^ 32 \<Longrightarrow>
    \<exists>st' out'. path_loop P R i k st out dr = Some (Inr (st', out', dr \<or> (\<exists>q \<in> set qs. dropped q))) \<and>
      stored out (foldl (add_path k) (views out) qs) (total_steps qs) out'"
proof (induction qs arbitrary: st out dr)
  case Nil
  then show ?case using next_path_correct [OF proper_walks(1) Nil.prems(2)] by (auto split: option.splits)
next
  case (Cons q0 qs0)
  let ?d = "walks R t default_ctx True" and ?ds = "cc_decisions (fs_choices st)"
  have ah: "ahead st = ?ds" using Cons.prems(1) by (simp add: ahead_def fresh_def)
  obtain q a where run: "run ?d ?ds = (q, a)" by (cases "run ?d ?ds") blast
  let ?st = "after st (q, a)"
  have app: "apply_rule P R i default_ctx True st = Some (Inr (?st, fst q \<noteq> []))"
    using apply_rule_correct [OF r n, of default_ctx True st] Cons.prems(1,2) by (simp add: ah run walked_def fresh_def)
  have sp: "shows_path ?st q" using Cons.prems(1) by (cases q) (simp add: shows_path_def after_def fresh_def is_dead_def)
  have cur: "cc_arities (fs_choices ?st) = a" "cc_decisions (fs_choices ?st) = ?ds"
    using Cons.prems(1) by (cases q; simp add: after_def fresh_def)+
  note np = next_path_correct [OF proper_walks(1) Cons.prems(2), unfolded run fst_conv snd_conv]
  have q0: "q0 = q" using np Cons.prems(3) by (auto split: option.splits)
  obtain st1 out1 where em: "emit_path ?st out k dr = Some (st1, out1, dr \<or> dropped q)" "fs_choices st1 = fs_choices ?st"
    "stored out (add_path k (views out) q) (length (fst q)) out1"
    using emit_path_correct [OF sp Cons.prems(4,5), of dr] Cons.prems(6) q0 by (auto simp: total_steps_def)
  show ?case
  proof (cases "next_path a ?ds")
    case None
    then have qs0: "qs0 = []" using np Cons.prems(3) by simp
    have "advance (fs_choices st1) = (fs_choices st1, False)" by (simp add: advance_def em(2) cur advance_below_next None)
    then show ?thesis using app em q0 qs0 by (subst path_loop.simps) (simp add: total_steps_def)
  next
    case (Some ds')
    then have fit': "fits ?d ds'" and qs0: "qs0 = remaining ?d ds'" using np Cons.prems(3) by simp_all
    let ?cur = "(fs_choices st1)\<lparr>cc_decisions := ds'\<rparr>"
    have adv: "advance (fs_choices st1) = (?cur, True)" by (simp add: advance_def em(2) cur advance_below_next Some)
    let ?st1 = "reset_path (st1\<lparr>fs_choices := ?cur\<rparr>)"
    have d1: "cc_decisions (fs_choices ?st1) = ds'" by (simp add: fresh_reset)
    have "length (views out) \<le> length (views out1)" using em(3) length_add_path_le by (simp add: stored_def del: length_views)
    then have k1: "k \<le> length (st_productions out1)" using Cons.prems(5) by simp
    have s1: "length (st_steps out1) + total_steps qs0 < 2 ^ 32" using Cons.prems(6) em(3) q0 by (simp add: stored_def total_steps_def)
    have t1: "tight out1" using em(3) by (simp add: stored_def)
    obtain st2 out2 where l: "path_loop P R i k ?st1 out1 (dr \<or> dropped q) = Some (Inr (st2, out2, (dr \<or> dropped q) \<or> (\<exists>q \<in> set qs0. dropped q)))"
      "stored out1 (foldl (add_path k) (views out1) qs0) (total_steps qs0) out2"
      using Cons.IH [OF fresh_reset(1) _ _ t1 k1 s1, of "st1\<lparr>fs_choices := ?cur\<rparr>"] fit' qs0 unfolding d1 by blast
    have "path_loop P R i k st out dr = path_loop P R i k ?st1 out1 (dr \<or> dropped q)"
      using app em(1) adv by (subst path_loop.simps) simp
    moreover have "stored out (foldl (add_path k) (views out) (q0 # qs0)) (total_steps (q0 # qs0)) out2"
      using stored_trans [OF em(3) l(2)] em(3) q0 by (simp add: stored_def total_steps_def)
    ultimately show ?thesis using l(1) q0 by (intro exI [of _ st2] exI [of _ out2]) (auto simp: disj_assoc)
  qed
qed


section \<open>All variables\<close>

definition flat_prods :: "(StrId \<rightharpoonup> nat) \<Rightarrow> rtree \<Rightarrow> flat_production list" where
  "flat_prods R t = foldl (add_new 0) [] (List.map_filter produced (paths R t default_ctx True))"

definition unreachable :: "(StrId \<rightharpoonup> nat) \<Rightarrow> rtree \<Rightarrow> bool" where
  "unreachable R t \<longleftrightarrow> flat_prods R t = [] \<and> (\<exists>q \<in> set (paths R t default_ctx True). dropped q)"

fun ranges_of :: "nat \<Rightarrow> 'a list list \<Rightarrow> (nat \<times> nat) list" where
  "ranges_of n [] = []"
| "ranges_of n (xs # xss) = (n, n + length xs) # ranges_of (n + length xs) xss"

lemma flat_prods_set: "distinct (flat_prods R t)" "set (flat_prods R t) = {v. \<exists>q \<in> set (paths R t default_ctx True). produced q = Some v}"
  using foldl_add_new_set [of "[]" "List.map_filter produced (paths R t default_ctx True)"]
  by (auto simp: flat_prods_def List.map_filter_def image_iff) force

lemma flatten_variable:
  assumes r: "rep P i t" and n: "reserved_names t \<subseteq> dom R" and t: "tight out"
    and sp: "length (st_productions out) + length (paths R t default_ctx True) < 2 ^ 32"
    and ss: "length (st_steps out) + total_steps (paths R t default_ctx True) < 2 ^ 32"
  shows "\<exists>st' out'. path_loop P R i (length (st_productions out)) (reset_variable st) out False =
      Some (Inr (st', out', \<exists>q \<in> set (paths R t default_ctx True). dropped q)) \<and>
    stored out (views out @ flat_prods R t) (total_steps (paths R t default_ctx True)) out' \<and> length (st_productions out') < 2 ^ 32"
proof -
  let ?d = "walks R t default_ctx True" and ?qs = "paths R t default_ctx True" and ?k = "length (st_productions out)"
  have d: "fits ?d []" "remaining ?d [] = ?qs" using fits_start [OF proper_walks(1)] by (auto simp: leaves_walks)
  obtain st' out' where l: "path_loop P R i ?k (reset_variable st) out False = Some (Inr (st', out', \<exists>q \<in> set ?qs. dropped q))"
    "stored out (foldl (add_path ?k) (views out) ?qs) (total_steps ?qs) out'"
    using path_loop_correct [OF r n fresh_reset(2) _ _ t, where k = ?k and dr = False, of st ?qs] d ss unfolding fresh_reset(3) by auto
  have "foldl (add_path ?k) (views out) ?qs = views out @ flat_prods R t"
    using foldl_add_new [of "views out" "[]"] by (simp add: foldl_add_path flat_prods_def)
  moreover have "length (views out') < 2 ^ 32"
    using l(2) length_add_path [of ?k "views out" ?qs] sp unfolding stored_def by (metis le_less_trans length_views)
  ultimately show ?thesis using l by auto
qed

lemma flatten_variables_correct:
  assumes "list_all2 (\<lambda>v t. rep P (v_root v) t) vs ts" "\<forall>t \<in> set ts. reserved_names t \<subseteq> dom R"
    "\<forall>v \<in> set vs. resolve (str_pool P) (v_name v) \<noteq> None" "tight out"
    "length (st_productions out) + (\<Sum>t \<leftarrow> ts. length (paths R t default_ctx True)) < 2 ^ 32"
    "length (st_steps out) + (\<Sum>t \<leftarrow> ts. total_steps (paths R t default_ctx True)) < 2 ^ 32"
  shows "if \<exists>t \<in> set ts. unreachable R t then \<exists>s. flatten_variables P R vs st out = Some (Inl (NoReachableProductions s))
    else \<exists>st' out'. flatten_variables P R vs st out = Some (Inr (st', out')) \<and> tight out' \<and>
      views out' = views out @ concat (map (flat_prods R) ts) \<and>
      st_var_prods out' = st_var_prods out @ ranges_of (length (views out)) (map (flat_prods R) ts)"
  using assms
proof (induction vs ts arbitrary: st out rule: list_all2_induct)
  case Nil
  then show ?case by simp
next
  case (Cons v vs t ts)
  let ?qs = "paths R t default_ctx True" and ?k = "length (st_productions out)"
  have k: "as_u32 ?k = ?k" using Cons.prems(4) by simp
  have nm: "reserved_names t \<subseteq> dom R" using Cons.prems(1) by simp
  obtain st1 out1 where v: "path_loop P R (v_root v) ?k (reset_variable st) out False = Some (Inr (st1, out1, \<exists>q \<in> set ?qs. dropped q))"
    "stored out (views out @ flat_prods R t) (total_steps ?qs) out1" "length (st_productions out1) < 2 ^ 32"
    using flatten_variable [OF Cons.hyps(1) nm Cons.prems(3), of st] Cons.prems(4,5) by auto
  have l1: "length (st_productions out1) = ?k + length (flat_prods R t)" using v(2) unfolding stored_def by (metis length_append length_views)
  show ?case
  proof (cases "unreachable R t")
    case True
    then show ?thesis using v(1,3) l1 k Cons.prems(2) by (auto simp: unreachable_def)
  next
    case False
    let ?out = "out1\<lparr>st_var_prods := st_var_prods out1 @ [(?k, length (st_productions out1))]\<rparr>"
    have vw: "views ?out = views out @ flat_prods R t" "st_steps ?out = st_steps out1" "st_productions ?out = st_productions out1"
      using v(2) by (simp_all add: stored_def)
    have t': "tight ?out" using v(2) vw by (simp add: stored_def tight_def store_inv_def)
    have step: "flatten_variables P R (v # vs) st out = flatten_variables P R vs st1 ?out"
      using False v(1,3) l1 k by (auto simp: unreachable_def Let_def)
    have lf: "length (flat_prods R t) \<le> length ?qs"
      using length_add_path [of 0 "[]" ?qs] by (simp add: flat_prods_def foldl_add_path)
    have "length (st_steps out1) \<le> length (st_steps out) + total_steps ?qs" using v(2) by (simp add: stored_def)
    then have IH: "if \<exists>t \<in> set ts. unreachable R t then \<exists>s. flatten_variables P R vs st1 ?out = Some (Inl (NoReachableProductions s))
      else \<exists>st' out'. flatten_variables P R vs st1 ?out = Some (Inr (st', out')) \<and> tight out' \<and>
        views out' = views ?out @ concat (map (flat_prods R) ts) \<and>
        st_var_prods out' = st_var_prods ?out @ ranges_of (length (views ?out)) (map (flat_prods R) ts)"
      using Cons.IH [OF _ _ t', of st1] Cons.prems l1 lf vw by auto
    have "st_var_prods ?out = st_var_prods out @ [(?k, ?k + length (flat_prods R t))]" using v(2) l1 by (simp add: stored_def)
    then have vp: "st_var_prods ?out @ ranges_of (length (views ?out)) (map (flat_prods R) ts) =
        st_var_prods out @ ranges_of (length (views out)) (map (flat_prods R) (t # ts))" by (simp add: vw(1))
    show ?thesis unfolding step
    proof (cases "\<exists>t \<in> set ts. unreachable R t")
      case True
      then show "if \<exists>t \<in> set (t # ts). unreachable R t then \<exists>s. flatten_variables P R vs st1 ?out = Some (Inl (NoReachableProductions s))
        else \<exists>st' out'. flatten_variables P R vs st1 ?out = Some (Inr (st', out')) \<and> tight out' \<and>
          views out' = views out @ concat (map (flat_prods R) (t # ts)) \<and>
          st_var_prods out' = st_var_prods out @ ranges_of (length (views out)) (map (flat_prods R) (t # ts))" using IH by simp
    next
      case none: False
      then obtain st' out' where "flatten_variables P R vs st1 ?out = Some (Inr (st', out'))" "tight out'"
        "views out' = views ?out @ concat (map (flat_prods R) ts)"
        "st_var_prods out' = st_var_prods ?out @ ranges_of (length (views ?out)) (map (flat_prods R) ts)"
        using IH unfolding if_not_P [OF none] by (elim exE conjE)
      then show "if \<exists>t \<in> set (t # ts). unreachable R t then \<exists>s. flatten_variables P R vs st1 ?out = Some (Inl (NoReachableProductions s))
        else \<exists>st' out'. flatten_variables P R vs st1 ?out = Some (Inr (st', out')) \<and> tight out' \<and>
          views out' = views out @ concat (map (flat_prods R) (t # ts)) \<and>
          st_var_prods out' = st_var_prods out @ ranges_of (length (views out)) (map (flat_prods R) (t # ts))"
        using none False v(2) l1 by (simp add: stored_def)
    qed
  qed
qed

section \<open>The checks\<close>

definition uses_symbol :: "flat_production \<Rightarrow> Symbol \<Rightarrow> bool" where
  "uses_symbol v s \<longleftrightarrow> s \<in> step_symbol ` set (fst v)"

definition bad_production :: "bool \<Rightarrow> bool \<Rightarrow> nat \<Rightarrow> flat_production \<Rightarrow> bool" where
  "bad_production used inlined i v \<longleftrightarrow> used \<and> fst v = [] \<and> \<not> snd (snd v) \<or> inlined \<and> uses_symbol v (non_terminal i)"

lemma check_productions_correct:
  assumes inv: "store_inv out" and nm: "variable_name g i = Some s"
  shows "set ps \<subseteq> set (st_productions out) \<Longrightarrow>
    if \<exists>p \<in> set ps. bad_production used inlined i (view out p)
    then check_productions g out i used inlined ps \<in> {Some (Inl (EmptyString s)), Some (Inl (RecursiveInline s))}
    else check_productions g out i used inlined ps = Some (Inr ())"
proof (induction ps)
  case (Cons p ps)
  have p: "p \<in> set (st_productions out)" using Cons.prems by simp
  then have le: "steps_start p + steps_len p \<le> length (st_steps out)" using inv by (simp add: store_inv_def)
  then have e: "steps_len p = 0 \<longleftrightarrow> fst (view out p) = []" by (auto simp: view_def)
  have r: "map_option (list_ex (\<lambda>s. step_symbol s = non_terminal i)) (prod_steps out p) = Some (uses_symbol (view out p) (non_terminal i))"
    using store_invD [OF inv p] by (simp add: list_ex_iff uses_symbol_def image_iff eq_commute)
  have tail: "set ps \<subseteq> set (st_productions out)" using Cons.prems by simp
  show ?case
  proof (cases "bad_production used inlined i (view out p)")
    case True
    then show ?thesis using e r nm by (auto simp: bad_production_def)
  next
    case False
    then have step: "check_productions g out i used inlined (p # ps) = check_productions g out i used inlined ps"
      using e r by (auto simp: bad_production_def)
    show ?thesis unfolding step using Cons.IH [OF tail] False by simp
  qed
qed simp

definition ill_formed :: "flat_production list list \<Rightarrow> ExtractedGrammarMeta \<Rightarrow> nat \<Rightarrow> flat_production list \<Rightarrow> bool" where
  "ill_formed fs meta i f \<longleftrightarrow> (\<exists>v \<in> set f. bad_production (\<exists>w \<in> set (concat fs). uses_symbol w (non_terminal i)) (non_terminal i \<in> set (m_inline meta)) i v)"

lemma check_variables_correct:
  assumes t: "tight out" and nm: "\<forall>i < length (g_variables g). variable_name g i \<noteq> None" and vs: "views out = concat all"
  shows "drop n (views out) = concat fs \<Longrightarrow> n \<le> length (views out) \<Longrightarrow> i + length fs \<le> length (g_variables g) \<Longrightarrow>
    if \<exists>j < length fs. ill_formed all meta (i + j) (fs ! j)
    then \<exists>s. check_variables g meta out i (ranges_of n fs) \<in> {Some (Inl (EmptyString s)), Some (Inl (RecursiveInline s))}
    else check_variables g meta out i (ranges_of n fs) = Some (Inr ())"
proof (induction fs arbitrary: n i)
  case (Cons f fs)
  obtain s where s: "variable_name g i = Some s" using nm Cons.prems(3) by (auto dest!: spec [of _ i])
  have inv: "store_inv out" using t by (simp add: tight_def)
  let ?ps = "take (length f) (drop n (st_productions out))"
  have vd: "map (view out) (drop n (st_productions out)) = f @ concat fs" using Cons.prems(1) by (simp add: views_def drop_map)
  have "length (drop n (st_productions out)) = length (f @ concat fs)" using arg_cong [OF vd, of length] by simp
  then have le: "n + length f \<le> length (st_productions out)" using Cons.prems(2) by simp
  then have sl: "vec_slice (st_productions out) n (n + length f) = Some ?ps" by (simp add: vec_slice_def)
  have mp: "map (view out) ?ps = f" using arg_cong [OF vd, of "take (length f)"] by (simp add: take_map)
  have dr: "drop (n + length f) (views out) = concat fs" using arg_cong [OF Cons.prems(1), of "drop (length f)"] by (simp add: add.commute)
  have sub: "set ?ps \<subseteq> set (st_productions out)" by (meson in_set_dropD in_set_takeD subsetI)
  have used: "list_ex (\<lambda>s. step_symbol s = non_terminal i) (st_steps out) \<longleftrightarrow> (\<exists>w \<in> set (concat all). uses_symbol w (non_terminal i))"
  proof -
    have st: "set (st_steps out) = (\<Union>w \<in> set (concat all). set (fst w))" using t by (simp only: tight_def vs)
    show ?thesis unfolding list_ex_iff uses_symbol_def st bex_UN image_iff by metis
  qed
  let ?c = "check_productions g out i (list_ex (\<lambda>s. step_symbol s = non_terminal i) (st_steps out)) (non_terminal i \<in> set (m_inline meta)) ?ps"
  have "(\<exists>p \<in> set ?ps. bad_production u l i (view out p)) \<longleftrightarrow> (\<exists>v \<in> set f. bad_production u l i v)" for u l
    using mp by (metis (no_types, lifting) image_iff list.set_map)
  then have c: "if ill_formed all meta i f then ?c \<in> {Some (Inl (EmptyString s)), Some (Inl (RecursiveInline s))} else ?c = Some (Inr ())"
    using check_productions_correct [OF inv s sub, of "list_ex (\<lambda>s. step_symbol s = non_terminal i) (st_steps out)" "non_terminal i \<in> set (m_inline meta)"]
    unfolding ill_formed_def used by auto
  have step: "check_variables g meta out i (ranges_of n (f # fs)) = Option.bind ?c (\<lambda>res. case res of Inl e \<Rightarrow> Some (Inl e) |
      Inr _ \<Rightarrow> check_variables g meta out (Suc i) (ranges_of (n + length f) fs))"
    using sl by simp
  have ex: "(\<exists>j < length (f # fs). ill_formed all meta (i + j) ((f # fs) ! j)) \<longleftrightarrow>
      ill_formed all meta i f \<or> (\<exists>j < length fs. ill_formed all meta (Suc i + j) (fs ! j))"
    by (auto simp: less_Suc_eq_0_disj)
  show ?case
  proof (cases "ill_formed all meta i f")
    case True
    then show ?thesis unfolding ex step using c by auto
  next
    case False
    then show ?thesis unfolding ex step using c Cons.IH [OF dr, of "Suc i"] le Cons.prems(3) by (auto split: if_splits)
  qed
qed simp


section \<open>The language of a rule tree\<close>

text \<open>The symbol sequences a rule tree derives, as for a regular expression; a string, a pattern or a name is not a symbol. Flattening is
  for trees from which the earlier passes removed these and the repetitions.\<close>

fun yields :: "rtree \<Rightarrow> Symbol list set"
  and yields_seq :: "rtree list \<Rightarrow> Symbol list set" where
  "yields (TSym k n) = {[Symbol k n]}"
| "yields TEof = {[end_sym]}"
| "yields (TSeq ts) = yields_seq ts"
| "yields (TChoice ts) = (\<Union>t \<in> set ts. yields t)"
| "yields (TMeta p t) = yields t"
| "yields (TReserved t ctx) = yields t"
| "yields TBlank = {[]}"
| "yields (TString s) = {}"
| "yields (TPattern s f) = {}"
| "yields (TNamed s) = {}"
| "yields (TRepeat t) = {concat ws | ws. ws \<noteq> [] \<and> set ws \<subseteq> yields t}"
| "yields_seq [] = {[]}"
| "yields_seq (t # ts) = {u @ v | u v. u \<in> yields t \<and> v \<in> yields_seq ts}"

fun flattenable :: "rtree \<Rightarrow> bool" where
  "flattenable (TSeq ts) \<longleftrightarrow> (\<forall>t \<in> set ts. flattenable t)"
| "flattenable (TChoice ts) \<longleftrightarrow> (\<forall>t \<in> set ts. flattenable t)"
| "flattenable (TMeta p t) \<longleftrightarrow> flattenable t"
| "flattenable (TReserved t ctx) \<longleftrightarrow> flattenable t"
| "flattenable (TString s) \<longleftrightarrow> False"
| "flattenable (TPattern s f) \<longleftrightarrow> False"
| "flattenable (TNamed s) \<longleftrightarrow> False"
| "flattenable (TRepeat t) \<longleftrightarrow> False"
| "flattenable _ \<longleftrightarrow> True"

definition path_symbols :: "path \<Rightarrow> Symbol list" where
  "path_symbols q = map step_symbol (fst q)"

definition live :: "path list \<Rightarrow> Symbol list set" where
  "live qs = path_symbols ` {q \<in> set qs. \<not> is_dead q}"

definition production_symbols :: "flat_production \<Rightarrow> Symbol list" where
  "production_symbols v = map step_symbol (fst v) @ (if snd (snd v) then [end_sym] else [])"

lemma step_symbol_step_of [simp]: "step_symbol (step_of s c) = s"
  by (simp add: step_of_def step_symbol_pack)

lemma step_symbol_restored [simp]: "step_symbol (restored p c s) = step_symbol s"
  by (simp add: restored_def step_symbol_set)

lemma path_symbols_leave [simp]: "path_symbols (leave_region p c e q) = path_symbols q" "is_dead (leave_region p c e q) = is_dead q"
proof -
  have "map step_symbol (butlast xs) @ [step_symbol (last xs)] = map step_symbol xs" if "xs \<noteq> []" for xs
    using arg_cong [OF append_butlast_last_id [OF that], of "map step_symbol"] by simp
  then show "path_symbols (leave_region p c e q) = path_symbols q" by (cases q) (simp add: leave_region_def path_symbols_def)
qed (cases q, simp add: leave_region_def is_dead_def)

lemma path_symbols_join [simp]: "path_symbols (join q1 q2) = path_symbols q1 @ path_symbols q2" "is_dead (join q1 q2) = is_dead q2"
  by (cases q1; cases q2; simp add: join_def path_symbols_def is_dead_def)+

lemma live_Nil_path [simp]: "live [([], [], False)] = {[]}" "live [([s], [], False)] = {[step_symbol s]}" "live [([], [], True)] = {}"
  by (auto simp: live_def path_symbols_def is_dead_def)

lemma live_concat: "live (concat (map f xs)) = (\<Union>x \<in> set xs. live (f x))"
  by (auto simp: live_def)

lemma live_map: "live (map f qs) = (\<lambda>q. path_symbols (f q)) ` {q \<in> set qs. \<not> is_dead (f q)}"
  unfolding live_def set_map by blast

lemma live_join: "live (map (join q) qs) = (@) (path_symbols q) ` live qs"
  by (simp add: live_map live_def [of qs] image_image)

lemma live_seq:
  "live (concat (map (\<lambda>q. if is_dead q then [q] else map (join q) qs') qs)) = {u @ v | u v. u \<in> live qs \<and> v \<in> live qs'}" (is "?l = ?r")
proof -
  have "live (if is_dead q then [q] else map (join q) qs') = (if is_dead q then {} else (@) (path_symbols q) ` live qs')" for q
    by (simp add: live_join) (simp add: live_def)
  then have l: "?l = (\<Union>q \<in> set qs. if is_dead q then {} else (@) (path_symbols q) ` live qs')" by (simp only: live_concat)
  show ?thesis unfolding l
  proof (intro set_eqI iffI)
    fix w assume "w \<in> (\<Union>q \<in> set qs. if is_dead q then {} else (@) (path_symbols q) ` live qs')"
    then obtain q where q: "q \<in> set qs" "w \<in> (if is_dead q then {} else (@) (path_symbols q) ` live qs')" by (rule UN_E)
    then have d: "\<not> is_dead q" by (cases "is_dead q") simp_all
    then have "path_symbols q \<in> live qs" unfolding live_def using q(1) by blast
    moreover obtain v where "v \<in> live qs'" "w = path_symbols q @ v" using q(2) unfolding if_not_P [OF d] by (rule imageE)
    ultimately show "w \<in> ?r" by (intro CollectI exI [of _ "path_symbols q"] exI [of _ v] conjI)
  next
    fix w assume "w \<in> ?r"
    then obtain u v where uv: "w = u @ v" "u \<in> live qs" "v \<in> live qs'" by blast
    then obtain q where "q \<in> set qs" "\<not> is_dead q" "u = path_symbols q" unfolding live_def by blast
    then show "w \<in> (\<Union>q \<in> set qs. if is_dead q then {} else (@) (path_symbols q) ` live qs')" using uv by (intro UN_I [of q]) simp_all
  qed
qed

lemma paths_yields:
  "flattenable t \<Longrightarrow> live (paths R t c e) = yields t"
  "\<forall>t \<in> set ts. flattenable t \<Longrightarrow> live (paths_seq R ts c e) = yields_seq ts"
proof (induction R t c e and R ts c e rule: paths_paths_seq.induct)
  case (4 R ts c e)
  then show ?case by (simp add: live_concat)
next
  case (5 R p t c e)
  have "live (map (leave_region p c e) qs) = live qs" for qs by (simp add: live_map live_def [of qs])
  then show ?case using 5 by simp
next
  case (13 R t ts c e)
  show ?case
  proof (cases "\<exists>q \<in> set (paths R t c (e \<and> ts = [])). \<not> is_dead q")
    case True
    then have "live (paths_seq R ts c e) = yields_seq ts" using 13(2,3) by auto
    then show ?thesis using 13(1,3) by (simp add: live_seq)
  next
    case False
    then have "live (paths R t c (e \<and> ts = [])) = {}" by (auto simp: live_def)
    then show ?thesis using 13(1,3) by (simp add: live_seq)
  qed
qed simp_all

lemma produced_symbols:
  "(\<exists>v. produced q = Some v \<and> production_symbols v = w) \<longleftrightarrow> \<not> is_dead q \<and> path_symbols q = w \<and> end_sym \<notin> set (butlast w)"
proof -
  obtain sts dyns dead where q: "q = (sts, dyns, dead)" by (metis prod.exhaust)
  let ?pos = "position (\<lambda>s. step_symbol s = end_sym) sts"
  show ?thesis
  proof (cases ?pos)
    case None
    then have "\<forall>s \<in> set sts. step_symbol s \<noteq> end_sym" using position_ex [of sts "\<lambda>s. step_symbol s = end_sym"] by auto
    then have "end_sym \<notin> set (map step_symbol sts)" by (metis imageE list.set_map)
    then have "end_sym \<notin> set (butlast (map step_symbol sts))" by (rule contrapos_nn) (rule in_set_butlastD)
    then show ?thesis using None by (auto simp: q produced_def production_symbols_def is_dead_def path_symbols_def)
  next
    case (Some i)
    have i: "i < length sts" "step_symbol (sts ! i) = end_sym" "\<forall>j < i. step_symbol (sts ! j) \<noteq> end_sym"
      using position_Some [OF Some] position_first [OF Some] by auto
    have ne: "sts \<noteq> []" using i by auto
    have "end_sym \<notin> set (butlast (map step_symbol sts)) \<longleftrightarrow> i = length sts - 1"
      using i by (auto simp: in_set_conv_nth nth_butlast) (metis One_nat_def Suc_pred length_greater_0_conv less_antisym ne)
    moreover have "map step_symbol (butlast sts) @ [end_sym] = map step_symbol sts" if "i = length sts - 1"
      using arg_cong [OF append_butlast_last_id [OF ne], of "map step_symbol"] i that by (simp add: last_conv_nth ne)
    ultimately show ?thesis using Some by (auto simp: q produced_def production_symbols_def is_dead_def path_symbols_def)
  qed
qed

lemma flat_prods_language:
  assumes "flattenable t"
  shows "production_symbols ` set (flat_prods R t) = {w \<in> yields t. end_sym \<notin> set (butlast w)}"
proof -
  have "w \<in> production_symbols ` set (flat_prods R t) \<longleftrightarrow> (\<exists>q \<in> set (paths R t default_ctx True). \<exists>v. produced q = Some v \<and> production_symbols v = w)" for w
    unfolding flat_prods_set(2) by blast
  also have "\<dots> w \<longleftrightarrow> w \<in> live (paths R t default_ctx True) \<and> end_sym \<notin> set (butlast w)" for w
    unfolding produced_symbols by (auto simp: live_def)
  finally show ?thesis using paths_yields(1) [OF assms] by auto
qed


section \<open>Properties\<close>

lemma ranges_of_nth:
  "i < length xss \<Longrightarrow> ranges_of n xss ! i = (n + length (concat (take i xss)), n + length (concat (take i xss)) + length (xss ! i))"
proof (induction xss arbitrary: n i)
  case (Cons xs xss)
  then show ?case by (cases i) simp_all
qed simp

lemma length_ranges_of [simp]: "length (ranges_of n xss) = length xss"
  by (induction xss arbitrary: n) simp_all

definition empty_store :: ProductionStore where
  "empty_store = \<lparr>st_steps = [], st_productions = [], st_var_prods = []\<rparr>"

definition productions_at :: "ProductionStore \<Rightarrow> nat \<Rightarrow> flat_production list option" where
  "productions_at out i = do {
     (a, b) \<leftarrow> vec_get (st_var_prods out) i;
     map_option (map (view out)) (vec_slice (st_productions out) a b)
   }"

lemma productions_at_correct:
  assumes "views out = concat fs" "st_var_prods out = ranges_of 0 fs" "i < length fs"
  shows "productions_at out i = Some (fs ! i)"
proof -
  let ?a = "length (concat (take i fs))" and ?n = "length (fs ! i)"
  have g: "vec_get (st_var_prods out) i = Some (?a, ?a + ?n)" using assms(2,3) by (simp add: ranges_of_nth vec_get_def)
  have v: "vec_slice (concat fs) ?a (?a + ?n) = Some (fs ! i)" by (rule vec_slice_concat [OF assms(3)])
  have "map_option (map (view out)) (vec_slice (st_productions out) ?a (?a + ?n)) = vec_slice (views out) ?a (?a + ?n)"
    by (simp add: vec_slice_def views_def take_map drop_map)
  then show ?thesis unfolding productions_at_def g using v assms(1) by simp
qed

lemma flatten_grammar_outcome:
  fixes g :: "'t InputGrammar"
  assumes r: "list_all2 (\<lambda>v t. rep (g_pool g) (v_root v) t) (g_variables g) ts"
    and n: "\<forall>t \<in> set ts. reserved_names t \<subseteq> dom (reserved_ids_of meta)" "length (m_reserved_sets meta) \<le> 65535"
    and nm: "\<forall>v \<in> set (g_variables g). resolve (str_pool (g_pool g)) (v_name v) \<noteq> None"
    and small: "(\<Sum>t \<leftarrow> ts. length (paths (reserved_ids_of meta) t default_ctx True)) < 2 ^ 32"
      "(\<Sum>t \<leftarrow> ts. total_steps (paths (reserved_ids_of meta) t default_ctx True)) < 2 ^ 32"
  shows "if \<exists>t \<in> set ts. unreachable (reserved_ids_of meta) t
    then \<exists>s. flatten_grammar g meta st empty_store = Some (Inl (NoReachableProductions s))
    else if \<exists>i < length ts. ill_formed (map (flat_prods (reserved_ids_of meta)) ts) meta i (flat_prods (reserved_ids_of meta) (ts ! i))
    then \<exists>s. flatten_grammar g meta st empty_store \<in> {Some (Inl (EmptyString s)), Some (Inl (RecursiveInline s))}
    else \<exists>st' out. flatten_grammar g meta st empty_store = Some (Inr (st', out)) \<and> length (st_var_prods out) = length ts \<and>
      (\<forall>i < length ts. productions_at out i = Some (flat_prods (reserved_ids_of meta) (ts ! i)))"
proof -
  let ?R = "reserved_ids_of meta" and ?fs = "map (flat_prods (reserved_ids_of meta)) ts"
  let ?fv = "flatten_variables (g_pool g) ?R (g_variables g) st empty_store"
  have t0: "tight empty_store" "views empty_store = []" "st_var_prods empty_store = []"
    by (simp_all add: empty_store_def tight_def store_inv_def views_def)
  have fg: "flatten_grammar g meta st empty_store = Option.bind ?fv (\<lambda>res. case res of Inl e \<Rightarrow> Some (Inl e)
      | Inr (st', out') \<Rightarrow> map_option (\<lambda>r. case r of Inl e \<Rightarrow> Inl e | Inr _ \<Rightarrow> Inr (st', out')) (check g meta out'))"
    using n(2) by (simp add: flatten_grammar_def)
  have fv: "if \<exists>t \<in> set ts. unreachable ?R t then \<exists>s. ?fv = Some (Inl (NoReachableProductions s))
    else \<exists>st' out'. ?fv = Some (Inr (st', out')) \<and> tight out' \<and> views out' = concat ?fs \<and> st_var_prods out' = ranges_of 0 ?fs"
  proof -
    have "length (st_productions empty_store) + (\<Sum>t \<leftarrow> ts. length (paths ?R t default_ctx True)) < 2 ^ 32"
      "length (st_steps empty_store) + (\<Sum>t \<leftarrow> ts. total_steps (paths ?R t default_ctx True)) < 2 ^ 32"
      using small by (simp_all add: empty_store_def)
    from flatten_variables_correct [OF r n(1) nm t0(1) this, of st] show ?thesis unfolding t0 append_Nil list.size .
  qed
  show ?thesis
  proof (cases "\<exists>t \<in> set ts. unreachable ?R t")
    case True
    then obtain s where "?fv = Some (Inl (NoReachableProductions s))" using fv by auto
    then show ?thesis using True fg by simp
  next
    case False
    then obtain st' out where o: "?fv = Some (Inr (st', out))" "tight out" "views out = concat ?fs" "st_var_prods out = ranges_of 0 ?fs"
      using fv unfolding if_not_P [OF False] by (elim exE conjE)
    have nms: "\<forall>i < length (g_variables g). variable_name g i \<noteq> None"
      using nm by (auto simp: variable_name_def vec_get_def)
    have len: "length ts = length (g_variables g)" using list_all2_lengthD [OF r] by simp
    have c: "if \<exists>j < length ts. ill_formed ?fs meta j (flat_prods ?R (ts ! j))
        then \<exists>s. check g meta out \<in> {Some (Inl (EmptyString s)), Some (Inl (RecursiveInline s))} else check g meta out = Some (Inr ())"
      using check_variables_correct [OF o(2) nms o(3), of 0 ?fs 0 meta] len o(3,4) by (auto simp: check_def split: if_splits)
    have fgo: "flatten_grammar g meta st empty_store =
        map_option (\<lambda>r. case r of Inl e \<Rightarrow> Inl e | Inr _ \<Rightarrow> Inr (st', out)) (check g meta out)" using fg o(1) by simp
    have "\<forall>i < length ts. productions_at out i = Some (flat_prods ?R (ts ! i))"
      using productions_at_correct [OF o(3,4)] by simp
    then show ?thesis unfolding if_not_P [OF False] fgo using c o(4) by (auto split: if_splits)
  qed
qed

text \<open>C3. Flattening a grammar terminates and its outcome is determined by the rule trees: every variable gets
  exactly the distinct productions of the paths through its tree, in the order of the choices, with
  the precedence, alias, field and reserved set each step stands under. It fails exactly when a
  variable has only paths with an \<open>eof()\<close> before the end, when a variable that is used has an empty
  production, or when an inlined variable refers to itself. Required: every reserved word set named
  exists and all counts fit in 32 bits.\<close>

theorem flatten_grammar_correct:
  fixes g :: "'t InputGrammar"
  assumes "list_all2 (\<lambda>v t. rep (g_pool g) (v_root v) t) (g_variables g) ts"
    "\<forall>t \<in> set ts. reserved_names t \<subseteq> dom (reserved_ids_of meta)" "length (m_reserved_sets meta) \<le> 65535"
    "\<forall>v \<in> set (g_variables g). resolve (str_pool (g_pool g)) (v_name v) \<noteq> None"
    "(\<Sum>t \<leftarrow> ts. length (paths (reserved_ids_of meta) t default_ctx True)) < 2 ^ 32"
      "(\<Sum>t \<leftarrow> ts. total_steps (paths (reserved_ids_of meta) t default_ctx True)) < 2 ^ 32"
  shows "if \<exists>t \<in> set ts. unreachable (reserved_ids_of meta) t
    then \<exists>s. flatten_grammar g meta st empty_store = Some (Inl (NoReachableProductions s))
    else if \<exists>i < length ts. ill_formed (map (flat_prods (reserved_ids_of meta)) ts) meta i (flat_prods (reserved_ids_of meta) (ts ! i))
    then \<exists>s. flatten_grammar g meta st empty_store \<in> {Some (Inl (EmptyString s)), Some (Inl (RecursiveInline s))}
    else \<exists>st' out. flatten_grammar g meta st empty_store = Some (Inr (st', out)) \<and> length (st_var_prods out) = length ts \<and>
      (\<forall>i < length ts. productions_at out i = Some (flat_prods (reserved_ids_of meta) (ts ! i)))"
  by (rule flatten_grammar_outcome [OF assms])

text \<open>C12. Flattening preserves the language of a rule from which repetitions, strings, patterns and names are gone, also inside of
  \<open>reserved\<close>: whenever it succeeds, the productions of such a variable are distinct and derive exactly the
  symbol sequences of its rule tree, read as a regular expression over symbols, that have no \<open>eof()\<close> before the end.\<close>

theorem flattened_language:
  fixes g :: "'t InputGrammar"
  assumes "list_all2 (\<lambda>v t. rep (g_pool g) (v_root v) t) (g_variables g) ts"
    "\<forall>t \<in> set ts. reserved_names t \<subseteq> dom (reserved_ids_of meta)" "length (m_reserved_sets meta) \<le> 65535"
    "\<forall>v \<in> set (g_variables g). resolve (str_pool (g_pool g)) (v_name v) \<noteq> None"
    "(\<Sum>t \<leftarrow> ts. length (paths (reserved_ids_of meta) t default_ctx True)) < 2 ^ 32"
    "(\<Sum>t \<leftarrow> ts. total_steps (paths (reserved_ids_of meta) t default_ctx True)) < 2 ^ 32"
    and ok: "flatten_grammar g meta st empty_store = Some (Inr (st', out))" and i: "i < length ts" "flattenable (ts ! i)"
  shows "\<exists>ps. productions_at out i = Some ps \<and> distinct ps \<and>
    production_symbols ` set ps = {w \<in> yields (ts ! i). end_sym \<notin> set (butlast w)}"
proof -
  have "productions_at out i = Some (flat_prods (reserved_ids_of meta) (ts ! i))"
    using flatten_grammar_outcome [OF assms(1-6), of st] ok i(1) by (auto split: if_splits)
  then show ?thesis using flat_prods_language [OF i(2)] flat_prods_set(1) by blast
qed

definition choice_grammar :: "unit InputGrammar" where
  "choice_grammar = \<lparr>g_pool = \<lparr>nodes = [Sym Terminal 0, Sym Terminal 1, Choice (RuleIdRange 0 2)], children = [0, 1], params_vec = [],
       str_pool = \<lparr>buf = [], spans = [\<lparr>span_start = 0, span_end = 0\<rparr>], ids = ()\<rparr>, scratch = []\<rparr>,
     g_name = 1, g_variables = [\<lparr>v_name = 1, v_root = 2\<rparr>], g_external_roots = [], g_extra_roots = [], g_reserved_sets = [],
     g_supertype_names = [], g_conflict_names = [], g_inline_names = [], g_word_name = None, g_precedence_orderings = []\<rparr>"

definition plain_meta :: ExtractedGrammarMeta where
  "plain_meta = \<lparr>m_kinds = [Named], m_extra_symbols = [], m_external_tokens = [], m_reserved_sets = [], m_supertypes = [],
     m_conflicts = [], m_inline = [], m_word = None\<rparr>"

lemma choice_grammar_rep: "rep (g_pool choice_grammar) 2 (TChoice [TSym Terminal 0, TSym Terminal 1])"
proof -
  have "rep (g_pool choice_grammar) 0 (TSym Terminal 0)" "rep (g_pool choice_grammar) 1 (TSym Terminal 1)"
    by (auto intro!: rep_Sym simp: node_def choice_grammar_def vec_get_def)
  then show ?thesis
    by (intro rep_Choice [of _ _ "RuleIdRange 0 2" "[0, 1]"])
      (simp_all add: node_def child_slice_def choice_grammar_def vec_get_def vec_slice_def)
qed

lemma choice_grammar_ok:
  "list_all2 (\<lambda>v t. rep (g_pool choice_grammar) (v_root v) t) (g_variables choice_grammar) [TChoice [TSym Terminal 0, TSym Terminal 1]]"
  "\<forall>v \<in> set (g_variables choice_grammar). resolve (str_pool (g_pool choice_grammar)) (v_name v) \<noteq> None"
  "length (m_reserved_sets plain_meta) \<le> 65535"
  using choice_grammar_rep
  by (simp_all add: choice_grammar_def resolve_def span_str_def vec_get_def vec_slice_def id_index_def plain_meta_def)

lemma choice_grammar_prods:
  "flat_prods R (TChoice [TSym Terminal 0, TSym Terminal 1]) =
     [([step_of (Symbol Terminal 0) default_ctx], 0, False), ([step_of (Symbol Terminal 1) default_ctx], 0, False)]"
proof -
  have ne: "step_of (Symbol Terminal 0) default_ctx \<noteq> step_of (Symbol Terminal 1) default_ctx"
    using step_symbol_step_of [of "Symbol Terminal 0" default_ctx] step_symbol_step_of [of "Symbol Terminal 1" default_ctx]
    by (metis Symbol.inject zero_neq_one)
  then show ?thesis by (simp add: flat_prods_def produced_def map_filter_simps end_sym_def add_new_def)
qed

lemma choice_grammar_fine:
  "\<not> unreachable R (TChoice [TSym Terminal 0, TSym Terminal 1])"
  "\<not> ill_formed [flat_prods R (TChoice [TSym Terminal 0, TSym Terminal 1])] plain_meta 0 (flat_prods R (TChoice [TSym Terminal 0, TSym Terminal 1]))"
  unfolding unreachable_def ill_formed_def choice_grammar_prods by (simp_all add: bad_production_def plain_meta_def)

lemma choice_grammar_flattens:
  "\<exists>st' out. flatten_grammar choice_grammar plain_meta default_state empty_store = Some (Inr (st', out))"
  using flatten_grammar_outcome [OF choice_grammar_ok(1) _ choice_grammar_ok(3,2), of default_state] choice_grammar_fine
  by (auto simp: total_steps_def)

theorem flatten_grammar_correct_witness:
  "\<exists>st' out. flatten_grammar choice_grammar plain_meta default_state empty_store = Some (Inr (st', out)) \<and>
     productions_at out 0 = Some [([step_of (Symbol Terminal 0) default_ctx], 0, False), ([step_of (Symbol Terminal 1) default_ctx], 0, False)]"
proof -
  let ?t = "TChoice [TSym Terminal 0, TSym Terminal 1]"
  have "\<exists>st' out. flatten_grammar choice_grammar plain_meta default_state empty_store = Some (Inr (st', out)) \<and>
      length (st_var_prods out) = 1 \<and> productions_at out 0 = Some (flat_prods (reserved_ids_of plain_meta) ?t)"
    using flatten_grammar_correct [OF choice_grammar_ok(1) _ choice_grammar_ok(3,2), of default_state] choice_grammar_fine
    by (simp add: total_steps_def)
  then show ?thesis unfolding choice_grammar_prods by blast
qed

theorem flattened_language_witness:
  "\<exists>st' out ps. flatten_grammar choice_grammar plain_meta default_state empty_store = Some (Inr (st', out)) \<and>
     productions_at out 0 = Some ps \<and> production_symbols ` set ps = {[Symbol Terminal 0], [Symbol Terminal 1]}"
proof -
  let ?t = "TChoice [TSym Terminal 0, TSym Terminal 1]"
  obtain st' out where ok: "flatten_grammar choice_grammar plain_meta default_state empty_store = Some (Inr (st', out))"
    using choice_grammar_flattens by blast
  have "\<exists>ps. productions_at out 0 = Some ps \<and> distinct ps \<and> production_symbols ` set ps = {w \<in> yields ([?t] ! 0). end_sym \<notin> set (butlast w)}"
    by (rule flattened_language [OF choice_grammar_ok(1) _ choice_grammar_ok(3,2) _ _ ok]) (simp_all add: total_steps_def)
  moreover have "{w \<in> yields ([?t] ! 0). end_sym \<notin> set (butlast w)} = {[Symbol Terminal 0], [Symbol Terminal 1]}" by auto
  ultimately show ?thesis using ok by metis
qed

end
