(* ===== verification/Default_Aliases.thy ===== *)
theory Default_Aliases
  imports Production_Store
begin

text \<open>
  \<^verbatim>\<open>crates/generate/src/prepare_grammar/extract_default_aliases.rs\<close>: a symbol that never appears without an alias gets
  its most frequent alias as a default, and steps that carry the default lose their alias. The alias map
  is a partial function. The three status lists are one record, indexed by the kind of a symbol.
\<close>

section \<open>Definitions\<close>

record SymbolStatus =
  aliases :: "(Alias \<times> nat) list"
  appears_unaliased :: bool

definition default_status :: SymbolStatus where
  "default_status = \<lparr>aliases = [], appears_unaliased = False\<rparr>"

record status_lists =
  terminal_status_list :: "SymbolStatus list"
  non_terminal_status_list :: "SymbolStatus list"
  external_status_list :: "SymbolStatus list"

definition status_of :: "status_lists \<Rightarrow> Symbol \<Rightarrow> SymbolStatus option" where
  "status_of L sy = (case kind sy of
     External \<Rightarrow> vec_get (external_status_list L) (index sy)
   | NonTerminal \<Rightarrow> vec_get (non_terminal_status_list L) (index sy)
   | Terminal \<Rightarrow> vec_get (terminal_status_list L) (index sy)
   | _ \<Rightarrow> None)"

definition update_status :: "(SymbolStatus \<Rightarrow> SymbolStatus) \<Rightarrow> status_lists \<Rightarrow> Symbol \<Rightarrow> status_lists" where
  "update_status f L sy = (case kind sy of
     External \<Rightarrow> L\<lparr>external_status_list := (external_status_list L)[index sy := f (external_status_list L ! index sy)]\<rparr>
   | NonTerminal \<Rightarrow> L\<lparr>non_terminal_status_list := (non_terminal_status_list L)[index sy := f (non_terminal_status_list L ! index sy)]\<rparr>
   | Terminal \<Rightarrow> L\<lparr>terminal_status_list := (terminal_status_list L)[index sy := f (terminal_status_list L ! index sy)]\<rparr>
   | _ \<Rightarrow> L)"

fun count_alias :: "Alias \<Rightarrow> (Alias \<times> nat) list \<Rightarrow> (Alias \<times> nat) list" where
  "count_alias al [] = [(al, 1)]"
| "count_alias al ((a, n) # es) = (if a = al then (a, n + 1) # es else (a, n) # count_alias al es)"

definition note_alias :: "Alias option \<Rightarrow> SymbolStatus \<Rightarrow> SymbolStatus" where
  "note_alias al status = (case al of
     Some a \<Rightarrow> status\<lparr>aliases := count_alias a (aliases status)\<rparr>
   | None \<Rightarrow> status\<lparr>appears_unaliased := True\<rparr>)"

fun scan_steps :: "Symbol list \<Rightarrow> ProductionStep list \<Rightarrow> status_lists \<Rightarrow> status_lists option" where
  "scan_steps inl [] L = Some L"
| "scan_steps inl (step # steps) L = do {
     _ \<leftarrow> status_of L (step_symbol step);
     if step_symbol step \<in> set inl then scan_steps inl steps L
     else scan_steps inl steps (update_status (note_alias (step_alias step)) L (step_symbol step))
   }"

fun scan_productions :: "Symbol list \<Rightarrow> ProductionStore \<Rightarrow> Production list \<Rightarrow> status_lists \<Rightarrow> status_lists option" where
  "scan_productions inl out [] L = Some L"
| "scan_productions inl out (p # ps) L = do {
     steps \<leftarrow> prod_steps out p;
     L' \<leftarrow> scan_steps inl steps L;
     scan_productions inl out ps L'
   }"

fun scan_extras :: "Symbol list \<Rightarrow> status_lists \<Rightarrow> status_lists option" where
  "scan_extras [] L = Some L"
| "scan_extras (sy # sys) L = do {
     _ \<leftarrow> status_of L sy;
     scan_extras sys (update_status (\<lambda>status. status\<lparr>appears_unaliased := True\<rparr>) L sy)
   }"

text \<open>\<open>max_by_key\<close> with the key of count and negated position: the last maximal element in iteration order.\<close>

definition key_le :: "nat \<times> (Alias \<times> nat) \<Rightarrow> nat \<times> (Alias \<times> nat) \<Rightarrow> bool" where
  "key_le x y \<longleftrightarrow> snd (snd x) < snd (snd y) \<or> snd (snd x) = snd (snd y) \<and> - int (fst x) \<le> - int (fst y)"

fun max_by_key :: "('a \<Rightarrow> 'a \<Rightarrow> bool) \<Rightarrow> 'a list \<Rightarrow> 'a option" where
  "max_by_key le [] = None"
| "max_by_key le (x # xs) = Some (fold (\<lambda>y m. if le m y then y else m) xs x)"

definition default_entry :: "SymbolStatus \<Rightarrow> (Alias \<times> nat) option" where
  "default_entry status = map_option snd (max_by_key key_le (enumerate 0 (aliases status)))"

definition choose_default :: "SymbolStatus \<Rightarrow> SymbolStatus \<times> Alias option" where
  "choose_default status =
     (if appears_unaliased status then (status\<lparr>aliases := []\<rparr>, None)
      else case default_entry status of
        Some e \<Rightarrow> (status\<lparr>aliases := [e]\<rparr>, Some (fst e))
      | None \<Rightarrow> (status, None))"

fun choose_defaults :: "(nat \<Rightarrow> Symbol) \<Rightarrow> nat \<Rightarrow> SymbolStatus list \<Rightarrow> (Symbol \<rightharpoonup> Alias) \<Rightarrow> SymbolStatus list \<times> (Symbol \<rightharpoonup> Alias)" where
  "choose_defaults mk i [] result = ([], result)"
| "choose_defaults mk i (s # ss) result =
     (let (s', d) = choose_default s;
          (ss', result') = choose_defaults mk (Suc i) ss (case d of Some a \<Rightarrow> result(mk i \<mapsto> a) | None \<Rightarrow> result)
      in (s' # ss', result'))"

definition default_aliases :: "status_lists \<Rightarrow> status_lists \<times> (Symbol \<rightharpoonup> Alias)" where
  "default_aliases L =
     (let (ts, r1) = choose_defaults terminal 0 (terminal_status_list L) Map.empty;
          (ns, r2) = choose_defaults non_terminal 0 (non_terminal_status_list L) r1;
          (es, r3) = choose_defaults external 0 (external_status_list L) r2
      in (\<lparr>terminal_status_list = ts, non_terminal_status_list = ns, external_status_list = es\<rparr>, r3))"

fun other_must_use :: "ProductionStore \<Rightarrow> (Symbol \<rightharpoonup> Alias) \<Rightarrow> Alias option \<Rightarrow> nat \<Rightarrow> nat \<Rightarrow> nat \<Rightarrow> Production list \<Rightarrow> bool option" where
  "other_must_use out result al i j other_i [] = Some False"
| "other_must_use out result al i j other_i (p # ps) = do {
     other_steps \<leftarrow> prod_steps out p;
     if other_i \<noteq> i \<and> length other_steps > j \<and> step_alias (other_steps ! j) = al \<and> result (step_symbol (other_steps ! j)) \<noteq> al
     then Some True else other_must_use out result al i j (Suc other_i) ps
   }"

fun step_positions :: "ProductionStore \<Rightarrow> status_lists \<Rightarrow> (Symbol \<rightharpoonup> Alias) \<Rightarrow> Production list \<Rightarrow> nat \<Rightarrow> Production \<Rightarrow> nat \<Rightarrow> ProductionStep list \<Rightarrow> nat list option" where
  "step_positions out L result ps i p j [] = Some []"
| "step_positions out L result ps i p j (step # steps) = do {
     status \<leftarrow> status_of L (step_symbol step);
     here \<leftarrow> (if step_alias step \<noteq> None \<and> step_alias step = (case aliases status of [] \<Rightarrow> None | t # _ \<Rightarrow> Some (fst t)) then do {
         other \<leftarrow> other_must_use out result (step_alias step) i j 0 ps;
         Some (if \<not> other then [steps_start p + j] else [])
       } else Some []);
     rest \<leftarrow> step_positions out L result ps i p (Suc j) steps;
     Some (here @ rest)
   }"

fun production_positions :: "ProductionStore \<Rightarrow> status_lists \<Rightarrow> (Symbol \<rightharpoonup> Alias) \<Rightarrow> Production list \<Rightarrow> nat \<Rightarrow> Production list \<Rightarrow> nat list option" where
  "production_positions out L result ps i [] = Some []"
| "production_positions out L result ps i (p # qs) = do {
     steps \<leftarrow> prod_steps out p;
     here \<leftarrow> step_positions out L result ps i p 0 steps;
     rest \<leftarrow> production_positions out L result ps (Suc i) qs;
     Some (here @ rest)
   }"

fun clear_positions :: "nat list \<Rightarrow> ProductionStep list \<Rightarrow> ProductionStep list option" where
  "clear_positions [] steps = Some steps"
| "clear_positions (k # ks) steps = do {
     st \<leftarrow> vec_get steps k;
     clear_positions ks (steps[k := set_alias None st])
   }"

fun clear_variables :: "status_lists \<Rightarrow> (Symbol \<rightharpoonup> Alias) \<Rightarrow> (nat \<times> nat) list \<Rightarrow> ProductionStore \<Rightarrow> ProductionStore option" where
  "clear_variables L result [] out = Some out"
| "clear_variables L result ((p_start, p_end) # rs) out = do {
     ps \<leftarrow> vec_slice (st_productions out) p_start p_end;
     positions \<leftarrow> production_positions out L result ps 0 ps;
     steps \<leftarrow> clear_positions positions (st_steps out);
     clear_variables L result rs (out\<lparr>st_steps := steps\<rparr>)
   }"

definition extract_default_aliases :: "'t InputGrammar \<Rightarrow> ExtractedGrammarMeta \<Rightarrow> LexicalVariable list \<Rightarrow> ProductionStore \<Rightarrow>
    ((Symbol \<rightharpoonup> Alias) \<times> ProductionStore) option" where
  "extract_default_aliases g meta lexical_variables out = do {
     let L0 = \<lparr>terminal_status_list = replicate (length lexical_variables) default_status,
       non_terminal_status_list = replicate (length (g_variables g)) default_status,
       external_status_list = replicate (length (m_external_tokens meta)) default_status\<rparr>;
     L1 \<leftarrow> scan_productions (m_inline meta) out (st_productions out) L0;
     L2 \<leftarrow> scan_extras (m_extra_symbols meta) L1;
     let (L3, result) = default_aliases L2;
     out' \<leftarrow> clear_variables L3 result (st_var_prods out) out;
     Some (result, out')
   }"


section \<open>Counting aliases\<close>

definition first_at :: "'a \<Rightarrow> 'a list \<Rightarrow> nat" where
  "first_at x xs = length (takeWhile (\<lambda>y. y \<noteq> x) xs)"

text \<open>The most frequent element of a list, the earliest one among equals.\<close>

definition preferred :: "'a list \<Rightarrow> 'a \<Rightarrow> bool" where
  "preferred xs a \<longleftrightarrow> a \<in> set xs \<and>
     (\<forall>b \<in> set xs. count_list xs b < count_list xs a \<or> count_list xs b = count_list xs a \<and> first_at a xs \<le> first_at b xs)"

lemma keep_first_snoc: "keep_first acc (xs @ [x]) = (let k = keep_first acc xs in if x \<in> set k then k else k @ [x])"
  by (induction acc xs rule: keep_first.induct) (simp_all add: Let_def)

lemma first_at_snoc: "b \<in> set xs \<Longrightarrow> first_at b (xs @ [x]) = first_at b xs" "b \<notin> set xs \<Longrightarrow> first_at b (xs @ [b]) = length xs"
  unfolding first_at_def by (auto simp: takeWhile_append)

lemma first_at_less: "b \<in> set xs \<Longrightarrow> first_at b xs < length xs"
  unfolding first_at_def by (induction xs) auto

lemma keep_first_order: "sorted_wrt (\<lambda>a b. first_at a xs < first_at b xs) (keep_first [] xs)"
proof (induction xs rule: rev_induct)
  case (snoc x xs)
  have in_xs: "set (keep_first [] xs) = set xs" by (simp add: keep_first_set)
  have old: "sorted_wrt (\<lambda>a b. first_at a (xs @ [x]) < first_at b (xs @ [x])) (keep_first [] xs)"
    using snoc by (rule sorted_wrt_mono_rel [rotated]) (simp add: first_at_snoc in_xs)
  show ?case
  proof (cases "x \<in> set xs")
    case False
    then have "\<forall>b \<in> set xs. first_at b (xs @ [x]) < first_at x (xs @ [x])" by (simp add: first_at_snoc first_at_less)
    then show ?thesis using old False in_xs by (simp add: keep_first_snoc Let_def sorted_wrt_append)
  qed (use old in_xs in \<open>simp add: keep_first_snoc Let_def\<close>)
qed simp

lemma count_alias_map:
  "distinct ks \<Longrightarrow> (a \<notin> set ks \<Longrightarrow> c a = 0) \<Longrightarrow>
    count_alias a (map (\<lambda>k. (k, c k)) ks) = map (\<lambda>k. (k, c k + (if k = a then 1 else 0))) (if a \<in> set ks then ks else ks @ [a])"
proof (induction ks)
  case (Cons k ks)
  then show ?case by (cases "k = a") auto
qed simp

lemma counted: "fold count_alias os [] = map (\<lambda>a. (a, count_list os a)) (keep_first [] os)"
proof (induction os rule: rev_induct)
  case (snoc a os)
  have "fold count_alias (os @ [a]) [] = count_alias a (map (\<lambda>k. (k, count_list os k)) (keep_first [] os))" using snoc by simp
  also have "\<dots> = map (\<lambda>k. (k, count_list os k + (if k = a then 1 else 0))) (if a \<in> set (keep_first [] os) then keep_first [] os else keep_first [] os @ [a])"
    by (rule count_alias_map) (simp_all add: keep_first_distinct keep_first_set count_list_0_iff)
  also have "\<dots> = map (\<lambda>k. (k, count_list (os @ [a]) k)) (keep_first [] (os @ [a]))"
    by (simp add: keep_first_snoc Let_def)
  finally show ?case .
qed simp

lemma fold_max:
  assumes "\<And>x y. le x y \<or> le y x" "\<And>x y z. le x y \<Longrightarrow> le y z \<Longrightarrow> le x z"
  shows "fold (\<lambda>y m. if le m y then y else m) xs x \<in> set (x # xs) \<and> (\<forall>y \<in> set (x # xs). le y (fold (\<lambda>y m. if le m y then y else m) xs x))"
proof (induction xs arbitrary: x)
  case (Cons y ys)
  let ?z = "if le x y then y else x"
  define m where "m = fold (\<lambda>y m. if le m y then y else m) ys ?z"
  have m: "m \<in> set (?z # ys)" "\<forall>v \<in> set (?z # ys). le v m" using Cons [of ?z] unfolding m_def by blast+
  have z: "?z \<in> {x, y}" "le x ?z" "le y ?z" using assms(1) [of x y] assms(1) [of x x] assms(1) [of y y] by auto
  have "le ?z m" using m(2) by (meson list.set_intros(1))
  then have "le x m" "le y m" using assms(2) [OF z(2)] assms(2) [OF z(3)] by blast+
  moreover have "m \<in> set (x # y # ys)" using m(1) z(1) unfolding list.set by blast
  moreover have "\<forall>v \<in> set ys. le v m" using m(2) by (meson list.set_intros(2))
  ultimately show ?case unfolding fold_simps m_def [symmetric] list.set by blast
qed (use assms(1) in auto)

lemma key_le_order: "key_le x y \<or> key_le y x" "key_le x y \<Longrightarrow> key_le y z \<Longrightarrow> key_le x z"
  unfolding key_le_def by auto

lemma default_entry_preferred:
  assumes "aliases s = fold count_alias os []" "os \<noteq> []"
  shows "\<exists>a n. default_entry s = Some (a, n) \<and> preferred os a"
proof -
  let ?ks = "keep_first [] os"
  let ?es = "enumerate 0 (aliases s)"
  have al: "aliases s = map (\<lambda>a. (a, count_list os a)) ?ks" using assms(1) by (simp add: counted)
  have ks: "set ?ks = set os" by (simp add: keep_first_set)
  then have "?ks \<noteq> []" using assms(2) by auto
  then have "length ?es \<noteq> 0" using al by simp
  then obtain e es where es: "?es = e # es" by (cases ?es) simp_all
  obtain m where m: "max_by_key key_le ?es = Some m" "m \<in> set ?es" "\<forall>y \<in> set ?es. key_le y m"
    unfolding es using fold_max [of key_le es e, OF key_le_order] by auto
  have el: "(k, e) \<in> set ?es \<longleftrightarrow> k < length ?ks \<and> e = (?ks ! k, count_list os (?ks ! k))" for k e
    by (auto simp: in_set_enumerate_eq al)
  obtain i e where i: "m = (i, e)" by (cases m) blast
  then have i': "i < length ?ks" "e = (?ks ! i, count_list os (?ks ! i))" using m(2) el by auto
  have "count_list os b < count_list os (?ks ! i) \<or> count_list os b = count_list os (?ks ! i) \<and> first_at (?ks ! i) os \<le> first_at b os" if b: "b \<in> set os" for b
  proof -
    obtain j where j: "j < length ?ks" "b = ?ks ! j" using b ks by (metis in_set_conv_nth)
    then have "key_le (j, (b, count_list os b)) m" using m(3) el by blast
    then have "count_list os b < count_list os (?ks ! i) \<or> count_list os b = count_list os (?ks ! i) \<and> i \<le> j" using i i'(2) by (auto simp: key_le_def)
    moreover have "first_at (?ks ! i) os \<le> first_at b os" if "i \<le> j"
      using keep_first_order [of os] j that unfolding sorted_wrt_iff_nth_less by (cases "i = j") (auto intro!: less_imp_le)
    ultimately show ?thesis by auto
  qed
  moreover have "?ks ! i \<in> set os" using i' ks nth_mem by blast
  ultimately show ?thesis using m(1) i i'(2) by (auto simp: default_entry_def preferred_def)
qed

section \<open>Scanning the steps\<close>

definition has_status :: "status_lists \<Rightarrow> Symbol \<Rightarrow> bool" where
  "has_status L sy \<longleftrightarrow> status_of L sy \<noteq> None"

lemma status_update:
  assumes "has_status L sy"
  shows "status_of (update_status f L sy) sy' = (if sy' = sy then map_option f (status_of L sy) else status_of L sy')"
  using assms
  by (cases sy; cases sy'; cases "kind sy"; cases "kind sy'") (auto simp: has_status_def status_of_def update_status_def vec_get_def)

lemma has_status_update [simp]: "has_status L sy \<Longrightarrow> has_status (update_status f L sy) = has_status L"
  by (auto simp: has_status_def status_update fun_eq_iff)

definition uses_in :: "Symbol list \<Rightarrow> ProductionStep list \<Rightarrow> Symbol \<Rightarrow> Alias option list" where
  "uses_in inl steps sy = (if sy \<in> set inl then [] else map step_alias (filter (\<lambda>st. step_symbol st = sy) steps))"

lemma scan_steps_correct:
  "\<forall>st \<in> set steps. has_status L (step_symbol st) \<Longrightarrow>
    \<exists>L'. scan_steps inl steps L = Some L' \<and> has_status L' = has_status L \<and>
      (\<forall>sy. status_of L' sy = map_option (fold note_alias (uses_in inl steps sy)) (status_of L sy))"
proof (induction steps arbitrary: L)
  case Nil
  then show ?case by (simp add: uses_in_def option.map_ident id_def)
next
  case (Cons st steps)
  let ?L = "if step_symbol st \<in> set inl then L else update_status (note_alias (step_alias st)) L (step_symbol st)"
  have st: "has_status L (step_symbol st)" using Cons.prems by simp
  have h: "has_status ?L = has_status L" using st by simp
  obtain L' where L': "scan_steps inl steps ?L = Some L'" "has_status L' = has_status ?L"
    "\<forall>sy. status_of L' sy = map_option (fold note_alias (uses_in inl steps sy)) (status_of ?L sy)"
    using Cons.IH [of ?L] Cons.prems h by auto
  have "scan_steps inl (st # steps) L = scan_steps inl steps ?L" using st by (auto simp: has_status_def)
  moreover have "status_of L' sy = map_option (fold note_alias (uses_in inl (st # steps) sy)) (status_of L sy)" for sy
    unfolding L'(3) [rule_format, of sy]
    by (cases "step_symbol st \<in> set inl") (auto simp: status_update [OF st] uses_in_def option.map_comp comp_def)
  ultimately show ?case using L'(1,2) h by auto
qed

lemma scan_productions_steps:
  "\<forall>p \<in> set ps. prod_steps out p = Some (fst (view out p)) \<Longrightarrow>
    scan_productions inl out ps L = scan_steps inl (concat (map (\<lambda>p. fst (view out p)) ps)) L"
proof (induction ps arbitrary: L)
  case (Cons p ps)
  have app: "scan_steps inl (xs @ ys) L = Option.bind (scan_steps inl xs L) (scan_steps inl ys)" for xs ys
    by (induction xs arbitrary: L) (auto simp: bind_eq_Some_conv split: Option.bind_splits)
  show ?case using Cons by (auto simp: app fun_eq_iff intro!: arg_cong [of _ _ "Option.bind _"])
qed simp

lemma scan_extras_correct:
  "\<forall>sy \<in> set sys. has_status L sy \<Longrightarrow>
    \<exists>L'. scan_extras sys L = Some L' \<and> has_status L' = has_status L \<and>
      (\<forall>sy. status_of L' sy = map_option (\<lambda>s. if sy \<in> set sys then s\<lparr>appears_unaliased := True\<rparr> else s) (status_of L sy))"
proof (induction sys arbitrary: L)
  case (Cons sy sys)
  let ?L = "update_status (\<lambda>status. status\<lparr>appears_unaliased := True\<rparr>) L sy"
  have sy: "has_status L sy" using Cons.prems by simp
  obtain L' where L': "scan_extras sys ?L = Some L'" "has_status L' = has_status ?L"
    "\<forall>sy. status_of L' sy = map_option (\<lambda>s. if sy \<in> set sys then s\<lparr>appears_unaliased := True\<rparr> else s) (status_of ?L sy)"
    using Cons.IH [of ?L] Cons.prems by auto
  have "scan_extras (sy # sys) L = scan_extras sys ?L" using sy by (auto simp: has_status_def)
  moreover have "status_of L' sy' = map_option (\<lambda>s. if sy' \<in> set (sy # sys) then s\<lparr>appears_unaliased := True\<rparr> else s) (status_of L sy')" for sy'
    unfolding L'(3) [rule_format, of sy'] by (cases "status_of L sy'") (auto simp: status_update [OF sy])
  ultimately show ?case using L'(1,2) sy by auto
qed (simp add: option.map_ident)

lemma noted:
  "appears_unaliased (fold note_alias os s) \<longleftrightarrow> appears_unaliased s \<or> None \<in> set os"
  "aliases (fold note_alias os s) = fold count_alias (map the (filter (\<lambda>a. a \<noteq> None) os)) (aliases s)"
  by (induction os arbitrary: s) (auto simp: note_alias_def split: option.splits)

section \<open>The default aliases\<close>

lemma choose_defaults_lists: "fst (choose_defaults mk i ss result) = map (\<lambda>s. fst (choose_default s)) ss"
  by (induction ss arbitrary: i result) (simp_all add: case_prod_beta)

lemma choose_defaults_other: "\<forall>k < length ss. sy \<noteq> mk (i + k) \<Longrightarrow> snd (choose_defaults mk i ss result) sy = result sy"
proof (induction ss arbitrary: i result)
  case (Cons s ss)
  have "sy \<noteq> mk i" "\<forall>k < length ss. sy \<noteq> mk (Suc i + k)" using Cons.prems by (auto dest: spec [of _ 0] spec [of _ "Suc _"])
  then show ?case using Cons.IH [of "Suc i"] by (auto simp: case_prod_beta split: option.splits)
qed simp

lemma choose_defaults_at:
  "inj_on mk {i ..< i + length ss} \<Longrightarrow> k < length ss \<Longrightarrow> result (mk (i + k)) = None \<Longrightarrow>
    snd (choose_defaults mk i ss result) (mk (i + k)) = snd (choose_default (ss ! k))"
proof (induction ss arbitrary: i k result)
  case (Cons s ss)
  let ?r = "case snd (choose_default s) of Some a \<Rightarrow> result(mk i \<mapsto> a) | None \<Rightarrow> result"
  have step: "snd (choose_defaults mk i (s # ss) result) = snd (choose_defaults mk (Suc i) ss ?r)"
    by (simp add: case_prod_beta)
  show ?case
  proof (cases k)
    case 0
    have "\<forall>j < length ss. mk i \<noteq> mk (Suc i + j)" using Cons.prems(1) by (auto dest: inj_onD)
    then show ?thesis unfolding step using 0 Cons.prems(3) by (simp add: choose_defaults_other split: option.splits)
  next
    case (Suc j)
    have "mk i \<noteq> mk (Suc i + j)" using Cons.prems(1,2) Suc by (auto dest: inj_onD)
    then have "?r (mk (Suc i + j)) = None" using Cons.prems(3) Suc by (simp split: option.splits)
    moreover have "inj_on mk {Suc i ..< Suc i + length ss}" using Cons.prems(1) by (rule inj_on_subset) auto
    ultimately show ?thesis unfolding step using Cons.IH [of "Suc i" j ?r] Cons.prems(2) Suc by simp
  qed
qed simp

definition small_lists :: "status_lists \<Rightarrow> bool" where
  "small_lists L \<longleftrightarrow> length (terminal_status_list L) < 2 ^ 32 \<and> length (non_terminal_status_list L) < 2 ^ 32 \<and> length (external_status_list L) < 2 ^ 32"

lemma choose_defaults_kind:
  assumes mk: "\<And>i. mk i = Symbol k (as_u32 i)" and small: "length ss < 2 ^ 32"
    and none: "\<And>sy. kind sy = k \<Longrightarrow> result sy = None"
  shows "snd (choose_defaults mk 0 ss result) sy = (if kind sy = k then Option.bind (vec_get ss (index sy)) (\<lambda>s. snd (choose_default s)) else result sy)"
proof (cases "kind sy = k \<and> index sy < length ss")
  case True
  then have sy: "sy = mk (0 + index sy)" using mk small by (cases sy) simp
  have "inj_on mk {0 ..< 0 + length ss}" using small by (auto simp: inj_on_def mk)
  from choose_defaults_at [OF this, of "index sy" result] True sy none [of sy]
  show ?thesis by (simp add: vec_get_def)
next
  case False
  then have "\<forall>j < length ss. sy \<noteq> mk (0 + j)" using mk small by auto
  then show ?thesis using False none [of sy] by (auto simp: choose_defaults_other vec_get_def)
qed

lemma default_aliases_correct:
  assumes "small_lists L"
  shows "status_of (fst (default_aliases L)) sy = map_option (\<lambda>s. fst (choose_default s)) (status_of L sy)"
    "snd (default_aliases L) sy = Option.bind (status_of L sy) (\<lambda>s. snd (choose_default s))"
proof -
  show "status_of (fst (default_aliases L)) sy = map_option (\<lambda>s. fst (choose_default s)) (status_of L sy)"
    by (cases "kind sy") (auto simp: default_aliases_def case_prod_beta status_of_def choose_defaults_lists vec_get_def)
  have len: "length (terminal_status_list L) < 2 ^ 32" "length (non_terminal_status_list L) < 2 ^ 32" "length (external_status_list L) < 2 ^ 32"
    using assms by (auto simp: small_lists_def)
  note r1 = choose_defaults_kind [of terminal Terminal, OF terminal_def len(1), of Map.empty, simplified]
  note r2 = choose_defaults_kind [of non_terminal NonTerminal, OF non_terminal_def len(2)]
  note r3 = choose_defaults_kind [of external External, OF external_def len(3)]
  show "snd (default_aliases L) sy = Option.bind (status_of L sy) (\<lambda>s. snd (choose_default s))"
    unfolding default_aliases_def case_prod_beta snd_conv Let_def
    by (subst r3, simp add: r2 r1, cases "kind sy") (simp_all add: status_of_def r2 r1)
qed

lemma chosen_head: "(case aliases (fst (choose_default s)) of [] \<Rightarrow> None | t # _ \<Rightarrow> Some (fst t)) = snd (choose_default s)"
proof (cases "aliases s")
  case Nil
  then show ?thesis by (simp add: choose_default_def default_entry_def)
next
  case (Cons e es)
  then have "\<exists>d. default_entry s = Some d" by (simp add: default_entry_def)
  then show ?thesis by (auto simp: choose_default_def)
qed

definition uses :: "ProductionStore \<Rightarrow> Symbol \<Rightarrow> Alias option list" where
  "uses out sy = map step_alias (filter (\<lambda>st. step_symbol st = sy) (concat (map (\<lambda>p. fst (view out p)) (st_productions out))))"

definition status_after :: "ExtractedGrammarMeta \<Rightarrow> ProductionStore \<Rightarrow> Symbol \<Rightarrow> SymbolStatus" where
  "status_after meta out sy = (let s = fold note_alias (if sy \<in> set (m_inline meta) then [] else uses out sy) default_status in
     if sy \<in> set (m_extra_symbols meta) then s\<lparr>appears_unaliased := True\<rparr> else s)"

lemma status_after_default:
  "snd (choose_default (status_after meta out sy)) = None \<longleftrightarrow>
     sy \<in> set (m_inline meta) \<or> sy \<in> set (m_extra_symbols meta) \<or> None \<in> set (uses out sy) \<or> uses out sy = []" (is "_ \<longleftrightarrow> ?none")
  "snd (choose_default (status_after meta out sy)) = Some a \<Longrightarrow> preferred (uses out sy) (Some a)"
proof -
  let ?s = "status_after meta out sy" and ?os = "uses out sy"
  have "(snd (choose_default ?s) = None \<longleftrightarrow> ?none) \<and> (\<forall>a. snd (choose_default ?s) = Some a \<longrightarrow> preferred ?os (Some a))"
  proof (cases ?none)
    case True
    then have "appears_unaliased ?s \<or> aliases ?s = []"
      by (auto simp: status_after_def Let_def noted default_status_def)
    then show ?thesis using True by (auto simp: choose_default_def default_entry_def)
  next
    case False
    then have "map (Some \<circ> the) ?os = ?os" by (intro map_idI) (metis comp_apply option.collapse)
    then have os: "?os = map Some (map the ?os)" "map the ?os \<noteq> []" using False by auto
    have "filter (\<lambda>a. a \<noteq> None) ?os = ?os" using False by (intro filter_True) metis
    then have "aliases ?s = fold count_alias (map the ?os) []" and un: "\<not> appears_unaliased ?s"
      using False by (auto simp: status_after_def Let_def noted default_status_def)
    then obtain a n where a: "default_entry ?s = Some (a, n)" "preferred (map the ?os) a" using default_entry_preferred os(2) by blast
    have cnt: "count_list (map Some xs) (Some b) = count_list xs b" for xs :: "Alias list" and b by (induction xs) auto
    have pf: "preferred (map Some xs) (Some b) \<longleftrightarrow> preferred xs b" for xs :: "Alias list" and b
      by (simp add: preferred_def first_at_def cnt takeWhile_map comp_def image_iff)
    have "preferred ?os (Some a)" using a(2) unfolding pf [of "map the ?os", symmetric] os(1) [symmetric] .
    then show ?thesis using un a(1) False by (simp add: choose_default_def)
  qed
  then show "snd (choose_default ?s) = None \<longleftrightarrow> ?none" "snd (choose_default ?s) = Some a \<Longrightarrow> preferred ?os (Some a)" by auto
qed


section \<open>Clearing aliases\<close>

lemma step_alias_cleared [simp]: "step_alias (set_alias None st) = None"
  by (simp add: set_alias_def set_alias_named_def set_flags_def step_alias_def)

lemma set_alias_idem [simp]: "set_alias None (set_alias None st) = set_alias None st"
  by (simp add: set_alias_def set_alias_named_def set_flags_def and.assoc)

text \<open>The step \<open>j\<close> of the production \<open>i\<close> of a variable carries the default alias of its symbol, and no other
  production of the variable needs that alias at the same place.\<close>

definition clearable :: "ProductionStep list \<Rightarrow> (Symbol \<rightharpoonup> Alias) \<Rightarrow> Production list \<Rightarrow> nat \<Rightarrow> nat \<Rightarrow> bool" where
  "clearable steps result ps i j \<longleftrightarrow>
     (let st = steps ! (steps_start (ps ! i) + j) in
      step_alias st \<noteq> None \<and> step_alias st = result (step_symbol st) \<and>
      (\<forall>i' < length ps. i' \<noteq> i \<longrightarrow> j < steps_len (ps ! i') \<longrightarrow>
        (let st' = steps ! (steps_start (ps ! i') + j) in step_alias st' = step_alias st \<longrightarrow> result (step_symbol st') = step_alias st)))"

definition clear_set :: "ProductionStep list \<Rightarrow> (Symbol \<rightharpoonup> Alias) \<Rightarrow> Production list \<Rightarrow> nat set" where
  "clear_set steps result ps = {steps_start (ps ! i) + j | i j. i < length ps \<and> j < steps_len (ps ! i) \<and> clearable steps result ps i j}"

definition in_store :: "ProductionStore \<Rightarrow> Production \<Rightarrow> bool" where
  "in_store out p \<longleftrightarrow> steps_start p + steps_len p \<le> length (st_steps out)"

lemma in_store_steps: "in_store out p \<Longrightarrow> prod_steps out p = Some (take (steps_len p) (drop (steps_start p) (st_steps out)))"
  by (simp add: in_store_def prod_steps_def step_range_def vec_slice_def)

lemma other_must_use_correct:
  "\<forall>p \<in> set qs. in_store out p \<Longrightarrow> other_must_use out result al i j k qs = Some (\<exists>m < length qs. k + m \<noteq> i \<and> j < steps_len (qs ! m) \<and>
     step_alias (st_steps out ! (steps_start (qs ! m) + j)) = al \<and> result (step_symbol (st_steps out ! (steps_start (qs ! m) + j))) \<noteq> al)"
proof (induction qs arbitrary: k)
  case (Cons p qs)
  have ex: "(\<exists>m < length (p # qs). P ((p # qs) ! m) (k + m)) \<longleftrightarrow> P p k \<or> (\<exists>m < length qs. P (qs ! m) (Suc k + m))" for P
    by (auto simp: less_Suc_eq_0_disj)
  have p: "in_store out p" using Cons.prems by simp
  then have "steps_start p + steps_len p \<le> length (st_steps out)" by (simp add: in_store_def)
  then have at: "j < length (take (steps_len p) (drop (steps_start p) (st_steps out))) \<longleftrightarrow> j < steps_len p"
    "j < steps_len p \<Longrightarrow> take (steps_len p) (drop (steps_start p) (st_steps out)) ! j = st_steps out ! (steps_start p + j)"
    by auto
  let ?P = "\<lambda>q m. m \<noteq> i \<and> j < steps_len q \<and> step_alias (st_steps out ! (steps_start q + j)) = al \<and> result (step_symbol (st_steps out ! (steps_start q + j))) \<noteq> al"
  have "other_must_use out result al i j k (p # qs) = (if ?P p k then Some True else other_must_use out result al i j (Suc k) qs)"
    using at in_store_steps [OF p] by (auto simp del: length_take length_drop)
  also have "\<dots> = Some (?P p k \<or> (\<exists>m < length qs. ?P (qs ! m) (Suc k + m)))" using Cons by (cases "?P p k") (simp_all, blast)
  finally show ?case unfolding ex [of ?P, symmetric] .
qed simp

text \<open>The first alias left in the status of a symbol is its default alias.\<close>

definition heads_ok :: "status_lists \<Rightarrow> (Symbol \<rightharpoonup> Alias) \<Rightarrow> ProductionStep list \<Rightarrow> bool" where
  "heads_ok L result steps \<longleftrightarrow> (\<forall>st \<in> set steps. \<exists>s. status_of L (step_symbol st) = Some s \<and>
     (case aliases s of [] \<Rightarrow> None | t # _ \<Rightarrow> Some (fst t)) = result (step_symbol st))"

lemma step_positions_correct:
  assumes heads: "heads_ok L result (st_steps out)"
    and ps: "\<forall>p \<in> set ps. in_store out p" and i: "i < length ps" "p = ps ! i"
  shows "j + length sts = steps_len p \<Longrightarrow> sts = drop j (take (steps_len p) (drop (steps_start p) (st_steps out))) \<Longrightarrow>
    \<exists>ks. step_positions out L result ps i p j sts = Some ks \<and> set ks = {steps_start p + m | m. j \<le> m \<and> m < steps_len p \<and> clearable (st_steps out) result ps i m}"
proof (induction sts arbitrary: j)
  case Nil
  then show ?case by auto
next
  case (Cons st sts)
  have p: "in_store out p" using ps i by simp
  have j: "j < steps_len p" using Cons.prems(1) by simp
  have k: "steps_start p + j < length (st_steps out)" using p j by (simp add: in_store_def)
  have "st # sts = drop j (take (steps_len p) (drop (steps_start p) (st_steps out)))" by (rule Cons.prems(2))
  moreover have "j < length (take (steps_len p) (drop (steps_start p) (st_steps out)))" using k j by simp
  note Cons_nth_drop_Suc [OF this]
  ultimately have "st # sts = take (steps_len p) (drop (steps_start p) (st_steps out)) ! j # drop (Suc j) (take (steps_len p) (drop (steps_start p) (st_steps out)))"
    by (rule trans [OF _ sym])
  then have st: "st = st_steps out ! (steps_start p + j)" "sts = drop (Suc j) (take (steps_len p) (drop (steps_start p) (st_steps out)))"
    using k j by simp_all
  obtain s where s: "status_of L (step_symbol st) = Some s" "(case aliases s of [] \<Rightarrow> None | t # _ \<Rightarrow> Some (fst t)) = result (step_symbol st)"
    using bspec [OF heads [unfolded heads_ok_def] nth_mem [OF k]] unfolding st(1) by blast
  obtain rest where rest: "step_positions out L result ps i p (Suc j) sts = Some rest"
    "set rest = {steps_start p + m | m. Suc j \<le> m \<and> m < steps_len p \<and> clearable (st_steps out) result ps i m}"
    using Cons.IH [of "Suc j"] Cons.prems(1) st(2) by auto
  have c: "clearable (st_steps out) result ps i j \<longleftrightarrow> step_alias st \<noteq> None \<and> step_alias st = result (step_symbol st) \<and>
      other_must_use out result (step_alias st) i j 0 ps = Some False"
    unfolding other_must_use_correct [OF ps] clearable_def Let_def st(1) i(2) by auto
  have o: "\<exists>b. other_must_use out result (step_alias st) i j 0 ps = Some b" unfolding other_must_use_correct [OF ps] by blast
  have "step_positions out L result ps i p j (st # sts) = Some ((if clearable (st_steps out) result ps i j then [steps_start p + j] else []) @ rest)"
    using s rest(1) o c by auto
  moreover have "{steps_start p + m | m. j \<le> m \<and> m < steps_len p \<and> clearable (st_steps out) result ps i m} =
      set (if clearable (st_steps out) result ps i j then [steps_start p + j] else []) \<union> set rest"
    unfolding rest(2) using j by (auto simp: Suc_le_eq)
  ultimately show ?case by auto
qed

lemma production_positions_correct:
  assumes heads: "heads_ok L result (st_steps out)" and ps: "\<forall>p \<in> set ps. in_store out p"
  shows "qs = drop i ps \<Longrightarrow> \<exists>ks. production_positions out L result ps i qs = Some ks \<and>
    set ks = {steps_start (ps ! m) + j | m j. i \<le> m \<and> m < length ps \<and> j < steps_len (ps ! m) \<and> clearable (st_steps out) result ps m j}"
proof (induction qs arbitrary: i)
  case Nil
  then show ?case by auto
next
  case (Cons p qs)
  have i: "i < length ps" using Cons.prems by (metis drop_all list.distinct(1) not_le)
  then have p: "p = ps ! i" "qs = drop (Suc i) ps" using trans [OF Cons.prems Cons_nth_drop_Suc [OF i, symmetric]] by auto
  have st: "in_store out p" using ps i p(1) by simp
  obtain here where here: "step_positions out L result ps i p 0 (take (steps_len p) (drop (steps_start p) (st_steps out))) = Some here"
    "set here = {steps_start p + m | m. m < steps_len p \<and> clearable (st_steps out) result ps i m}"
    using step_positions_correct [OF heads ps i p(1), of 0] st by (auto simp: in_store_def)
  obtain rest where rest: "production_positions out L result ps (Suc i) qs = Some rest"
    "set rest = {steps_start (ps ! m) + j | m j. Suc i \<le> m \<and> m < length ps \<and> j < steps_len (ps ! m) \<and> clearable (st_steps out) result ps m j}"
    using Cons.IH [OF p(2)] by blast
  have "set (here @ rest) = {steps_start (ps ! m) + j | m j. i \<le> m \<and> m < length ps \<and> j < steps_len (ps ! m) \<and> clearable (st_steps out) result ps m j}"
    unfolding set_append here(2) rest(2) p(1) using i by (auto simp: Suc_le_eq) (metis le_neq_implies_less less_imp_le)+
  then show ?case using here(1) rest(1) in_store_steps [OF st] by simp
qed

lemma clear_positions_correct:
  "set ks \<subseteq> {..< length steps} \<Longrightarrow> \<exists>steps'. clear_positions ks steps = Some steps' \<and> length steps' = length steps \<and>
     (\<forall>k < length steps. steps' ! k = (if k \<in> set ks then set_alias None (steps ! k) else steps ! k))"
proof (induction ks arbitrary: steps)
  case (Cons k ks)
  have k: "k < length steps" using Cons.prems by simp
  obtain steps' where "clear_positions ks (steps[k := set_alias None (steps ! k)]) = Some steps'" "length steps' = length steps"
    "\<forall>m < length steps. steps' ! m = (if m \<in> set ks then set_alias None (steps[k := set_alias None (steps ! k)] ! m) else steps[k := set_alias None (steps ! k)] ! m)"
    using Cons.IH [of "steps[k := set_alias None (steps ! k)]"] Cons.prems by auto
  then show ?case using k by (auto simp: vec_get_def nth_list_update)
qed simp

text \<open>Clearing other default aliases does not change which aliases may be cleared.\<close>

lemma clearable_stable:
  assumes cur: "\<And>k. k < length steps \<Longrightarrow> cur ! k = steps ! k \<or> cur ! k = set_alias None (steps ! k) \<and> step_alias (steps ! k) = result (step_symbol (steps ! k))"
    and ps: "\<And>p. p \<in> set ps \<Longrightarrow> steps_start p + steps_len p \<le> length steps" and ij: "i < length ps" "j < steps_len (ps ! i)"
  shows "clearable cur result ps i j \<longleftrightarrow> clearable steps result ps i j \<and> cur ! (steps_start (ps ! i) + j) = steps ! (steps_start (ps ! i) + j)"
proof -
  have bound: "steps_start (ps ! m) + j < length steps" if "m < length ps" "j < steps_len (ps ! m)" for m
    using ps [of "ps ! m"] that by simp
  let ?k = "steps_start (ps ! i) + j"
  consider (same) "cur ! ?k = steps ! ?k" | (cleared) "cur ! ?k = set_alias None (steps ! ?k)" "cur ! ?k \<noteq> steps ! ?k" using cur bound ij by blast
  then show ?thesis
  proof cases
    case same
    have "(step_alias (cur ! k) = al \<longrightarrow> result (step_symbol (cur ! k)) = al) \<longleftrightarrow> (step_alias (steps ! k) = al \<longrightarrow> result (step_symbol (steps ! k)) = al)"
      if "k < length steps" "al \<noteq> None" for k al
      using cur [OF that(1)] that(2) by auto
    note swap = this
    have "(step_alias (cur ! (steps_start (ps ! m) + j)) = al \<longrightarrow> result (step_symbol (cur ! (steps_start (ps ! m) + j))) = al) \<longleftrightarrow>
        (step_alias (steps ! (steps_start (ps ! m) + j)) = al \<longrightarrow> result (step_symbol (steps ! (steps_start (ps ! m) + j))) = al)"
      if "m < length ps" "j < steps_len (ps ! m)" "al \<noteq> None" for m al by (rule swap [OF bound [OF that(1,2)] that(3)])
    then show ?thesis unfolding clearable_def Let_def same by blast
  next
    case cleared
    then show ?thesis by (simp add: clearable_def)
  qed
qed


definition variable_productions :: "ProductionStore \<Rightarrow> nat \<times> nat \<Rightarrow> Production list" where
  "variable_productions out r = take (snd r - fst r) (drop (fst r) (st_productions out))"

definition cleared_steps :: "ProductionStep list \<Rightarrow> nat set \<Rightarrow> ProductionStep list \<Rightarrow> bool" where
  "cleared_steps steps C cur \<longleftrightarrow> length cur = length steps \<and> (\<forall>k < length steps. cur ! k = (if k \<in> C then set_alias None (steps ! k) else steps ! k))"

definition default_positions :: "ProductionStep list \<Rightarrow> (Symbol \<rightharpoonup> Alias) \<Rightarrow> nat set" where
  "default_positions steps result = {k. k < length steps \<and> step_alias (steps ! k) = result (step_symbol (steps ! k))}"

lemma heads_ok_cleared:
  assumes "heads_ok L result steps" "cleared_steps steps C cur"
  shows "heads_ok L result cur"
proof -
  have "step_symbol st \<in> step_symbol ` set steps" if st: "st \<in> set cur" for st
  proof -
    obtain k where k: "k < length cur" "st = cur ! k" using st by (metis in_set_conv_nth)
    then have "step_symbol st = step_symbol (steps ! k)" "k < length steps" using assms(2) by (auto simp: cleared_steps_def)
    then show ?thesis by simp
  qed
  then show ?thesis using assms(1) unfolding heads_ok_def by (metis (no_types, lifting) imageE)
qed

lemma clear_set_cleared:
  assumes c: "cleared_steps steps C cur" "C \<subseteq> default_positions steps result"
    and ps: "\<And>p. p \<in> set ps \<Longrightarrow> steps_start p + steps_len p \<le> length steps"
  shows "clear_set cur result ps \<subseteq> clear_set steps result ps" "clear_set steps result ps \<subseteq> clear_set cur result ps \<union> C"
    "clear_set steps result ps \<subseteq> default_positions steps result"
proof -
  have cur: "cur ! k = steps ! k \<or> cur ! k = set_alias None (steps ! k) \<and> step_alias (steps ! k) = result (step_symbol (steps ! k))" if "k < length steps" for k
    using c that by (auto simp: cleared_steps_def default_positions_def)
  have stable: "clearable cur result ps i j \<longleftrightarrow> clearable steps result ps i j \<and> cur ! (steps_start (ps ! i) + j) = steps ! (steps_start (ps ! i) + j)"
    if "i < length ps" "j < steps_len (ps ! i)" for i j
    by (rule clearable_stable [of steps, OF cur ps that])
  have bound: "steps_start (ps ! i) + j < length steps" if "i < length ps" "j < steps_len (ps ! i)" for i j using ps [of "ps ! i"] that by simp
  show "clear_set cur result ps \<subseteq> clear_set steps result ps" unfolding clear_set_def using stable by blast
  show "clear_set steps result ps \<subseteq> default_positions steps result" using bound by (auto simp: clear_set_def clearable_def default_positions_def Let_def)
  show "clear_set steps result ps \<subseteq> clear_set cur result ps \<union> C"
  proof
    fix k assume "k \<in> clear_set steps result ps"
    then obtain i j where k: "k = steps_start (ps ! i) + j" "i < length ps" "j < steps_len (ps ! i)" "clearable steps result ps i j" unfolding clear_set_def by blast
    show "k \<in> clear_set cur result ps \<union> C"
    proof (cases "k \<in> C")
      case False
      then have "cur ! k = steps ! k" using c(1) bound [OF k(2,3)] k(1) by (simp add: cleared_steps_def)
      then have "clearable cur result ps i j" using stable k by blast
      then show ?thesis using k unfolding clear_set_def by blast
    qed simp
  qed
qed

lemma clear_variables_correct:
  assumes heads: "heads_ok L result (st_steps out0)" and inv: "store_inv out0"
  shows "st_productions out = st_productions out0 \<Longrightarrow> st_var_prods out = st_var_prods out0 \<Longrightarrow>
      cleared_steps (st_steps out0) C (st_steps out) \<Longrightarrow> C \<subseteq> default_positions (st_steps out0) result \<Longrightarrow>
      \<forall>r \<in> set rs. fst r \<le> snd r \<and> snd r \<le> length (st_productions out0) \<Longrightarrow>
    \<exists>out'. clear_variables L result rs out = Some out' \<and> st_productions out' = st_productions out0 \<and> st_var_prods out' = st_var_prods out0 \<and>
      cleared_steps (st_steps out0) (C \<union> (\<Union>r \<in> set rs. clear_set (st_steps out0) result (variable_productions out0 r))) (st_steps out')"
proof (induction rs arbitrary: out C)
  case (Cons r rs)
  obtain a b where r: "r = (a, b)" by (cases r)
  let ?ps = "variable_productions out0 r"
  have ps: "vec_slice (st_productions out) a b = Some ?ps" using Cons.prems(1,5) r by (simp add: vec_slice_def variable_productions_def)
  have sub: "set ?ps \<subseteq> set (st_productions out0)" unfolding variable_productions_def by (meson order_trans set_drop_subset set_take_subset)
  have len: "length (st_steps out) = length (st_steps out0)" using Cons.prems(3) by (simp add: cleared_steps_def)
  have bound: "steps_start p + steps_len p \<le> length (st_steps out0)" if "p \<in> set ?ps" for p using inv sub that by (auto simp: store_inv_def)
  then have st: "\<forall>p \<in> set ?ps. in_store out p" by (simp add: in_store_def len)
  obtain ks where ks: "production_positions out L result ?ps 0 ?ps = Some ks" "set ks = clear_set (st_steps out) result ?ps"
    using production_positions_correct [OF heads_ok_cleared [OF heads Cons.prems(3)] st, of ?ps 0] by (auto simp: clear_set_def)
  note cs = clear_set_cleared [OF Cons.prems(3,4), of ?ps, OF bound]
  have "set ks \<subseteq> {..< length (st_steps out)}" using cs(1,3) len unfolding ks(2) by (auto simp: default_positions_def)
  then obtain steps' where steps': "clear_positions ks (st_steps out) = Some steps'" "length steps' = length (st_steps out)"
    "\<forall>k < length (st_steps out). steps' ! k = (if k \<in> set ks then set_alias None (st_steps out ! k) else st_steps out ! k)"
    using clear_positions_correct by blast
  have "cleared_steps (st_steps out0) (C \<union> clear_set (st_steps out0) result ?ps) steps'"
    using Cons.prems(3) steps'(2,3) cs(1,2) unfolding ks(2) cleared_steps_def by (auto simp: subset_iff)
  then obtain out' where "clear_variables L result rs (out\<lparr>st_steps := steps'\<rparr>) = Some out'" "st_productions out' = st_productions out0" "st_var_prods out' = st_var_prods out0"
    "cleared_steps (st_steps out0) (C \<union> clear_set (st_steps out0) result ?ps \<union> (\<Union>r \<in> set rs. clear_set (st_steps out0) result (variable_productions out0 r))) (st_steps out')"
    using Cons.IH [of "out\<lparr>st_steps := steps'\<rparr>" "C \<union> clear_set (st_steps out0) result ?ps"] Cons.prems(1,2,4,5) cs(3) by auto
  then show ?case using r ps ks(1) steps'(1) by (auto simp: Un_assoc)
qed auto

section \<open>Properties\<close>

fun symbol_in_range :: "'t InputGrammar \<Rightarrow> ExtractedGrammarMeta \<Rightarrow> LexicalVariable list \<Rightarrow> Symbol \<Rightarrow> bool" where
  "symbol_in_range g meta lvs (Symbol Terminal i) \<longleftrightarrow> i < length lvs"
| "symbol_in_range g meta lvs (Symbol NonTerminal i) \<longleftrightarrow> i < length (g_variables g)"
| "symbol_in_range g meta lvs (Symbol External i) \<longleftrightarrow> i < length (m_external_tokens meta)"
| "symbol_in_range g meta lvs _ \<longleftrightarrow> False"

definition default_alias_input :: "'t InputGrammar \<Rightarrow> ExtractedGrammarMeta \<Rightarrow> LexicalVariable list \<Rightarrow> ProductionStore \<Rightarrow> bool" where
  "default_alias_input g meta lvs out \<longleftrightarrow> store_inv out \<and>
     (\<forall>r \<in> set (st_var_prods out). fst r \<le> snd r \<and> snd r \<le> length (st_productions out)) \<and>
     (\<forall>st \<in> set (st_steps out). symbol_in_range g meta lvs (step_symbol st)) \<and>
     (\<forall>sy \<in> set (m_extra_symbols meta). symbol_in_range g meta lvs sy) \<and>
     length lvs < 2 ^ 32 \<and> length (g_variables g) < 2 ^ 32 \<and> length (m_external_tokens meta) < 2 ^ 32"

text \<open>What the pass returns: the defaults are exactly the preferred aliases of the symbols that never appear
  plain, and the steps lose exactly the redundant aliases.\<close>

lemma extract_default_aliases_outcome:
  assumes inp: "default_alias_input g meta lvs out"
  shows "\<exists>result out'. extract_default_aliases g meta lvs out = Some (result, out') \<and>
    (\<forall>sy. result sy = None \<longleftrightarrow> sy \<in> set (m_inline meta) \<or> sy \<in> set (m_extra_symbols meta) \<or> None \<in> set (uses out sy) \<or> uses out sy = []) \<and>
    (\<forall>sy a. result sy = Some a \<longrightarrow> preferred (uses out sy) (Some a)) \<and>
    st_productions out' = st_productions out \<and> st_var_prods out' = st_var_prods out \<and>
    cleared_steps (st_steps out) (\<Union>r \<in> set (st_var_prods out). clear_set (st_steps out) result (variable_productions out r)) (st_steps out')"
proof -
  define L0 where "L0 = \<lparr>terminal_status_list = replicate (length lvs) default_status,
       non_terminal_status_list = replicate (length (g_variables g)) default_status,
       external_status_list = replicate (length (m_external_tokens meta)) default_status\<rparr>"
  have L0: "status_of L0 sy = (if symbol_in_range g meta lvs sy then Some default_status else None)" for sy
    by (cases "(g, meta, lvs, sy)" rule: symbol_in_range.cases) (auto simp: L0_def status_of_def vec_get_def)
  then have has0: "has_status L0 = symbol_in_range g meta lvs" by (auto simp: has_status_def fun_eq_iff)
  have inv: "store_inv out" using inp by (simp add: default_alias_input_def)
  let ?sts = "concat (map (\<lambda>p. fst (view out p)) (st_productions out))"
  have sub: "set ?sts \<subseteq> set (st_steps out)" by (auto simp: view_def dest: in_set_takeD in_set_dropD)
  have rng: "\<forall>st \<in> set (st_steps out). symbol_in_range g meta lvs (step_symbol st)" "\<forall>sy \<in> set (m_extra_symbols meta). symbol_in_range g meta lvs sy"
    using inp by (auto simp: default_alias_input_def)
  have scan: "scan_productions (m_inline meta) out (st_productions out) L0 = scan_steps (m_inline meta) ?sts L0"
    using store_invD [OF inv] by (intro scan_productions_steps) simp
  obtain L1 where L1: "scan_productions (m_inline meta) out (st_productions out) L0 = Some L1" "has_status L1 = has_status L0"
    "\<forall>sy. status_of L1 sy = map_option (fold note_alias (uses_in (m_inline meta) ?sts sy)) (status_of L0 sy)"
    unfolding scan using scan_steps_correct [of ?sts L0 "m_inline meta"] rng(1) sub has0 by auto
  obtain L2 where L2: "scan_extras (m_extra_symbols meta) L1 = Some L2"
    "\<forall>sy. status_of L2 sy = map_option (\<lambda>s. if sy \<in> set (m_extra_symbols meta) then s\<lparr>appears_unaliased := True\<rparr> else s) (status_of L1 sy)"
    "has_status L2 = has_status L0"
    using scan_extras_correct [of "m_extra_symbols meta" L1] rng(2) L1(2) has0 by auto
  have st2: "status_of L2 sy = (if symbol_in_range g meta lvs sy then Some (status_after meta out sy) else None)" for sy
    by (simp add: L2(2) L1(3) L0 uses_in_def uses_def status_after_def Let_def)
  obtain L3 result where d: "default_aliases L2 = (L3, result)" by (cases "default_aliases L2") blast
  have eq: "n = m" if "\<And>i. i < n \<longleftrightarrow> i < m" for n m :: nat by (metis linorder_neq_iff less_irrefl that)
  have h: "has_status L2 sy \<longleftrightarrow> symbol_in_range g meta lvs sy" for sy using L2(3) has0 by simp
  have "length (terminal_status_list L2) = length lvs" "length (non_terminal_status_list L2) = length (g_variables g)"
    "length (external_status_list L2) = length (m_external_tokens meta)"
    using h [of "Symbol Terminal _"] h [of "Symbol NonTerminal _"] h [of "Symbol External _"]
    by (auto intro!: eq simp: has_status_def status_of_def not_le)
  then have small: "small_lists L2" using inp by (simp add: small_lists_def default_alias_input_def)
  have L3: "status_of L3 sy = map_option (\<lambda>s. fst (choose_default s)) (status_of L2 sy)"
    and res: "result sy = Option.bind (status_of L2 sy) (\<lambda>s. snd (choose_default s))" for sy
    using default_aliases_correct [OF small, of sy] by (simp_all add: d)
  have heads: "heads_ok L3 result (st_steps out)"
    unfolding heads_ok_def using rng(1) chosen_head by (auto simp: L3 res st2)
  have unused: "uses out sy = []" if "\<not> symbol_in_range g meta lvs sy" for sy
    using rng(1) sub that by (auto simp: uses_def filter_empty_conv)
  have none: "result sy = None \<longleftrightarrow> sy \<in> set (m_inline meta) \<or> sy \<in> set (m_extra_symbols meta) \<or> None \<in> set (uses out sy) \<or> uses out sy = []" for sy
    using unused [of sy] status_after_default(1) [of meta out sy] by (auto simp: res st2)
  have some: "preferred (uses out sy) (Some a)" if "result sy = Some a" for sy a
    using that status_after_default(2) [of meta out sy a] by (auto simp: res st2 split: if_splits)
  obtain out' where "clear_variables L3 result (st_var_prods out) out = Some out'" "st_productions out' = st_productions out" "st_var_prods out' = st_var_prods out"
    "cleared_steps (st_steps out) (\<Union>r \<in> set (st_var_prods out). clear_set (st_steps out) result (variable_productions out r)) (st_steps out')"
    using clear_variables_correct [OF heads inv, of out "{}" "st_var_prods out"] inp by (auto simp: cleared_steps_def default_alias_input_def)
  moreover from this(1) have "extract_default_aliases g meta lvs out = Some (result, out')"
    using L1(1) L2(1) d by (simp add: extract_default_aliases_def L0_def Let_def)
  ultimately show ?thesis using none some by blast
qed

definition alias_grammar :: "unit InputGrammar" where
  "alias_grammar = \<lparr>g_pool = \<lparr>nodes = [], children = [], params_vec = [], str_pool = \<lparr>buf = [], spans = [], ids = ()\<rparr>, scratch = []\<rparr>,
     g_name = 1, g_variables = [\<lparr>v_name = 1, v_root = 0\<rparr>], g_external_roots = [], g_extra_roots = [], g_reserved_sets = [],
     g_supertype_names = [], g_conflict_names = [], g_inline_names = [], g_word_name = None, g_precedence_orderings = []\<rparr>"

definition alias_meta :: ExtractedGrammarMeta where
  "alias_meta = \<lparr>m_kinds = [Named], m_extra_symbols = [], m_external_tokens = [], m_reserved_sets = [], m_supertypes = [],
     m_conflicts = [], m_inline = [], m_word = None\<rparr>"

definition alias_variables :: "LexicalVariable list" where
  "alias_variables = [\<lparr>lv_name = 1, lv_kind = Named, lv_implicit_precedence = 0, lv_start_state = 0\<rparr>]"

definition alias_store :: ProductionStore where
  "alias_store = \<lparr>st_steps = [pack (Symbol Terminal 0) PrecNone None (Some (Alias 5 True)) None 0],
     st_productions = [\<lparr>steps_start = 0, steps_len = 1, prod_dynamic_precedence = 0, requires_eof_lookahead = False\<rparr>], st_var_prods = [(0, 1)]\<rparr>"

lemma alias_store_input: "default_alias_input alias_grammar alias_meta alias_variables alias_store"
  by (simp add: default_alias_input_def store_inv_def alias_grammar_def alias_meta_def alias_variables_def alias_store_def step_symbol_pack)

lemma alias_store_uses: "uses alias_store (Symbol Terminal 0) = [Some (Alias 5 True)]"
  by (simp add: uses_def alias_store_def view_def step_symbol_pack step_alias_pack alias_ok_def)

text \<open>C36. Extracting the default aliases returns on every well-formed grammar. A symbol has a default alias exactly
  when it is used, never without an alias, is not an extra and not inlined; the default is its most frequent
  alias, the earliest among equally frequent ones.\<close>

theorem default_aliases_exact:
  assumes "default_alias_input g meta lvs out"
  shows "\<exists>result out'. extract_default_aliases g meta lvs out = Some (result, out') \<and>
    (\<forall>sy. case result sy of
       None \<Rightarrow> sy \<in> set (m_inline meta) \<or> sy \<in> set (m_extra_symbols meta) \<or> None \<in> set (uses out sy) \<or> uses out sy = []
     | Some a \<Rightarrow> sy \<notin> set (m_inline meta) \<and> sy \<notin> set (m_extra_symbols meta) \<and> None \<notin> set (uses out sy) \<and> preferred (uses out sy) (Some a))"
proof -
  obtain result out' where r: "extract_default_aliases g meta lvs out = Some (result, out')"
    "\<And>sy. result sy = None \<longleftrightarrow> sy \<in> set (m_inline meta) \<or> sy \<in> set (m_extra_symbols meta) \<or> None \<in> set (uses out sy) \<or> uses out sy = []"
    "\<And>sy a. result sy = Some a \<Longrightarrow> preferred (uses out sy) (Some a)"
    using extract_default_aliases_outcome [OF assms] by blast
  have "case result sy of
       None \<Rightarrow> sy \<in> set (m_inline meta) \<or> sy \<in> set (m_extra_symbols meta) \<or> None \<in> set (uses out sy) \<or> uses out sy = []
     | Some a \<Rightarrow> sy \<notin> set (m_inline meta) \<and> sy \<notin> set (m_extra_symbols meta) \<and> None \<notin> set (uses out sy) \<and> preferred (uses out sy) (Some a)" for sy
    using r(2) [of sy] r(3) [of sy] by (cases "result sy") auto
  then show ?thesis using r(1) by blast
qed

theorem default_aliases_exact_witness:
  "\<exists>result out'. extract_default_aliases alias_grammar alias_meta alias_variables alias_store = Some (result, out') \<and>
     result (Symbol Terminal 0) = Some (Alias 5 True)"
proof -
  obtain result out' where r: "extract_default_aliases alias_grammar alias_meta alias_variables alias_store = Some (result, out')"
    "case result (Symbol Terminal 0) of
       None \<Rightarrow> Symbol Terminal 0 \<in> set (m_inline alias_meta) \<or> Symbol Terminal 0 \<in> set (m_extra_symbols alias_meta) \<or>
         None \<in> set (uses alias_store (Symbol Terminal 0)) \<or> uses alias_store (Symbol Terminal 0) = []
     | Some a \<Rightarrow> Symbol Terminal 0 \<notin> set (m_inline alias_meta) \<and> Symbol Terminal 0 \<notin> set (m_extra_symbols alias_meta) \<and>
         None \<notin> set (uses alias_store (Symbol Terminal 0)) \<and> preferred (uses alias_store (Symbol Terminal 0)) (Some a)"
    using default_aliases_exact [OF alias_store_input] by blast
  then show ?thesis by (auto simp: alias_store_uses alias_meta_def preferred_def split: option.splits)
qed

text \<open>C10. Extracting the default aliases does not change how a step of a production appears in a syntax tree: the child type of
  every step, read with the default aliases, is the one it had before. Symbols, precedences and all
  else stay; an alias is dropped exactly when it is the default of its symbol and no other production of
  the variable needs it at the same position.\<close>

theorem default_aliases_preserve_child_types:
  assumes inp: "default_alias_input g meta lvs out"
  shows "\<exists>result out'. extract_default_aliases g meta lvs out = Some (result, out') \<and>
    st_productions out' = st_productions out \<and> st_var_prods out' = st_var_prods out \<and>
    cleared_steps (st_steps out) (\<Union>r \<in> set (st_var_prods out). clear_set (st_steps out) result (variable_productions out r)) (st_steps out') \<and>
    (\<forall>p \<in> set (st_productions out). list_all2 (\<lambda>st st'. child_type st' result = child_type st Map.empty) (fst (view out p)) (fst (view out' p)))"
proof -
  obtain result out' where r: "extract_default_aliases g meta lvs out = Some (result, out')"
    "\<And>sy. result sy = None \<longleftrightarrow> sy \<in> set (m_inline meta) \<or> sy \<in> set (m_extra_symbols meta) \<or> None \<in> set (uses out sy) \<or> uses out sy = []"
    "st_productions out' = st_productions out" "st_var_prods out' = st_var_prods out"
    "cleared_steps (st_steps out) (\<Union>r \<in> set (st_var_prods out). clear_set (st_steps out) result (variable_productions out r)) (st_steps out')"
    using extract_default_aliases_outcome [OF inp] by blast
  let ?C = "\<Union>r \<in> set (st_var_prods out). clear_set (st_steps out) result (variable_productions out r)"
  have "child_type (st_steps out' ! k) result = child_type (st_steps out ! k) Map.empty"
    if p: "p \<in> set (st_productions out)" and k: "steps_start p \<le> k" "k < steps_start p + steps_len p" for p k
  proof (cases "k \<in> ?C")
    case True
    then obtain a where a: "step_alias (st_steps out ! k) = Some a" "result (step_symbol (st_steps out ! k)) = Some a"
      by (auto simp: clear_set_def clearable_def Let_def)
    have "k < length (st_steps out)" using inp p k unfolding default_alias_input_def store_inv_def by fastforce
    then have "st_steps out' ! k = set_alias None (st_steps out ! k)" using True r(5) unfolding cleared_steps_def by presburger
    then show ?thesis using a by (simp add: child_type_def)
  next
    case False
    have "steps_start p + steps_len p \<le> length (st_steps out)" using inp p unfolding default_alias_input_def store_inv_def by blast
    then have kl: "k < length (st_steps out)" using k by simp
    then have eq: "st_steps out' ! k = st_steps out ! k" using False r(5) unfolding cleared_steps_def by presburger
    have "st_steps out ! k \<in> set (fst (view out p))"
      using k kl by (auto simp: view_def in_set_conv_nth intro!: exI [of _ "k - steps_start p"])
    then have "step_alias (st_steps out ! k) \<in> set (uses out (step_symbol (st_steps out ! k)))" using p by (auto simp: uses_def)
    then have "step_alias (st_steps out ! k) = None \<Longrightarrow> result (step_symbol (st_steps out ! k)) = None" using r(2) by auto
    then show ?thesis unfolding eq by (cases "step_alias (st_steps out ! k)") (simp_all add: child_type_def)
  qed
  then have "list_all2 (\<lambda>st st'. child_type st' result = child_type st Map.empty) (fst (view out p)) (fst (view out' p))" if "p \<in> set (st_productions out)" for p
    using r(5) that by (auto simp: view_def list_all2_conv_all_nth cleared_steps_def)
  then show ?thesis using r by blast
qed

theorem default_aliases_preserve_child_types_witness:
  "\<exists>result out'. extract_default_aliases alias_grammar alias_meta alias_variables alias_store = Some (result, out') \<and>
    (\<forall>p \<in> set (st_productions alias_store).
      list_all2 (\<lambda>st st'. child_type st' result = child_type st Map.empty) (fst (view alias_store p)) (fst (view out' p)))"
  using default_aliases_preserve_child_types [OF alias_store_input] by blast

end
