(* ===== verification/Process_Inlines.thy ===== *)
theory Process_Inlines
  imports Production_Store "HOL-Library.Multiset"
begin

text \<open>
  \<^verbatim>\<open>crates/generate/src/prepare_grammar/process_inlines.rs\<close>: productions that start at some step with an inlined variable are
  expanded by the productions of the variable; the results are pooled, and a map records for every
  production and step index the ids of its expansions. The hasher is a parameter; the map of memoized
  ids is a function whose default is the empty vector. The id of a production, a step index and the
  lengths are \<open>u32\<close>.
\<close>

section \<open>Definitions\<close>

record ScratchProd =
  sp_steps :: "ProductionStep list"
  sp_dynamic_precedence :: int
  sp_requires_eof_lookahead :: bool

datatype ProcessInlinesError =
    ExternalTokenInlined string
  | TokenInlined string
  | FirstRule string
  | NoReachableProductions string

type_synonym inline_map = "nat \<times> nat \<rightharpoonup> nat list"
type_synonym step_hash = "int \<Rightarrow> bool \<Rightarrow> ProductionStep list \<Rightarrow> nat"

record InlineBuilder =
  b_out :: ProductionStore
  first_inlined :: nat
  b_inline :: "Symbol list"
  b_map :: inline_map
  b_memo :: "nat \<Rightarrow> nat list"

definition production_step_for_id :: "ProductionStore \<Rightarrow> nat \<Rightarrow> nat \<Rightarrow> ProductionStep option option" where
  "production_step_for_id out prod_id step = do {
     p \<leftarrow> vec_get (st_productions out) prod_id;
     if step < steps_len p then map_option Some (vec_get (st_steps out) (as_u32 (steps_start p + step))) else Some None
   }"

definition inherit_last :: "ProductionStep \<Rightarrow> ProductionStep \<Rightarrow> ProductionStep" where
  "inherit_last removed_step step =
     (let step1 = (if step_precedence step = PrecNone then set_precedence (step_precedence removed_step) step else step)
      in if step_associativity step1 = None then set_associativity (step_associativity removed_step) step1 else step1)"

definition inherit_steps :: "ProductionStep \<Rightarrow> ProductionStep list \<Rightarrow> ProductionStep list" where
  "inherit_steps removed_step inserted =
     (let s1 = (case step_alias removed_step of Some a \<Rightarrow> map (set_alias (Some a)) inserted | None \<Rightarrow> inserted);
          s2 = (case step_field removed_step of Some f \<Rightarrow> map (set_field (Some f)) s1 | None \<Rightarrow> s1)
      in if s2 = [] then [] else butlast s2 @ [inherit_last removed_step (List.last s2)])"

definition replacement :: "ProductionStore \<Rightarrow> ScratchProd \<Rightarrow> nat \<Rightarrow> ProductionStep \<Rightarrow> Production \<Rightarrow> ScratchProd list option" where
  "replacement out removed_prod si removed_step p =
     (if requires_eof_lookahead p \<and> si + 1 < length (sp_steps removed_prod) then Some []
      else do {
        psteps \<leftarrow> prod_steps out p;
        Some [\<lparr>sp_steps = take si (sp_steps removed_prod) @ inherit_steps removed_step psteps @ drop (Suc si) (sp_steps removed_prod),
          sp_dynamic_precedence = (if i32_abs (prod_dynamic_precedence p) > i32_abs (sp_dynamic_precedence removed_prod)
            then prod_dynamic_precedence p else sp_dynamic_precedence removed_prod),
          sp_requires_eof_lookahead = sp_requires_eof_lookahead removed_prod \<or> requires_eof_lookahead p\<rparr>]
      })"

fun replacements :: "ProductionStore \<Rightarrow> ScratchProd \<Rightarrow> nat \<Rightarrow> ProductionStep \<Rightarrow> nat list \<Rightarrow> ScratchProd list option" where
  "replacements out removed_prod si removed_step [] = Some []"
| "replacements out removed_prod si removed_step (p_idx # ps) = do {
     p \<leftarrow> vec_get (st_productions out) p_idx;
     r \<leftarrow> replacement out removed_prod si removed_step p;
     rs \<leftarrow> replacements out removed_prod si removed_step ps;
     Some (r @ rs)
   }"

definition inline_step :: "Symbol list \<Rightarrow> nat \<Rightarrow> ScratchProd \<Rightarrow> ProductionStep option" where
  "inline_step inl si sp = (case vec_get (sp_steps sp) si of
     Some s \<Rightarrow> if step_symbol s \<in> set inl then Some s else None
   | None \<Rightarrow> None)"

text \<open>The loop over the scratch productions: one iteration goes past a production whose step is not inlined, or
  replaces the production and stays. The state is the index with the productions.\<close>

type_synonym scratch_state = "nat \<times> ScratchProd list"

definition expand_iteration :: "ProductionStore \<Rightarrow> Symbol list \<Rightarrow> nat \<Rightarrow> scratch_state \<Rightarrow> scratch_state option" where
  "expand_iteration out inl si s = (case s of (i, scr) \<Rightarrow>
     (case inline_step inl si (scr ! i) of
        None \<Rightarrow> Some (i + 1, scr)
      | Some removed_step \<Rightarrow> do {
          (v_start, v_end) \<leftarrow> vec_get (st_var_prods out) (index (step_symbol removed_step));
          rs \<leftarrow> replacements out (scr ! i) si removed_step [v_start ..< v_end];
          Some (i, take i scr @ rs @ drop (Suc i) scr)
        }))"

partial_function (option) expand_scratch :: "ProductionStore \<Rightarrow> Symbol list \<Rightarrow> nat \<Rightarrow> nat \<Rightarrow> ScratchProd list \<Rightarrow> ScratchProd list option" where
  "expand_scratch out inl si i scr =
     (if i < length scr then do {
        s \<leftarrow> expand_iteration out inl si (i, scr);
        expand_scratch out inl si (fst s) (snd s)
      } else Some scr)"

fun find_existing :: "ProductionStore \<Rightarrow> ScratchProd \<Rightarrow> nat list \<Rightarrow> nat option option" where
  "find_existing out sp [] = Some None"
| "find_existing out sp (i # is) = do {
     p \<leftarrow> vec_get (st_productions out) i;
     steps \<leftarrow> prod_steps out p;
     if prod_dynamic_precedence p = sp_dynamic_precedence sp \<and> requires_eof_lookahead p = sp_requires_eof_lookahead sp \<and> steps = sp_steps sp
     then Some (Some i) else find_existing out sp is
   }"

fun store_scratch :: "step_hash \<Rightarrow> ScratchProd list \<Rightarrow> ProductionStore \<times> (nat \<Rightarrow> nat list) \<Rightarrow> (nat list \<times> ProductionStore \<times> (nat \<Rightarrow> nat list)) option" where
  "store_scratch hash [] s = Some ([], s)"
| "store_scratch hash (sp # sps) (out, memo) = do {
     let h = hash (sp_dynamic_precedence sp) (sp_requires_eof_lookahead sp) (sp_steps sp);
     existing \<leftarrow> find_existing out sp (memo h);
     let (i, s') = (case existing of
       Some i \<Rightarrow> (i, (out, memo))
     | None \<Rightarrow>
         let out' = push_production out (sp_steps sp) (sp_dynamic_precedence sp) (sp_requires_eof_lookahead sp);
             i = as_u32 (length (st_productions out') - 1)
         in (i, (out', memo(h := memo h @ [i]))));
     (is, s'') \<leftarrow> store_scratch hash sps s';
     Some (i # is, s'')
   }"

definition inline_production_at_step :: "step_hash \<Rightarrow> InlineBuilder \<Rightarrow> nat \<Rightarrow> nat \<Rightarrow> (nat list \<times> InlineBuilder) option" where
  "inline_production_at_step hash b prod_id step_index = (case b_map b (prod_id, step_index) of
     Some is \<Rightarrow> Some (is, b)
   | None \<Rightarrow> do {
       src \<leftarrow> vec_get (st_productions (b_out b)) prod_id;
       steps \<leftarrow> prod_steps (b_out b) src;
       scr \<leftarrow> expand_scratch (b_out b) (b_inline b) step_index 0
         [\<lparr>sp_steps = steps, sp_dynamic_precedence = prod_dynamic_precedence src, sp_requires_eof_lookahead = requires_eof_lookahead src\<rparr>];
       (is, out', memo') \<leftarrow> store_scratch hash scr (b_out b, b_memo b);
       Some (is, b\<lparr>b_out := out', b_memo := memo', b_map := (b_map b)((prod_id, step_index) \<mapsto> is)\<rparr>)
     })"

type_synonym work_item = "nat \<times> nat"

partial_function (option) inner_loop :: "step_hash \<Rightarrow> nat \<Rightarrow> work_item list \<Rightarrow> bool \<times> InlineBuilder \<Rightarrow> (work_item list \<times> bool \<times> InlineBuilder) option" where
  "inner_loop hash i worklist s =
     (if i < length worklist then do {
        st \<leftarrow> production_step_for_id (b_out (snd s)) (fst (worklist ! i)) (snd (worklist ! i));
        case st of
          Some step \<Rightarrow>
            if step_symbol step \<in> set (b_inline (snd s)) then do {
              r \<leftarrow> inline_production_at_step hash (snd s) (fst (worklist ! i)) (snd (worklist ! i));
              inner_loop hash i (take i worklist @ map (\<lambda>k. (k, snd (worklist ! i))) (fst r) @ drop (Suc i) worklist) (fst s, snd r)
            } else inner_loop hash (i + 1) (worklist[i := (fst (worklist ! i), snd (worklist ! i) + 1)]) s
        | None \<Rightarrow> inner_loop hash i (take i worklist @ drop (Suc i) worklist) (True, snd s)
      } else Some (worklist, s))"

partial_function (option) outer_loop :: "step_hash \<Rightarrow> work_item list \<Rightarrow> bool \<times> InlineBuilder \<Rightarrow> (bool \<times> InlineBuilder) option" where
  "outer_loop hash worklist s =
     (if worklist = [] then Some s
      else do { r \<leftarrow> inner_loop hash 0 worklist s; outer_loop hash (fst r) (snd r) })"

fun build_loop :: "step_hash \<Rightarrow> nat list \<Rightarrow> nat set \<Rightarrow> InlineBuilder \<Rightarrow> (nat set \<times> InlineBuilder) option" where
  "build_loop hash [] dead b = Some (dead, b)"
| "build_loop hash (prod_id # prod_ids) dead b = do {
     (survived, b') \<leftarrow> outer_loop hash [(prod_id, 0)] (False, b);
     build_loop hash prod_ids (if survived then dead else insert prod_id dead) b'
   }"

definition build :: "step_hash \<Rightarrow> InlineBuilder \<Rightarrow> (nat set \<times> InlineBuilder) option" where
  "build hash b = build_loop hash [0 ..< first_inlined b] {} b"

fun check_inline :: "'t InputGrammar \<Rightarrow> ExtractedGrammarMeta \<Rightarrow> LexicalVariable list \<Rightarrow> Symbol list \<Rightarrow> (ProcessInlinesError + unit) option" where
  "check_inline g meta lexical_variables [] = Some (Inr ())"
| "check_inline g meta lexical_variables (sy # sys) = (case kind sy of
     External \<Rightarrow> do {
       t \<leftarrow> vec_get (m_external_tokens meta) (index sy);
       n \<leftarrow> resolve (str_pool (g_pool g)) (et_name t);
       Some (Inl (ExternalTokenInlined n))
     }
   | Terminal \<Rightarrow> do {
       v \<leftarrow> vec_get lexical_variables (index sy);
       n \<leftarrow> resolve (str_pool (g_pool g)) (lv_name v);
       Some (Inl (TokenInlined n))
     }
   | NonTerminal \<Rightarrow>
       if index sy = 0 then do {
         v \<leftarrow> vec_get (g_variables g) 0;
         n \<leftarrow> resolve (str_pool (g_pool g)) (v_name v);
         Some (Inl (FirstRule n))
       } else check_inline g meta lexical_variables sys
   | _ \<Rightarrow> check_inline g meta lexical_variables sys)"

fun check_dead :: "'t InputGrammar \<Rightarrow> ProductionStore \<Rightarrow> nat set \<Rightarrow> nat \<Rightarrow> (nat \<times> nat) list \<Rightarrow> (ProcessInlinesError + unit) option" where
  "check_dead g out dead i [] = Some (Inr ())"
| "check_dead g out dead i ((p_start, p_end) # rs) =
     (if p_start = p_end \<or> \<not> (\<forall>p \<in> {p_start ..< p_end}. p \<in> dead) then check_dead g out dead (Suc i) rs
      else if i = 0 \<or> (\<exists>s \<in> set (st_steps out). step_symbol s = non_terminal i) then do {
        v \<leftarrow> vec_get (g_variables g) i;
        n \<leftarrow> resolve (str_pool (g_pool g)) (v_name v);
        Some (Inl (NoReachableProductions n))
      } else check_dead g out dead (Suc i) rs)"

definition process_inlines :: "step_hash \<Rightarrow> 't InputGrammar \<Rightarrow> ExtractedGrammarMeta \<Rightarrow> LexicalVariable list \<Rightarrow> ProductionStore \<Rightarrow>
    (ProcessInlinesError + inline_map \<times> ProductionStore) option" where
  "process_inlines hash g meta lexical_variables out =
     (if m_inline meta = [] then Some (Inr (Map.empty, out))
      else and_then (check_inline g meta lexical_variables (m_inline meta)) (\<lambda>_. do {
        (dead, b) \<leftarrow> build hash \<lparr>b_out = out, first_inlined = as_u32 (length (st_productions out)), b_inline = m_inline meta,
          b_map = Map.empty, b_memo = (\<lambda>_. [])\<rparr>;
        and_then (if dead = {} then Some (Inr ()) else check_dead g (b_out b) dead 0 (st_var_prods (b_out b)))
          (\<lambda>_. Some (Inr (b_map b, b_out b)))
      }))"


section \<open>Expanding a production at a step\<close>

inductive expands :: "ProductionStore \<Rightarrow> Symbol list \<Rightarrow> nat \<Rightarrow> ScratchProd \<Rightarrow> ScratchProd list \<Rightarrow> bool" for out inl si where
  settled: "inline_step inl si sp = None \<Longrightarrow> expands out inl si sp [sp]"
| inlined: "inline_step inl si sp = Some st \<Longrightarrow> vec_get (st_var_prods out) (index (step_symbol st)) = Some (a, b) \<Longrightarrow>
    replacements out sp si st [a ..< b] = Some rs \<Longrightarrow> list_all2 (expands out inl si) rs qss \<Longrightarrow> expands out inl si sp (concat qss)"

lemma expand_scratch_list:
  "list_all2 (\<lambda>p qs. \<forall>pre post. expand_scratch out inl si (length pre) (pre @ p # post) = expand_scratch out inl si (length pre + length qs) (pre @ qs @ post)) rs qss \<Longrightarrow>
    expand_scratch out inl si (length pre) (pre @ rs @ post) = expand_scratch out inl si (length pre + length (concat qss)) (pre @ concat qss @ post)"
proof (induction rs qss arbitrary: pre rule: list_all2_induct)
  case (Cons p rs qs qss)
  have "expand_scratch out inl si (length pre) (pre @ p # (rs @ post)) = expand_scratch out inl si (length (pre @ qs)) ((pre @ qs) @ rs @ post)"
    using Cons.hyps(1) by simp
  also have "\<dots> = expand_scratch out inl si (length (pre @ qs) + length (concat qss)) ((pre @ qs) @ concat qss @ post)" by (rule Cons.IH)
  finally show ?case by (simp add: add.assoc)
qed simp

lemma expand_scratch_step:
  assumes "expands out inl si p qs"
  shows "expand_scratch out inl si (length pre) (pre @ p # post) = expand_scratch out inl si (length pre + length qs) (pre @ qs @ post)"
  using assms
proof (induction arbitrary: pre post rule: expands.induct)
  case (settled sp)
  then show ?case by (subst expand_scratch.simps) (simp add: nth_append expand_iteration_def)
next
  case (inlined sp st a b rs qss)
  have "expand_scratch out inl si (length pre) (pre @ sp # post) = expand_scratch out inl si (length pre) (pre @ rs @ post)"
    using inlined.hyps by (subst expand_scratch.simps) (simp add: nth_append vec_get_def expand_iteration_def)
  also have "\<dots> = expand_scratch out inl si (length pre + length (concat qss)) (pre @ concat qss @ post)"
    using inlined.IH by (intro expand_scratch_list) (auto elim!: list_all2_mono)
  finally show ?case .
qed

lemma expand_scratch_correct:
  assumes "expands out inl si p qs"
  shows "expand_scratch out inl si 0 [p] = Some qs"
  using expand_scratch_step [OF assms, of "[]" "[]"] by (simp add: expand_scratch.simps [of _ _ _ "length qs"])

lemma expands_det: "expands out inl si p qs \<Longrightarrow> expands out inl si p qs' \<Longrightarrow> qs = qs'"
  by (auto dest!: expand_scratch_correct)

text \<open>After the expansion no production starts with an inlined variable at that step.\<close>

lemma expands_settled: "expands out inl si p qs \<Longrightarrow> q \<in> set qs \<Longrightarrow> inline_step inl si q = None"
proof (induction rule: expands.induct)
  case (inlined sp st a b rs qss)
  then obtain qs where "qs \<in> set qss" "q \<in> set qs" by auto
  then show ?case using inlined.IH by (auto simp: list_all2_conv_all_nth in_set_conv_nth)
qed simp

subsection \<open>Weights\<close>

definition inline_refs :: "ProductionStore \<Rightarrow> Symbol list \<Rightarrow> Symbol rel" where
  "inline_refs out inl = {(x, y). x \<in> set inl \<and> y \<in> set inl \<and> index x < length (st_var_prods out) \<and>
     (\<exists>i \<in> {fst (st_var_prods out ! index x) ..< snd (st_var_prods out ! index x)}. y \<in> step_symbol ` set (fst (view out (st_productions out ! i))))}"

definition wt :: "Symbol list \<Rightarrow> (Symbol \<Rightarrow> nat) \<Rightarrow> ProductionStep list \<Rightarrow> nat" where
  "wt inl w sts = sum_list (map (\<lambda>st. if step_symbol st \<in> set inl then w (step_symbol st) else 1) sts)"

definition ranked :: "ProductionStore \<Rightarrow> Symbol list \<Rightarrow> (Symbol \<Rightarrow> nat) \<Rightarrow> bool" where
  "ranked out inl w \<longleftrightarrow> (\<forall>x. 0 < w x) \<and> (\<forall>x \<in> set inl. index x < length (st_var_prods out) \<longrightarrow>
     (\<forall>i \<in> {fst (st_var_prods out ! index x) ..< snd (st_var_prods out ! index x)}. wt inl w (fst (view out (st_productions out ! i))) < w x))"

lemma ranking_exists:
  assumes "acyclic (inline_refs out inl)"
  shows "\<exists>w. ranked out inl w"
proof -
  let ?R = "(inline_refs out inl)\<inverse>"
  have "inline_refs out inl \<subseteq> set inl \<times> set inl" by (auto simp: inline_refs_def)
  then have "finite (inline_refs out inl)" by (rule finite_subset) simp
  then have wf: "wf ?R" using assms by (intro finite_acyclic_wf_converse) simp_all
  define range_of where "range_of x = [fst (st_var_prods out ! index x) ..< snd (st_var_prods out ! index x)]" for x
  define H where "H f x = Suc (sum_list (map (\<lambda>i. wt inl f (fst (view out (st_productions out ! i)))) (range_of x)))" for f x
  define w where "w = wfrec ?R H"
  have w: "w x = H (cut w ?R x) x" for x unfolding w_def by (rule wfrec [OF wf])
  have "wt inl w (fst (view out (st_productions out ! i))) < w x"
    if x: "x \<in> set inl" "index x < length (st_var_prods out)" and i: "i \<in> set (range_of x)" for x i
  proof -
    have "cut w ?R x y = w y" if "y \<in> set inl" "y \<in> step_symbol ` set (fst (view out (st_productions out ! i)))" for y
      using that x i by (auto simp: cut_def inline_refs_def range_of_def)
    then have "wt inl w (fst (view out (st_productions out ! i))) = wt inl (cut w ?R x) (fst (view out (st_productions out ! i)))"
      unfolding wt_def by (intro arg_cong [of _ _ sum_list] map_cong) auto
    also have "\<dots> \<le> sum_list (map (\<lambda>i. wt inl (cut w ?R x) (fst (view out (st_productions out ! i)))) (range_of x))"
      using i by (intro member_le_sum_list) auto
    finally show ?thesis unfolding w [of x] H_def by simp
  qed
  moreover have "0 < w x" for x unfolding w [of x] H_def by simp
  ultimately show ?thesis unfolding ranked_def range_of_def set_upt by blast
qed

lemma inherit_symbols [simp]: "map step_symbol (inherit_steps st sts) = map step_symbol sts"
proof -
  define s2 where "s2 = (let s1 = (case step_alias st of Some a \<Rightarrow> map (set_alias (Some a)) sts | None \<Rightarrow> sts)
     in case step_field st of Some f \<Rightarrow> map (set_field (Some f)) s1 | None \<Rightarrow> s1)"
  have eq: "inherit_steps st sts = (if s2 = [] then [] else butlast s2 @ [inherit_last st (List.last s2)])"
    by (simp add: inherit_steps_def s2_def Let_def)
  have s2: "map step_symbol s2 = map step_symbol sts" by (auto simp: s2_def Let_def split: option.splits)
  have "step_symbol (inherit_last st s) = step_symbol s" for s by (simp add: inherit_last_def Let_def)
  then have "map step_symbol (butlast s2 @ [inherit_last st s]) = map step_symbol (butlast s2 @ [s])" for s by simp
  then have "map step_symbol (inherit_steps st sts) = map step_symbol s2" unfolding eq by (cases "s2 = []") (simp, metis append_butlast_last_id)
  then show ?thesis using s2 by simp
qed

lemma length_inherit [simp]: "length (inherit_steps st sts) = length sts"
  using map_eq_imp_length_eq [OF inherit_symbols] .

lemma wt_append [simp]: "wt inl w (xs @ ys) = wt inl w xs + wt inl w ys"
  by (simp add: wt_def)

lemma wt_symbols: "map step_symbol xs = map step_symbol ys \<Longrightarrow> wt inl w xs = wt inl w ys"
proof -
  have "wt inl w sts = sum_list (map (\<lambda>sy. if sy \<in> set inl then w sy else 1) (map step_symbol sts))" for sts by (simp add: wt_def comp_def)
  then show "map step_symbol xs = map step_symbol ys \<Longrightarrow> wt inl w xs = wt inl w ys" by metis
qed

lemma wt_inherit [simp]: "wt inl w (inherit_steps st sts) = wt inl w sts"
  by (rule wt_symbols) simp

definition prods_ok :: "ProductionStore \<Rightarrow> bool" where
  "prods_ok out \<longleftrightarrow> store_inv out \<and> (\<forall>r \<in> set (st_var_prods out). fst r \<le> snd r \<and> snd r \<le> length (st_productions out))"

definition sp_weight :: "Symbol list \<Rightarrow> (Symbol \<Rightarrow> nat) \<Rightarrow> nat \<Rightarrow> ScratchProd \<Rightarrow> nat" where
  "sp_weight inl w si sp = wt inl w (drop si (sp_steps sp))"

lemma inline_step_Some: "inline_step inl si sp = Some st \<longleftrightarrow> si < length (sp_steps sp) \<and> sp_steps sp ! si = st \<and> step_symbol st \<in> set inl"
  by (auto simp: inline_step_def split: option.splits)

text \<open>What a replacement shares with the production it replaces.\<close>

lemma replacements_ok:
  assumes ok: "store_inv out" and st: "inline_step inl si sp = Some st"
  shows "\<forall>i \<in> set is. i < length (st_productions out) \<Longrightarrow> \<exists>rs. replacements out sp si st is = Some rs \<and>
    (\<forall>r \<in> set rs. take si (sp_steps r) = take si (sp_steps sp) \<and> si \<le> length (sp_steps r) \<and>
      (\<exists>i \<in> set is. wt inl w (drop si (sp_steps r)) = wt inl w (fst (view out (st_productions out ! i))) + wt inl w (drop (Suc si) (sp_steps sp))))"
proof (induction "is")
  case (Cons i "is")
  let ?p = "st_productions out ! i"
  have p: "prod_steps out ?p = Some (fst (view out ?p))" using Cons.prems store_invD [OF ok] by simp
  have si: "si < length (sp_steps sp)" using st by (simp add: inline_step_Some)
  have one: "\<exists>r. replacement out sp si st ?p = Some r \<and> (\<forall>x \<in> set r. take si (sp_steps x) = take si (sp_steps sp) \<and> si \<le> length (sp_steps x) \<and>
      wt inl w (drop si (sp_steps x)) = wt inl w (fst (view out ?p)) + wt inl w (drop (Suc si) (sp_steps sp)))"
    using si p by (auto simp: replacement_def)
  obtain rs where "replacements out sp si st is = Some rs" "\<forall>r \<in> set rs. take si (sp_steps r) = take si (sp_steps sp) \<and> si \<le> length (sp_steps r) \<and>
      (\<exists>i \<in> set is. wt inl w (drop si (sp_steps r)) = wt inl w (fst (view out (st_productions out ! i))) + wt inl w (drop (Suc si) (sp_steps sp)))"
    using Cons by auto
  then show ?case using one Cons.prems by (auto simp: vec_get_def)
qed simp

lemma list_all2_choice: "\<forall>x \<in> set xs. \<exists>y. P x y \<Longrightarrow> \<exists>ys. list_all2 P xs ys"
proof (induction xs)
  case (Cons x xs)
  then obtain y ys where "P x y" "list_all2 P xs ys" by auto
  then have "list_all2 P (x # xs) (y # ys)" by simp
  then show ?case ..
qed auto

lemma list_all2_member: "list_all2 P xs ys \<Longrightarrow> y \<in> set ys \<Longrightarrow> \<exists>x \<in> set xs. P x y"
  by (induction rule: list_all2_induct) auto

lemma expands_total:
  assumes ok: "prods_ok out" and inl: "\<forall>x \<in> set inl. index x < length (st_var_prods out)" and w: "ranked out inl w"
  shows "\<exists>qs. expands out inl si sp qs \<and> (\<forall>q \<in> set qs. take si (sp_steps q) = take si (sp_steps sp) \<and>
    (inline_step inl si sp \<noteq> None \<longrightarrow> si \<le> length (sp_steps q) \<and> sp_weight inl w si q < sp_weight inl w si sp))"
proof (induction "sp_weight inl w si sp" arbitrary: sp rule: less_induct)
  case less
  show ?case
  proof (cases "inline_step inl si sp")
    case None
    then show ?thesis using settled [of inl si sp out] by auto
  next
    case (Some st)
    then have si: "si < length (sp_steps sp)" "sp_steps sp ! si = st" "step_symbol st \<in> set inl" by (auto simp: inline_step_Some)
    let ?x = "step_symbol st"
    obtain a b where ab: "st_var_prods out ! index ?x = (a, b)" by (cases "st_var_prods out ! index ?x")
    have rng: "index ?x < length (st_var_prods out)" using inl si(3) by blast
    then have "(a, b) \<in> set (st_var_prods out)" using ab nth_mem by metis
    then have le: "\<forall>i \<in> set [a ..< b]. i < length (st_productions out)" using ok by (auto simp: prods_ok_def)
    obtain rs where rs: "replacements out sp si st [a ..< b] = Some rs" "\<forall>r \<in> set rs. take si (sp_steps r) = take si (sp_steps sp) \<and> si \<le> length (sp_steps r) \<and>
      (\<exists>i \<in> set [a ..< b]. wt inl w (drop si (sp_steps r)) = wt inl w (fst (view out (st_productions out ! i))) + wt inl w (drop (Suc si) (sp_steps sp)))"
      using replacements_ok [OF _ Some le, of w] ok unfolding prods_ok_def by blast
    have "drop si (sp_steps sp) = st # drop (Suc si) (sp_steps sp)" using si Cons_nth_drop_Suc by metis
    then have sp: "sp_weight inl w si sp = w ?x + wt inl w (drop (Suc si) (sp_steps sp))" using si(3) by (simp add: sp_weight_def wt_def)
    have "wt inl w (fst (view out (st_productions out ! i))) < w ?x" if "i \<in> set [a ..< b]" for i
      using w rng si(3) ab that by (auto simp: ranked_def)
    then have smaller: "sp_weight inl w si r < sp_weight inl w si sp" if "r \<in> set rs" for r
      using rs(2) that unfolding sp by (fastforce simp: sp_weight_def)
    have ind: "\<exists>qs. expands out inl si r qs \<and> (\<forall>q \<in> set qs. take si (sp_steps q) = take si (sp_steps r) \<and>
        si \<le> length (sp_steps q) \<and> sp_weight inl w si q \<le> sp_weight inl w si r)" if r: "r \<in> set rs" for r
    proof (cases "inline_step inl si r")
      case None
      then show ?thesis using settled [of inl si r out] rs(2) r by auto
    next
      case (Some s)
      then show ?thesis using less.hyps [OF smaller [OF r]] by (metis less_imp_le option.distinct(1))
    qed
    have "\<exists>qss. list_all2 (\<lambda>r qs. expands out inl si r qs \<and> (\<forall>q \<in> set qs. take si (sp_steps q) = take si (sp_steps r) \<and>
        si \<le> length (sp_steps q) \<and> sp_weight inl w si q \<le> sp_weight inl w si r)) rs qss"
      using ind by (intro list_all2_choice) blast
    then obtain qss where qss: "list_all2 (\<lambda>r qs. expands out inl si r qs \<and> (\<forall>q \<in> set qs. take si (sp_steps q) = take si (sp_steps r) \<and>
        si \<le> length (sp_steps q) \<and> sp_weight inl w si q \<le> sp_weight inl w si r)) rs qss" ..
    then have "list_all2 (expands out inl si) rs qss" by (rule list_all2_mono) blast
    moreover have "vec_get (st_var_prods out) (index ?x) = Some (a, b)" using rng ab by simp
    ultimately have ex: "expands out inl si sp (concat qss)" using inlined [OF Some _ rs(1)] by blast
    have "take si (sp_steps q) = take si (sp_steps sp) \<and> si \<le> length (sp_steps q) \<and> sp_weight inl w si q < sp_weight inl w si sp"
      if q: "q \<in> set (concat qss)" for q
    proof -
      obtain r where "r \<in> set rs" "take si (sp_steps q) = take si (sp_steps r)" "si \<le> length (sp_steps q)" "sp_weight inl w si q \<le> sp_weight inl w si r"
        using q list_all2_member [OF qss] unfolding set_concat by blast
      then show ?thesis using rs(2) smaller by (metis le_less_trans)
    qed
    then show ?thesis using ex by blast
  qed
qed


section \<open>The growing store\<close>

definition content :: "ProductionStore \<Rightarrow> nat \<Rightarrow> ScratchProd" where
  "content out i = (let p = st_productions out ! i in
     \<lparr>sp_steps = fst (view out p), sp_dynamic_precedence = prod_dynamic_precedence p, sp_requires_eof_lookahead = requires_eof_lookahead p\<rparr>)"

definition extends :: "ProductionStore \<Rightarrow> ProductionStore \<Rightarrow> bool" where
  "extends out0 out \<longleftrightarrow> st_var_prods out = st_var_prods out0 \<and> (\<exists>ps. st_productions out = st_productions out0 @ ps) \<and>
     (\<exists>ss. st_steps out = st_steps out0 @ ss) \<and> store_inv out0 \<and> store_inv out"

lemma extends_refl: "store_inv out \<Longrightarrow> extends out out"
  by (simp add: extends_def)

lemma extends_trans: "extends a b \<Longrightarrow> extends b c \<Longrightarrow> extends a c"
  unfolding extends_def by (metis append.assoc)

lemma extends_view:
  assumes "extends out0 out" "i < length (st_productions out0)"
  shows "st_productions out ! i = st_productions out0 ! i" "view out (st_productions out ! i) = view out0 (st_productions out0 ! i)"
    "content out i = content out0 i" "i < length (st_productions out)"
proof -
  obtain ps ss where e: "st_productions out = st_productions out0 @ ps" "st_steps out = st_steps out0 @ ss" "store_inv out0"
    using assms(1) by (auto simp: extends_def)
  show p: "st_productions out ! i = st_productions out0 ! i" using e(1) assms(2) by (simp add: nth_append)
  have "steps_start (st_productions out0 ! i) + steps_len (st_productions out0 ! i) \<le> length (st_steps out0)" using e(3) assms(2) by (simp add: store_inv_def)
  then show v: "view out (st_productions out ! i) = view out0 (st_productions out0 ! i)"
    using e(2) p by (simp add: view_def)
  show "content out i = content out0 i" using p v by (simp add: content_def Let_def)
  show "i < length (st_productions out)" using e(1) assms(2) by simp
qed

lemma prod_steps_content: "store_inv out \<Longrightarrow> i < length (st_productions out) \<Longrightarrow> prod_steps out (st_productions out ! i) = Some (sp_steps (content out i))"
  by (simp add: store_invD content_def Let_def)

lemma replacements_extends:
  "extends out0 out \<Longrightarrow> \<forall>i \<in> set is. i < length (st_productions out0) \<Longrightarrow> replacements out sp si st is = replacements out0 sp si st is"
proof (induction "is")
  case (Cons i "is")
  have inv: "store_inv out" "store_inv out0" using Cons.prems(1) by (auto simp: extends_def)
  have i: "i < length (st_productions out0)" "i < length (st_productions out)" using Cons.prems extends_view(4) [OF Cons.prems(1), of i] by auto
  have "replacement out sp si st (st_productions out ! i) = replacement out0 sp si st (st_productions out0 ! i)"
    using prod_steps_content [OF inv(1) i(2)] prod_steps_content [OF inv(2) i(1)] extends_view [OF Cons.prems(1) i(1)] by (simp add: replacement_def)
  then show ?case using Cons i by (simp add: vec_get_def)
qed simp

lemma expands_extends:
  assumes "expands out0 inl si sp qs" "extends out0 out" "prods_ok out0"
  shows "expands out inl si sp qs"
  using assms(1)
proof (induction rule: expands.induct)
  case (inlined sp st a b rs qss)
  have "(a, b) \<in> set (st_var_prods out0)" using inlined.hyps(2) by (metis nth_mem vec_get_Some_iff)
  then have "\<forall>i \<in> set [a ..< b]. i < length (st_productions out0)" using assms(3) by (auto simp: prods_ok_def)
  then have "replacements out sp si st [a ..< b] = Some rs" using replacements_extends [OF assms(2)] inlined.hyps(3) by simp
  moreover have "vec_get (st_var_prods out) (index (step_symbol st)) = Some (a, b)" using inlined.hyps(2) assms(2) by (simp add: extends_def)
  moreover have "list_all2 (expands out inl si) rs qss" using inlined.IH by (rule list_all2_mono) blast
  ultimately show ?case using expands.inlined [OF inlined.hyps(1)] by blast
qed (rule expands.settled)

subsection \<open>Pooling\<close>

inductive_set inlined_prods :: "ProductionStore \<Rightarrow> Symbol list \<Rightarrow> ScratchProd set" for out inl where
  original: "i < length (st_productions out) \<Longrightarrow> content out i \<in> inlined_prods out inl"
| expanded: "sp \<in> inlined_prods out inl \<Longrightarrow> inline_step inl si sp \<noteq> None \<Longrightarrow> expands out inl si sp qs \<Longrightarrow> q \<in> set qs \<Longrightarrow> q \<in> inlined_prods out inl"

definition sizes_ok :: "ProductionStore \<Rightarrow> Symbol list \<Rightarrow> bool" where
  "sizes_ok out inl \<longleftrightarrow> finite (inlined_prods out inl) \<and> length (st_productions out) + card (inlined_prods out inl) < 2 ^ 32 \<and>
     length (st_steps out) + (\<Sum>sp \<in> inlined_prods out inl. length (sp_steps sp)) < 2 ^ 32"

definition hash_of :: "step_hash \<Rightarrow> ScratchProd \<Rightarrow> nat" where
  "hash_of hash sp = hash (sp_dynamic_precedence sp) (sp_requires_eof_lookahead sp) (sp_steps sp)"

definition added :: "ProductionStore \<Rightarrow> ProductionStore \<Rightarrow> ScratchProd list" where
  "added out0 out = map (content out) [length (st_productions out0) ..< length (st_productions out)]"

text \<open>The pool of added productions: no two are equal, all of them are expansions, and the memo finds each.\<close>

definition pool_ok :: "step_hash \<Rightarrow> ProductionStore \<Rightarrow> Symbol list \<Rightarrow> ProductionStore \<times> (nat \<Rightarrow> nat list) \<Rightarrow> bool" where
  "pool_ok hash out0 inl s \<longleftrightarrow> extends out0 (fst s) \<and> distinct (added out0 (fst s)) \<and> set (added out0 (fst s)) \<subseteq> inlined_prods out0 inl \<and>
     length (st_steps (fst s)) = length (st_steps out0) + sum_list (map (\<lambda>sp. length (sp_steps sp)) (added out0 (fst s))) \<and>
     (\<forall>h. \<forall>i \<in> set (snd s h). i < length (st_productions (fst s))) \<and>
     (\<forall>i. length (st_productions out0) \<le> i \<and> i < length (st_productions (fst s)) \<longrightarrow> i \<in> set (snd s (hash_of hash (content (fst s) i))))"

lemma length_added: "extends out0 out \<Longrightarrow> length (st_productions out) = length (st_productions out0) + length (added out0 out)"
  by (auto simp: added_def extends_def)

lemma added_bounds:
  assumes "sizes_ok out0 inl" "distinct xs" "set xs \<subseteq> inlined_prods out0 inl"
  shows "length (st_productions out0) + length xs < 2 ^ 32" "length (st_steps out0) + sum_list (map (\<lambda>sp. length (sp_steps sp)) xs) < 2 ^ 32"
proof -
  have fin: "finite (inlined_prods out0 inl)" using assms(1) by (simp add: sizes_ok_def)
  have "length xs \<le> card (inlined_prods out0 inl)" using card_mono [OF fin assms(3)] distinct_card [OF assms(2)] by simp
  then show "length (st_productions out0) + length xs < 2 ^ 32" using assms(1) by (simp add: sizes_ok_def)
  have "sum_list (map (\<lambda>sp. length (sp_steps sp)) xs) \<le> (\<Sum>sp \<in> inlined_prods out0 inl. length (sp_steps sp))"
    unfolding sum_list_distinct_conv_sum_set [OF assms(2)] by (rule sum_mono2 [OF fin assms(3)]) simp
  then show "length (st_steps out0) + sum_list (map (\<lambda>sp. length (sp_steps sp)) xs) < 2 ^ 32" using assms(1) by (simp add: sizes_ok_def)
qed

lemma find_existing_correct:
  "store_inv out \<Longrightarrow> \<forall>i \<in> set is. i < length (st_productions out) \<Longrightarrow>
    \<exists>r. find_existing out sp is = Some r \<and> (case r of Some i \<Rightarrow> i \<in> set is \<and> content out i = sp | None \<Rightarrow> \<forall>i \<in> set is. content out i \<noteq> sp)"
proof (induction "is")
  case (Cons i "is")
  have i: "i < length (st_productions out)" using Cons.prems by simp
  have "find_existing out sp (i # is) = (if content out i = sp then Some (Some i) else find_existing out sp is)"
    using i prod_steps_content [OF Cons.prems(1) i] by (cases sp) (auto simp: vec_get_def content_def Let_def)
  then show ?case using Cons by (auto split: option.splits)
qed simp


lemma push_content:
  assumes inv: "store_inv out" and small: "length (st_steps out) + length (sp_steps sp) < 2 ^ 32"
  defines "out' \<equiv> push_production out (sp_steps sp) (sp_dynamic_precedence sp) (sp_requires_eof_lookahead sp)"
  shows "extends out out'" "content out' (length (st_productions out)) = sp" "length (st_productions out') = Suc (length (st_productions out))"
    "length (st_steps out') = length (st_steps out) + length (sp_steps sp)"
proof -
  note push = push_production_correct [OF inv small, of "sp_dynamic_precedence sp" "sp_requires_eof_lookahead sp", folded out'_def]
  show "extends out out'" using push(1,3,4) inv unfolding extends_def by (auto simp: out'_def push_production_def)
  show l: "length (st_productions out') = Suc (length (st_productions out))" by (rule push(5))
  show "length (st_steps out') = length (st_steps out) + length (sp_steps sp)" using push(4) by simp
  have "views out' ! length (st_productions out) = (sp_steps sp, sp_dynamic_precedence sp, sp_requires_eof_lookahead sp)"
    unfolding push(2) by (metis length_views nth_append_length)
  moreover have "views out' ! length (st_productions out) = view out' (st_productions out' ! length (st_productions out))"
    using l by (simp add: views_def)
  ultimately have v: "view out' (st_productions out' ! length (st_productions out)) = (sp_steps sp, sp_dynamic_precedence sp, sp_requires_eof_lookahead sp)" by simp
  show "content out' (length (st_productions out)) = sp"
    using v view_flags [of out' "st_productions out' ! length (st_productions out)"] by (cases sp) (simp add: content_def Let_def)
qed

lemma added_push:
  assumes "extends out0 out" "extends out out'" "length (st_productions out') = Suc (length (st_productions out))"
  shows "added out0 out' = added out0 out @ [content out' (length (st_productions out))]"
proof -
  have "length (st_productions out0) \<le> length (st_productions out)" using assms(1) by (auto simp: extends_def)
  then show ?thesis unfolding added_def assms(3) using extends_view(3) [OF assms(2)] by simp
qed

lemma in_added: "extends out0 out \<Longrightarrow> i < length (st_productions out) \<Longrightarrow> length (st_productions out0) \<le> i \<Longrightarrow> content out i \<in> set (added out0 out)"
  by (simp add: added_def)

lemma pool_push:
  assumes pool: "pool_ok hash out0 inl (out, memo)" and sizes: "sizes_ok out0 inl" and sp: "sp \<in> inlined_prods out0 inl"
    and fresh: "\<forall>i \<in> set (memo (hash_of hash sp)). content out i \<noteq> sp"
  defines "out' \<equiv> push_production out (sp_steps sp) (sp_dynamic_precedence sp) (sp_requires_eof_lookahead sp)"
    and "n \<equiv> length (st_productions out)"
  shows "as_u32 (length (st_productions out') - 1) = n" "extends out out'" "content out' n = sp" "length (st_productions out') = Suc n"
    "pool_ok hash out0 inl (out', memo(hash_of hash sp := memo (hash_of hash sp) @ [n]))"
proof -
  have ext: "extends out0 out" and dist: "distinct (added out0 out)" and sub: "set (added out0 out) \<subseteq> inlined_prods out0 inl"
    and len: "length (st_steps out) = length (st_steps out0) + sum_list (map (\<lambda>sp. length (sp_steps sp)) (added out0 out))"
    and memo: "\<And>h i. i \<in> set (memo h) \<Longrightarrow> i < n" "\<And>i. length (st_productions out0) \<le> i \<Longrightarrow> i < n \<Longrightarrow> i \<in> set (memo (hash_of hash (content out i)))"
    using pool unfolding pool_ok_def n_def by auto
  have "sp \<notin> set (added out0 out)"
  proof
    assume "sp \<in> set (added out0 out)"
    then obtain i where "length (st_productions out0) \<le> i" "i < n" "content out i = sp" by (auto simp: added_def n_def)
    then show False using memo(2) fresh by blast
  qed
  then have new: "distinct (added out0 out @ [sp])" "set (added out0 out @ [sp]) \<subseteq> inlined_prods out0 inl" using dist sub sp by auto
  note bounds = added_bounds [OF sizes new]
  have "length (st_steps out) + length (sp_steps sp) < 2 ^ 32" using bounds(2) len by simp
  moreover have "store_inv out" using ext by (simp add: extends_def)
  ultimately have push: "extends out out'" "content out' n = sp" "length (st_productions out') = Suc n"
    "length (st_steps out') = length (st_steps out) + length (sp_steps sp)"
    using push_content [of out sp] by (simp_all add: out'_def n_def)
  then show "extends out out'" "content out' n = sp" "length (st_productions out') = Suc n" by simp_all
  have "n < 2 ^ 32" using bounds(1) length_added [OF ext] by (simp add: n_def)
  then show "as_u32 (length (st_productions out') - 1) = n" using push(3) by simp
  have add: "added out0 out' = added out0 out @ [sp]" using added_push [OF ext push(1)] push(2,3) by (simp add: n_def)
  have "i \<in> set ((memo(hash_of hash sp := memo (hash_of hash sp) @ [n])) (hash_of hash (content out' i)))"
    if "length (st_productions out0) \<le> i" "i < Suc n" for i
    using that memo(2) [of i] push(2) extends_view(3) [OF push(1), of i] by (cases "i = n") (auto simp: n_def)
  then show "pool_ok hash out0 inl (out', memo(hash_of hash sp := memo (hash_of hash sp) @ [n]))"
    using extends_trans [OF ext push(1)] new add len push(3,4) memo(1) unfolding pool_ok_def by (auto simp: less_Suc_eq)
qed

lemma store_scratch_correct:
  assumes sizes: "sizes_ok out0 inl"
  shows "pool_ok hash out0 inl s \<Longrightarrow> set sps \<subseteq> inlined_prods out0 inl \<Longrightarrow>
    \<exists>is s'. store_scratch hash sps s = Some (is, s') \<and> pool_ok hash out0 inl s' \<and> extends (fst s) (fst s') \<and>
      (\<forall>i \<in> set is. i < length (st_productions (fst s'))) \<and> map (content (fst s')) is = sps"
proof (induction sps arbitrary: s)
  case Nil
  then show ?case by (auto simp: pool_ok_def extends_def)
next
  case (Cons sp sps)
  obtain out memo where s: "s = (out, memo)" by (cases s)
  let ?h = "hash_of hash sp"
  have pool: "pool_ok hash out0 inl (out, memo)" using Cons.prems(1) s by simp
  then have inv: "store_inv out" "\<forall>i \<in> set (memo ?h). i < length (st_productions out)" by (auto simp: pool_ok_def extends_def)
  obtain r where r: "find_existing out sp (memo ?h) = Some r" "case r of Some i \<Rightarrow> i \<in> set (memo ?h) \<and> content out i = sp | None \<Rightarrow> \<forall>i \<in> set (memo ?h). content out i \<noteq> sp"
    using find_existing_correct [OF inv] by blast
  obtain i s1 where s1: "pool_ok hash out0 inl s1" "extends out (fst s1)" "i < length (st_productions (fst s1))" "content (fst s1) i = sp"
    "store_scratch hash (sp # sps) s = Option.bind (store_scratch hash sps s1) (\<lambda>(is, s''). Some (i # is, s''))"
  proof (cases r)
    case (Some i)
    then show thesis using that [of s i] r pool inv s extends_refl [OF inv(1)] by (auto simp: hash_of_def)
  next
    case None
    let ?out = "push_production out (sp_steps sp) (sp_dynamic_precedence sp) (sp_requires_eof_lookahead sp)"
    have "\<forall>i \<in> set (memo ?h). content out i \<noteq> sp" using r(2) None by simp
    note push = pool_push [OF pool sizes _ this]
    show thesis
      using that [of "(?out, memo(?h := memo ?h @ [length (st_productions out)]))" "length (st_productions out)"] push r(1) None Cons.prems(2) s
      by (simp add: hash_of_def Let_def)
  qed
  obtain "is" s2 where s2: "store_scratch hash sps s1 = Some (is, s2)" "pool_ok hash out0 inl s2" "extends (fst s1) (fst s2)"
    "\<forall>i \<in> set is. i < length (st_productions (fst s2))" "map (content (fst s2)) is = sps"
    using Cons.IH [OF s1(1)] Cons.prems(2) by auto
  have "store_scratch hash (sp # sps) s = Some (i # is, s2)" using s1(5) s2(1) by simp
  moreover have "i < length (st_productions (fst s2))" "content (fst s2) i = sp" using extends_view(3,4) [OF s2(3) s1(3)] s1(4) by simp_all
  ultimately show ?case using s2 extends_trans [OF s1(2) s2(3)] s by auto
qed


section \<open>The builder\<close>

definition inline_input :: "ProductionStore \<Rightarrow> Symbol list \<Rightarrow> bool" where
  "inline_input out inl \<longleftrightarrow> prods_ok out \<and> (\<forall>x \<in> set inl. index x < length (st_var_prods out)) \<and> acyclic (inline_refs out inl) \<and> sizes_ok out inl"

definition builder_inv :: "step_hash \<Rightarrow> ProductionStore \<Rightarrow> Symbol list \<Rightarrow> InlineBuilder \<Rightarrow> bool" where
  "builder_inv hash out0 inl b \<longleftrightarrow> pool_ok hash out0 inl (b_out b, b_memo b) \<and> b_inline b = inl \<and>
     (\<forall>i si is. b_map b (i, si) = Some is \<longrightarrow> i < length (st_productions (b_out b)) \<and> inline_step inl si (content (b_out b) i) \<noteq> None \<and>
       (\<forall>k \<in> set is. k < length (st_productions (b_out b))) \<and> expands out0 inl si (content (b_out b) i) (map (content (b_out b)) is))"

definition grows_to :: "InlineBuilder \<Rightarrow> InlineBuilder \<Rightarrow> bool" where
  "grows_to b b' \<longleftrightarrow> extends (b_out b) (b_out b') \<and> b_map b \<subseteq>\<^sub>m b_map b'"

lemma grows_to_trans: "grows_to a b \<Longrightarrow> grows_to b c \<Longrightarrow> grows_to a c"
  unfolding grows_to_def using extends_trans map_le_trans by blast

lemma grows_to_refl: "builder_inv hash out0 inl b \<Longrightarrow> grows_to b b"
  by (simp add: grows_to_def builder_inv_def pool_ok_def extends_def)

lemma builder_content:
  assumes "builder_inv hash out0 inl b" "i < length (st_productions (b_out b))"
  shows "content (b_out b) i \<in> inlined_prods out0 inl"
proof (cases "i < length (st_productions out0)")
  case True
  then show ?thesis using assms extends_view(3) [of out0 "b_out b" i] inlined_prods.original [OF True]
    by (simp add: builder_inv_def pool_ok_def)
next
  case False
  then show ?thesis using assms in_added [of out0 "b_out b" i] by (auto simp: builder_inv_def pool_ok_def)
qed

lemma inline_production_at_step_correct:
  assumes inp: "inline_input out0 inl" and b: "builder_inv hash out0 inl b" and i: "i < length (st_productions (b_out b))"
    and st: "inline_step inl si (content (b_out b) i) \<noteq> None"
  shows "\<exists>is b'. inline_production_at_step hash b i si = Some (is, b') \<and> builder_inv hash out0 inl b' \<and> grows_to b b' \<and> b_map b' (i, si) = Some is"
proof (cases "b_map b (i, si)")
  case (Some "is")
  then show ?thesis using b grows_to_refl [OF b] by (auto simp: inline_production_at_step_def)
next
  case None
  have ok: "prods_ok out0" "\<forall>x \<in> set inl. index x < length (st_var_prods out0)" "sizes_ok out0 inl" using inp by (auto simp: inline_input_def)
  obtain w where w: "ranked out0 inl w" using inp ranking_exists unfolding inline_input_def by blast
  have pool: "pool_ok hash out0 inl (b_out b, b_memo b)" using b by (simp add: builder_inv_def)
  then have ext: "extends out0 (b_out b)" "store_inv (b_out b)" by (auto simp: pool_ok_def extends_def)
  obtain qs where qs: "expands out0 inl si (content (b_out b) i) qs" using expands_total [OF ok(1,2) w] by blast
  have "set qs \<subseteq> inlined_prods out0 inl" using inlined_prods.expanded [OF builder_content [OF b i] st qs] by blast
  from store_scratch_correct [OF ok(3) pool this]
  obtain "is" s' where s': "store_scratch hash qs (b_out b, b_memo b) = Some (is, s')" "pool_ok hash out0 inl s'" "extends (b_out b) (fst s')"
    "\<forall>i \<in> set is. i < length (st_productions (fst s'))" "map (content (fst s')) is = qs" by auto
  let ?b = "b\<lparr>b_out := fst s', b_memo := snd s', b_map := (b_map b)((i, si) \<mapsto> is)\<rparr>"
  have sp: "content (b_out b) i = \<lparr>sp_steps = sp_steps (content (b_out b) i), sp_dynamic_precedence = prod_dynamic_precedence (st_productions (b_out b) ! i),
      sp_requires_eof_lookahead = requires_eof_lookahead (st_productions (b_out b) ! i)\<rparr>" by (simp add: content_def Let_def)
  have "expand_scratch (b_out b) inl si 0 [content (b_out b) i] = Some qs"
    by (rule expand_scratch_correct [OF expands_extends [OF qs ext(1) ok(1)]])
  then have "expand_scratch (b_out b) inl si 0 [\<lparr>sp_steps = sp_steps (content (b_out b) i), sp_dynamic_precedence = prod_dynamic_precedence (st_productions (b_out b) ! i),
      sp_requires_eof_lookahead = requires_eof_lookahead (st_productions (b_out b) ! i)\<rparr>] = Some qs" by (subst (asm) sp)
  then have run: "inline_production_at_step hash b i si = Some (is, ?b)"
    using None i prod_steps_content [OF ext(2) i] b s'(1)
    by (cases s') (simp add: inline_production_at_step_def vec_get_def builder_inv_def)
  note keep = extends_view [OF s'(3)]
  have "builder_inv hash out0 inl ?b" unfolding builder_inv_def
  proof (intro conjI allI impI)
    fix j sj ks assume "b_map ?b (j, sj) = Some ks"
    then have "j = i \<and> sj = si \<and> ks = is \<or> b_map b (j, sj) = Some ks" by (simp split: if_splits)
    then consider (new) "j = i" "sj = si" "ks = is" | (old) "b_map b (j, sj) = Some ks" by blast
    then have "j < length (st_productions (fst s')) \<and> inline_step inl sj (content (fst s') j) \<noteq> None \<and> (\<forall>k \<in> set ks. k < length (st_productions (fst s'))) \<and>
      expands out0 inl sj (content (fst s') j) (map (content (fst s')) ks)"
    proof cases
      case new
      then show ?thesis using keep(3,4) [OF i] st s'(4,5) qs by simp
    next
      case old
      then have o: "j < length (st_productions (b_out b))" "inline_step inl sj (content (b_out b) j) \<noteq> None" "\<forall>k \<in> set ks. k < length (st_productions (b_out b))"
        "expands out0 inl sj (content (b_out b) j) (map (content (b_out b)) ks)" using b unfolding builder_inv_def by blast+
      have e: "map (content (fst s')) ks = map (content (b_out b)) ks" using o(3) keep(3) by simp
      show ?thesis unfolding e using o keep(3,4) by simp
    qed
    then show "j < length (st_productions (b_out ?b))" "inline_step inl sj (content (b_out ?b) j) \<noteq> None" "\<forall>k \<in> set ks. k < length (st_productions (b_out ?b))"
      "expands out0 inl sj (content (b_out ?b) j) (map (content (b_out ?b)) ks)" by simp_all
  qed (use s'(2) b in \<open>simp_all add: builder_inv_def\<close>)
  moreover have "grows_to b ?b" using s'(3) None by (auto simp: grows_to_def map_le_def)
  ultimately show ?thesis using run by auto
qed

subsection \<open>Survival and completeness\<close>

text \<open>A production survives inlining from a step on when some choice of expansions reaches its end.\<close>

inductive survives :: "ProductionStore \<Rightarrow> Symbol list \<Rightarrow> nat \<Rightarrow> ScratchProd \<Rightarrow> bool" for out inl where
  at_end: "si = length (sp_steps sp) \<Longrightarrow> survives out inl si sp"
| advance: "si < length (sp_steps sp) \<Longrightarrow> inline_step inl si sp = None \<Longrightarrow> survives out inl (Suc si) sp \<Longrightarrow> survives out inl si sp"
| expand: "inline_step inl si sp \<noteq> None \<Longrightarrow> expands out inl si sp qs \<Longrightarrow> q \<in> set qs \<Longrightarrow> survives out inl si q \<Longrightarrow> survives out inl si sp"

inductive_simps survives_iff: "survives out inl si sp"

text \<open>The map covers a production from a step on: every inlined step met on the way has its expansions
  recorded.\<close>

inductive covered :: "inline_map \<Rightarrow> ProductionStore \<Rightarrow> Symbol list \<Rightarrow> work_item \<Rightarrow> bool" for m out inl where
  cov_end: "si = length (sp_steps (content out i)) \<Longrightarrow> covered m out inl (i, si)"
| cov_advance: "si < length (sp_steps (content out i)) \<Longrightarrow> inline_step inl si (content out i) = None \<Longrightarrow> covered m out inl (i, Suc si) \<Longrightarrow> covered m out inl (i, si)"
| cov_expand: "inline_step inl si (content out i) \<noteq> None \<Longrightarrow> m (i, si) = Some is \<Longrightarrow> \<forall>k \<in> set is. covered m out inl (k, si) \<Longrightarrow> covered m out inl (i, si)"

lemma survives_step:
  "si < length (sp_steps sp) \<Longrightarrow> inline_step inl si sp = None \<Longrightarrow> survives out inl si sp \<longleftrightarrow> survives out inl (Suc si) sp"
  "inline_step inl si sp \<noteq> None \<Longrightarrow> expands out inl si sp qs \<Longrightarrow> survives out inl si sp \<longleftrightarrow> (\<exists>q \<in> set qs. survives out inl si q)"
proof -
  show "si < length (sp_steps sp) \<Longrightarrow> inline_step inl si sp = None \<Longrightarrow> survives out inl si sp \<longleftrightarrow> survives out inl (Suc si) sp"
    by (subst survives_iff) auto
  show "inline_step inl si sp \<noteq> None \<Longrightarrow> expands out inl si sp qs \<Longrightarrow> survives out inl si sp \<longleftrightarrow> (\<exists>q \<in> set qs. survives out inl si q)"
  proof -
    assume a: "inline_step inl si sp \<noteq> None" "expands out inl si sp qs"
    then have ne: "si \<noteq> length (sp_steps sp)" by (auto simp: inline_step_Some)
    have "survives out inl si sp \<Longrightarrow> \<exists>q \<in> set qs. survives out inl si q"
    proof (erule survives.cases)
      fix si' sp' qs' q assume "si = si'" "sp = sp'" "expands out inl si' sp' qs'" "q \<in> set qs'" "survives out inl si' q"
      then show "\<exists>q \<in> set qs. survives out inl si q" using expands_det [OF a(2)] by blast
    qed (use a(1) ne in simp_all)
    then show "survives out inl si sp \<longleftrightarrow> (\<exists>q \<in> set qs. survives out inl si q)" using survives.expand [OF a] by blast
  qed
qed


subsection \<open>The loops\<close>

definition item_ok :: "InlineBuilder \<Rightarrow> work_item \<Rightarrow> bool" where
  "item_ok b x \<longleftrightarrow> fst x < length (st_productions (b_out b)) \<and> snd x \<le> length (sp_steps (content (b_out b) (fst x)))"

definition item_weight :: "Symbol list \<Rightarrow> (Symbol \<Rightarrow> nat) \<Rightarrow> InlineBuilder \<Rightarrow> work_item \<Rightarrow> nat" where
  "item_weight inl w b x = sp_weight inl w (snd x) (content (b_out b) (fst x))"

definition alive :: "ProductionStore \<Rightarrow> Symbol list \<Rightarrow> InlineBuilder \<Rightarrow> work_item \<Rightarrow> bool" where
  "alive out0 inl b x \<longleftrightarrow> survives out0 inl (snd x) (content (b_out b) (fst x))"

lemma item_stable:
  assumes "grows_to b b'" "item_ok b x"
  shows "item_ok b' x" "item_weight inl w b' x = item_weight inl w b x" "alive out0 inl b' x \<longleftrightarrow> alive out0 inl b x"
  using assms extends_view [of "b_out b" "b_out b'" "fst x"] by (auto simp: grows_to_def item_ok_def item_weight_def alive_def)

lemma production_step_for_id_correct:
  assumes b: "builder_inv hash out0 inl b" and sizes: "sizes_ok out0 inl" and x: "item_ok b x"
  shows "production_step_for_id (b_out b) (fst x) (snd x) =
    Some (if snd x < length (sp_steps (content (b_out b) (fst x))) then Some (sp_steps (content (b_out b) (fst x)) ! snd x) else None)"
proof -
  let ?p = "st_productions (b_out b) ! fst x"
  have pool: "pool_ok hash out0 inl (b_out b, b_memo b)" using b by (simp add: builder_inv_def)
  have inv: "store_inv (b_out b)" using pool by (simp add: pool_ok_def extends_def)
  have "length (st_steps (b_out b)) < 2 ^ 32" using pool added_bounds(2) [OF sizes] by (auto simp: pool_ok_def)
  moreover have le: "steps_start ?p + steps_len ?p \<le> length (st_steps (b_out b))"
    using inv x unfolding store_inv_def item_ok_def by simp
  moreover from le have "sp_steps (content (b_out b) (fst x)) = take (steps_len ?p) (drop (steps_start ?p) (st_steps (b_out b)))" by (simp add: content_def view_def Let_def)
  ultimately show ?thesis using x by (auto simp: production_step_for_id_def item_ok_def vec_get_def)
qed

text \<open>One turn of the inner loop replaces an item by lighter ones.\<close>

definition item_step :: "step_hash \<Rightarrow> ProductionStore \<Rightarrow> Symbol list \<Rightarrow> (Symbol \<Rightarrow> nat) \<Rightarrow> bool \<Rightarrow> InlineBuilder \<Rightarrow> work_item \<Rightarrow> work_item list \<Rightarrow> bool \<Rightarrow> InlineBuilder \<Rightarrow> bool" where
  "item_step hash out0 inl w sv b x ys sv1 b1 \<longleftrightarrow> builder_inv hash out0 inl b1 \<and> grows_to b b1 \<and>
     (\<forall>y \<in> set ys. item_ok b1 y \<and> item_weight inl w b1 y < item_weight inl w b x) \<and>
     (sv1 \<or> (\<exists>y \<in> set ys. alive out0 inl b1 y) \<longleftrightarrow> sv \<or> alive out0 inl b x) \<and>
     (\<forall>b2. grows_to b1 b2 \<longrightarrow> (\<forall>y \<in> set ys. covered (b_map b2) (b_out b2) inl y) \<longrightarrow> covered (b_map b2) (b_out b2) inl x)"

lemma inner_step:
  assumes inp: "inline_input out0 inl" and w: "ranked out0 inl w" and b: "builder_inv hash out0 inl b"
    and i: "i < length wl" and x: "item_ok b (wl ! i)"
  shows "\<exists>ys sv1 b1 i1. item_step hash out0 inl w sv b (wl ! i) ys sv1 b1 \<and> i1 \<le> i + length ys \<and>
    inner_loop hash i wl (sv, b) = inner_loop hash i1 (take i wl @ ys @ drop (Suc i) wl) (sv1, b1)"
proof -
  obtain k si where k: "wl ! i = (k, si)" by (cases "wl ! i")
  let ?sp = "content (b_out b) k"
  have ok: "prods_ok out0" "\<forall>x \<in> set inl. index x < length (st_var_prods out0)" "sizes_ok out0 inl" using inp by (auto simp: inline_input_def)
  have kk: "k < length (st_productions (b_out b))" "si \<le> length (sp_steps ?sp)" using x k by (auto simp: item_ok_def)
  have same: "content (b_out b2) k = ?sp" if "grows_to b b2" for b2 using that kk(1) extends_view(3) by (auto simp: grows_to_def)
  have st: "production_step_for_id (b_out b) k si = Some (if si < length (sp_steps ?sp) then Some (sp_steps ?sp ! si) else None)"
    using production_step_for_id_correct [OF b ok(3) x] k by simp
  have inl: "b_inline b = inl" using b by (simp add: builder_inv_def)
  consider (finished) "si = length (sp_steps ?sp)" | (plain) "si < length (sp_steps ?sp)" "inline_step inl si ?sp = None"
    | (inlined) "inline_step inl si ?sp \<noteq> None" "si < length (sp_steps ?sp)" using kk(2) by (fastforce simp: inline_step_Some)
  then show ?thesis
  proof cases
    case finished
    have "inner_loop hash i wl (sv, b) = inner_loop hash i (take i wl @ [] @ drop (Suc i) wl) (True, b)"
      using i k st finished by (subst inner_loop.simps) simp
    moreover have "covered (b_map b2) (b_out b2) inl (k, si)" if "grows_to b b2" for b2 by (rule cov_end) (simp add: same [OF that] finished)
    then have "item_step hash out0 inl w sv b (wl ! i) [] True b"
      unfolding item_step_def k alive_def fst_conv snd_conv using survives.at_end [OF finished] grows_to_refl [OF b] b by simp
    ultimately show ?thesis by (intro exI [of _ "[]"] exI [of _ True] exI [of _ b] exI [of _ i]) simp
  next
    case plain
    let ?y = "(k, si + 1)"
    have sym: "step_symbol (sp_steps ?sp ! si) \<notin> set inl" using plain by (simp add: inline_step_def vec_get_def split: if_splits)
    have "inner_loop hash i wl (sv, b) = inner_loop hash (i + 1) (wl[i := ?y]) (sv, b)"
      using i k st plain(1) sym inl by (subst inner_loop.simps) simp
    also have "wl[i := ?y] = take i wl @ [?y] @ drop (Suc i) wl" using i by (simp add: upd_conv_take_nth_drop)
    finally have run: "inner_loop hash i wl (sv, b) = inner_loop hash (i + 1) (take i wl @ [?y] @ drop (Suc i) wl) (sv, b)" .
    have "drop si (sp_steps ?sp) = sp_steps ?sp ! si # drop (Suc si) (sp_steps ?sp)" using plain(1) by (simp add: Cons_nth_drop_Suc)
    then have "item_weight inl w b ?y < item_weight inl w b (wl ! i)" using sym by (simp add: item_weight_def sp_weight_def k wt_def)
    moreover have "covered (b_map b2) (b_out b2) inl (k, si)" if "grows_to b b2" "covered (b_map b2) (b_out b2) inl ?y" for b2
      by (rule cov_advance) (use same [OF that(1)] plain that(2) in simp_all)
    moreover have "item_ok b ?y" using plain(1) kk by (simp add: item_ok_def)
    ultimately have "item_step hash out0 inl w sv b (wl ! i) [?y] sv b"
      unfolding item_step_def k alive_def using survives_step(1) [OF plain, of out0] grows_to_refl [OF b] b by simp
    then show ?thesis using run by (intro exI [of _ "[?y]"] exI [of _ sv] exI [of _ b] exI [of _ "i + 1"]) simp
  next
    case inlined
    obtain "is" b1 where b1: "inline_production_at_step hash b k si = Some (is, b1)" "builder_inv hash out0 inl b1" "grows_to b b1" "b_map b1 (k, si) = Some is"
      using inline_production_at_step_correct [OF inp b kk(1) inlined(1)] by blast
    have sym: "step_symbol (sp_steps ?sp ! si) \<in> set inl" using inlined by (auto simp: inline_step_Some)
    let ?ys = "map (\<lambda>j. (j, si)) is"
    have run: "inner_loop hash i wl (sv, b) = inner_loop hash i (take i wl @ ?ys @ drop (Suc i) wl) (sv, b1)"
      using i k st inlined(2) sym inl b1(1) by (subst inner_loop.simps) simp
    have ex: "expands out0 inl si ?sp (map (content (b_out b1)) is)" "\<forall>j \<in> set is. j < length (st_productions (b_out b1))"
      using b1(2,4) same [OF b1(3)] unfolding builder_inv_def by metis+
    obtain qs where qs: "expands out0 inl si ?sp qs" "\<forall>q \<in> set qs. si \<le> length (sp_steps q) \<and> sp_weight inl w si q < sp_weight inl w si ?sp"
      using expands_total [OF ok(1,2) w, of si ?sp] inlined(1) by blast
    have "qs = map (content (b_out b1)) is" using expands_det [OF qs(1) ex(1)] .
    then have light: "\<forall>y \<in> set ?ys. item_ok b1 y \<and> item_weight inl w b1 y < item_weight inl w b (wl ! i)"
      using qs(2) ex(2) k by (auto simp: item_ok_def item_weight_def)
    have live: "(\<exists>y \<in> set ?ys. alive out0 inl b1 y) \<longleftrightarrow> alive out0 inl b (wl ! i)"
      using survives_step(2) [OF inlined(1) ex(1)] k by (auto simp: alive_def)
    have cov: "covered (b_map b2) (b_out b2) inl (wl ! i)" if "grows_to b1 b2" "\<forall>y \<in> set ?ys. covered (b_map b2) (b_out b2) inl y" for b2
    proof -
      have "b_map b2 (k, si) = Some is" using that(1) b1(4) by (auto simp: grows_to_def map_le_def dom_def)
      then show ?thesis using same [OF grows_to_trans [OF b1(3) that(1)]] inlined(1) that(2) unfolding k by (intro cov_expand) auto
    qed
    have "item_step hash out0 inl w sv b (wl ! i) ?ys sv b1" unfolding item_step_def using b1(2,3) light live cov by blast
    then show ?thesis using run by (intro exI [of _ ?ys] exI [of _ sv] exI [of _ b1] exI [of _ i]) simp
  qed
qed


definition weights :: "Symbol list \<Rightarrow> (Symbol \<Rightarrow> nat) \<Rightarrow> InlineBuilder \<Rightarrow> work_item list \<Rightarrow> nat multiset" where
  "weights inl w b wl = mset (map (item_weight inl w b) wl)"

text \<open>What a run of the loops keeps: the state grows, the answer whether something survives is the same, and what
  covers the new items covers the old ones.\<close>

definition runs_to :: "step_hash \<Rightarrow> ProductionStore \<Rightarrow> Symbol list \<Rightarrow> work_item list \<Rightarrow> bool \<Rightarrow> InlineBuilder \<Rightarrow> work_item list \<Rightarrow> bool \<Rightarrow> InlineBuilder \<Rightarrow> bool" where
  "runs_to hash out0 inl wl sv b wl1 sv1 b1 \<longleftrightarrow> builder_inv hash out0 inl b1 \<and> grows_to b b1 \<and> (\<forall>y \<in> set wl1. item_ok b1 y) \<and>
     (sv1 \<or> (\<exists>y \<in> set wl1. alive out0 inl b1 y) \<longleftrightarrow> sv \<or> (\<exists>x \<in> set wl. alive out0 inl b x)) \<and>
     (\<forall>b2. grows_to b1 b2 \<longrightarrow> (\<forall>y \<in> set wl1. covered (b_map b2) (b_out b2) inl y) \<longrightarrow> (\<forall>x \<in> set wl. covered (b_map b2) (b_out b2) inl x))"

lemma runs_to_trans:
  assumes "runs_to hash out0 inl wl sv b wl1 sv1 b1" "runs_to hash out0 inl wl1 sv1 b1 wl2 sv2 b2"
  shows "runs_to hash out0 inl wl sv b wl2 sv2 b2"
  unfolding runs_to_def
proof (intro conjI allI impI)
  show "grows_to b b2" using assms grows_to_trans unfolding runs_to_def by blast
  show "(sv2 \<or> (\<exists>y \<in> set wl2. alive out0 inl b2 y)) = (sv \<or> (\<exists>x \<in> set wl. alive out0 inl b x))" using assms unfolding runs_to_def by metis
  fix b3 assume "grows_to b2 b3" "\<forall>y \<in> set wl2. covered (b_map b3) (b_out b3) inl y"
  then show "\<forall>x \<in> set wl. covered (b_map b3) (b_out b3) inl x" using assms grows_to_trans unfolding runs_to_def by meson
qed (use assms in \<open>simp_all add: runs_to_def\<close>)

lemma item_step_runs:
  assumes st: "item_step hash out0 inl w sv b x ys sv1 b1" and ok: "\<forall>y \<in> set (pre @ x # post). item_ok b y"
  shows "runs_to hash out0 inl (pre @ x # post) sv b (pre @ ys @ post) sv1 b1"
    "(weights inl w b1 (pre @ ys @ post), weights inl w b (pre @ x # post)) \<in> mult less_than"
proof -
  have g: "grows_to b b1" using st by (simp add: item_step_def)
  have keep: "item_ok b1 y" "item_weight inl w b1 y = item_weight inl w b y" "alive out0 inl b1 y \<longleftrightarrow> alive out0 inl b y"
    if "y \<in> set pre \<union> set post" for y using item_stable [OF g, of y] ok that by auto
  have sv: "sv1 \<or> (\<exists>y \<in> set ys. alive out0 inl b1 y) \<longleftrightarrow> sv \<or> alive out0 inl b x" using st by (simp add: item_step_def)
  show "runs_to hash out0 inl (pre @ x # post) sv b (pre @ ys @ post) sv1 b1"
    unfolding runs_to_def
  proof (intro conjI allI impI)
    show "(sv1 \<or> (\<exists>y \<in> set (pre @ ys @ post). alive out0 inl b1 y)) = (sv \<or> (\<exists>x \<in> set (pre @ x # post). alive out0 inl b x))"
      using sv keep(3) by (auto; blast)
    show "\<forall>y \<in> set (pre @ ys @ post). item_ok b1 y" using keep(1) st by (auto simp: item_step_def)
    fix b2 assume "grows_to b1 b2" "\<forall>y \<in> set (pre @ ys @ post). covered (b_map b2) (b_out b2) inl y"
    then show "\<forall>x \<in> set (pre @ x # post). covered (b_map b2) (b_out b2) inl x" using st unfolding item_step_def by auto
  qed (use st in \<open>simp_all add: item_step_def\<close>)
  have m: "map (item_weight inl w b1) pre = map (item_weight inl w b) pre" "map (item_weight inl w b1) post = map (item_weight inl w b) post"
    using keep(2) by simp_all
  have e1: "weights inl w b1 (pre @ ys @ post) = weights inl w b (pre @ post) + mset (map (item_weight inl w b1) ys)"
    unfolding weights_def map_append mset_append m by simp
  have e2: "weights inl w b (pre @ x # post) = weights inl w b (pre @ post) + {#item_weight inl w b x#}" by (simp add: weights_def)
  have "\<forall>k \<in># mset (map (item_weight inl w b1) ys). (k, item_weight inl w b x) \<in> less_than" using st by (auto simp: item_step_def)
  then show "(weights inl w b1 (pre @ ys @ post), weights inl w b (pre @ x # post)) \<in> mult less_than"
    unfolding e1 e2 by (intro one_step_implies_mult) auto
qed

lemma inner_loop_correct:
  assumes inp: "inline_input out0 inl" and w: "ranked out0 inl w"
  shows "builder_inv hash out0 inl b \<Longrightarrow> \<forall>x \<in> set wl. item_ok b x \<Longrightarrow> i \<le> length wl \<Longrightarrow>
    \<exists>wl1 sv1 b1. inner_loop hash i wl (sv, b) = Some (wl1, sv1, b1) \<and> runs_to hash out0 inl wl sv b wl1 sv1 b1 \<and>
      (i < length wl \<longrightarrow> (weights inl w b1 wl1, weights inl w b wl) \<in> mult less_than) \<and> (i = length wl \<longrightarrow> weights inl w b1 wl1 = weights inl w b wl)"
proof (induction "weights inl w b wl" arbitrary: b wl i sv rule: wf_induct_rule [OF wf_mult [OF wf_less_than]])
  case 1
  show ?case
  proof (cases "i < length wl")
    case False
    then have "inner_loop hash i wl (sv, b) = Some (wl, sv, b)" by (subst inner_loop.simps) simp
    moreover have "runs_to hash out0 inl wl sv b wl sv b" using 1 grows_to_refl [OF 1(2)] by (simp add: runs_to_def)
    ultimately show ?thesis using False by blast
  next
    case True
    obtain ys sv1 b1 i1 where st: "item_step hash out0 inl w sv b (wl ! i) ys sv1 b1" "i1 \<le> i + length ys"
      "inner_loop hash i wl (sv, b) = inner_loop hash i1 (take i wl @ ys @ drop (Suc i) wl) (sv1, b1)"
      using inner_step [OF inp w 1(2) True, of sv] 1(3) True by auto
    let ?wl = "take i wl @ ys @ drop (Suc i) wl"
    have wl: "wl = take i wl @ wl ! i # drop (Suc i) wl" using True by (rule id_take_nth_drop)
    then have ok: "\<forall>y \<in> set (take i wl @ wl ! i # drop (Suc i) wl). item_ok b y" using 1(3) by simp
    note run = item_step_runs [OF st(1) ok, folded wl]
    have "builder_inv hash out0 inl b1" "\<forall>x \<in> set ?wl. item_ok b1 x" "i1 \<le> length ?wl" using run(1) st(2) True by (auto simp: runs_to_def)
    from 1(1) [OF run(2) this, of sv1] obtain wl2 sv2 b2 where r2: "inner_loop hash i1 ?wl (sv1, b1) = Some (wl2, sv2, b2)"
      "runs_to hash out0 inl ?wl sv1 b1 wl2 sv2 b2"
      "i1 < length ?wl \<longrightarrow> (weights inl w b2 wl2, weights inl w b1 ?wl) \<in> mult less_than" "i1 = length ?wl \<longrightarrow> weights inl w b2 wl2 = weights inl w b1 ?wl" by blast
    have "(weights inl w b2 wl2, weights inl w b wl) \<in> mult less_than"
      using r2(3,4) run(2) \<open>i1 \<le> length ?wl\<close> by (cases "i1 = length ?wl") (auto simp: mult_def)
    then show ?thesis using st(3) r2(1) runs_to_trans [OF run(1) r2(2)] True by auto
  qed
qed

lemma outer_loop_correct:
  assumes inp: "inline_input out0 inl" and w: "ranked out0 inl w"
  shows "builder_inv hash out0 inl b \<Longrightarrow> \<forall>x \<in> set wl. item_ok b x \<Longrightarrow>
    \<exists>sv1 b1. outer_loop hash wl (sv, b) = Some (sv1, b1) \<and> runs_to hash out0 inl wl sv b [] sv1 b1"
proof (induction "weights inl w b wl" arbitrary: b wl sv rule: wf_induct_rule [OF wf_mult [OF wf_less_than]])
  case 1
  show ?case
  proof (cases "wl = []")
    case True
    then have "outer_loop hash wl (sv, b) = Some (sv, b)" by (subst outer_loop.simps) simp
    moreover have "runs_to hash out0 inl wl sv b [] sv b" using 1 True grows_to_refl [OF 1(2)] by (simp add: runs_to_def)
    ultimately show ?thesis by blast
  next
    case False
    obtain wl1 sv1 b1 where r: "inner_loop hash 0 wl (sv, b) = Some (wl1, sv1, b1)" "runs_to hash out0 inl wl sv b wl1 sv1 b1"
      "(weights inl w b1 wl1, weights inl w b wl) \<in> mult less_than"
      using inner_loop_correct [OF inp w 1(2,3), of 0 sv] False by auto
    have "builder_inv hash out0 inl b1" "\<forall>x \<in> set wl1. item_ok b1 x" using r(2) by (auto simp: runs_to_def)
    from 1(1) [OF r(3) this, of sv1] obtain sv2 b2 where r2: "outer_loop hash wl1 (sv1, b1) = Some (sv2, b2)" "runs_to hash out0 inl wl1 sv1 b1 [] sv2 b2" by blast
    have "outer_loop hash wl (sv, b) = outer_loop hash wl1 (sv1, b1)" using False r(1) by (subst outer_loop.simps) simp
    then show ?thesis using r2 runs_to_trans [OF r(2) r2(2)] by auto
  qed
qed

text \<open>The whole build: every production is covered by the map, and the dead ones are those without a survivor.\<close>

lemma build_loop_correct:
  assumes inp: "inline_input out0 inl"
  shows "builder_inv hash out0 inl b \<Longrightarrow> \<forall>i \<in> set is. i < length (st_productions out0) \<Longrightarrow>
    \<exists>b1. build_loop hash is dead b = Some (dead \<union> {i \<in> set is. \<not> survives out0 inl 0 (content out0 i)}, b1) \<and> builder_inv hash out0 inl b1 \<and> grows_to b b1 \<and>
      (\<forall>b2. grows_to b1 b2 \<longrightarrow> (\<forall>i \<in> set is. covered (b_map b2) (b_out b2) inl (i, 0)))"
proof (induction "is" arbitrary: dead b)
  case Nil
  then show ?case using grows_to_refl by auto
next
  case (Cons i "is")
  obtain w where w: "ranked out0 inl w" using inp ranking_exists unfolding inline_input_def by blast
  have ext: "extends out0 (b_out b)" using Cons.prems(1) by (simp add: builder_inv_def pool_ok_def)
  have c: "content (b_out b) i = content out0 i" "item_ok b (i, 0)" using extends_view(3,4) [OF ext, of i] Cons.prems(2) by (auto simp: item_ok_def)
  obtain sv b1 where r: "outer_loop hash [(i, 0)] (False, b) = Some (sv, b1)" "runs_to hash out0 inl [(i, 0)] False b [] sv b1"
    using outer_loop_correct [OF inp w Cons.prems(1), of "[(i, 0)]" False] c(2) by auto
  have b1: "builder_inv hash out0 inl b1" "grows_to b b1" "sv \<longleftrightarrow> survives out0 inl 0 (content out0 i)" "\<And>b2. grows_to b1 b2 \<Longrightarrow> covered (b_map b2) (b_out b2) inl (i, 0)"
    using r(2) c(1) by (auto simp: runs_to_def alive_def)
  let ?d = "if sv then dead else insert i dead"
  obtain b2 where b2: "build_loop hash is ?d b1 = Some (?d \<union> {i \<in> set is. \<not> survives out0 inl 0 (content out0 i)}, b2)" "builder_inv hash out0 inl b2" "grows_to b1 b2"
    "\<And>b3. grows_to b2 b3 \<Longrightarrow> \<forall>i \<in> set is. covered (b_map b3) (b_out b3) inl (i, 0)"
    using Cons.IH [OF b1(1), of ?d] Cons.prems(2) by auto
  have d: "?d \<union> {i \<in> set is. \<not> survives out0 inl 0 (content out0 i)} = dead \<union> {j \<in> set (i # is). \<not> survives out0 inl 0 (content out0 j)}" using b1(3) by auto
  have "build_loop hash (i # is) dead b = Some (dead \<union> {j \<in> set (i # is). \<not> survives out0 inl 0 (content out0 j)}, b2)"
    using r(1) b2(1) unfolding d by simp
  then show ?case using b2(2,4) grows_to_trans [OF b1(2) b2(3)] b1(4) grows_to_trans [OF b2(3)] by auto
qed


section \<open>Properties\<close>

definition error_names_ok :: "'t InputGrammar \<Rightarrow> ExtractedGrammarMeta \<Rightarrow> LexicalVariable list \<Rightarrow> bool" where
  "error_names_ok g meta lvs \<longleftrightarrow> (\<forall>t \<in> set (m_external_tokens meta). resolve (str_pool (g_pool g)) (et_name t) \<noteq> None) \<and>
     (\<forall>v \<in> set lvs. resolve (str_pool (g_pool g)) (lv_name v) \<noteq> None) \<and> (\<forall>v \<in> set (g_variables g). resolve (str_pool (g_pool g)) (v_name v) \<noteq> None)"

definition inline_symbols_ok :: "'t InputGrammar \<Rightarrow> ExtractedGrammarMeta \<Rightarrow> LexicalVariable list \<Rightarrow> bool" where
  "inline_symbols_ok g meta lvs \<longleftrightarrow> (\<forall>sy \<in> set (m_inline meta). kind sy = External \<and> index sy < length (m_external_tokens meta) \<or>
     kind sy = Terminal \<and> index sy < length lvs \<or> kind sy = NonTerminal \<and> index sy < length (g_variables g))"

definition can_inline :: "Symbol \<Rightarrow> bool" where
  "can_inline sy \<longleftrightarrow> kind sy = NonTerminal \<and> index sy \<noteq> 0"

definition dead_variable :: "ProductionStore \<Rightarrow> Symbol list \<Rightarrow> nat \<Rightarrow> bool" where
  "dead_variable out inl i \<longleftrightarrow> i < length (st_var_prods out) \<and> fst (st_var_prods out ! i) < snd (st_var_prods out ! i) \<and>
     (\<forall>p \<in> {fst (st_var_prods out ! i) ..< snd (st_var_prods out ! i)}. \<not> survives out inl 0 (content out p))"

lemma check_inline_correct:
  assumes names: "error_names_ok g meta lvs"
  shows "\<forall>sy \<in> set sys. kind sy = External \<and> index sy < length (m_external_tokens meta) \<or> kind sy = Terminal \<and> index sy < length lvs \<or>
      kind sy = NonTerminal \<and> index sy < length (g_variables g) \<Longrightarrow>
    if \<forall>sy \<in> set sys. can_inline sy then check_inline g meta lvs sys = Some (Inr ())
    else \<exists>e. check_inline g meta lvs sys = Some (Inl e) \<and> (\<forall>n. e \<noteq> NoReachableProductions n)"
proof (induction sys)
  case (Cons sy sys)
  have v: "index sy < length xs \<Longrightarrow> vec_get xs (index sy) = Some (xs ! index sy)" for xs :: "'x list" by (simp add: vec_get_def)
  consider (ext) "kind sy = External" "index sy < length (m_external_tokens meta)" | (tok) "kind sy = Terminal" "index sy < length lvs"
    | (first) "kind sy = NonTerminal" "index sy = 0" "0 < length (g_variables g)" | (good) "kind sy = NonTerminal" "index sy \<noteq> 0"
    using Cons.prems by fastforce
  then show ?case
  proof cases
    case ext
    then obtain n where "resolve (str_pool (g_pool g)) (et_name (m_external_tokens meta ! index sy)) = Some n" using names by (force simp: error_names_ok_def)
    then show ?thesis using ext by (auto simp: can_inline_def vec_get_def)
  next
    case tok
    then obtain n where "resolve (str_pool (g_pool g)) (lv_name (lvs ! index sy)) = Some n" using names by (force simp: error_names_ok_def)
    then show ?thesis using tok by (auto simp: can_inline_def vec_get_def)
  next
    case first
    then obtain n where "resolve (str_pool (g_pool g)) (v_name (g_variables g ! 0)) = Some n" using names by (force simp: error_names_ok_def)
    then show ?thesis using first by (auto simp: can_inline_def vec_get_def)
  next
    case good
    then show ?thesis using Cons by (simp add: can_inline_def)
  qed
qed simp

lemma check_dead_correct:
  assumes names: "\<forall>v \<in> set (g_variables g). resolve (str_pool (g_pool g)) (v_name v) \<noteq> None"
  shows "k + length rs \<le> length (g_variables g) \<Longrightarrow> \<forall>r \<in> set rs. fst r \<le> snd r \<Longrightarrow>
    check_dead g out dead k rs = Some (Inr ()) \<or>
    (\<exists>i n. check_dead g out dead k rs = Some (Inl (NoReachableProductions n)) \<and> i < length rs \<and> resolve (str_pool (g_pool g)) (v_name (g_variables g ! (k + i))) = Some n \<and>
      fst (rs ! i) < snd (rs ! i) \<and> {fst (rs ! i) ..< snd (rs ! i)} \<subseteq> dead)"
proof (induction rs arbitrary: k)
  case (Cons r rs)
  obtain a b where r: "r = (a, b)" by (cases r)
  show ?case
  proof (cases "a \<noteq> b \<and> {a ..< b} \<subseteq> dead \<and> (k = 0 \<or> (\<exists>s \<in> set (st_steps out). step_symbol s = non_terminal k))")
    case True
    have k: "k < length (g_variables g)" using Cons.prems(1) by simp
    then obtain n where n: "resolve (str_pool (g_pool g)) (v_name (g_variables g ! k)) = Some n" using names by fastforce
    then have "check_dead g out dead k (r # rs) = Some (Inl (NoReachableProductions n))" using True k r by (auto simp: vec_get_def)
    then show ?thesis using n True Cons.prems(2) r by (intro disjI2 exI [of _ 0] exI [of _ n]) auto
  next
    case False
    then have eq: "check_dead g out dead k (r # rs) = check_dead g out dead (Suc k) rs" using r by auto
    have "Suc k + length rs \<le> length (g_variables g)" "\<forall>r \<in> set rs. fst r \<le> snd r" using Cons.prems by auto
    from Cons.IH [OF this] show ?thesis
    proof (elim disjE exE)
      fix i n assume "check_dead g out dead (Suc k) rs = Some (Inl (NoReachableProductions n)) \<and> i < length rs \<and>
        resolve (str_pool (g_pool g)) (v_name (g_variables g ! (Suc k + i))) = Some n \<and> fst (rs ! i) < snd (rs ! i) \<and> {fst (rs ! i) ..< snd (rs ! i)} \<subseteq> dead"
      then show ?thesis unfolding eq by (intro disjI2 exI [of _ "Suc i"] exI [of _ n]) simp
    qed (simp add: eq)
  qed
qed simp

text \<open>C4. Inlining returns whenever the inlined variables do not refer to each other in a cycle, whatever the hash
  function. It reports an error only for a symbol that cannot be inlined, or for a variable none of
  whose productions survives. Otherwise the store only grows, by pairwise different productions; every
  entry of the map lists exactly the expansions of that production at that step, and the map has an entry
  for every inlined step that can be met from an original production.\<close>

theorem process_inlines_correct:
  fixes g :: "'t InputGrammar"
  assumes sy: "inline_symbols_ok g meta lvs" and names: "error_names_ok g meta lvs" and len: "length (st_var_prods out) = length (g_variables g)"
    and inp: "(\<forall>sy \<in> set (m_inline meta). can_inline sy) \<longrightarrow> inline_input out (m_inline meta)"
  shows "\<exists>r. process_inlines hash g meta lvs out = Some r \<and> (case r of
      Inl e \<Rightarrow> (case e of
          NoReachableProductions n \<Rightarrow> \<exists>i. dead_variable out (m_inline meta) i \<and> resolve (str_pool (g_pool g)) (v_name (g_variables g ! i)) = Some n
        | _ \<Rightarrow> \<exists>sy \<in> set (m_inline meta). \<not> can_inline sy)
    | Inr (m, out') \<Rightarrow> (\<forall>sy \<in> set (m_inline meta). can_inline sy) \<and> extends out out' \<and> distinct (added out out') \<and>
        (\<forall>i si is. m (i, si) = Some is \<longrightarrow> inline_step (m_inline meta) si (content out' i) \<noteq> None \<and>
          expands out (m_inline meta) si (content out' i) (map (content out') is)) \<and>
        (\<forall>i < length (st_productions out). covered m out' (m_inline meta) (i, 0)))"
proof (cases "\<forall>sy \<in> set (m_inline meta). can_inline sy")
  case False
  then have "m_inline meta \<noteq> []" by auto
  moreover obtain e where "check_inline g meta lvs (m_inline meta) = Some (Inl e)" "\<forall>n. e \<noteq> NoReachableProductions n"
    using check_inline_correct [OF names, of "m_inline meta"] sy False unfolding inline_symbols_ok_def by auto
  ultimately show ?thesis using False by (cases e) (auto simp: process_inlines_def)
next
  case True
  let ?inl = "m_inline meta"
  let ?b = "\<lparr>b_out = out, first_inlined = as_u32 (length (st_productions out)), b_inline = ?inl, b_map = Map.empty, b_memo = (\<lambda>_. [])\<rparr>"
  have ii: "inline_input out ?inl" using inp True by blast
  then have inv: "store_inv out" and rng: "\<forall>r \<in> set (st_var_prods out). fst r \<le> snd r" and small: "length (st_productions out) < 2 ^ 32"
    by (auto simp: inline_input_def prods_ok_def sizes_ok_def)
  have b: "builder_inv hash out ?inl ?b" using extends_refl [OF inv] by (simp add: builder_inv_def pool_ok_def added_def)
  obtain b1 where b1: "build hash ?b = Some ({i. i < length (st_productions out) \<and> \<not> survives out ?inl 0 (content out i)}, b1)" "builder_inv hash out ?inl b1"
    "grows_to ?b b1" "\<forall>b2. grows_to b1 b2 \<longrightarrow> (\<forall>i \<in> {..< length (st_productions out)}. covered (b_map b2) (b_out b2) ?inl (i, 0))"
    using build_loop_correct [OF ii b, of "[0 ..< length (st_productions out)]" "{}"] small unfolding build_def by (auto simp: atLeast0LessThan)
  let ?dead = "{i. i < length (st_productions out) \<and> \<not> survives out ?inl 0 (content out i)}"
  have good: "extends out (b_out b1) \<and> distinct (added out (b_out b1)) \<and>
      (\<forall>i si is. b_map b1 (i, si) = Some is \<longrightarrow> inline_step ?inl si (content (b_out b1) i) \<noteq> None \<and> expands out ?inl si (content (b_out b1) i) (map (content (b_out b1)) is)) \<and>
      (\<forall>i < length (st_productions out). covered (b_map b1) (b_out b1) ?inl (i, 0))"
    using b1(2,4) grows_to_refl [OF b1(2)] unfolding builder_inv_def pool_ok_def by auto
  show ?thesis
  proof (cases "?inl = []")
    case True
    have "covered Map.empty out [] (i, si)" if "si \<le> length (sp_steps (content out i))" for i si
      using that
    proof (induction "length (sp_steps (content out i)) - si" arbitrary: si)
      case (Suc n)
      have "covered Map.empty out [] (i, Suc si)" using Suc.hyps(2) by (intro Suc.hyps(1)) auto
      then show ?case using Suc.hyps(2) by - (rule cov_advance, auto simp: inline_step_def split: option.splits)
    qed (rule cov_end, simp)
    then show ?thesis using True extends_refl [OF inv] by (simp add: process_inlines_def added_def)
  next
    case ne: False
    have chk: "check_inline g meta lvs ?inl = Some (Inr ())"
      using check_inline_correct [OF names, of ?inl] sy True unfolding inline_symbols_ok_def by simp
    have vp: "st_var_prods (b_out b1) = st_var_prods out" using good by (simp add: extends_def)
    define c where "c = (if ?dead = {} then Some (Inr ()) else check_dead g (b_out b1) ?dead 0 (st_var_prods (b_out b1)))"
    have eq: "process_inlines hash g meta lvs out = and_then c (\<lambda>_. Some (Inr (b_map b1, b_out b1)))"
      unfolding process_inlines_def using ne chk b1(1) by (simp add: c_def)
    have "c = Some (Inr ()) \<or> (\<exists>i n. c = Some (Inl (NoReachableProductions n)) \<and> i < length (st_var_prods out) \<and>
        resolve (str_pool (g_pool g)) (v_name (g_variables g ! (0 + i))) = Some n \<and>
        fst (st_var_prods out ! i) < snd (st_var_prods out ! i) \<and> {fst (st_var_prods out ! i) ..< snd (st_var_prods out ! i)} \<subseteq> ?dead)"
    proof (cases "?dead = {}")
      case False
      have "\<forall>v \<in> set (g_variables g). resolve (str_pool (g_pool g)) (v_name v) \<noteq> None" "0 + length (st_var_prods out) \<le> length (g_variables g)"
        using names len by (simp_all add: error_names_ok_def)
      from check_dead_correct [OF this rng, of "b_out b1" ?dead] show ?thesis unfolding c_def vp if_not_P [OF False] .
    qed (simp add: c_def)
    then consider (fine) "process_inlines hash g meta lvs out = Some (Inr (b_map b1, b_out b1))"
      | (bad) i n where "process_inlines hash g meta lvs out = Some (Inl (NoReachableProductions n))" "i < length (st_var_prods out)"
        "resolve (str_pool (g_pool g)) (v_name (g_variables g ! i)) = Some n" "fst (st_var_prods out ! i) < snd (st_var_prods out ! i)"
        "{fst (st_var_prods out ! i) ..< snd (st_var_prods out ! i)} \<subseteq> ?dead"
      unfolding eq add_0 by (elim disjE exE conjE) simp_all
    then show ?thesis
    proof cases
      case fine
      then show ?thesis using good True by simp
    next
      case bad
      then have "dead_variable out ?inl i" by (auto simp: dead_variable_def)
      then show ?thesis using bad by auto
    qed
  qed
qed


definition plain_step :: "Symbol \<Rightarrow> ProductionStep" where
  "plain_step sy = pack sy PrecNone None None None 0"

definition plain_production :: "nat \<Rightarrow> nat \<Rightarrow> Production" where
  "plain_production s l = \<lparr>steps_start = s, steps_len = l, prod_dynamic_precedence = 0, requires_eof_lookahead = False\<rparr>"

text \<open>Three variables: the first is \<open>start\<close>, and the other two are inlined. In \<open>chain_store\<close>, \<open>start\<close> is the first inlined
  variable and that one is a token; in \<open>knot_store\<close> the inlined variables refer to each other.\<close>

definition chain_store :: ProductionStore where
  "chain_store = \<lparr>st_steps = map plain_step [Symbol NonTerminal 1, Symbol Terminal 0],
     st_productions = [plain_production 0 1, plain_production 1 1], st_var_prods = [(0, 1), (1, 2)]\<rparr>"


definition inline_grammar :: "nat \<Rightarrow> unit InputGrammar" where
  "inline_grammar n = \<lparr>g_pool = \<lparr>nodes = [], children = [], params_vec = [], str_pool = \<lparr>buf = ''a'', spans = [\<lparr>span_start = 0, span_end = 1\<rparr>], ids = ()\<rparr>, scratch = []\<rparr>,
     g_name = 1, g_variables = replicate n \<lparr>v_name = 1, v_root = 0\<rparr>, g_external_roots = [], g_extra_roots = [], g_reserved_sets = [],
     g_supertype_names = [], g_conflict_names = [], g_inline_names = [], g_word_name = None, g_precedence_orderings = []\<rparr>"

definition inline_meta :: "Symbol list \<Rightarrow> ExtractedGrammarMeta" where
  "inline_meta inl = \<lparr>m_kinds = [], m_extra_symbols = [], m_external_tokens = [], m_reserved_sets = [], m_supertypes = [],
     m_conflicts = [], m_inline = inl, m_word = None\<rparr>"

lemma plain_symbol [simp]: "step_symbol (plain_step sy) = sy"
  by (simp add: plain_step_def step_symbol_pack)














definition chain :: "Symbol list" where
  "chain = [Symbol NonTerminal 1]"

definition chain_result :: ScratchProd where
  "chain_result = \<lparr>sp_steps = inherit_steps (plain_step (Symbol NonTerminal 1)) [plain_step (Symbol Terminal 0)],
     sp_dynamic_precedence = 0, sp_requires_eof_lookahead = False\<rparr>"

lemma chain_contents: "content chain_store 0 = \<lparr>sp_steps = [plain_step (Symbol NonTerminal 1)], sp_dynamic_precedence = 0, sp_requires_eof_lookahead = False\<rparr>"
  "content chain_store (Suc 0) = \<lparr>sp_steps = [plain_step (Symbol Terminal 0)], sp_dynamic_precedence = 0, sp_requires_eof_lookahead = False\<rparr>"
  by (simp_all add: content_def chain_store_def plain_production_def view_def Let_def)

lemma chain_steps: "inline_step chain si (content chain_store 0) = (if si = 0 then Some (plain_step (Symbol NonTerminal 1)) else None)"
  "inline_step chain si (content chain_store (Suc 0)) = None"
  by (simp_all add: chain_contents inline_step_def vec_get_def chain_def)

lemma chain_result_step: "inline_step chain si chain_result = None" "length (sp_steps chain_result) = 1"
proof -
  have "map step_symbol (sp_steps chain_result) = [Symbol Terminal 0]" unfolding chain_result_def by (simp del: map_eq_Cons_conv)
  then obtain s where "sp_steps chain_result = [s]" "step_symbol s = Symbol Terminal 0" by (auto simp: map_eq_Cons_conv)
  then show "inline_step chain si chain_result = None" "length (sp_steps chain_result) = 1" by (auto simp: inline_step_def vec_get_def chain_def)
qed

lemma chain_inlined: "inlined_prods chain_store chain \<subseteq> {content chain_store 0, content chain_store (Suc 0), chain_result}"
proof
  fix sp assume "sp \<in> inlined_prods chain_store chain"
  then show "sp \<in> {content chain_store 0, content chain_store (Suc 0), chain_result}"
  proof (induction rule: inlined_prods.induct)
    case (original i)
    then have "i = 0 \<or> i = 1" by (auto simp: chain_store_def)
    then show ?case by auto
  next
    case (expanded sp si qs q)
    have 0: "sp = content chain_store 0" "si = 0" "inline_step chain 0 (content chain_store 0) = Some (plain_step (Symbol NonTerminal 1))"
      using expanded.IH expanded.hyps(2) by (auto simp: chain_steps chain_result_step(1) split: if_splits)
    have "expands chain_store chain 0 (content chain_store 0) (concat [[chain_result]])"
    proof (rule expands.inlined [OF 0(3)])
      show "vec_get (st_var_prods chain_store) (index (step_symbol (plain_step (Symbol NonTerminal 1)))) = Some (1, 2)" by (simp add: chain_store_def)
      show "replacements chain_store (content chain_store 0) 0 (plain_step (Symbol NonTerminal 1)) [1 ..< 2] = Some [chain_result]"
        unfolding chain_contents by (simp add: upt_rec chain_store_def plain_production_def replacement_def prod_steps_def step_range_def vec_slice_def vec_get_def chain_result_def i32_abs_def)
      show "list_all2 (expands chain_store chain 0) [chain_result] [[chain_result]]" using expands.settled [OF chain_result_step(1)] by simp
    qed
    then have "qs = [chain_result]" using expanded.hyps(3) expands_det unfolding 0(1,2) by fastforce
    then show ?case using expanded.hyps(4) by simp
  qed
qed

lemma chain_input: "inline_input chain_store chain"
proof -
  let ?S = "{content chain_store 0, content chain_store (Suc 0), chain_result}"
  have sub: "inlined_prods chain_store chain \<subseteq> ?S" by (rule chain_inlined)
  have "length (sp_steps sp) \<le> 1" if "sp \<in> inlined_prods chain_store chain" for sp
    using sub that chain_result_step(2) by (auto simp: chain_contents)
  then have "(\<Sum>sp \<in> inlined_prods chain_store chain. length (sp_steps sp)) \<le> card (inlined_prods chain_store chain)"
    using sum_bounded_above [of "inlined_prods chain_store chain" "\<lambda>sp. length (sp_steps sp)" 1] by simp
  moreover have "card (inlined_prods chain_store chain) \<le> 3" using card_mono [OF _ sub] by (auto simp: card_insert_if split: if_splits)
  moreover have "acyclic (inline_refs chain_store chain)"
  proof -
    have "inline_refs chain_store chain = {}" by (auto simp: inline_refs_def chain_def chain_store_def view_def plain_production_def)
    then show ?thesis by (simp add: acyclic_def)
  qed
  ultimately show ?thesis using finite_subset [OF sub]
    by (auto simp: inline_input_def prods_ok_def store_inv_def sizes_ok_def chain_def chain_store_def plain_production_def)
qed

theorem process_inlines_correct_witness:
  "\<exists>r. process_inlines (\<lambda>_ _ _. 0) (inline_grammar 2) (inline_meta chain) [] chain_store = Some r"
proof -
  have "resolve (str_pool (g_pool (inline_grammar 2))) 1 = Some ''a''"
    by (simp add: inline_grammar_def resolve_def span_str_def vec_get_def vec_slice_def id_index_def)
  then have "error_names_ok (inline_grammar 2) (inline_meta chain) []" by (simp add: error_names_ok_def inline_grammar_def inline_meta_def)
  moreover have "inline_symbols_ok (inline_grammar 2) (inline_meta chain) []" by (simp add: inline_symbols_ok_def inline_grammar_def inline_meta_def chain_def)
  moreover have "length (st_var_prods chain_store) = length (g_variables (inline_grammar 2))" by (simp add: chain_store_def inline_grammar_def)
  moreover have "inline_input chain_store (m_inline (inline_meta chain))" using chain_input by (simp add: inline_meta_def)
  ultimately show ?thesis using process_inlines_correct [of "inline_grammar 2" "inline_meta chain" "[]" chain_store "\<lambda>_ _ _. 0"] by blast
qed

end
