(* ===== verification/Zero_Width.thy ===== *)
theory Zero_Width
  imports Grammars
begin

text \<open>
  \<^verbatim>\<open>crates/generate/src/prepare_grammar/expand_repeats.rs\<close>, \<open>Width\<close> and \<open>ZeroWidth\<close>: which rules can match zero
  characters, with and without crossing an \<open>eof()\<close>. The walk keeps the top of both stacks at the head
  of a list; the two stacks are cleared at the start of every evaluation, so they are local to it.
\<close>

section \<open>Definitions\<close>

record Width =
  nullable :: bool
  eof_nullable :: bool

definition default_width :: Width where
  "default_width = \<lparr>nullable = False, eof_nullable = False\<rparr>"

definition merge :: "Width \<Rightarrow> Width \<Rightarrow> Width \<times> bool" where
  "merge w other = (let w' = \<lparr>nullable = nullable w \<or> nullable other, eof_nullable = eof_nullable w \<or> eof_nullable other\<rparr> in (w', w' \<noteq> w))"

datatype Visit = Enter RuleId | Exit RuleId

definition choice_width :: "Width list \<Rightarrow> Width" where
  "choice_width ws = fold (\<lambda>child w. \<lparr>nullable = nullable w \<or> nullable child, eof_nullable = eof_nullable w \<or> eof_nullable child\<rparr>) ws default_width"

definition seq_width :: "Width list \<Rightarrow> Width" where
  "seq_width ws =
     (let (n, any_eof, all_zero_width) = fold (\<lambda>child (n, any_eof, all_zero_width).
        (n \<and> nullable child, any_eof \<or> eof_nullable child, all_zero_width \<and> (nullable child \<or> eof_nullable child))) ws (True, False, True)
      in \<lparr>nullable = n, eof_nullable = all_zero_width \<and> any_eof\<rparr>)"

definition symbol_width :: "Width list \<Rightarrow> SymbolType \<Rightarrow> nat \<Rightarrow> Width option" where
  "symbol_width by_variable k i = (case k of
     End \<Rightarrow> Some \<lparr>nullable = False, eof_nullable = True\<rparr>
   | NonTerminal \<Rightarrow> Some (case vec_get by_variable i of Some w \<Rightarrow> w | None \<Rightarrow> default_width)
   | External \<Rightarrow> Some \<lparr>nullable = True, eof_nullable = False\<rparr>
   | Terminal \<Rightarrow> Some default_width
   | EndOfNonTerminalExtra \<Rightarrow> None)"

definition drain_values :: "nat \<Rightarrow> Width list \<Rightarrow> (Width list \<times> Width list) option" where
  "drain_values n vals = (if n \<le> length vals then Some (rev (take n vals), drop n vals) else None)"

partial_function (option) eval_loop :: "'t RulePool \<Rightarrow> Width list \<Rightarrow> Visit list \<Rightarrow> Width list \<Rightarrow> Width list option" where
  "eval_loop pool by_variable stack vals = (case stack of
     [] \<Rightarrow> Some vals
   | Enter i # stack' \<Rightarrow> do {
       n \<leftarrow> node pool i;
       case n of
         Seq r \<Rightarrow> do { cs \<leftarrow> child_slice pool r; eval_loop pool by_variable (rev (map Enter cs) @ Exit i # stack') vals }
       | Choice r \<Rightarrow> do { cs \<leftarrow> child_slice pool r; eval_loop pool by_variable (rev (map Enter cs) @ Exit i # stack') vals }
       | Repeat rule \<Rightarrow> eval_loop pool by_variable (Enter rule # Exit i # stack') vals
       | Metadata _ rule \<Rightarrow> eval_loop pool by_variable (Enter rule # Exit i # stack') vals
       | Reserved rule _ \<Rightarrow> eval_loop pool by_variable (Enter rule # Exit i # stack') vals
       | Blank \<Rightarrow> eval_loop pool by_variable stack' (\<lparr>nullable = True, eof_nullable = False\<rparr> # vals)
       | String s \<Rightarrow> eval_loop pool by_variable stack' (\<lparr>nullable = (s = EMPTY_STR_ID), eof_nullable = False\<rparr> # vals)
       | Eof \<Rightarrow> eval_loop pool by_variable stack' (\<lparr>nullable = False, eof_nullable = True\<rparr> # vals)
       | Sym k j \<Rightarrow> do { w \<leftarrow> symbol_width by_variable k j; eval_loop pool by_variable stack' (w # vals) }
       | Pattern _ _ \<Rightarrow> None
       | NamedSymbol _ \<Rightarrow> None
     }
   | Exit i # stack' \<Rightarrow> do {
       n \<leftarrow> node pool i;
       case n of
         Choice r \<Rightarrow> do { (ws, vals') \<leftarrow> drain_values (r_len r) vals; eval_loop pool by_variable stack' (choice_width ws # vals') }
       | Seq r \<Rightarrow> do { (ws, vals') \<leftarrow> drain_values (r_len r) vals; eval_loop pool by_variable stack' (seq_width ws # vals') }
       | Repeat _ \<Rightarrow> eval_loop pool by_variable stack' vals
       | Metadata _ _ \<Rightarrow> eval_loop pool by_variable stack' vals
       | Reserved _ _ \<Rightarrow> eval_loop pool by_variable stack' vals
       | _ \<Rightarrow> None
     })"

definition eval_width :: "'t RulePool \<Rightarrow> Width list \<Rightarrow> RuleId \<Rightarrow> Width option" where
  "eval_width pool by_variable root = do {
     vals \<leftarrow> eval_loop pool by_variable [Enter root] [];
     Some (case vals of w # _ \<Rightarrow> w | [] \<Rightarrow> default_width)
   }"

fun width_pass :: "'t RulePool \<Rightarrow> nat \<Rightarrow> Variable list \<Rightarrow> Width list \<Rightarrow> bool \<Rightarrow> (Width list \<times> bool) option" where
  "width_pass pool i [] by_variable changed = Some (by_variable, changed)"
| "width_pass pool i (v # vs) by_variable changed = do {
     width \<leftarrow> eval_width pool by_variable (v_root v);
     w \<leftarrow> vec_get by_variable i;
     let (w', c) = merge w width;
     width_pass pool (Suc i) vs (by_variable[i := w']) (changed \<or> c)
   }"

partial_function (option) width_loop :: "'t RulePool \<Rightarrow> Variable list \<Rightarrow> Width list \<Rightarrow> Width list option" where
  "width_loop pool variables by_variable = do {
     r \<leftarrow> width_pass pool 0 variables by_variable False;
     if \<not> snd r then Some (fst r) else width_loop pool variables (fst r)
   }"

definition zero_width_new :: "'t RulePool \<Rightarrow> Variable list \<Rightarrow> Width list option" where
  "zero_width_new pool variables = width_loop pool variables (replicate (length variables) default_width)"

definition push_variable :: "Width list \<Rightarrow> Width \<Rightarrow> Width list" where
  "push_variable by_variable w = by_variable @ [w]"


section \<open>The width of a tree\<close>

text \<open>Trees the pass may meet: patterns and names are gone, and the marker for the end of extras is not yet there.\<close>

fun syntactic :: "rtree \<Rightarrow> bool" where
  "syntactic (TPattern s f) \<longleftrightarrow> False"
| "syntactic (TNamed s) \<longleftrightarrow> False"
| "syntactic (TSym k n) \<longleftrightarrow> k \<noteq> EndOfNonTerminalExtra"
| "syntactic (TSeq ts) \<longleftrightarrow> (\<forall>t \<in> set ts. syntactic t)"
| "syntactic (TChoice ts) \<longleftrightarrow> (\<forall>t \<in> set ts. syntactic t)"
| "syntactic (TRepeat t) \<longleftrightarrow> syntactic t"
| "syntactic (TMeta p t) \<longleftrightarrow> syntactic t"
| "syntactic (TReserved t c) \<longleftrightarrow> syntactic t"
| "syntactic _ \<longleftrightarrow> True"

fun twidth :: "Width list \<Rightarrow> rtree \<Rightarrow> Width" where
  "twidth tbl TBlank = \<lparr>nullable = True, eof_nullable = False\<rparr>"
| "twidth tbl (TString s) = \<lparr>nullable = (s = EMPTY_STR_ID), eof_nullable = False\<rparr>"
| "twidth tbl TEof = \<lparr>nullable = False, eof_nullable = True\<rparr>"
| "twidth tbl (TSym k n) = (case symbol_width tbl k n of Some w \<Rightarrow> w | None \<Rightarrow> default_width)"
| "twidth tbl (TSeq ts) = \<lparr>nullable = (\<forall>t \<in> set ts. nullable (twidth tbl t)),
     eof_nullable = (\<forall>t \<in> set ts. nullable (twidth tbl t) \<or> eof_nullable (twidth tbl t)) \<and> (\<exists>t \<in> set ts. eof_nullable (twidth tbl t))\<rparr>"
| "twidth tbl (TChoice ts) = \<lparr>nullable = (\<exists>t \<in> set ts. nullable (twidth tbl t)), eof_nullable = (\<exists>t \<in> set ts. eof_nullable (twidth tbl t))\<rparr>"
| "twidth tbl (TRepeat t) = twidth tbl t"
| "twidth tbl (TMeta p t) = twidth tbl t"
| "twidth tbl (TReserved t c) = twidth tbl t"
| "twidth tbl _ = default_width"

lemma choice_width_set: "choice_width ws = \<lparr>nullable = (\<exists>w \<in> set ws. nullable w), eof_nullable = (\<exists>w \<in> set ws. eof_nullable w)\<rparr>"
proof -
  have "fold (\<lambda>child w. \<lparr>nullable = nullable w \<or> nullable child, eof_nullable = eof_nullable w \<or> eof_nullable child\<rparr>) ws v =
      \<lparr>nullable = (nullable v \<or> (\<exists>w \<in> set ws. nullable w)), eof_nullable = (eof_nullable v \<or> (\<exists>w \<in> set ws. eof_nullable w))\<rparr>" for v
    by (induction ws arbitrary: v) auto
  then show ?thesis by (simp add: choice_width_def default_width_def)
qed

lemma seq_width_set: "seq_width ws = \<lparr>nullable = (\<forall>w \<in> set ws. nullable w),
  eof_nullable = (\<forall>w \<in> set ws. nullable w \<or> eof_nullable w) \<and> (\<exists>w \<in> set ws. eof_nullable w)\<rparr>"
proof -
  have "fold (\<lambda>child (n, any_eof, all_zero_width). (n \<and> nullable child, any_eof \<or> eof_nullable child, all_zero_width \<and> (nullable child \<or> eof_nullable child))) ws (a, b, c) =
      (a \<and> (\<forall>w \<in> set ws. nullable w), b \<or> (\<exists>w \<in> set ws. eof_nullable w), c \<and> (\<forall>w \<in> set ws. nullable w \<or> eof_nullable w))" for a b c
    by (induction ws arbitrary: a b c) auto
  then show ?thesis by (simp add: seq_width_def)
qed

lemma eval_children:
  "list_all2 (\<lambda>c t. \<forall>st vs. eval_loop P tbl (Enter c # st) vs = eval_loop P tbl st (twidth tbl t # vs)) cs ts \<Longrightarrow>
    eval_loop P tbl (map Enter cs @ st) vs = eval_loop P tbl st (rev (map (twidth tbl) ts) @ vs)"
  by (induction cs ts arbitrary: vs rule: list_all2_induct) simp_all

lemma drain_pushed: "drain_values (length ts) (rev (map (twidth tbl) (rev ts)) @ vs) = Some (map (twidth tbl) (rev ts), vs)"
  by (simp add: drain_values_def rev_map)

lemma eval_loop_rep:
  "rep P i t \<Longrightarrow> syntactic t \<Longrightarrow> eval_loop P tbl (Enter i # st) vs = eval_loop P tbl st (twidth tbl t # vs)"
proof (induction arbitrary: st vs rule: rep.induct)
  case (rep_Seq i r cs ts)
  have "list_all2 (\<lambda>c t. \<forall>st vs. eval_loop P tbl (Enter c # st) vs = eval_loop P tbl st (twidth tbl t # vs)) cs ts"
    using rep_Seq.IH rep_Seq.prems by (auto simp: list_all2_conv_all_nth)
  then have "eval_loop P tbl (rev (map Enter cs) @ Exit i # st) vs = eval_loop P tbl (Exit i # st) (rev (map (twidth tbl) (rev ts)) @ vs)"
    using eval_children [of P tbl "rev cs" "rev ts" "Exit i # st" vs] by (simp add: list_all2_rev rev_map)
  also have "\<dots> = eval_loop P tbl st (twidth tbl (TSeq ts) # vs)"
    using rep_Seq.hyps(1) drain_pushed [of ts tbl vs] child_slice_rep_len [OF rep_Seq.hyps(2), of ts] rep_Seq.IH
    by (subst eval_loop.simps) (auto simp: seq_width_set list_all2_conv_all_nth child_slice_len [OF rep_Seq.hyps(2)])
  finally show ?case using rep_Seq.hyps(1,2) by (subst eval_loop.simps) simp
next
  case (rep_Choice i r cs ts)
  have "list_all2 (\<lambda>c t. \<forall>st vs. eval_loop P tbl (Enter c # st) vs = eval_loop P tbl st (twidth tbl t # vs)) cs ts"
    using rep_Choice.IH rep_Choice.prems by (auto simp: list_all2_conv_all_nth)
  then have "eval_loop P tbl (rev (map Enter cs) @ Exit i # st) vs = eval_loop P tbl (Exit i # st) (rev (map (twidth tbl) (rev ts)) @ vs)"
    using eval_children [of P tbl "rev cs" "rev ts" "Exit i # st" vs] by (simp add: list_all2_rev rev_map)
  also have "\<dots> = eval_loop P tbl st (twidth tbl (TChoice ts) # vs)"
    using rep_Choice.hyps(1) drain_pushed [of ts tbl vs] rep_Choice.IH
    by (subst eval_loop.simps) (auto simp: choice_width_set list_all2_conv_all_nth child_slice_len [OF rep_Choice.hyps(2)])
  finally show ?case using rep_Choice.hyps(1,2) by (subst eval_loop.simps) simp
next
  case (rep_Repeat i c t)
  have "eval_loop P tbl (Enter i # st) vs = eval_loop P tbl (Enter c # Exit i # st) vs" using rep_Repeat.hyps by (subst eval_loop.simps) simp
  also have "\<dots> = eval_loop P tbl (Exit i # st) (twidth tbl t # vs)" using rep_Repeat.IH rep_Repeat.prems by simp
  finally show ?case using rep_Repeat.hyps by (simp add: eval_loop.simps [of _ _ "Exit i # st"])
next
  case (rep_Meta i pid c p t)
  have "eval_loop P tbl (Enter i # st) vs = eval_loop P tbl (Enter c # Exit i # st) vs" using rep_Meta.hyps by (subst eval_loop.simps) simp
  also have "\<dots> = eval_loop P tbl (Exit i # st) (twidth tbl t # vs)" using rep_Meta.IH rep_Meta.prems by simp
  finally show ?case using rep_Meta.hyps by (simp add: eval_loop.simps [of _ _ "Exit i # st"])
next
  case (rep_Reserved i c ctx t)
  have "eval_loop P tbl (Enter i # st) vs = eval_loop P tbl (Enter c # Exit i # st) vs" using rep_Reserved.hyps by (subst eval_loop.simps) simp
  also have "\<dots> = eval_loop P tbl (Exit i # st) (twidth tbl t # vs)" using rep_Reserved.IH rep_Reserved.prems by simp
  finally show ?case using rep_Reserved.hyps by (simp add: eval_loop.simps [of _ _ "Exit i # st"])
next
  case (rep_Sym i k n)
  then have "\<exists>w. symbol_width tbl k n = Some w" by (cases k) (simp_all add: symbol_width_def)
  then show ?case using rep_Sym by (subst eval_loop.simps) auto
qed (subst eval_loop.simps, simp)+

lemma eval_width_rep: "rep P i t \<Longrightarrow> syntactic t \<Longrightarrow> eval_width P tbl i = Some (twidth tbl t)"
  by (simp add: eval_width_def eval_loop_rep eval_loop.simps [of _ _ "[]"])


section \<open>Matching zero characters\<close>

text \<open>\<open>zero vs t e\<close>: with the variables \<open>vs\<close>, the rule \<open>t\<close> has a derivation that reads no character; \<open>e\<close> tells whether it
  crosses an \<open>eof()\<close>. An external scanner may return an empty token.\<close>

inductive zero :: "rtree list \<Rightarrow> rtree \<Rightarrow> bool \<Rightarrow> bool" for vs where
  zero_blank: "zero vs TBlank False"
| zero_string: "zero vs (TString EMPTY_STR_ID) False"
| zero_eof: "zero vs TEof True"
| zero_end: "zero vs (TSym End n) True"
| zero_external: "zero vs (TSym External n) False"
| zero_variable: "n < length vs \<Longrightarrow> zero vs (vs ! n) e \<Longrightarrow> zero vs (TSym NonTerminal n) e"
| zero_seq: "list_all2 (zero vs) ts es \<Longrightarrow> zero vs (TSeq ts) (True \<in> set es)"
| zero_choice: "t \<in> set ts \<Longrightarrow> zero vs t e \<Longrightarrow> zero vs (TChoice ts) e"
| zero_repeat: "es \<noteq> [] \<Longrightarrow> list_all (zero vs t) es \<Longrightarrow> zero vs (TRepeat t) (True \<in> set es)"
| zero_meta: "zero vs t e \<Longrightarrow> zero vs (TMeta p t) e"
| zero_reserved: "zero vs t e \<Longrightarrow> zero vs (TReserved t c) e"

definition flag :: "bool \<Rightarrow> Width \<Rightarrow> bool" where
  "flag e w = (if e then eof_nullable w else nullable w)"

definition sound_table :: "rtree list \<Rightarrow> Width list \<Rightarrow> bool" where
  "sound_table vs tbl \<longleftrightarrow> length tbl = length vs \<and> (\<forall>i < length vs. \<forall>e. flag e (tbl ! i) \<longrightarrow> zero vs (vs ! i) e)"

definition closed_table :: "rtree list \<Rightarrow> Width list \<Rightarrow> bool" where
  "closed_table vs tbl \<longleftrightarrow> length tbl = length vs \<and> (\<forall>i < length vs. \<forall>e. flag e (twidth tbl (vs ! i)) \<longrightarrow> flag e (tbl ! i))"

lemma twidth_sound:
  assumes "sound_table vs tbl"
  shows "flag e (twidth tbl t) \<Longrightarrow> zero vs t e"
proof (induction t arbitrary: e)
  case (TSeq ts)
  show ?case
  proof (cases e)
    case True
    have "\<forall>t \<in> set ts. zero vs t False \<or> zero vs t True" using TSeq True by (auto simp: flag_def)
    define es where "es = map (\<lambda>t. zero vs t True) ts"
    have "list_all2 (zero vs) ts es" using \<open>\<forall>t \<in> set ts. _\<close> unfolding es_def by (auto simp: list_all2_conv_all_nth) (metis (full_types) nth_mem)
    moreover obtain t where "t \<in> set ts" "eof_nullable (twidth tbl t)" using TSeq.prems True by (auto simp: flag_def)
    then have "zero vs t True" using TSeq.IH [of t True] by (simp add: flag_def)
    then have "True \<in> set es" using \<open>t \<in> set ts\<close> unfolding es_def by (metis (mono_tags, lifting) imageI list.set_map)
    ultimately show ?thesis using zero_seq [of vs ts es] True by simp
  next
    case False
    then have "list_all2 (zero vs) ts (replicate (length ts) False)" using TSeq by (auto simp: list_all2_conv_all_nth flag_def)
    from zero_seq [OF this] show ?thesis using False by (simp split: if_splits)
  qed
next
  case (TChoice ts)
  then show ?case by (auto simp: flag_def intro: zero_choice split: if_splits)
next
  case (TRepeat t)
  then have "zero vs t e" by simp
  then show ?case using zero_repeat [of "[e]" vs t] by simp
next
  case (TSym k n)
  show ?case
  proof (cases k)
    case NonTerminal
    then show ?thesis using TSym assms by (auto simp: symbol_width_def sound_table_def flag_def default_width_def vec_get_def split: if_splits intro!: zero_variable)
  qed (use TSym in \<open>auto simp: symbol_width_def flag_def default_width_def split: if_splits intro: zero.intros\<close>)
qed (auto simp: flag_def default_width_def split: if_splits intro: zero.intros)

lemma twidth_complete:
  assumes "closed_table vs tbl"
  shows "zero vs t e \<Longrightarrow> flag e (twidth tbl t)"
proof (induction rule: zero.induct)
  case (zero_variable n e)
  then have "flag e (tbl ! n)" "n < length tbl" using assms by (auto simp: closed_table_def)
  then show ?case by (simp add: symbol_width_def vec_get_def)
next
  case (zero_seq ts es)
  have at: "flag (es ! k) (twidth tbl (ts ! k))" "es ! k \<in> set es" if "k < length ts" for k
    using zero_seq that by (auto simp: list_all2_conv_all_nth)
  have ex: "\<exists>k < length ts. t = ts ! k" if "t \<in> set ts" for t using that by (metis in_set_conv_nth)
  have all: "nullable (twidth tbl t) \<or> eof_nullable (twidth tbl t)" if t: "t \<in> set ts" for t
  proof -
    obtain k where k: "k < length ts" "t = ts ! k" using ex [OF t] by blast
    show ?thesis using at(1) [OF k(1)] unfolding k(2) flag_def by (simp split: if_splits)
  qed
  show ?case
  proof (cases "True \<in> set es")
    case True
    then obtain k where "k < length es" "es ! k" by (metis (full_types) in_set_conv_nth)
    then have "ts ! k \<in> set ts" "eof_nullable (twidth tbl (ts ! k))" using at(1) [of k] zero_seq by (auto simp: flag_def list_all2_conv_all_nth)
    then show ?thesis using True all by (auto simp: flag_def)
  next
    case False
    have "nullable (twidth tbl t)" if t: "t \<in> set ts" for t
    proof -
      obtain k where k: "k < length ts" "t = ts ! k" using ex [OF t] by blast
      then have "\<not> es ! k" using at(2) [OF k(1)] False by (metis (full_types))
      then show ?thesis using at(1) [OF k(1)] k(2) by (simp add: flag_def)
    qed
    then show ?thesis using False by (auto simp: flag_def)
  qed
next
  case (zero_choice t ts e)
  then show ?case by (auto simp: flag_def split: if_splits)
next
  case (zero_repeat es t)
  have "flag e (twidth tbl t)" if "e \<in> set es" for e using zero_repeat that by (auto simp: list_all_iff)
  moreover have "(True \<in> set es) \<in> set es" using zero_repeat(1) by (metis (full_types) hd_in_set)
  ultimately show ?case by simp
qed (auto simp: flag_def symbol_width_def)

section \<open>The fixpoint\<close>

definition le_width :: "Width list \<Rightarrow> Width list \<Rightarrow> bool" where
  "le_width a b \<longleftrightarrow> list_all2 (\<lambda>v w. \<forall>e. flag e v \<longrightarrow> flag e w) a b"

definition flags_set :: "Width list \<Rightarrow> nat" where
  "flags_set tbl = sum_list (map (\<lambda>w. (if nullable w then 1 else 0) + (if eof_nullable w then 1 else 0)) tbl)"

lemma flags_bound: "flags_set tbl \<le> 2 * length tbl"
  unfolding flags_set_def by (induction tbl) auto

lemma merge_flag [simp]: "flag e (fst (merge w v)) \<longleftrightarrow> flag e w \<or> flag e v"
  by (simp add: merge_def Let_def flag_def)

lemma merge_same: "\<not> snd (merge w v) \<Longrightarrow> fst (merge w v) = w" "\<not> snd (merge w v) \<Longrightarrow> flag e v \<Longrightarrow> flag e w"
  by (auto simp: merge_def Let_def flag_def) (metis Width.select_convs)+

lemma merge_counts:
  assumes "i < length tbl"
  shows "flags_set tbl \<le> flags_set (tbl[i := fst (merge (tbl ! i) v)])" "snd (merge (tbl ! i) v) \<Longrightarrow> flags_set tbl < flags_set (tbl[i := fst (merge (tbl ! i) v)])"
proof -
  define n where "n w = (if nullable w then 1 else 0) + (if eof_nullable w then 1 else 0 :: nat)" for w :: Width
  have "tbl = take i tbl @ tbl ! i # drop (Suc i) tbl" using assms by (rule id_take_nth_drop)
  then have "flags_set tbl = flags_set (take i tbl @ tbl ! i # drop (Suc i) tbl)" by simp
  then have eq: "flags_set tbl = flags_set (take i tbl) + n (tbl ! i) + flags_set (drop (Suc i) tbl)" by (simp add: flags_set_def n_def)
  have eq': "flags_set (tbl[i := fst (merge (tbl ! i) v)]) = flags_set (take i tbl) + n (fst (merge (tbl ! i) v)) + flags_set (drop (Suc i) tbl)"
    using assms by (simp add: upd_conv_take_nth_drop flags_set_def n_def)
  show "flags_set tbl \<le> flags_set (tbl[i := fst (merge (tbl ! i) v)])" unfolding eq eq' by (simp add: n_def merge_def Let_def)
  show "snd (merge (tbl ! i) v) \<Longrightarrow> flags_set tbl < flags_set (tbl[i := fst (merge (tbl ! i) v)])"
    unfolding eq eq' by (cases "tbl ! i") (auto simp: n_def merge_def Let_def)
qed

lemma width_pass_correct:
  assumes ts: "list_all2 (\<lambda>v t. rep P (v_root v) t \<and> syntactic t) variables vs"
  shows "sound_table vs tbl \<Longrightarrow> qs = drop i variables \<Longrightarrow> i \<le> length vs \<Longrightarrow>
    \<exists>tbl' c'. width_pass P i qs tbl c = Some (tbl', c') \<and> sound_table vs tbl' \<and> flags_set tbl \<le> flags_set tbl' \<and> (c \<longrightarrow> c') \<and>
      (if c' \<and> \<not> c then flags_set tbl < flags_set tbl' else \<not> c' \<longrightarrow> tbl' = tbl \<and> (\<forall>k. i \<le> k \<and> k < length vs \<longrightarrow> (\<forall>e. flag e (twidth tbl (vs ! k)) \<longrightarrow> flag e (tbl ! k))))"
proof (induction qs arbitrary: i tbl c)
  case Nil
  then have "length vs \<le> i" using list_all2_lengthD [OF ts] by simp
  then show ?case using Nil by auto
next
  case (Cons v qs)
  have len: "length variables = length vs" using ts by (rule list_all2_lengthD)
  have i: "i < length variables" using Cons.prems(2) by (metis drop_all list.distinct(1) not_le)
  then have v: "v = variables ! i" "qs = drop (Suc i) variables" using trans [OF Cons.prems(2) Cons_nth_drop_Suc [OF i, symmetric]] by auto
  let ?w = "twidth tbl (vs ! i)"
  let ?tbl = "tbl[i := fst (merge (tbl ! i) ?w)]"
  have it: "i < length tbl" using Cons.prems(1) i len by (simp add: sound_table_def)
  have "rep P (v_root v) (vs ! i)" "syntactic (vs ! i)" using ts i v(1) by (auto simp: list_all2_conv_all_nth)
  then have eq: "width_pass P i (v # qs) tbl c = width_pass P (Suc i) qs ?tbl (c \<or> snd (merge (tbl ! i) ?w))"
    using it by (simp add: eval_width_rep vec_get_def case_prod_beta)
  have sound: "sound_table vs ?tbl" unfolding sound_table_def
  proof (intro conjI allI impI)
    fix k e assume "k < length vs" "flag e (?tbl ! k)"
    then show "zero vs (vs ! k) e" using Cons.prems(1) twidth_sound [OF Cons.prems(1), of e "vs ! i"] it
      by (cases "k = i") (auto simp: sound_table_def)
  qed (use Cons.prems(1) in \<open>simp add: sound_table_def\<close>)
  obtain tbl' c' where r: "width_pass P (Suc i) qs ?tbl (c \<or> snd (merge (tbl ! i) ?w)) = Some (tbl', c')" "sound_table vs tbl'"
    "flags_set ?tbl \<le> flags_set tbl'" "c \<or> snd (merge (tbl ! i) ?w) \<longrightarrow> c'"
    "if c' \<and> \<not> (c \<or> snd (merge (tbl ! i) ?w)) then flags_set ?tbl < flags_set tbl'
     else \<not> c' \<longrightarrow> tbl' = ?tbl \<and> (\<forall>k. Suc i \<le> k \<and> k < length vs \<longrightarrow> (\<forall>e. flag e (twidth ?tbl (vs ! k)) \<longrightarrow> flag e (?tbl ! k)))"
    using Cons.IH [OF sound v(2), of "c \<or> snd (merge (tbl ! i) ?w)"] i len by auto
  note counts = merge_counts [OF it, of ?w]
  show ?case
  proof (cases "snd (merge (tbl ! i) ?w)")
    case True
    then show ?thesis using eq r(1-4) counts by (intro exI [of _ tbl'] exI [of _ c']) auto
  next
    case False
    then have same: "?tbl = tbl" "\<And>e. flag e ?w \<Longrightarrow> flag e (tbl ! i)" using merge_same [of "tbl ! i" ?w] by auto
    have "\<forall>k. i \<le> k \<and> k < length vs \<longrightarrow> (\<forall>e. flag e (twidth tbl (vs ! k)) \<longrightarrow> flag e (tbl ! k))" if "\<not> c'"
    proof -
      have "\<forall>k. Suc i \<le> k \<and> k < length vs \<longrightarrow> (\<forall>e. flag e (twidth tbl (vs ! k)) \<longrightarrow> flag e (tbl ! k))"
        using r(5) that False unfolding same(1) by simp
      then show ?thesis using same(2) by (metis Suc_leI le_eq_less_or_eq)
    qed
    then show ?thesis using eq r(1-5) False unfolding same(1) by (intro exI [of _ tbl'] exI [of _ c']) (auto split: if_splits)
  qed
qed

lemma width_loop_correct:
  assumes ts: "list_all2 (\<lambda>v t. rep P (v_root v) t \<and> syntactic t) variables vs"
  shows "sound_table vs tbl \<Longrightarrow> \<exists>tbl'. width_loop P variables tbl = Some tbl' \<and> sound_table vs tbl' \<and> closed_table vs tbl'"
proof (induction "2 * length vs - flags_set tbl" arbitrary: tbl rule: less_induct)
  case less
  obtain tbl' c' where r: "width_pass P 0 variables tbl False = Some (tbl', c')" "sound_table vs tbl'"
    "if c' \<and> \<not> False then flags_set tbl < flags_set tbl' else \<not> c' \<longrightarrow> tbl' = tbl \<and> (\<forall>k. 0 \<le> k \<and> k < length vs \<longrightarrow> (\<forall>e. flag e (twidth tbl (vs ! k)) \<longrightarrow> flag e (tbl ! k)))"
    using width_pass_correct [OF ts less.prems drop_0 [symmetric] le0, of False] by blast
  show ?case
  proof (cases c')
    case True
    have "flags_set tbl' \<le> 2 * length vs" using r(2) flags_bound [of tbl'] by (simp add: sound_table_def)
    then have "2 * length vs - flags_set tbl' < 2 * length vs - flags_set tbl" using True r(3) by simp
    then obtain tbl2 where "width_loop P variables tbl' = Some tbl2" "sound_table vs tbl2" "closed_table vs tbl2" using less.hyps r(2) by blast
    then show ?thesis using r(1) True by (subst width_loop.simps) simp
  next
    case False
    then have c: "tbl' = tbl" "\<forall>k < length vs. \<forall>e. flag e (twidth tbl (vs ! k)) \<longrightarrow> flag e (tbl ! k)" using r(3) by simp_all
    have "width_loop P variables tbl = Some tbl" using r(1) False c(1) by (subst width_loop.simps) simp
    moreover have "closed_table vs tbl" using c(2) less.prems by (simp add: closed_table_def sound_table_def)
    ultimately show ?thesis using less.prems by blast
  qed
qed

lemma zero_width_table:
  assumes "list_all2 (\<lambda>v t. rep P (v_root v) t \<and> syntactic t) variables vs"
  shows "\<exists>tbl. zero_width_new P variables = Some tbl \<and> length tbl = length vs \<and> (\<forall>t. twidth tbl t = \<lparr>nullable = zero vs t False, eof_nullable = zero vs t True\<rparr>)"
proof -
  have "sound_table vs (replicate (length variables) default_width)"
    using list_all2_lengthD [OF assms] by (auto simp: sound_table_def flag_def default_width_def split: if_splits)
  then obtain tbl where tbl: "zero_width_new P variables = Some tbl" "sound_table vs tbl" "closed_table vs tbl"
    using width_loop_correct [OF assms] unfolding zero_width_new_def by blast
  have "twidth tbl t = \<lparr>nullable = zero vs t False, eof_nullable = zero vs t True\<rparr>" for t
    using twidth_sound [OF tbl(2), of False t] twidth_sound [OF tbl(2), of True t] twidth_complete [OF tbl(3), of t False] twidth_complete [OF tbl(3), of t True]
    by (cases "twidth tbl t") (auto simp: flag_def)
  then show ?thesis using tbl(1,2) by (auto simp: sound_table_def)
qed

section \<open>Properties\<close>

text \<open>C38. The width analysis terminates on every grammar without patterns and names, and it is exact: a rule is
  marked as nullable if and only if it has a derivation that reads no character and crosses no \<open>eof()\<close>, and
  as nullable at the end of input if and only if it has one that crosses an \<open>eof()\<close>; the same holds for every
  rule evaluated against the table.\<close>

theorem zero_width_exact:
  assumes "list_all2 (\<lambda>v t. rep P (v_root v) t \<and> syntactic t) variables vs"
  shows "\<exists>tbl. zero_width_new P variables = Some tbl \<and>
    (\<forall>i t. rep P i t \<and> syntactic t \<longrightarrow> eval_width P tbl i = Some \<lparr>nullable = zero vs t False, eof_nullable = zero vs t True\<rparr>)"
  using zero_width_table [OF assms] eval_width_rep by (metis (no_types, lifting))

definition width_pool :: "unit RulePool" where
  "width_pool = \<lparr>nodes = [Blank, Eof, Seq (RuleIdRange 0 2)], children = [0, 1], params_vec = [], str_pool = \<lparr>buf = [], spans = [], ids = ()\<rparr>, scratch = []\<rparr>"

theorem zero_width_exact_witness:
  "\<exists>tbl. zero_width_new width_pool [\<lparr>v_name = 1, v_root = 2\<rparr>] = Some tbl \<and>
     eval_width width_pool tbl 2 = Some \<lparr>nullable = zero [TSeq [TBlank, TEof]] (TSeq [TBlank, TEof]) False, eof_nullable = zero [TSeq [TBlank, TEof]] (TSeq [TBlank, TEof]) True\<rparr>"
proof -
  have "rep width_pool 0 TBlank" "rep width_pool 1 TEof" by (auto intro: rep_Blank rep_Eof simp: width_pool_def node_def vec_get_def)
  then have "rep width_pool 2 (TSeq [TBlank, TEof])"
    by (intro rep_Seq [of _ _ "RuleIdRange 0 2" "[0, 1]"]) (simp_all add: width_pool_def node_def vec_get_def child_slice_def vec_slice_def)
  then show ?thesis using zero_width_exact [of width_pool "[\<lparr>v_name = 1, v_root = 2\<rparr>]" "[TSeq [TBlank, TEof]]"] by auto
qed

end
