(* ===== verification/Repeat_Language.thy ===== *)
theory Repeat_Language
  imports Zero_Width
begin

text \<open>
  What expanding repetitions means for rule trees: the trees in which some repetitions are replaced by
  references to auxiliary variables, the binary trees those variables stand for, and the words a
  grammar of rule trees derives. The expansion keeps widths and the derived words.
\<close>

section \<open>Expanded trees\<close>

text \<open>\<open>expanded n A t t'\<close>: the tree \<open>t'\<close> is \<open>t\<close> with some repetitions replaced by references to auxiliary variables. There are
  \<open>n\<close> variables, and the auxiliary variable with number \<open>n + j\<close> stands for the repetition of the tree \<open>A ! j\<close>.\<close>

inductive expanded :: "nat \<Rightarrow> rtree list \<Rightarrow> rtree \<Rightarrow> rtree \<Rightarrow> bool" for n A where
  ex_blank: "expanded n A TBlank TBlank"
| ex_string: "expanded n A (TString s) (TString s)"
| ex_pattern: "expanded n A (TPattern s f) (TPattern s f)"
| ex_named: "expanded n A (TNamed s) (TNamed s)"
| ex_eof: "expanded n A TEof TEof"
| ex_sym: "k = NonTerminal \<longrightarrow> m < n \<Longrightarrow> expanded n A (TSym k m) (TSym k m)"
| ex_seq: "list_all2 (expanded n A) ts us \<Longrightarrow> expanded n A (TSeq ts) (TSeq us)"
| ex_choice: "list_all2 (expanded n A) ts us \<Longrightarrow> expanded n A (TChoice ts) (TChoice us)"
| ex_repeat: "expanded n A t u \<Longrightarrow> expanded n A (TRepeat t) (TRepeat u)"
| ex_aux: "j < length A \<Longrightarrow> expanded n A (TRepeat (A ! j)) (TSym NonTerminal (n + j))"
| ex_meta: "expanded n A t u \<Longrightarrow> expanded n A (TMeta p t) (TMeta p u)"
| ex_reserved: "expanded n A t u \<Longrightarrow> expanded n A (TReserved t c) (TReserved u c)"

inductive_simps expanded_to:
  "expanded n A t TBlank" "expanded n A t (TString s)" "expanded n A t (TPattern s f)" "expanded n A t (TNamed s)" "expanded n A t TEof"
  "expanded n A t (TSym k m)" "expanded n A t (TSeq us)" "expanded n A t (TChoice us)" "expanded n A t (TRepeat u)" "expanded n A t (TMeta p u)"
  "expanded n A t (TReserved u c)"

inductive_simps expanded_from:
  "expanded n A TBlank t" "expanded n A (TString s) t" "expanded n A (TPattern s f) t" "expanded n A (TNamed s) t" "expanded n A TEof t"
  "expanded n A (TSym k m) t" "expanded n A (TSeq us) t" "expanded n A (TChoice us) t" "expanded n A (TRepeat u) t" "expanded n A (TMeta p u) t"
  "expanded n A (TReserved u c) t"

fun refs_below :: "nat \<Rightarrow> rtree \<Rightarrow> bool" where
  "refs_below n (TSym k m) \<longleftrightarrow> k = NonTerminal \<longrightarrow> m < n"
| "refs_below n (TSeq ts) \<longleftrightarrow> (\<forall>t \<in> set ts. refs_below n t)"
| "refs_below n (TChoice ts) \<longleftrightarrow> (\<forall>t \<in> set ts. refs_below n t)"
| "refs_below n (TRepeat t) \<longleftrightarrow> refs_below n t"
| "refs_below n (TMeta p t) \<longleftrightarrow> refs_below n t"
| "refs_below n (TReserved t c) \<longleftrightarrow> refs_below n t"
| "refs_below n _ \<longleftrightarrow> True"

text \<open>The contents of the repetitions of a tree that the walk reaches.\<close>

fun repeated :: "rtree \<Rightarrow> rtree list" where
  "repeated (TSeq ts) = concat (map repeated ts)"
| "repeated (TChoice ts) = concat (map repeated ts)"
| "repeated (TRepeat t) = t # repeated t"
| "repeated (TMeta p t) = repeated t"
| "repeated _ = []"

lemma expanded_refl: "refs_below n t \<Longrightarrow> expanded n A t t"
  by (induction t) (auto simp: list_all2_conv_all_nth intro: expanded.intros intro!: ex_seq ex_choice)

lemma expanded_more: "expanded n A t u \<Longrightarrow> expanded n (A @ B) t u"
proof (induction rule: expanded.induct)
  case (ex_aux j)
  then show ?case using expanded.ex_aux [of j "A @ B" n] by (simp add: nth_append)
qed (auto intro: expanded.intros elim: list_all2_mono)

lemma list_all2_inj:
  assumes "list_all2 (\<lambda>x z. P x z \<and> (\<forall>y. P y z \<longrightarrow> x = y)) xs zs" "list_all2 P ys zs"
  shows "xs = ys"
  using assms by (auto simp: list_all2_conv_all_nth intro!: nth_equalityI)

lemma expanded_inj: "expanded n A t v \<Longrightarrow> expanded n A u v \<Longrightarrow> t = u"
proof (induction arbitrary: u rule: expanded.induct)
  case (ex_seq ts us)
  then show ?case by (auto simp: expanded_to dest: list_all2_inj)
next
  case (ex_choice ts us)
  then show ?case by (auto simp: expanded_to dest: list_all2_inj)
next
  case (ex_sym k m)
  then show ?case by (fastforce simp: expanded_to)
next
  case (ex_aux j)
  then show ?case by (fastforce simp: expanded_to)
qed (unfold expanded_to, blast+)

lemma expanded_width:
  assumes "length tbl = n"
  shows "expanded n A t t' \<Longrightarrow> twidth (tbl @ map (twidth tbl) A) t' = twidth tbl t"
proof (induction rule: expanded.induct)
  case (ex_sym k m)
  then show ?case using assms by (cases k) (simp_all add: symbol_width_def vec_get_def nth_append)
next
  case (ex_aux j)
  then show ?case using assms by (simp add: symbol_width_def vec_get_def nth_append)
next
  case (ex_seq ts us)
  have "map (twidth (tbl @ map (twidth tbl) A)) us = map (twidth tbl) ts"
    by (rule nth_equalityI) (use ex_seq in \<open>auto simp: list_all2_conv_all_nth\<close>)
  then have "seq_width (map (twidth (tbl @ map (twidth tbl) A)) us) = seq_width (map (twidth tbl) ts)" by simp
  then show ?case by (simp add: seq_width_set)
next
  case (ex_choice ts us)
  have "map (twidth (tbl @ map (twidth tbl) A)) us = map (twidth tbl) ts"
    by (rule nth_equalityI) (use ex_choice in \<open>auto simp: list_all2_conv_all_nth\<close>)
  then have "choice_width (map (twidth (tbl @ map (twidth tbl) A)) us) = choice_width (map (twidth tbl) ts)" by simp
  then show ?case by (simp add: choice_width_set)
qed simp_all

lemma expanded_syntactic: "expanded n A t t' \<Longrightarrow> syntactic t \<Longrightarrow> syntactic t'"
  by (induction rule: expanded.induct) (auto simp: list_all2_conv_all_nth in_set_conv_nth, (metis nth_mem)+)

lemma expanded_flat: "expanded n A t t' \<Longrightarrow> list_all2 (expanded n A) (flat t) (flat t')"
proof (induction rule: expanded.induct)
  case (ex_choice ts us)
  then have "list_all2 (list_all2 (expanded n A)) (map flat ts) (map flat us)" by (simp add: list_all2_conv_all_nth)
  then show ?case by (simp add: concat_transfer [unfolded rel_fun_def, rule_format])
qed (auto intro: expanded.intros elim: list_all2_mono)


section \<open>The language of a grammar of rule trees\<close>

text \<open>\<open>derives vs t w\<close>: with the variables \<open>vs\<close>, the rule \<open>t\<close> derives the word \<open>w\<close> of leaves. A repetition derives one or
  more words of its content.\<close>

inductive derives :: "rtree list \<Rightarrow> rtree \<Rightarrow> rtree list \<Rightarrow> bool" for vs where
  de_blank: "derives vs TBlank []"
| de_string: "derives vs (TString s) [TString s]"
| de_pattern: "derives vs (TPattern s f) [TPattern s f]"
| de_named: "derives vs (TNamed s) [TNamed s]"
| de_eof: "derives vs TEof [TEof]"
| de_sym: "k \<noteq> NonTerminal \<Longrightarrow> derives vs (TSym k m) [TSym k m]"
| de_variable: "m < length vs \<Longrightarrow> derives vs (vs ! m) w \<Longrightarrow> derives vs (TSym NonTerminal m) w"
| de_seq: "list_all2 (derives vs) ts ws \<Longrightarrow> derives vs (TSeq ts) (concat ws)"
| de_choice: "t \<in> set ts \<Longrightarrow> derives vs t w \<Longrightarrow> derives vs (TChoice ts) w"
| de_repeat: "ws \<noteq> [] \<Longrightarrow> list_all (derives vs t) ws \<Longrightarrow> derives vs (TRepeat t) (concat ws)"
| de_meta: "derives vs t w \<Longrightarrow> derives vs (TMeta p t) w"
| de_reserved: "derives vs t w \<Longrightarrow> derives vs (TReserved t c) w"

inductive_cases derives_variable: "derives vs (TSym NonTerminal m) w"
inductive_cases derives_repeat: "derives vs (TRepeat t) w"

lemma derives_flat: "s \<in> set (flat t) \<Longrightarrow> derives vs s w \<Longrightarrow> derives vs t w"
  by (induction t) (auto intro: de_choice)

lemma derives_once: "derives vs t w \<Longrightarrow> derives vs (TRepeat t) w"
  using de_repeat [of "[w]" vs t] by simp

lemma derives_again: "derives vs (TRepeat t) v \<Longrightarrow> derives vs (TRepeat t) w \<Longrightarrow> derives vs (TRepeat t) (v @ w)"
proof (elim derives_repeat)
  fix xs ys assume "v = concat xs" "xs \<noteq> []" "list_all (derives vs t) xs" "w = concat ys" "list_all (derives vs t) ys"
  then show "derives vs (TRepeat t) (v @ w)" using de_repeat [of "xs @ ys" vs t] by simp
qed

lemma refs_below_flat: "refs_below n t \<Longrightarrow> s \<in> set (flat t) \<Longrightarrow> refs_below n s"
  by (induction t) auto

abbreviation pair :: "nat \<Rightarrow> rtree" where
  "pair m \<equiv> TSeq [TSym NonTerminal m, TSym NonTerminal m]"

text \<open>The binary tree of the variable \<open>m\<close> over the content \<open>u\<close>: two references to the variable itself or one of the
  alternatives of the content, in which further repetitions may be replaced.\<close>

definition binary_tree :: "nat \<Rightarrow> rtree list \<Rightarrow> nat \<Rightarrow> rtree \<Rightarrow> rtree \<Rightarrow> bool" where
  "binary_tree n A m u v \<longleftrightarrow> (\<exists>ss ss'. list_all2 (expanded n A) ss ss' \<and> set ss \<subseteq> set (flat u) \<and> set (flat u) \<subseteq> insert (pair m) (set ss) \<and>
     v = (if ss = [] then pair m else TChoice (pair m # ss')))"

text \<open>\<open>vs'\<close> are the variables \<open>vs\<close> after the expansion, followed by the auxiliary variables.\<close>

definition expansion :: "rtree list \<Rightarrow> rtree list \<Rightarrow> rtree list \<Rightarrow> bool" where
  "expansion vs A vs' \<longleftrightarrow> length vs' = length vs + length A \<and>
     (\<forall>i < length vs. expanded (length vs) A (vs ! i) (vs' ! i) \<or> (\<exists>u. vs ! i = TRepeat u \<and> binary_tree (length vs) A i u (vs' ! i))) \<and>
     (\<forall>j < length A. binary_tree (length vs) A (length vs + j) (A ! j) (vs' ! (length vs + j)))"

text \<open>Whether the variable \<open>m\<close> stands for the repetition of \<open>u\<close>.\<close>

definition stands_for :: "rtree list \<Rightarrow> rtree list \<Rightarrow> nat \<Rightarrow> rtree \<Rightarrow> bool" where
  "stands_for vs A m u \<longleftrightarrow> (if m < length vs then vs ! m = TRepeat u else m < length vs + length A \<and> A ! (m - length vs) = u)"

definition goes_over :: "rtree list \<Rightarrow> rtree list \<Rightarrow> rtree list \<Rightarrow> rtree \<Rightarrow> rtree list \<Rightarrow> bool" where
  "goes_over vs A vs' t w \<longleftrightarrow> (\<forall>t'. expanded (length vs) A t t' \<longrightarrow> derives vs' t' w)"

lemma binary_pair: "binary_tree n A m u v \<Longrightarrow> m < length vs' \<Longrightarrow> vs' ! m = v \<Longrightarrow> derives vs' v x \<Longrightarrow> derives vs' v y \<Longrightarrow> derives vs' v (x @ y)"
proof -
  assume v: "binary_tree n A m u v" "m < length vs'" "vs' ! m = v" and d: "derives vs' v x" "derives vs' v y"
  have "derives vs' (TSym NonTerminal m) x" "derives vs' (TSym NonTerminal m) y" using v d by (auto intro: de_variable)
  then have "derives vs' (pair m) (x @ y)" using de_seq [of vs' "[TSym NonTerminal m, TSym NonTerminal m]" "[x, y]"] by simp
  then show "derives vs' v (x @ y)" using v(1) by (auto simp: binary_tree_def intro!: de_choice [of "pair m"])
qed

lemma binary_word:
  assumes v: "binary_tree n A m u v" and w: "s \<in> set (flat u)" "\<And>s'. expanded n A s s' \<Longrightarrow> derives vs' s' w" "refs_below n (pair m) \<or> s \<noteq> pair m"
  shows "derives vs' v w"
proof -
  obtain ss ss' where b: "list_all2 (expanded n A) ss ss'" "set (flat u) \<subseteq> insert (pair m) (set ss)" "v = (if ss = [] then pair m else TChoice (pair m # ss'))"
    using v by (auto simp: binary_tree_def)
  show ?thesis
  proof (cases "s \<in> set ss")
    case True
    then obtain k where "k < length ss" "s = ss ! k" by (metis in_set_conv_nth)
    then have "expanded n A s (ss' ! k)" "ss' ! k \<in> set ss'" using b(1) by (auto simp: list_all2_conv_all_nth)
    then show ?thesis using b(3) True w(2) by (auto intro!: de_choice)
  next
    case False
    then have "s = pair m" using b(2) w(1) by auto
    then have "derives vs' (pair m) w" using w(2,3) expanded_refl by blast
    then show ?thesis using b(3) by (auto intro: de_choice)
  qed
qed

lemma binary_repeat:
  assumes "binary_tree n A m u v" "m < length vs'" "vs' ! m = v" "refs_below n (pair m) \<or> pair m \<notin> set (flat u)"
  shows "ws \<noteq> [] \<Longrightarrow> \<forall>w \<in> set ws. \<exists>s \<in> set (flat u). \<forall>s'. expanded n A s s' \<longrightarrow> derives vs' s' w \<Longrightarrow> derives vs' v (concat ws)"
proof (induction ws rule: list_nonempty_induct)
  case (single w)
  then show ?case using binary_word [OF assms(1), of _ vs' w] assms(4) by auto
next
  case (cons w ws)
  then have "derives vs' v w" using binary_word [OF assms(1), of _ vs' w] assms(4) by auto
  then show ?case using binary_pair [OF assms(1-3)] cons by simp
qed

lemma list_all2_partner:
  "list_all2 R xs ys \<Longrightarrow> x \<in> set xs \<Longrightarrow> \<exists>y \<in> set ys. R x y"
  "list_all2 R xs ys \<Longrightarrow> y \<in> set ys \<Longrightarrow> \<exists>x \<in> set xs. R x y"
  by (induction rule: list_all2_induct) auto

lemma goes_over_cong:
  "list_all2 (\<lambda>t w. derives vs t w \<and> goes_over vs A vs' t w \<and> Q t w) ts ws \<Longrightarrow> list_all2 (expanded (length vs) A) ts us \<Longrightarrow> list_all2 (derives vs') us ws"
  by (auto simp: list_all2_conv_all_nth goes_over_def)

lemma derives_expanded:
  assumes ex: "expansion vs A vs'" and A: "\<forall>u \<in> set A. refs_below (length vs) u" and vs: "\<forall>t \<in> set vs. refs_below (length vs) t"
  shows "derives vs t w \<Longrightarrow> goes_over vs A vs' t w \<and> (\<exists>s \<in> set (flat t). goes_over vs A vs' s w) \<and>
    (\<forall>u. t = TRepeat u \<longrightarrow> (\<exists>ws. w = concat ws \<and> ws \<noteq> [] \<and> (\<forall>x \<in> set ws. \<exists>s \<in> set (flat u). goes_over vs A vs' s x)))"
proof (induction rule: derives.induct)
  case (de_variable m w)
  have "derives vs' (TSym NonTerminal m) w"
  proof (rule derives.de_variable)
    show m: "m < length vs'" using ex de_variable(1) by (simp add: expansion_def)
    consider "expanded (length vs) A (vs ! m) (vs' ! m)" | u where "vs ! m = TRepeat u" "binary_tree (length vs) A m u (vs' ! m)"
      using ex de_variable(1) by (auto simp: expansion_def)
    then show "derives vs' (vs' ! m) w"
    proof cases
      case 1
      then show ?thesis using de_variable by (simp add: goes_over_def)
    next
      case 2
      then obtain ws where "w = concat ws" "ws \<noteq> []" "\<forall>x \<in> set ws. \<exists>s \<in> set (flat u). goes_over vs A vs' s x" using de_variable(3) by blast
      then show ?thesis using binary_repeat [OF 2(2) m refl] de_variable(1) by (auto simp: goes_over_def)
    qed
  qed
  then show ?case by (simp add: goes_over_def expanded_from)
next
  case (de_repeat ws t)
  have words: "\<forall>x \<in> set ws. \<exists>s \<in> set (flat t). goes_over vs A vs' s x" using de_repeat(2) by (simp add: list_all_iff)
  have "derives vs' t' (concat ws)" if t': "expanded (length vs) A (TRepeat t) t'" for t'
    using t'
  proof (cases rule: expanded.cases)
    case (ex_repeat u)
    then have "list_all (derives vs' u) ws" using de_repeat(2) by (simp add: list_all_iff goes_over_def)
    then show ?thesis using ex_repeat(1) de_repeat(1) by (simp add: derives.de_repeat)
  next
    case (ex_aux j)
    let ?m = "length vs + j"
    have b: "binary_tree (length vs) A ?m t (vs' ! ?m)" "?m < length vs'" using ex ex_aux by (auto simp: expansion_def)
    have "refs_below (length vs) t" using A ex_aux by simp
    then have "pair ?m \<notin> set (flat t)" using refs_below_flat by fastforce
    then show ?thesis using binary_repeat [OF b(1,2) refl _ de_repeat(1)] words ex_aux b(2) by (auto simp: goes_over_def intro: derives.de_variable)
  qed
  then show ?case using words de_repeat(1) by (auto simp: goes_over_def)
next
  case (de_seq ts ws)
  have "derives vs' t' (concat ws)" if "expanded (length vs) A (TSeq ts) t'" for t'
    using that goes_over_cong [OF de_seq] by (auto simp: expanded_from intro: derives.de_seq)
  then show ?case by (auto simp: goes_over_def)
next
  case (de_choice t ts w)
  have "derives vs' t' w" if t': "expanded (length vs) A (TChoice ts) t'" for t'
  proof -
    obtain us where us: "t' = TChoice us" "list_all2 (expanded (length vs) A) ts us" using t' by (auto simp: expanded_from)
    then obtain u where "u \<in> set us" "expanded (length vs) A t u" using list_all2_partner(1) de_choice(1) by metis
    then show ?thesis using us(1) de_choice(3) by (auto simp: goes_over_def intro: derives.de_choice)
  qed
  then show ?case using de_choice by (auto simp: goes_over_def)
qed (auto simp: goes_over_def expanded_from intro: derives.intros)

lemma derives_variable_iff: "derives vs (TSym NonTerminal m) w \<longleftrightarrow> m < length vs \<and> derives vs (vs ! m) w"
  by (auto elim: derives_variable intro: de_variable)

definition comes_from :: "rtree list \<Rightarrow> rtree list \<Rightarrow> rtree \<Rightarrow> rtree list \<Rightarrow> bool" where
  "comes_from vs A t' w \<longleftrightarrow> (\<forall>t. expanded (length vs) A t t' \<longrightarrow> derives vs t w)"

definition repeats_from :: "rtree list \<Rightarrow> rtree list \<Rightarrow> rtree \<Rightarrow> rtree list \<Rightarrow> bool" where
  "repeats_from vs A t' w \<longleftrightarrow> (\<forall>m u. stands_for vs A m u \<and> (t' = pair m \<or> binary_tree (length vs) A m u t') \<longrightarrow> derives vs (TRepeat u) w)"

lemma comes_from_reference:
  assumes "comes_from vs A (TSym NonTerminal m) w" "stands_for vs A m u"
  shows "derives vs (TRepeat u) w"
proof (cases "m < length vs")
  case True
  then have "derives vs (TSym NonTerminal m) w" using assms(1) by (simp add: comes_from_def ex_sym)
  then show ?thesis using assms(2) True by (simp add: derives_variable_iff stands_for_def)
next
  case False
  then have "expanded (length vs) A (TRepeat u) (TSym NonTerminal m)" using assms(2) ex_aux [of "m - length vs" A "length vs"] by (auto simp: stands_for_def)
  then show ?thesis using assms(1) by (simp add: comes_from_def)
qed

lemma expansion_derives:
  assumes ex: "expansion vs A vs'"
  shows "derives vs' t' w \<Longrightarrow> comes_from vs A t' w \<and> repeats_from vs A t' w"
proof (induction rule: derives.induct)
  case (de_variable m w)
  have "derives vs t w" if t: "expanded (length vs) A t (TSym NonTerminal m)" for t
  proof -
    have "m < length vs + length A" using de_variable(1) ex by (simp add: expansion_def)
    consider "t = TSym NonTerminal m" "m < length vs" "expanded (length vs) A (vs ! m) (vs' ! m)"
      | u where "t = TSym NonTerminal m" "m < length vs" "vs ! m = TRepeat u" "binary_tree (length vs) A m u (vs' ! m)"
      | j where "t = TRepeat (A ! j)" "m = length vs + j" "j < length A"
      using t ex by (auto simp: expanded_to expansion_def)
    then show ?thesis
    proof cases
      case 1
      then show ?thesis using de_variable by (simp add: comes_from_def derives_variable_iff)
    next
      case 2
      then have "derives vs (TRepeat u) w" using de_variable(3) unfolding repeats_from_def stands_for_def by presburger
      then show ?thesis using 2 by (simp add: derives_variable_iff)
    next
      case 3
      then have "binary_tree (length vs) A m (A ! j) (vs' ! m)" "stands_for vs A m (A ! j)" using ex by (auto simp: expansion_def stands_for_def)
      then show ?thesis using de_variable(3) 3(1) by (auto simp: repeats_from_def)
    qed
  qed
  then show ?case by (auto simp: comes_from_def repeats_from_def binary_tree_def split: if_splits)
next
  case (de_seq us ws)
  have "derives vs t (concat ws)" if "expanded (length vs) A t (TSeq us)" for t
    using that de_seq by (auto simp: expanded_to comes_from_def list_all2_conv_all_nth intro!: derives.de_seq)
  moreover have "derives vs (TRepeat u) (concat ws)" if m: "stands_for vs A m u" "TSeq us = pair m" for m u
  proof -
    obtain x y where "ws = [x, y]" "comes_from vs A (TSym NonTerminal m) x" "comes_from vs A (TSym NonTerminal m) y"
      using m(2) de_seq by (auto simp: list_all2_Cons1)
    then show ?thesis using derives_again comes_from_reference [OF _ m(1)] by simp
  qed
  ultimately show ?case by (auto simp: comes_from_def repeats_from_def binary_tree_def split: if_splits)
next
  case (de_choice x us w)
  have "derives vs t w" if t: "expanded (length vs) A t (TChoice us)" for t
  proof -
    obtain ts where ts: "t = TChoice ts" "list_all2 (expanded (length vs) A) ts us" using t by (auto simp: expanded_to)
    then obtain s where "s \<in> set ts" "expanded (length vs) A s x" using list_all2_partner(2) de_choice(1) by metis
    then show ?thesis using ts(1) de_choice(3) by (auto simp: comes_from_def intro: derives.de_choice)
  qed
  moreover have "derives vs (TRepeat u) w" if m: "stands_for vs A m u" "binary_tree (length vs) A m u (TChoice us)" for m u
  proof -
    obtain ss ss' where b: "list_all2 (expanded (length vs) A) ss ss'" "set ss \<subseteq> set (flat u)" "us = pair m # ss'"
      using m(2) by (auto simp: binary_tree_def split: if_splits)
    show ?thesis
    proof (cases "x = pair m")
      case True
      then show ?thesis using de_choice(3) m(1) by (auto simp: repeats_from_def)
    next
      case False
      then obtain s where s: "s \<in> set ss" "expanded (length vs) A s x" using list_all2_partner(2) [OF b(1), of x] de_choice(1) b(3) by auto
      then have "derives vs s w" using de_choice(3) by (simp add: comes_from_def)
      then show ?thesis using s(1) b(2) derives_flat derives_once by blast
    qed
  qed
  ultimately show ?case by (auto simp: comes_from_def repeats_from_def)
next
  case (de_repeat ws t')
  have "derives vs t (concat ws)" if "expanded (length vs) A t (TRepeat t')" for t
    using that de_repeat by (auto simp: expanded_to comes_from_def list_all_iff intro!: derives.de_repeat)
  then show ?case by (auto simp: comes_from_def repeats_from_def binary_tree_def split: if_splits)
qed (auto simp: comes_from_def repeats_from_def expanded_to binary_tree_def intro: derives.intros split: if_splits)

lemma expansion_language:
  assumes ex: "expansion vs A vs'" and A: "\<forall>u \<in> set A. refs_below (length vs) u" and vs: "\<forall>t \<in> set vs. refs_below (length vs) t"
    and t: "expanded (length vs) A t t'"
  shows "derives vs' t' w \<longleftrightarrow> derives vs t w"
  using derives_expanded [OF ex A vs, of t w] expansion_derives [OF ex, of t' w] t by (auto simp: goes_over_def comes_from_def)

end
