(* ===== verification/Expand_Repeats.thy ===== *)
theory Expand_Repeats
  imports Repeat_Language Production_Store
begin

text \<open>
  \<^verbatim>\<open>crates/generate/src/prepare_grammar/expand_repeats.rs\<close>: every repetition becomes a reference to an auxiliary variable
  whose rule is a binary tree over the repeated content. The nodes are rewritten in place. The hash table
  behind the string pool, its hasher and the hasher of subtrees are parameters; the map of memoized
  repetitions is a function whose default is the empty vector. On an error only the error is returned.
\<close>

section \<open>Definitions\<close>

record Expander =
  preceding :: nat
  aux :: "Variable list"
  memo :: "u64 \<Rightarrow> (RuleId \<times> Symbol) list"
  zero_width :: "Width list"

datatype Task = Visit RuleId | Expand RuleId RuleId

text \<open>The third-party parts: the string pool's hash table and hasher, and the hasher of subtrees.\<close>

record 't hashing =
  table_ops :: "('t, nat) hash_table_ops"
  hash_str :: "string \<Rightarrow> u64"
  hash_tree :: "hash_item list \<Rightarrow> u64"

fun digits :: "nat \<Rightarrow> string" where
  "digits n = (if n < 10 then [char_of (48 + n)] else digits (n div 10) @ [char_of (48 + n mod 10)])"

declare digits.simps [simp del]

definition pool_intern :: "'t hashing \<Rightarrow> 't RulePool \<Rightarrow> string \<Rightarrow> ('t RulePool \<times> StrId) option" where
  "pool_intern H pool s = do {
     (sp, sid) \<leftarrow> intern (table_ops H) (hash_str H) (str_pool pool) s;
     Some (pool\<lparr>str_pool := sp\<rparr>, sid)
   }"

partial_function (option) wrap_loop :: "'t RulePool \<Rightarrow> RuleId list \<Rightarrow> RuleId list \<Rightarrow> RuleId list option" where
  "wrap_loop pool stack elements = (case stack of
     [] \<Rightarrow> Some elements
   | i # stack' \<Rightarrow> do {
       n \<leftarrow> node pool i;
       case n of
         Choice r \<Rightarrow> do { cs \<leftarrow> child_slice pool r; wrap_loop pool (cs @ stack') elements }
       | _ \<Rightarrow> do {
           known \<leftarrow> any_eq pool elements i;
           wrap_loop pool stack' (if known then elements else elements @ [i])
         }
     })"

definition wrap_in_binary_tree :: "'t RulePool \<Rightarrow> Symbol \<Rightarrow> RuleId \<Rightarrow> ('t RulePool \<times> RuleId) option" where
  "wrap_in_binary_tree pool sy inner = do {
     let (pool, s1) = push_node pool (rule_of_symbol sy);
     let (pool, s2) = push_node pool (rule_of_symbol sy);
     let (pool, r) = push_children pool [s1, s2];
     let (pool, sq) = push_node pool (Seq r);
     elements \<leftarrow> wrap_loop pool [inner] [sq];
     if length elements = 1 then Some (pool, elements ! 0)
     else do {
       let (pool, r) = push_children pool elements;
       Some (push_node pool (Choice r))
     }
   }"

fun find_candidate :: "'t RulePool \<Rightarrow> RuleId \<Rightarrow> (RuleId \<times> Symbol) list \<Rightarrow> Symbol option option" where
  "find_candidate pool content [] = Some None"
| "find_candidate pool content ((n, sy) # cands) = do {
     same \<leftarrow> subtree_eq pool n content;
     if same then Some (Some sy) else find_candidate pool content cands
   }"

type_synonym 't expand_state = "'t RulePool \<times> Expander \<times> nat"

definition add_aux :: "'t hashing \<Rightarrow> StrId \<Rightarrow> Width \<Rightarrow> u64 \<Rightarrow> RuleId \<Rightarrow> 't expand_state \<Rightarrow> ('t expand_state \<times> Symbol) option" where
  "add_aux H var_name width h content s = (case s of (pool, x, counter) \<Rightarrow> do {
     counter \<leftarrow> (if counter + 1 < 2 ^ 32 then Some (counter + 1) else None);
     base \<leftarrow> resolve (str_pool pool) var_name;
     (pool, nm) \<leftarrow> pool_intern H pool (base @ ''_repeat'' @ digits counter);
     let sy = non_terminal (preceding x + length (aux x));
     (pool, root) \<leftarrow> wrap_in_binary_tree pool sy content;
     Some ((pool, x\<lparr>zero_width := push_variable (zero_width x) width, memo := (memo x)(h := memo x h @ [(content, sy)]),
       aux := aux x @ [\<lparr>v_name = nm, v_root = root\<rparr>]\<rparr>, counter), sy)
   })"

definition expand_node :: "'t hashing \<Rightarrow> StrId \<Rightarrow> RuleId \<Rightarrow> RuleId \<Rightarrow> 't expand_state \<Rightarrow> (string + 't expand_state) option" where
  "expand_node H var_name i content s = (case s of (pool, x, counter) \<Rightarrow> do {
     width \<leftarrow> eval_width pool (zero_width x) content;
     if eof_nullable width then do { nm \<leftarrow> resolve (str_pool pool) var_name; Some (Inl nm) }
     else do {
       h \<leftarrow> subtree_hash (hash_tree H) pool content;
       found \<leftarrow> find_candidate pool content (memo x h);
       case found of
         Some sy \<Rightarrow> do { pool' \<leftarrow> set_node pool i (rule_of_symbol sy); Some (Inr (pool', x, counter)) }
       | None \<Rightarrow> do {
           (s', sy) \<leftarrow> add_aux H var_name width h content s;
           pool' \<leftarrow> set_node (fst s') i (rule_of_symbol sy);
           Some (Inr (pool', snd s'))
         }
     }
   })"

partial_function (option) expand_loop :: "'t hashing \<Rightarrow> StrId \<Rightarrow> Task list \<Rightarrow> 't expand_state \<Rightarrow> (string + 't expand_state) option" where
  "expand_loop H var_name stack s = (case stack of
     [] \<Rightarrow> Some (Inr s)
   | Visit i # stack' \<Rightarrow> do {
       n \<leftarrow> node (fst s) i;
       case n of
         Repeat content \<Rightarrow> expand_loop H var_name (Visit content # Expand i content # stack') s
       | Seq r \<Rightarrow> do { cs \<leftarrow> child_slice (fst s) r; expand_loop H var_name (map Visit cs @ stack') s }
       | Choice r \<Rightarrow> do { cs \<leftarrow> child_slice (fst s) r; expand_loop H var_name (map Visit cs @ stack') s }
       | Metadata _ rule \<Rightarrow> expand_loop H var_name (Visit rule # stack') s
       | _ \<Rightarrow> expand_loop H var_name stack' s
     }
   | Expand i content # stack' \<Rightarrow> do {
       r \<leftarrow> expand_node H var_name i content s;
       case r of Inl e \<Rightarrow> Some (Inl e) | Inr s' \<Rightarrow> expand_loop H var_name stack' s'
     })"

definition expand_root :: "'t hashing \<Rightarrow> StrId \<Rightarrow> RuleId \<Rightarrow> 't expand_state \<Rightarrow> (string + 't expand_state) option" where
  "expand_root H var_name root s = expand_loop H var_name [Visit root] s"

definition expand_variable :: "'t hashing \<Rightarrow> nat \<Rightarrow> 't InputGrammar \<times> ExtractedGrammarMeta \<times> Expander \<Rightarrow>
    (string + 't InputGrammar \<times> ExtractedGrammarMeta \<times> Expander) option" where
  "expand_variable H i s = (case s of (g, meta, x) \<Rightarrow> do {
     v \<leftarrow> vec_get (g_variables g) i;
     k \<leftarrow> vec_get (m_kinds meta) i;
     n \<leftarrow> (if k = Hidden then node (g_pool g) (v_root v) else Some Blank);
     case n of
       Repeat content \<Rightarrow> do {
         width \<leftarrow> eval_width (g_pool g) (zero_width x) content;
         if eof_nullable width then do { nm \<leftarrow> resolve (str_pool (g_pool g)) (v_name v); Some (Inl nm) }
         else and_then (expand_root H (v_name v) content (g_pool g, x, 0)) (\<lambda>(pool, x, _). do {
           (pool, root) \<leftarrow> wrap_in_binary_tree pool (non_terminal i) content;
           Some (Inr (g\<lparr>g_pool := pool, g_variables := (g_variables g)[i := v\<lparr>v_root := root\<rparr>]\<rparr>,
             meta\<lparr>m_kinds := (m_kinds meta)[i := Auxiliary], m_inline := filter (\<lambda>s. s \<noteq> non_terminal i) (m_inline meta)\<rparr>, x))
         })
       }
     | _ \<Rightarrow> and_then (expand_root H (v_name v) (v_root v) (g_pool g, x, 0)) (\<lambda>(pool, x, _). Some (Inr (g\<lparr>g_pool := pool\<rparr>, meta, x)))
   })"

fun expand_variables :: "'t hashing \<Rightarrow> nat list \<Rightarrow> 't InputGrammar \<times> ExtractedGrammarMeta \<times> Expander \<Rightarrow>
    (string + 't InputGrammar \<times> ExtractedGrammarMeta \<times> Expander) option" where
  "expand_variables H [] s = Some (Inr s)"
| "expand_variables H (i # is) s = and_then (expand_variable H i s) (expand_variables H is)"

definition expand_repeats :: "'t hashing \<Rightarrow> 't InputGrammar \<Rightarrow> ExtractedGrammarMeta \<Rightarrow> (string + 't InputGrammar \<times> ExtractedGrammarMeta) option" where
  "expand_repeats H g meta = do {
     z \<leftarrow> zero_width_new (g_pool g) (g_variables g);
     let x = \<lparr>preceding = length (g_variables g), aux = [], memo = (\<lambda>_. []), zero_width = z\<rparr>;
     and_then (expand_variables H [0 ..< length (g_variables g)] (g, meta, x)) (\<lambda>(g, meta, x).
       Some (Inr (g\<lparr>g_variables := g_variables g @ aux x\<rparr>, meta\<lparr>m_kinds := m_kinds meta @ map (\<lambda>_. Auxiliary) (aux x)\<rparr>)))
   }"

section \<open>Pools during the expansion\<close>

definition is_repeat :: "Rule \<Rightarrow> bool" where
  "is_repeat n = (case n of Repeat _ \<Rightarrow> True | _ \<Rightarrow> False)"

definition is_sym :: "Rule \<Rightarrow> bool" where
  "is_sym n = (case n of Sym _ _ \<Rightarrow> True | _ \<Rightarrow> False)"

lemma is_repeat_simps [simp]: "is_repeat (Repeat c)" "\<not> is_repeat (Sym k m)" "\<not> is_repeat (rule_of_symbol s)" "is_sym (rule_of_symbol s)"
  by (simp_all add: is_repeat_def is_sym_def rule_of_symbol_def)

lemma is_repeat_not_sym: "is_repeat n \<Longrightarrow> \<not> is_sym n"
  by (simp add: is_repeat_def is_sym_def split: Rule.splits)

text \<open>The pool grows, and among its first \<open>N\<close> nodes repetitions become symbols.\<close>

definition evolves :: "nat \<Rightarrow> 't RulePool \<Rightarrow> 't RulePool \<Rightarrow> bool" where
  "evolves N P P' \<longleftrightarrow> (\<exists>cs. children P' = children P @ cs) \<and> params_vec P' = params_vec P \<and> length (nodes P) \<le> length (nodes P') \<and>
     (\<forall>i < length (nodes P). nodes P' ! i = nodes P ! i \<or> i < N \<and> is_repeat (nodes P ! i) \<and> is_sym (nodes P' ! i))"

lemma evolves_refl [simp]: "evolves N P P"
  by (simp add: evolves_def)

lemma evolves_trans:
  assumes "evolves N P Q" "evolves N Q R"
  shows "evolves N P R"
proof -
  have "nodes R ! i = nodes P ! i \<or> i < N \<and> is_repeat (nodes P ! i) \<and> is_sym (nodes R ! i)" if i: "i < length (nodes P)" for i
  proof -
    have "i < length (nodes Q)" using i assms(1) by (simp add: evolves_def)
    then have "nodes R ! i = nodes Q ! i \<or> i < N \<and> is_repeat (nodes Q ! i) \<and> is_sym (nodes R ! i)" using assms(2) by (simp add: evolves_def)
    moreover have "nodes Q ! i = nodes P ! i \<or> i < N \<and> is_repeat (nodes P ! i) \<and> is_sym (nodes Q ! i)" using i assms(1) by (simp add: evolves_def)
    ultimately show ?thesis by (metis is_repeat_not_sym)
  qed
  then show ?thesis using assms by (auto simp: evolves_def)
qed

lemma evolves_node: "evolves N P P' \<Longrightarrow> node P i = Some n \<Longrightarrow> \<not> is_repeat n \<or> N \<le> i \<Longrightarrow> node P' i = Some n"
  by (auto simp: evolves_def node_def vec_get_def split: if_splits)

lemma evolves_repeat:
  assumes "evolves N P P'" "node P i = Some (Repeat c)"
  shows "node P' i = Some (Repeat c) \<or> (\<exists>k m. node P' i = Some (Sym k m))"
proof -
  have i: "i < length (nodes P)" "nodes P ! i = Repeat c" using assms(2) by (auto simp: node_def vec_get_def split: if_splits)
  then have "i < length (nodes P')" "nodes P' ! i = Repeat c \<or> is_sym (nodes P' ! i)" using assms(1) by (auto simp: evolves_def)
  then show ?thesis by (cases "nodes P' ! i") (simp_all add: node_def vec_get_def is_sym_def)
qed

lemma evolves_child_slice: "evolves N P P' \<Longrightarrow> child_slice P r = Some cs \<Longrightarrow> child_slice P' r = Some cs"
  by (auto simp: evolves_def child_slice_def vec_slice_append)

lemma evolves_params: "evolves N P P' \<Longrightarrow> params P i = params P' i"
  by (auto simp: evolves_def params_def)

lemma evolves_grows: "grows P P' \<Longrightarrow> params_vec P' = params_vec P \<Longrightarrow> evolves N P P'"
  by (auto simp: evolves_def grows_def nth_append)

lemma evolves_strings: "evolves N P (P\<lparr>str_pool := sp\<rparr>)"
  by (simp add: evolves_def)

lemma evolves_set_node:
  "set_node P i (rule_of_symbol y) = Some P' \<Longrightarrow> i < N \<Longrightarrow> node P i = Some (Repeat c) \<Longrightarrow> evolves N P P'"
  by (auto simp: evolves_def set_node_def vec_set_def node_def vec_get_def nth_list_update split: if_splits)

lemma node_less: "node P i = Some n \<Longrightarrow> i < length (nodes P)"
  by (simp add: node_def vec_get_def split: if_splits)

lemma rep_functional: "rep P i t \<Longrightarrow> rep P i u \<Longrightarrow> t = u"
  using subtree_eq_rep [of P i t i t] subtree_eq_rep [of P i t i u] by simp

text \<open>A node of the pool at the start, with the tree it stands for there.\<close>

definition orig :: "'t RulePool \<Rightarrow> nat \<Rightarrow> RuleId \<Rightarrow> rtree \<Rightarrow> bool" where
  "orig P0 n i t \<longleftrightarrow> rep P0 i t \<and> refs_below n t \<and> syntactic t"

lemma orig_list: "list_all2 (rep P0) cs ts \<Longrightarrow> \<forall>t \<in> set ts. refs_below n t \<and> syntactic t \<Longrightarrow> list_all2 (orig P0 n) cs ts"
  by (induction rule: list_all2_induct) (simp_all add: orig_def)

lemma orig_seq: "orig P0 n i (TSeq ts) \<Longrightarrow> \<exists>r cs. node P0 i = Some (Seq r) \<and> child_slice P0 r = Some cs \<and> list_all2 (orig P0 n) cs ts"
  unfolding orig_def [of P0 n i] by (elim conjE rep_cases(7)) (auto intro: orig_list)

lemma orig_choice: "orig P0 n i (TChoice ts) \<Longrightarrow> \<exists>r cs. node P0 i = Some (Choice r) \<and> child_slice P0 r = Some cs \<and> list_all2 (orig P0 n) cs ts"
  unfolding orig_def [of P0 n i] by (elim conjE rep_cases(8)) (auto intro: orig_list)

text \<open>Every such node still stands for its tree, with some repetitions replaced.\<close>

definition keeps :: "'t RulePool \<Rightarrow> nat \<Rightarrow> rtree list \<Rightarrow> 't RulePool \<Rightarrow> bool" where
  "keeps P0 n A P \<longleftrightarrow> (\<forall>i t. orig P0 n i t \<longrightarrow> (\<exists>t'. rep P i t' \<and> expanded n A t t'))"

lemma keepsD: "keeps P0 n A P \<Longrightarrow> orig P0 n i t \<Longrightarrow> \<exists>t'. rep P i t' \<and> expanded n A t t'"
  by (simp add: keeps_def)

lemma keeps_start: "keeps P0 n [] P0"
  by (auto simp: keeps_def orig_def intro: expanded_refl)

lemma keeps_grows: "keeps P0 n A P \<Longrightarrow> grows P P' \<Longrightarrow> keeps P0 n A P'"
  unfolding keeps_def by (meson rep_grows)

lemma keeps_list: "keeps P0 n A P \<Longrightarrow> list_all2 (orig P0 n) is ts \<Longrightarrow> \<exists>ts'. list_all2 (rep P) is ts' \<and> list_all2 (expanded n A) ts ts'"
proof (induction "is" arbitrary: ts)
  case (Cons i "is")
  then obtain t us where "ts = t # us" "orig P0 n i t" "list_all2 (orig P0 n) is us" by (auto simp: list_all2_Cons1)
  then show ?case using keepsD [OF Cons.prems(1), of i t] Cons.IH [OF Cons.prems(1), of us] by (metis list_all2_Cons)
qed simp

lemma rep_strings: "rep P i t \<Longrightarrow> rep (P\<lparr>str_pool := sp\<rparr>) i t"
proof (induction rule: rep.induct)
  case (rep_Seq i r cs ts)
  then show ?case by (auto intro!: rep.rep_Seq simp: node_def child_slice_def elim: list_all2_mono)
next
  case (rep_Choice i r cs ts)
  then show ?case by (auto intro!: rep.rep_Choice simp: node_def child_slice_def elim: list_all2_mono)
qed (auto intro: rep.intros simp: node_def params_def)

lemma keeps_strings: "keeps P0 n A P \<Longrightarrow> keeps P0 n A (P\<lparr>str_pool := sp\<rparr>)"
  unfolding keeps_def using rep_strings by blast

text \<open>Nodes below which the walk meets no repetition; they stay so.\<close>

definition cleaned :: "'t RulePool \<Rightarrow> RuleId \<Rightarrow> bool" where
  "cleaned P i \<longleftrightarrow> (\<exists>t. rep P i t \<and> repeated t = [])"

lemma clean_list:
  "list_all2 (\<lambda>c t. \<forall>t'. rep P' c t' \<longrightarrow> repeated t = [] \<longrightarrow> repeated t' = []) cs ts \<Longrightarrow> list_all2 (rep P') cs ts' \<Longrightarrow>
    concat (map repeated ts) = [] \<Longrightarrow> concat (map repeated ts') = []"
  by (induction arbitrary: ts' rule: list_all2_induct) (auto simp: list_all2_Cons1)

lemma clean_evolves: "rep P i t \<Longrightarrow> evolves N P P' \<Longrightarrow> \<forall>t'. rep P' i t' \<longrightarrow> repeated t = [] \<longrightarrow> repeated t' = []"
proof (induction rule: rep.induct)
  case (rep_Seq i r cs ts)
  have n: "node P' i = Some (Seq r)" "child_slice P' r = Some cs" using evolves_node [OF rep_Seq.prems rep_Seq(1)] evolves_child_slice [OF rep_Seq.prems rep_Seq(2)] by (simp_all add: is_repeat_def)
  have "list_all2 (\<lambda>c t. \<forall>t'. rep P' c t' \<longrightarrow> repeated t = [] \<longrightarrow> repeated t' = []) cs ts" by (rule list_all2_mono [OF rep_Seq(3)]) (use rep_Seq.prems in blast)
  from clean_list [OF this] show ?case using n by (auto dest!: rep_node)
next
  case (rep_Choice i r cs ts)
  have n: "node P' i = Some (Choice r)" "child_slice P' r = Some cs" using evolves_node [OF rep_Choice.prems rep_Choice(1)] evolves_child_slice [OF rep_Choice.prems rep_Choice(2)] by (simp_all add: is_repeat_def)
  have "list_all2 (\<lambda>c t. \<forall>t'. rep P' c t' \<longrightarrow> repeated t = [] \<longrightarrow> repeated t' = []) cs ts" by (rule list_all2_mono [OF rep_Choice(3)]) (use rep_Choice.prems in blast)
  from clean_list [OF this] show ?case using n by (auto dest!: rep_node)
next
  case (rep_Meta i pid c p t)
  have "node P' i = Some (Metadata pid c)" using evolves_node [OF rep_Meta.prems rep_Meta(1)] by (simp add: is_repeat_def)
  then have "\<exists>q u. t' = TMeta q u \<and> rep P' c u" if "rep P' i t'" for t' using rep_node [OF that] by auto
  then show ?case using rep_Meta.IH [OF rep_Meta.prems] by fastforce
next
  case (rep_Reserved i c ctx t)
  have "node P' i = Some (Reserved c ctx)" using evolves_node [OF rep_Reserved.prems rep_Reserved(1)] by (simp add: is_repeat_def)
  then show ?case by (auto dest!: rep_node)
qed (simp | drule evolves_node, assumption, simp add: is_repeat_def, auto dest!: rep_node)+

lemma cleaned_evolves: "cleaned P i \<Longrightarrow> evolves N P P' \<Longrightarrow> rep P' i t' \<Longrightarrow> repeated t' = []"
  unfolding cleaned_def using clean_evolves by blast

lemma cleaned_grows: "cleaned P i \<Longrightarrow> grows P P' \<Longrightarrow> cleaned P' i"
  unfolding cleaned_def using rep_grows by blast

lemma cleaned_strings: "cleaned P i \<Longrightarrow> cleaned (P\<lparr>str_pool := sp\<rparr>) i"
  unfolding cleaned_def using rep_strings by blast

lemma cleaned_keeps:
  assumes "list_all2 (orig P0 n) es ss" "list_all (cleaned P) es" "evolves N P P'" "keeps P0 n A P'"
  shows "list_all (cleaned P') es"
  using assms(1,2)
proof (induction rule: list_all2_induct)
  case (Cons e es s ss)
  obtain t where "rep P' e t" using keepsD [OF assms(4) Cons.hyps(1)] by blast
  then show ?case using Cons cleaned_evolves [OF _ assms(3)] unfolding cleaned_def by auto
qed simp

lemma cleaned_list_iff: "list_all2 (rep P) cs ts \<Longrightarrow> list_all (cleaned P) cs \<longleftrightarrow> concat (map repeated ts) = []"
proof (induction rule: list_all2_induct)
  case (Cons c cs t ts)
  then have "cleaned P c \<longleftrightarrow> repeated t = []" unfolding cleaned_def using rep_functional by blast
  then show ?case using Cons by simp
qed simp

lemma cleaned_choice:
  assumes "cleaned P i" "node P i = Some (Choice r)" "child_slice P r = Some cs"
  shows "list_all (cleaned P) cs"
proof -
  obtain t where t: "rep P i t" "repeated t = []" using assms(1) by (auto simp: cleaned_def)
  obtain ts where "list_all2 (rep P) cs ts" "t = TChoice ts" using rep_node [OF t(1)] assms(2,3) by auto
  then show ?thesis using t(2) cleaned_list_iff by fastforce
qed

text \<open>The binary tree of the variable \<open>m\<close> over the content \<open>u\<close>, built from nodes of the pool at the start.\<close>

definition wraps :: "'t RulePool \<Rightarrow> nat \<Rightarrow> 't RulePool \<Rightarrow> nat \<Rightarrow> RuleId \<Rightarrow> rtree \<Rightarrow> bool" where
  "wraps P0 n P m root u \<longleftrightarrow> (\<exists>s1 s2 sq r es ss. length (nodes P0) \<le> s1 \<and> length (nodes P0) \<le> s2 \<and> length (nodes P0) \<le> sq \<and>
     node P s1 = Some (Sym NonTerminal m) \<and> node P s2 = Some (Sym NonTerminal m) \<and> node P sq = Some (Seq r) \<and> child_slice P r = Some [s1, s2] \<and>
     list_all2 (orig P0 n) es ss \<and> list_all (cleaned P) es \<and> set ss \<subseteq> set (flat u) \<and> set (flat u) \<subseteq> insert (pair m) (set ss) \<and>
     (if es = [] then root = sq else length (nodes P0) \<le> root \<and> (\<exists>r. node P root = Some (Choice r) \<and> child_slice P r = Some (sq # es))))"

lemma wraps_evolves:
  assumes "wraps P0 n P m root u" "evolves (length (nodes P0)) P P'" "keeps P0 n A P'"
  shows "wraps P0 n P' m root u"
proof -
  note old = evolves_node [OF assms(2) _ disjI2] and slice = evolves_child_slice [OF assms(2)]
  obtain s1 s2 sq r es ss where w: "length (nodes P0) \<le> s1" "length (nodes P0) \<le> s2" "length (nodes P0) \<le> sq"
    "node P s1 = Some (Sym NonTerminal m)" "node P s2 = Some (Sym NonTerminal m)" "node P sq = Some (Seq r)" "child_slice P r = Some [s1, s2]"
    "list_all2 (orig P0 n) es ss" "set ss \<subseteq> set (flat u)" "set (flat u) \<subseteq> insert (pair m) (set ss)"
    "if es = [] then root = sq else length (nodes P0) \<le> root \<and> (\<exists>r. node P root = Some (Choice r) \<and> child_slice P r = Some (sq # es))" "list_all (cleaned P) es"
    using assms(1) unfolding wraps_def by blast
  have "list_all (cleaned P') es" by (rule cleaned_keeps [OF w(8,12) assms(2,3)])
  moreover have "if es = [] then root = sq else length (nodes P0) \<le> root \<and> (\<exists>r. node P' root = Some (Choice r) \<and> child_slice P' r = Some (sq # es))"
    using w(11) old slice by (auto split: if_splits)
  ultimately show ?thesis unfolding wraps_def using w(1-10) old slice
    by (intro exI [of _ s1] exI [of _ s2] exI [of _ sq] exI [of _ r] exI [of _ es] exI [of _ ss]) simp
qed

lemma pair_rep:
  "node P s1 = Some (Sym NonTerminal m) \<Longrightarrow> node P s2 = Some (Sym NonTerminal m) \<Longrightarrow> node P sq = Some (Seq r) \<Longrightarrow> child_slice P r = Some [s1, s2] \<Longrightarrow>
    rep P sq (pair m)"
  by (rule rep_Seq [of _ _ r "[s1, s2]"]) (auto intro: rep_Sym)

lemma wraps_tree:
  assumes "wraps P0 n P m root u" "keeps P0 n A P"
  shows "\<exists>v. rep P root v \<and> binary_tree n A m u v \<and> repeated v = []"
proof -
  obtain s1 s2 sq r es ss where w: "node P s1 = Some (Sym NonTerminal m)" "node P s2 = Some (Sym NonTerminal m)" "node P sq = Some (Seq r)" "child_slice P r = Some [s1, s2]"
    "list_all2 (orig P0 n) es ss" "set ss \<subseteq> set (flat u)" "set (flat u) \<subseteq> insert (pair m) (set ss)"
    "if es = [] then root = sq else length (nodes P0) \<le> root \<and> (\<exists>r. node P root = Some (Choice r) \<and> child_slice P r = Some (sq # es))" "list_all (cleaned P) es"
    using assms(1) unfolding wraps_def by blast
  have sq: "rep P sq (pair m)" by (rule pair_rep [OF w(1-4)])
  obtain ss' where ss': "list_all2 (rep P) es ss'" "list_all2 (expanded n A) ss ss'" using keeps_list [OF assms(2) w(5)] by blast
  have empty: "es = [] \<longleftrightarrow> ss = []" using list_all2_lengthD [OF w(5)] by auto
  have "rep P root (if ss = [] then pair m else TChoice (pair m # ss'))"
  proof (cases "es = []")
    case False
    then obtain q where "node P root = Some (Choice q)" "child_slice P q = Some (sq # es)" using w(8) by auto
    then show ?thesis using sq ss'(1) False empty by (auto intro: rep_Choice)
  qed (use w(8) sq empty in simp)
  moreover have "concat (map repeated ss') = []" using w(9) cleaned_list_iff [OF ss'(1)] by simp
  then have "repeated (if ss = [] then pair m else TChoice (pair m # ss')) = []" by simp
  ultimately show ?thesis using w(6,7) ss'(2) unfolding binary_tree_def by blast
qed

text \<open>No tree at the start expands to the pair of a fresh variable, and only the pair itself to that of a given one.\<close>

lemma expanded_pair: "expanded n A t (pair m) \<Longrightarrow> m < n \<or> m = n + length A \<Longrightarrow> t = pair m"
  by (auto simp: expanded_to list_all2_Cons2)

lemma wrap_loop_correct:
  assumes k: "keeps P0 n A P" and ev: "evolves (length (nodes P0)) P0 P" and m: "m < n \<or> m = n + length A" and sq: "rep P sq (pair m)"
  shows "list_all2 (orig P0 n) stack us \<Longrightarrow> list_all2 (orig P0 n) es ss \<Longrightarrow> list_all (cleaned P) stack \<Longrightarrow> list_all (cleaned P) es \<Longrightarrow> \<exists>es' ss'. wrap_loop P stack (sq # es) = Some (sq # es') \<and> list_all2 (orig P0 n) es' ss' \<and> list_all (cleaned P) es' \<and>
    set ss \<subseteq> set ss' \<and> set ss' \<subseteq> set ss \<union> set (concat (map flat us)) \<and> set (concat (map flat us)) \<subseteq> insert (pair m) (set ss') \<and>
    length es' \<le> length es + length (concat (map flat us))"
proof (induction "sum_list (map tsize us)" arbitrary: stack us es ss rule: less_induct)
  case less
  show ?case
  proof (cases stack)
    case Nil
    then show ?thesis using less.prems by (subst wrap_loop.simps) auto
  next
    case (Cons i stack')
    obtain t us' where t: "us = t # us'" "orig P0 n i t" "list_all2 (orig P0 n) stack' us'"
      using less.prems(1) Cons by (auto simp: list_all2_Cons1)
    obtain t' where t': "rep P i t'" "expanded n A t t'" using keepsD [OF k t(2)] by blast
    show ?thesis
    proof (cases "\<exists>vs. t = TChoice vs")
      case True
      then obtain r cs vs where c: "t = TChoice vs" "node P0 i = Some (Choice r)" "child_slice P0 r = Some cs" "list_all2 (orig P0 n) cs vs"
        using t(2) orig_choice by blast
      have os: "list_all2 (orig P0 n) (cs @ stack') (vs @ us')" by (rule list_all2_appendI [OF c(4) t(3)])
      have nP: "node P i = Some (Choice r)" "child_slice P r = Some cs" using evolves_node [OF ev c(2)] evolves_child_slice [OF ev c(3)] by (simp_all add: is_repeat_def)
      then have "list_all (cleaned P) (cs @ stack')" using less.prems(3) Cons cleaned_choice [OF _ nP] by simp
      from less.hyps [OF _ os less.prems(2) this less.prems(4)] obtain es' ss' where
        r: "wrap_loop P (cs @ stack') (sq # es) = Some (sq # es')" "list_all2 (orig P0 n) es' ss'" "list_all (cleaned P) es'" "set ss \<subseteq> set ss'"
        "set ss' \<subseteq> set ss \<union> set (concat (map flat us))" "set (concat (map flat us)) \<subseteq> insert (pair m) (set ss')" "length es' \<le> length es + length (concat (map flat us))"
        using t(1) c(1) by auto
      have "wrap_loop P stack (sq # es) = Some (sq # es')" using r(1) Cons nP by (subst wrap_loop.simps) simp
      then show ?thesis using r(2-) by blast
    next
      case False
      then have flat_t: "flat t = [t]" by (cases t) simp_all
      have size: "sum_list (map tsize us') < sum_list (map tsize us)" using t(1) by (cases t) simp_all
      obtain xs where xs: "list_all2 (rep P) es xs" "list_all2 (expanded n A) ss xs" using keeps_list [OF k less.prems(2)] by blast
      have "t' \<noteq> TChoice vs" for vs using t'(2) False by (auto simp: expanded_to)
      then obtain nd where nd: "node P i = Some nd" "\<forall>r. nd \<noteq> Choice r" using rep_node [OF t'(1)] by fastforce
      have dup: "any_eq P (sq # es) i = Some (t' \<in> set (pair m # xs))" by (rule any_eq_rep) (use sq xs t' in simp_all)
      have known: "t \<in> insert (pair m) (set ss)" if "t' \<in> set (pair m # xs)"
        using that expanded_pair [OF _ m] t'(2) list_all2_partner(2) [OF xs(2)] expanded_inj by (metis insert_iff list.set(2))
      define d where "d \<longleftrightarrow> t' \<in> set (pair m # xs)"
      define es1 ss1 where "es1 = (if d then es else es @ [i])" and "ss1 = (if d then ss else ss @ [t])"
      have os: "list_all2 (orig P0 n) es1 ss1" using less.prems(2) t(2) by (auto simp: es1_def ss1_def intro: list_all2_appendI)
      have "list_all (cleaned P) stack'" "list_all (cleaned P) es1" using less.prems(3,4) Cons by (simp_all add: es1_def)
      from less.hyps [OF size t(3) os this] obtain es' ss' where
        r: "wrap_loop P stack' (sq # es1) = Some (sq # es')" "list_all2 (orig P0 n) es' ss'" "list_all (cleaned P) es'" "set ss1 \<subseteq> set ss'"
        "set ss' \<subseteq> set ss1 \<union> set (concat (map flat us'))" "set (concat (map flat us')) \<subseteq> insert (pair m) (set ss')" "length es' \<le> length es1 + length (concat (map flat us'))"
        by blast
      have "wrap_loop P stack (sq # es) = Some (sq # es')" using r(1) Cons nd dup
        by (subst wrap_loop.simps) (auto simp: es1_def d_def split: Rule.splits)
      moreover have "t \<in> insert (pair m) (set ss')" using known r(4) by (auto simp: ss1_def d_def split: if_splits)
      ultimately show ?thesis using r(2-) flat_t t(1) by (intro exI [of _ es'] exI [of _ ss']) (auto simp: es1_def ss1_def split: if_splits)
    qed
  qed
qed

lemma wrap_correct:
  assumes k: "keeps P0 n A P" and ev: "evolves (length (nodes P0)) P0 P" and m: "m < n \<or> m = n + length A" and u: "orig P0 n i u" "cleaned P i"
    and fits: "length (nodes P) + 4 < 2 ^ 32" "length (children P) + length (flat u) + 3 < 2 ^ 32" "m < 2 ^ 32"
  shows "\<exists>P' root. wrap_in_binary_tree P (non_terminal m) i = Some (P', root) \<and> grows P P' \<and> params_vec P' = params_vec P \<and> scratch P' = scratch P \<and>
    wraps P0 n P' m root u \<and> length (nodes P') \<le> length (nodes P) + 4 \<and> length (children P') \<le> length (children P) + length (flat u) + 3"
proof -
  let ?a = "length (nodes P)" and ?c = "length (children P)" and ?s = "Sym NonTerminal m"
  define Q where "Q = P\<lparr>nodes := nodes P @ [?s, ?s, Seq (RuleIdRange ?c 2)], children := children P @ [?a, ?a + 1]\<rparr>"
  have Q: "grows P Q" "node Q ?a = Some ?s" "node Q (?a + 1) = Some ?s" "node Q (?a + 2) = Some (Seq (RuleIdRange ?c 2))" "child_slice Q (RuleIdRange ?c 2) = Some [?a, ?a + 1]"
    by (auto simp: Q_def grows_def node_def vec_get_def nth_append child_slice_def vec_slice_def)
  have N: "length (nodes P0) \<le> ?a" using ev by (simp add: evolves_def)
  have evQ: "evolves (length (nodes P0)) P0 Q" by (rule evolves_trans [OF ev evolves_grows [OF Q(1)]]) (simp add: Q_def)
  have pr: "rep Q (?a + 2) (pair m)" by (rule pair_rep [OF Q(2-5)])
  obtain es ss where e: "wrap_loop Q [i] [?a + 2] = Some ((?a + 2) # es)" "list_all2 (orig P0 n) es ss" "list_all (cleaned Q) es" "set ss \<subseteq> set (flat u)"
    "set (flat u) \<subseteq> insert (pair m) (set ss)" "length es \<le> length (flat u)"
    using wrap_loop_correct [OF keeps_grows [OF k Q(1)] evQ m pr, of "[i]" "[u]" "[]" "[]"] u cleaned_grows [OF u(2) Q(1)] by auto
  have start: "wrap_in_binary_tree P (non_terminal m) i = do {
      elements \<leftarrow> wrap_loop Q [i] [?a + 2];
      if length elements = 1 then Some (Q, elements ! 0)
      else do { let (pool, r) = push_children Q elements; Some (push_node pool (Choice r)) } }"
    using fits by (cases P) (simp add: wrap_in_binary_tree_def push_node_def push_children_def non_terminal_def rule_of_symbol_def Q_def numeral_2_eq_2 cong: if_cong)
  show ?thesis
  proof (cases "es = []")
    case True
    have "wraps P0 n Q m (?a + 2) u" unfolding wraps_def using Q(2-) N e(2-5) True
      by (intro exI [of _ ?a] exI [of _ "?a + 1"] exI [of _ "?a + 2"] exI [of _ "RuleIdRange ?c 2"] exI [of _ es] exI [of _ ss]) auto
    then show ?thesis using start e(1) True Q(1) by (intro exI [of _ Q] exI [of _ "?a + 2"]) (simp add: Q_def)
  next
    case False
    let ?r = "RuleIdRange (?c + 2) (Suc (length es))"
    define R where "R = Q\<lparr>children := children Q @ (?a + 2) # es, nodes := nodes Q @ [Choice ?r]\<rparr>"
    have g: "grows Q R" by (simp add: R_def grows_def)
    have R: "node R (?a + 3) = Some (Choice ?r)" "child_slice R ?r = Some ((?a + 2) # es)"
      by (auto simp: R_def Q_def node_def vec_get_def nth_append child_slice_def vec_slice_def)
    have cl: "list_all (cleaned R) es" using e(3) cleaned_grows [OF _ g] by (simp add: list_all_iff)
    have "wrap_in_binary_tree P (non_terminal m) i = Some (R, ?a + 3)" using start e(1,6) False fits
      by (simp add: push_children_def push_node_def R_def Q_def)
    moreover have "wraps P0 n R m (?a + 3) u" unfolding wraps_def using grows_node [OF g] grows_child_slice [OF g] Q(2-) R N e(2,4,5) False cl
      by (intro exI [of _ ?a] exI [of _ "?a + 1"] exI [of _ "?a + 2"] exI [of _ "RuleIdRange ?c 2"] exI [of _ es] exI [of _ ss]) auto
    ultimately show ?thesis using grows_trans [OF Q(1) g] e(6) by (intro exI [of _ R] exI [of _ "?a + 3"]) (simp add: R_def Q_def)
  qed
qed

lemma keeps_more: "keeps P0 n A P \<Longrightarrow> keeps P0 n (A @ B) P"
  unfolding keeps_def using expanded_more by blast

lemma expanded_children:
  "list_all2 (\<lambda>c t'. rep P c t' \<and> (\<forall>t. expanded n A t t' \<longrightarrow> (\<exists>t''. rep P' c t'' \<and> expanded n A t t''))) cs ts \<Longrightarrow> list_all2 (expanded n A) us ts \<Longrightarrow>
    \<exists>vs. list_all2 (rep P') cs vs \<and> list_all2 (expanded n A) us vs"
proof (induction arbitrary: us rule: list_all2_induct)
  case (Cons c cs t' ts)
  then obtain u us' where u: "us = u # us'" "expanded n A u t'" "list_all2 (expanded n A) us' ts" by (auto simp: list_all2_Cons2)
  obtain vs where "list_all2 (rep P') cs vs" "list_all2 (expanded n A) us' vs" using Cons.IH [OF u(3)] by blast
  moreover obtain v where "rep P' c v" "expanded n A u v" using Cons.hyps(1) u(2) by blast
  ultimately show ?case using u(1) by (intro exI [of _ "v # vs"]) simp
qed simp

lemma keeps_set_node:
  assumes k: "keeps P0 n A P" and i: "orig P0 n i (TRepeat (A ! j))" "j < length A" and P': "set_node P i (Sym NonTerminal (n + j)) = Some P'"
  shows "keeps P0 n A P'"
proof -
  have other: "node P' k = node P k" if "k \<noteq> i" for k
    using that P' by (auto simp: set_node_def vec_set_def node_def vec_get_def split: if_splits)
  have same: "node P' i = Some (Sym NonTerminal (n + j))" "child_slice P' = child_slice P" "params P' = params P"
    using P' by (auto simp: set_node_def vec_set_def node_def vec_get_def child_slice_def params_def fun_eq_iff split: if_splits)
  obtain x where x: "rep P i x" "expanded n A (TRepeat (A ! j)) x" using keepsD [OF k i(1)] by blast
  have at: "\<exists>t''. rep P' i t'' \<and> expanded n A t t''" if "rep P i t'" "expanded n A t t'" for t t'
  proof -
    have "t' = x" by (rule rep_functional [OF that(1) x(1)])
    then have "t = TRepeat (A ! j)" using expanded_inj that(2) x(2) by blast
    then show ?thesis using ex_aux [OF i(2)] rep_Sym [OF same(1)] by blast
  qed
  have "\<forall>t. expanded n A t t' \<longrightarrow> (\<exists>t''. rep P' k t'' \<and> expanded n A t t'')" if "rep P k t'" for k t'
    using that
  proof (induction rule: rep.induct)
    case (rep_Seq k r cs ts)
    have "list_all2 (rep P) cs ts" by (rule list_all2_mono [OF rep_Seq(3)]) blast
    then have self: "rep P k (TSeq ts)" by (rule rep.rep_Seq [OF rep_Seq(1,2)])
    have "\<exists>t''. rep P' k t'' \<and> expanded n A t t''" if t: "expanded n A t (TSeq ts)" "k \<noteq> i" for t
    proof -
      obtain us where us: "t = TSeq us" "list_all2 (expanded n A) us ts" using t(1) by (auto simp: expanded_to)
      obtain vs where "list_all2 (rep P') cs vs" "list_all2 (expanded n A) us vs" using expanded_children [OF rep_Seq(3) us(2)] by blast
      moreover have "node P' k = Some (Seq r)" "child_slice P' r = Some cs" using rep_Seq(1,2) other [OF t(2)] same(2) by simp_all
      ultimately show ?thesis using us(1) rep.rep_Seq [of P' k r cs vs] ex_seq [of n A us vs] by blast
    qed
    then show ?case using at self by blast
  next
    case (rep_Choice k r cs ts)
    have "list_all2 (rep P) cs ts" by (rule list_all2_mono [OF rep_Choice(3)]) blast
    then have self: "rep P k (TChoice ts)" by (rule rep.rep_Choice [OF rep_Choice(1,2)])
    have "\<exists>t''. rep P' k t'' \<and> expanded n A t t''" if t: "expanded n A t (TChoice ts)" "k \<noteq> i" for t
    proof -
      obtain us where us: "t = TChoice us" "list_all2 (expanded n A) us ts" using t(1) by (auto simp: expanded_to)
      obtain vs where "list_all2 (rep P') cs vs" "list_all2 (expanded n A) us vs" using expanded_children [OF rep_Choice(3) us(2)] by blast
      moreover have "node P' k = Some (Choice r)" "child_slice P' r = Some cs" using rep_Choice(1,2) other [OF t(2)] same(2) by simp_all
      ultimately show ?thesis using us(1) rep.rep_Choice [of P' k r cs vs] ex_choice [of n A us vs] by blast
    qed
    then show ?case using at self by blast
  next
    case (rep_Repeat k c t)
    then show ?case using at rep.rep_Repeat [of P k c t] rep.rep_Repeat [of P' k c] other [of k]
      by (cases "k = i") (blast, auto simp: expanded_to, meson ex_repeat)
  next
    case (rep_Meta k pid c p t)
    then show ?case using at rep.rep_Meta [of P k pid c p t] rep.rep_Meta [of P' k pid c p] other [of k] same(3)
      by (cases "k = i") (blast, auto simp: expanded_to, meson ex_meta)
  next
    case (rep_Reserved k c ctx t)
    then show ?case using at rep.rep_Reserved [of P k c ctx t] rep.rep_Reserved [of P' k c ctx] other [of k]
      by (cases "k = i") (blast, auto simp: expanded_to, meson ex_reserved)
  next
    case (rep_Sym k kd q)
    then show ?case using at rep.rep_Sym [of P k kd q] rep.rep_Sym [of P' k kd q] other [of k] by metis
  next
    case (rep_Blank k)
    then show ?case using at rep.rep_Blank [of P k] rep.rep_Blank [of P' k] other [of k] by metis
  next
    case (rep_String k s)
    then show ?case using at rep.rep_String [of P k s] rep.rep_String [of P' k s] other [of k] by metis
  next
    case (rep_Pattern k s f)
    then show ?case using at rep.rep_Pattern [of P k s f] rep.rep_Pattern [of P' k s f] other [of k] by metis
  next
    case (rep_Named k s)
    then show ?case using at rep.rep_Named [of P k s] rep.rep_Named [of P' k s] other [of k] by metis
  next
    case (rep_Eof k)
    then show ?case using at rep.rep_Eof [of P k] rep.rep_Eof [of P' k] other [of k] by metis
  qed
  then show ?thesis using k unfolding keeps_def by blast
qed

lemma length_digits: "0 < k \<Longrightarrow> c < 10 ^ k \<Longrightarrow> length (digits c) \<le> k"
proof (induction c arbitrary: k rule: digits.induct)
  case (1 c)
  show ?case
  proof (cases "c < 10")
    case True
    then show ?thesis using 1(2) by (subst digits.simps) simp
  next
    case False
    then have "1 < k" using 1(2,3) by (cases "k = 1") auto
    then obtain k' where k': "k = Suc k'" "0 < k'" by (cases k) auto
    then have "c div 10 < 10 ^ k'" using 1(3) by (simp add: less_mult_imp_div_less)
    then have "length (digits (c div 10)) \<le> k'" using 1(1) [OF False, of k'] k'(2) by simp
    then show ?thesis using False k'(1) by (subst digits.simps) simp
  qed
qed

lemma pool_intern_correct:
  assumes "hash_table_laws (table_ops H) ent" "holds ent (hash_str H) (str_pool P) strs" "length (concat strs) + length s < 2 ^ 32" "length strs < 2 ^ 32"
  shows "\<exists>sp sid strs'. pool_intern H P s = Some (P\<lparr>str_pool := sp\<rparr>, sid) \<and> holds ent (hash_str H) sp strs' \<and> (strs' = strs \<or> strs' = strs @ [s]) \<and>
    id_index sid < length strs' \<and> strs' ! id_index sid = s"
proof (cases "s \<in> set strs")
  case True
  then obtain i where i: "i < length strs" "s = strs ! i" by (metis in_set_conv_nth)
  show ?thesis using intern_old [OF assms(1,2) i(1)] i assms(2)
    by (intro exI [of _ "str_pool P"] exI [of _ "Suc i"] exI [of _ strs]) (simp add: pool_intern_def id_index_def)
next
  case False
  show ?thesis
  proof -
    obtain sp where "intern (table_ops H) (hash_str H) (str_pool P) s = Some (sp, Suc (length strs))" "holds ent (hash_str H) sp (strs @ [s])"
      using intern_new [OF assms(1,2) False assms(3,4)] by blast
    then show ?thesis by (intro exI [of _ sp] exI [of _ "Suc (length strs)"] exI [of _ "strs @ [s]"]) (simp add: pool_intern_def id_index_def)
  qed
qed

section \<open>The invariant of the expansion\<close>

text \<open>The nodes among the first \<open>N\<close> that are still repetitions.\<close>

definition pending :: "nat \<Rightarrow> 't RulePool \<Rightarrow> nat" where
  "pending N P = length (filter is_repeat (take N (nodes P)))"

text \<open>Enough room for \<open>q\<close> more auxiliary variables: their nodes, children, names and symbols fit in 32 bits.\<close>

definition room :: "nat \<Rightarrow> nat \<Rightarrow> nat \<Rightarrow> 't RulePool \<Rightarrow> string list \<Rightarrow> nat \<Rightarrow> bool" where
  "room n M L P strs q \<longleftrightarrow> length (nodes P) + 4 * q < 2 ^ 32 \<and> length (children P) + (M + 3) * q < 2 ^ 32 \<and>
     length strs + q < 2 ^ 32 \<and> length (concat strs) + (L + 17) * q < 2 ^ 32 \<and> n + q < 2 ^ 32"

text \<open>No repetition that the walk reaches can match the empty string at the end of the input.\<close>

definition harmless :: "Width list \<Rightarrow> rtree \<Rightarrow> bool" where
  "harmless tbl t \<longleftrightarrow> (\<forall>u \<in> set (repeated t). \<not> eof_nullable (twidth tbl u))"

definition aux_name :: "string set \<Rightarrow> string list \<Rightarrow> StrId \<Rightarrow> bool" where
  "aux_name Nm strs sid \<longleftrightarrow> id_index sid < length strs \<and> (\<exists>b \<in> Nm. \<exists>k. strs ! id_index sid = b @ ''_repeat'' @ digits k)"

definition memo_ok :: "'t RulePool \<Rightarrow> nat \<Rightarrow> rtree list \<Rightarrow> (u64 \<Rightarrow> (RuleId \<times> Symbol) list) \<Rightarrow> bool" where
  "memo_ok P0 n A f \<longleftrightarrow> (\<forall>h ct sy. (ct, sy) \<in> set (f h) \<longrightarrow> (\<exists>j < length A. sy = non_terminal (n + j) \<and> orig P0 n ct (A ! j)))"

definition expanding :: "'t hashing \<Rightarrow> ('t \<Rightarrow> (u64 \<times> nat) set) \<Rightarrow> 't RulePool \<Rightarrow> Width list \<Rightarrow> nat \<Rightarrow> nat \<Rightarrow> string set \<Rightarrow> rtree set \<Rightarrow> nat \<Rightarrow>
    rtree list \<Rightarrow> string list \<Rightarrow> 't RulePool \<Rightarrow> Expander \<Rightarrow> bool" where
  "expanding H ent P0 tbl M L Nm U q A strs P x \<longleftrightarrow>
     evolves (length (nodes P0)) P0 P \<and> keeps P0 (length tbl) A P \<and> holds ent (hash_str H) (str_pool P) strs \<and>
     preceding x = length tbl \<and> zero_width x = tbl @ map (twidth tbl) A \<and> memo_ok P0 (length tbl) A (memo x) \<and> length (aux x) = length A \<and>
     (\<forall>j < length A. wraps P0 (length tbl) P (length tbl + j) (v_root (aux x ! j)) (A ! j) \<and> aux_name Nm strs (v_name (aux x ! j))) \<and>
     (\<forall>u \<in> set A. refs_below (length tbl) u \<and> u \<in> U \<and> harmless tbl (TRepeat u)) \<and>
     room (length tbl + length A) M L P strs q"

text \<open>What holds throughout: the laws of the hash table and the bounds on flattened choices and on names.\<close>

definition bounded :: "'t hashing \<Rightarrow> ('t \<Rightarrow> (u64 \<times> nat) set) \<Rightarrow> 't RulePool \<Rightarrow> nat \<Rightarrow> nat \<Rightarrow> nat \<Rightarrow> string set \<Rightarrow> bool" where
  "bounded H ent P0 n M L Nm \<longleftrightarrow> hash_table_laws (table_ops H) ent \<and> (\<forall>i t. orig P0 n i t \<longrightarrow> length (flat t) \<le> M) \<and> (\<forall>b \<in> Nm. length b \<le> L)"

text \<open>The budget \<open>q\<close> is enough for every repetition that is left and for \<open>R\<close> more binary trees; the counter \<open>c\<close> does not overflow.\<close>

definition affordable :: "nat \<Rightarrow> 't RulePool \<Rightarrow> nat \<Rightarrow> nat \<Rightarrow> nat \<Rightarrow> bool" where
  "affordable N P c q R \<longleftrightarrow> pending N P + R \<le> q \<and> c + pending N P < 2 ^ 32"

lemma expandingI:
  assumes "evolves (length (nodes P0)) P0 P" "keeps P0 (length tbl) A P" "holds ent (hash_str H) (str_pool P) strs"
    "preceding x = length tbl" "zero_width x = tbl @ map (twidth tbl) A" "memo_ok P0 (length tbl) A (memo x)" "length (aux x) = length A"
    "\<And>j. j < length A \<Longrightarrow> wraps P0 (length tbl) P (length tbl + j) (v_root (aux x ! j)) (A ! j) \<and> aux_name Nm strs (v_name (aux x ! j))"
    "\<And>u. u \<in> set A \<Longrightarrow> refs_below (length tbl) u \<and> u \<in> U \<and> harmless tbl (TRepeat u)"
    "room (length tbl + length A) M L P strs q"
  shows "expanding H ent P0 tbl M L Nm U q A strs P x"
  using assms by (simp add: expanding_def)

lemma expandingD:
  assumes "expanding H ent P0 tbl M L Nm U q A strs P x"
  shows "evolves (length (nodes P0)) P0 P" "keeps P0 (length tbl) A P" "holds ent (hash_str H) (str_pool P) strs"
    "preceding x = length tbl" "zero_width x = tbl @ map (twidth tbl) A" "memo_ok P0 (length tbl) A (memo x)" "length (aux x) = length A"
    "j < length A \<Longrightarrow> wraps P0 (length tbl) P (length tbl + j) (v_root (aux x ! j)) (A ! j) \<and> aux_name Nm strs (v_name (aux x ! j))"
    "u \<in> set A \<Longrightarrow> refs_below (length tbl) u \<and> u \<in> U \<and> harmless tbl (TRepeat u)"
    "room (length tbl + length A) M L P strs q"
  using assms by (simp_all add: expanding_def)

lemma filter_update: "i < length xs \<Longrightarrow> p (xs ! i) \<Longrightarrow> \<not> p y \<Longrightarrow> Suc (length (filter p (xs[i := y]))) = length (filter p xs)"
  by (induction xs arbitrary: i) (auto split: nat.splits)

lemma pending_set_node:
  assumes "set_node P i (rule_of_symbol y) = Some P'" "node P i = Some (Repeat ct)" "i < N"
  shows "Suc (pending N P') = pending N P"
proof -
  have i: "i < length (nodes P)" "nodes P ! i = Repeat ct" using assms(2) by (auto simp: node_def vec_get_def split: if_splits)
  have "nodes P' = (nodes P)[i := rule_of_symbol y]" using assms(1) by (auto simp: set_node_def vec_set_def split: if_splits)
  then show ?thesis using filter_update [of i "take N (nodes P)" is_repeat "rule_of_symbol y"] i assms(3) by (simp add: pending_def take_update_swap)
qed

lemma pending_same: "grows P P' \<Longrightarrow> N \<le> length (nodes P) \<Longrightarrow> pending N P' = pending N P"
  by (auto simp: pending_def grows_def)

lemma find_candidate_correct:
  assumes "\<And>ct sy. (ct, sy) \<in> set cands \<Longrightarrow> \<exists>t. rep P ct t" "rep P content u"
  shows "\<exists>r. find_candidate P content cands = Some r \<and> (case r of None \<Rightarrow> True | Some sy \<Rightarrow> \<exists>ct. (ct, sy) \<in> set cands \<and> rep P ct u)"
  using assms(1)
proof (induction cands)
  case (Cons e cands)
  obtain ct sy where e: "e = (ct, sy)" by (cases e)
  obtain t where t: "rep P ct t" using Cons.prems [of ct sy] e by auto
  have "subtree_eq P ct content = Some (t = u)" by (rule subtree_eq_rep [OF t assms(2)])
  moreover obtain r where "find_candidate P content cands = Some r" "case r of None \<Rightarrow> True | Some sy \<Rightarrow> \<exists>ct. (ct, sy) \<in> set cands \<and> rep P ct u"
    using Cons by auto
  ultimately show ?case using e t by (cases "t = u") (auto split: option.splits)
qed simp

lemma room_step:
  assumes "room n M L P strs (Suc q)" "length (nodes P') \<le> length (nodes P) + 4" "length (children P') \<le> length (children P) + M + 3"
    "length strs' \<le> Suc (length strs)" "length (concat strs') \<le> length (concat strs) + L + 17" "n' \<le> Suc n"
  shows "room n' M L P' strs' q"
  using assms by (simp add: room_def)

lemma expand_width:
  assumes "expanding H ent P0 tbl M L Nm U q A strs P x" "orig P0 (length tbl) ct u"
  shows "eval_width P (zero_width x) ct = Some (twidth tbl u)"
proof -
  obtain u' where u': "rep P ct u'" "expanded (length tbl) A u u'" using keepsD [OF expandingD(2) [OF assms(1)] assms(2)] by blast
  have "syntactic u'" using expanded_syntactic [OF u'(2)] assms(2) by (simp add: orig_def)
  then show ?thesis using eval_width_rep [OF u'(1)] expanded_width [OF refl u'(2)] expandingD(5) [OF assms(1)] by simp
qed

lemma expand_node_bad:
  assumes "expanding H ent P0 tbl M L Nm U q A strs P x" "orig P0 (length tbl) ct u" "eof_nullable (twidth tbl u)" "id_index nm < length strs"
  shows "expand_node H nm i ct (P, x, c) = Some (Inl (strs ! id_index nm))"
  using expand_width [OF assms(1,2)] assms(3,4) resolve_holds [OF expandingD(3) [OF assms(1)], of nm] by (simp add: expand_node_def)

lemma set_node_some: "node P i = Some n \<Longrightarrow> \<exists>P'. set_node P i m = Some P'"
  by (simp add: set_node_def vec_set_def node_def vec_get_def split: if_splits)

lemma set_node_facts:
  assumes "set_node P i m = Some P'"
  shows "length (nodes P') = length (nodes P)" "children P' = children P" "str_pool P' = str_pool P" "node P' i = Some m" "k \<noteq> i \<Longrightarrow> node P' k = node P k"
  using assms by (auto simp: set_node_def vec_set_def node_def vec_get_def split: if_splits)

text \<open>Replacing one repetition, when its content is already known.\<close>

lemma expand_known:
  assumes e: "expanding H ent P0 tbl M L Nm U q A strs P x" and i: "orig P0 (length tbl) i (TRepeat (A ! j))" "j < length A" "node P i = Some (Repeat ct)" "i < length (nodes P0)"
  shows "\<exists>P'. set_node P i (rule_of_symbol (non_terminal (length tbl + j))) = Some P' \<and> evolves (length (nodes P0)) P P' \<and>
    expanding H ent P0 tbl M L Nm U q A strs P' x"
proof -
  let ?n = "length tbl" and ?N = "length (nodes P0)" and ?y = "non_terminal (length tbl + j)"
  note d = expandingD [OF e]
  obtain P' where P': "set_node P i (rule_of_symbol ?y) = Some P'" using set_node_some [OF i(3)] by blast
  have j32: "?n + j < 2 ^ 32" using d(10) i(2) by (simp add: room_def)
  have y: "rule_of_symbol ?y = Sym NonTerminal (?n + j)" using as_u32_id [OF j32] by (simp add: rule_of_symbol_def non_terminal_def)
  have ev: "evolves ?N P P'" by (rule evolves_set_node [OF P' i(4,3)])
  note f = set_node_facts [OF P']
  have kp: "keeps P0 ?n A P'" by (rule keeps_set_node [OF d(2) i(1,2)]) (use P' y in simp)
  have "expanding H ent P0 tbl M L Nm U q A strs P' x"
  proof (rule expandingI)
    show "keeps P0 ?n A P'" by (rule kp)
    show "room (?n + length A) M L P' strs q" using d(10) f by (simp add: room_def)
    show "wraps P0 ?n P' (?n + k) (v_root (aux x ! k)) (A ! k) \<and> aux_name Nm strs (v_name (aux x ! k))" if "k < length A" for k
      using d(8) [OF that] wraps_evolves [OF _ ev kp] by blast
  qed (use d f evolves_trans [OF d(1) ev] in \<open>auto\<close>)
  then show ?thesis using P' ev by blast
qed

text \<open>Adding an auxiliary variable.\<close>

lemma memo_ok_add:
  assumes "memo_ok P0 n A f" "orig P0 n ct u"
  shows "memo_ok P0 n (A @ [u]) (f(h := f h @ [(ct, non_terminal (n + length A))]))"
  unfolding memo_ok_def
proof (intro allI impI)
  fix g ct' sy assume "(ct', sy) \<in> set ((f(h := f h @ [(ct, non_terminal (n + length A))])) g)"
  then consider "(ct', sy) \<in> set (f g)" | "ct' = ct" "sy = non_terminal (n + length A)" by (auto split: if_splits)
  then show "\<exists>j < length (A @ [u]). sy = non_terminal (n + j) \<and> orig P0 n ct' ((A @ [u]) ! j)"
  proof cases
    case 1
    then obtain j where "j < length A" "sy = non_terminal (n + j)" "orig P0 n ct' (A ! j)" using assms(1) unfolding memo_ok_def by blast
    then show ?thesis by (intro exI [of _ j]) (simp add: nth_append)
  next
    case 2
    then show ?thesis using assms(2) by (intro exI [of _ "length A"]) simp
  qed
qed

lemma aux_name_more: "aux_name Nm strs sid \<Longrightarrow> aux_name Nm (strs @ B) sid"
  by (auto simp: aux_name_def nth_append)

lemma add_aux_correct:
  assumes e: "expanding H ent P0 tbl M L Nm U (Suc q) A strs P x" and b: "bounded H ent P0 (length tbl) M L Nm"
    and nm: "id_index nm < length strs" "strs ! id_index nm \<in> Nm" and u: "orig P0 (length tbl) ct u" "harmless tbl (TRepeat u)" "cleaned P ct" "u \<in> U" and c: "c + 1 < 2 ^ 32"
  shows "\<exists>P' x' B. add_aux H nm (twidth tbl u) h ct (P, x, c) = Some ((P', x', c + 1), non_terminal (length tbl + length A)) \<and>
    (\<exists>ns. nodes P' = nodes P @ ns) \<and> evolves (length (nodes P0)) P P' \<and> expanding H ent P0 tbl M L Nm U q (A @ [u]) (strs @ B) P' x'"
proof -
  let ?n = "length tbl" and ?N = "length (nodes P0)" and ?s = "strs ! id_index nm @ ''_repeat'' @ digits (c + 1)"
  note d = expandingD [OF e] and bd = b [unfolded bounded_def]
  have base: "resolve (str_pool P) nm = Some (strs ! id_index nm)" using resolve_holds [OF d(3), of nm] nm(1) by simp
  have "length (digits (c + 1)) \<le> 10" by (rule length_digits) (use c in simp_all)
  then have len: "length ?s \<le> L + 17" using bd nm(2) by (auto dest: bspec)
  obtain sp sid strs' where i: "pool_intern H P ?s = Some (P\<lparr>str_pool := sp\<rparr>, sid)" "holds ent (hash_str H) sp strs'" "strs' = strs \<or> strs' = strs @ [?s]"
    "id_index sid < length strs'" "strs' ! id_index sid = ?s"
    using pool_intern_correct [OF _ d(3), of ?s] bd d(10) len by (auto simp: room_def)
  obtain B where B: "strs' = strs @ B" using i(3) by auto
  let ?P = "P\<lparr>str_pool := sp\<rparr>"
  have fl: "length (flat u) \<le> M" using bd u(1) by blast
  have ev1: "evolves ?N P ?P" by (rule evolves_strings)
  have "\<exists>P' root. wrap_in_binary_tree ?P (non_terminal (?n + length A)) ct = Some (P', root) \<and> grows ?P P' \<and> params_vec P' = params_vec ?P \<and> scratch P' = scratch ?P \<and>
      wraps P0 ?n P' (?n + length A) root u \<and> length (nodes P') \<le> length (nodes ?P) + 4 \<and> length (children P') \<le> length (children ?P) + length (flat u) + 3"
    by (rule wrap_correct [OF keeps_strings [OF d(2)] evolves_trans [OF d(1) ev1] _ u(1)]) (use d(10) fl cleaned_strings [OF u(3)] in \<open>simp_all add: room_def\<close>)
  then obtain P' root where w: "wrap_in_binary_tree ?P (non_terminal (?n + length A)) ct = Some (P', root)" "grows ?P P'" "params_vec P' = params_vec ?P"
      "wraps P0 ?n P' (?n + length A) root u" "length (nodes P') \<le> length (nodes P) + 4" "length (children P') \<le> length (children P) + length (flat u) + 3" by auto
  have ev: "evolves ?N P P'" by (rule evolves_trans [OF ev1 evolves_grows [OF w(2,3)]])
  let ?x = "x\<lparr>zero_width := push_variable (zero_width x) (twidth tbl u), memo := (memo x)(h := memo x h @ [(ct, non_terminal (?n + length A))]),
       aux := aux x @ [\<lparr>v_name = sid, v_root = root\<rparr>]\<rparr>"
  have kp: "keeps P0 ?n (A @ [u]) P'" by (rule keeps_more [OF keeps_grows [OF keeps_strings [OF d(2)] w(2)]])
  have "expanding H ent P0 tbl M L Nm U q (A @ [u]) strs' P' ?x"
  proof (rule expandingI)
    show "evolves ?N P0 P'" by (rule evolves_trans [OF d(1) ev])
    show "keeps P0 ?n (A @ [u]) P'" by (rule kp)
    show "holds ent (hash_str H) (str_pool P') strs'" using i(2) w(2) by (simp add: grows_def)
    show "memo_ok P0 ?n (A @ [u]) (memo ?x)" using memo_ok_add [OF d(6) u(1)] by simp
    show "room (?n + length (A @ [u])) M L P' strs' q"
      by (rule room_step [OF d(10)]) (use w(5,6) fl i(3) len in auto)
    show "wraps P0 ?n P' (?n + j) (v_root (aux ?x ! j)) ((A @ [u]) ! j) \<and> aux_name Nm strs' (v_name (aux ?x ! j))" if "j < length (A @ [u])" for j
    proof (cases "j < length A")
      case True
      then show ?thesis using d(7) d(8) [OF True] wraps_evolves [OF _ ev kp] aux_name_more by (simp add: nth_append B)
    next
      case False
      then have "j = length A" using that by simp
      then show ?thesis using w(4) d(7) i(4,5) nm(2) by (auto simp: aux_name_def nth_append)
    qed
  qed (use d u in \<open>auto simp: push_variable_def orig_def\<close>)
  moreover have "add_aux H nm (twidth tbl u) h ct (P, x, c) = Some ((P', ?x, c + 1), non_terminal (?n + length A))"
    using base i(1) w(1) d(4,7) c by (simp add: add_aux_def Let_def)
  moreover have "\<exists>ns. nodes P' = nodes P @ ns" using w(2) by (auto simp: grows_def)
  ultimately show ?thesis using ev B by blast
qed

lemma expand_node_ok:
  assumes e: "expanding H ent P0 tbl M L Nm U q A strs P x" and b: "bounded H ent P0 (length tbl) M L Nm"
    and nm: "id_index nm < length strs" "strs ! id_index nm \<in> Nm" and af: "affordable (length (nodes P0)) P c q R"
    and u: "orig P0 (length tbl) ct u" "harmless tbl (TRepeat u)" "cleaned P ct" "u \<in> U" and i: "orig P0 (length tbl) i (TRepeat u)" "node P i = Some (Repeat ct)" "i < length (nodes P0)"
  shows "\<exists>P' x' c' q' A' B. expand_node H nm i ct (P, x, c) = Some (Inr (P', x', c')) \<and> expanding H ent P0 tbl M L Nm U q' A' (strs @ B) P' x' \<and>
    affordable (length (nodes P0)) P' c' q' R \<and> evolves (length (nodes P0)) P P' \<and> (\<exists>k m. node P' i = Some (Sym k m)) \<and>
    (\<forall>k < length (nodes P0). k \<noteq> i \<longrightarrow> node P' k = node P k)"
proof -
  let ?n = "length tbl" and ?N = "length (nodes P0)"
  note d = expandingD [OF e]
  have width: "eval_width P (zero_width x) ct = Some (twidth tbl u)" "\<not> eof_nullable (twidth tbl u)" using expand_width [OF e u(1)] u(2) by (simp_all add: harmless_def)
  obtain u' where u': "rep P ct u'" "expanded ?n A u u'" using keepsD [OF d(2) u(1)] by blast
  define h where "h = hash_tree H (hash_items u')"
  have hash: "subtree_hash (hash_tree H) P ct = Some h" using subtree_hash_rep [OF u'(1)] by (simp add: h_def)
  have "\<exists>t. rep P ct' t" if m: "(ct', sy) \<in> set (memo x h)" for ct' sy
  proof -
    obtain j where "orig P0 ?n ct' (A ! j)" using d(6) m unfolding memo_ok_def by blast
    then show ?thesis using keepsD [OF d(2)] by blast
  qed
  then obtain found where found: "find_candidate P ct (memo x h) = Some found" "case found of None \<Rightarrow> True | Some sy \<Rightarrow> \<exists>ct'. (ct', sy) \<in> set (memo x h) \<and> rep P ct' u'"
    using find_candidate_correct [OF _ u'(1), of "memo x h"] by blast
  have less: "\<exists>P'. set_node Q i (rule_of_symbol y) = Some P' \<and> Suc (pending ?N P') = pending ?N Q" if "node Q i = Some (Repeat ct)" for Q :: "'a RulePool" and y
    using set_node_some [OF that] pending_set_node [OF _ that i(3)] by blast
  show ?thesis
  proof (cases found)
    case (Some sy)
    then obtain ct' where ct': "(ct', sy) \<in> set (memo x h)" "rep P ct' u'" using found(2) by auto
    then obtain j where j: "j < length A" "sy = non_terminal (?n + j)" "orig P0 ?n ct' (A ! j)" using d(6) unfolding memo_ok_def by blast
    obtain a where "rep P ct' a" "expanded ?n A (A ! j) a" using keepsD [OF d(2) j(3)] by blast
    then have "u = A ! j" using rep_functional [OF _ ct'(2)] expanded_inj u'(2) by blast
    then obtain P' where P': "set_node P i (rule_of_symbol sy) = Some P'" "evolves ?N P P'" "expanding H ent P0 tbl M L Nm U q A strs P' x"
      using expand_known [OF e _ j(1) i(2,3)] i(1) j(2) by auto
    have "affordable ?N P' c q R" using af less [OF i(2), of sy] P'(1) by (auto simp: affordable_def)
    moreover have "\<exists>k m. node P' i = Some (Sym k m)" "\<forall>k. k \<noteq> i \<longrightarrow> node P' k = node P k" using set_node_facts(4,5) [OF P'(1)] by (simp_all add: rule_of_symbol_def)
    moreover have "expand_node H nm i ct (P, x, c) = Some (Inr (P', x, c))" using width hash found(1) Some P'(1) by (simp add: expand_node_def)
    ultimately show ?thesis using P'(2,3) by (intro exI [of _ P'] exI [of _ x] exI [of _ c] exI [of _ q] exI [of _ A] exI [of _ "[]"]) simp
  next
    case None
    have pos: "0 < pending ?N P" using less [OF i(2)] by fastforce
    then obtain q' where q': "q = Suc q'" using af by (cases q) (auto simp: affordable_def)
    have "c + 1 < 2 ^ 32" using af pos by (simp add: affordable_def)
    then obtain Q x' B where Q: "add_aux H nm (twidth tbl u) h ct (P, x, c) = Some ((Q, x', c + 1), non_terminal (?n + length A))"
        "\<exists>ns. nodes Q = nodes P @ ns" "evolves ?N P Q" "expanding H ent P0 tbl M L Nm U q' (A @ [u]) (strs @ B) Q x'"
      using add_aux_correct [OF e [unfolded q'] b nm u, of c h] by blast
    have iQ: "node Q i = Some (Repeat ct)" using Q(2) i(2) by (auto simp: node_def vec_get_def nth_append split: if_splits)
    have pQ: "pending ?N Q = pending ?N P" using Q(2) d(1) by (auto simp: pending_def evolves_def)
    obtain P' where P': "set_node Q i (rule_of_symbol (non_terminal (?n + length A))) = Some P'" "evolves ?N Q P'" "expanding H ent P0 tbl M L Nm U q' (A @ [u]) (strs @ B) P' x'"
      using expand_known [OF Q(4) _ _ iQ i(3), of "length A"] i(1) by auto
    have "affordable ?N P' (c + 1) q' R" using af less [OF iQ, of "non_terminal (?n + length A)"] P'(1) q' pQ by (auto simp: affordable_def)
    moreover have "\<exists>k m. node P' i = Some (Sym k m)" "\<forall>k. k \<noteq> i \<longrightarrow> node P' k = node Q k" using set_node_facts(4,5) [OF P'(1)] by (simp_all add: rule_of_symbol_def)
    moreover have "\<forall>k < ?N. node Q k = node P k" using Q(2) d(1) by (auto simp: node_def vec_get_def nth_append evolves_def)
    moreover have "expand_node H nm i ct (P, x, c) = Some (Inr (P', x', c + 1))" using width hash found(1) None Q(1) P'(1) by (simp add: expand_node_def)
    ultimately show ?thesis using P'(3) evolves_trans [OF Q(3) P'(2)]
      by (intro exI [of _ P'] exI [of _ x'] exI [of _ "c + 1"] exI [of _ q'] exI [of _ "A @ [u]"] exI [of _ B]) simp
  qed
qed

section \<open>The walk\<close>

text \<open>The outcome of visiting the nodes \<open>is\<close>, which stood for the trees \<open>ts\<close> at the start, on behalf of the variable named \<open>b\<close>.\<close>

definition walks :: "'t hashing \<Rightarrow> ('t \<Rightarrow> (u64 \<times> nat) set) \<Rightarrow> 't RulePool \<Rightarrow> Width list \<Rightarrow> nat \<Rightarrow> nat \<Rightarrow> string set \<Rightarrow> rtree set \<Rightarrow> nat \<Rightarrow> StrId \<Rightarrow>
    string \<Rightarrow> RuleId list \<Rightarrow> rtree list \<Rightarrow> bool" where
  "walks H ent P0 tbl M L Nm U R nm b is ts \<longleftrightarrow> (\<forall>st P x c q A strs.
     expanding H ent P0 tbl M L Nm U q A strs P x \<and> affordable (length (nodes P0)) P c q R \<and> id_index nm < length strs \<and> strs ! id_index nm = b \<longrightarrow>
     (if list_all (harmless tbl) ts then \<exists>P' x' c' q' A' B. expand_loop H nm (map Visit is @ st) (P, x, c) = expand_loop H nm st (P', x', c') \<and>
        expanding H ent P0 tbl M L Nm U q' A' (strs @ B) P' x' \<and> affordable (length (nodes P0)) P' c' q' R \<and> evolves (length (nodes P0)) P P' \<and> list_all (cleaned P') is \<and>
        (\<forall>k < length (nodes P0). node P' k \<noteq> node P k \<longrightarrow> (\<exists>s. rep P0 k s \<and> tsize s \<le> sum_list (map tsize ts)))
      else expand_loop H nm (map Visit is @ st) (P, x, c) = Some (Inl b)))"

lemma walksI:
  assumes "\<And>st P x c q A strs. expanding H ent P0 tbl M L Nm U q A strs P x \<Longrightarrow> affordable (length (nodes P0)) P c q R \<Longrightarrow> id_index nm < length strs \<Longrightarrow> strs ! id_index nm = b \<Longrightarrow>
     list_all (harmless tbl) ts \<Longrightarrow> \<exists>P' x' c' q' A' B. expand_loop H nm (map Visit is @ st) (P, x, c) = expand_loop H nm st (P', x', c') \<and>
        expanding H ent P0 tbl M L Nm U q' A' (strs @ B) P' x' \<and> affordable (length (nodes P0)) P' c' q' R \<and> evolves (length (nodes P0)) P P' \<and> list_all (cleaned P') is \<and>
        (\<forall>k < length (nodes P0). node P' k \<noteq> node P k \<longrightarrow> (\<exists>s. rep P0 k s \<and> tsize s \<le> sum_list (map tsize ts)))"
    "\<And>st P x c q A strs. expanding H ent P0 tbl M L Nm U q A strs P x \<Longrightarrow> affordable (length (nodes P0)) P c q R \<Longrightarrow> id_index nm < length strs \<Longrightarrow> strs ! id_index nm = b \<Longrightarrow>
     \<not> list_all (harmless tbl) ts \<Longrightarrow> expand_loop H nm (map Visit is @ st) (P, x, c) = Some (Inl b)"
  shows "walks H ent P0 tbl M L Nm U R nm b is ts"
  unfolding walks_def
proof (intro allI impI, elim conjE)
  fix st P x c q A strs
  assume s: "expanding H ent P0 tbl M L Nm U q A strs P x" "affordable (length (nodes P0)) P c q R" "id_index nm < length strs" "strs ! id_index nm = b"
  show "if list_all (harmless tbl) ts then \<exists>P' x' c' q' A' B. expand_loop H nm (map Visit is @ st) (P, x, c) = expand_loop H nm st (P', x', c') \<and>
        expanding H ent P0 tbl M L Nm U q' A' (strs @ B) P' x' \<and> affordable (length (nodes P0)) P' c' q' R \<and> evolves (length (nodes P0)) P P' \<and> list_all (cleaned P') is \<and>
        (\<forall>k < length (nodes P0). node P' k \<noteq> node P k \<longrightarrow> (\<exists>s. rep P0 k s \<and> tsize s \<le> sum_list (map tsize ts)))
      else expand_loop H nm (map Visit is @ st) (P, x, c) = Some (Inl b)"
    using assms(1) [OF s] assms(2) [OF s] by presburger
qed

lemma walksD:
  assumes "walks H ent P0 tbl M L Nm U R nm b is ts" "expanding H ent P0 tbl M L Nm U q A strs P x" "affordable (length (nodes P0)) P c q R" "id_index nm < length strs" "strs ! id_index nm = b"
  shows "list_all (harmless tbl) ts \<Longrightarrow> \<exists>P' x' c' q' A' B. expand_loop H nm (map Visit is @ st) (P, x, c) = expand_loop H nm st (P', x', c') \<and>
        expanding H ent P0 tbl M L Nm U q' A' (strs @ B) P' x' \<and> affordable (length (nodes P0)) P' c' q' R \<and> evolves (length (nodes P0)) P P' \<and> list_all (cleaned P') is \<and>
        (\<forall>k < length (nodes P0). node P' k \<noteq> node P k \<longrightarrow> (\<exists>s. rep P0 k s \<and> tsize s \<le> sum_list (map tsize ts)))"
    "\<not> list_all (harmless tbl) ts \<Longrightarrow> expand_loop H nm (map Visit is @ st) (P, x, c) = Some (Inl b)"
  using assms(1) [unfolded walks_def, rule_format, of q A strs P x c st] assms(2-5) by simp_all

lemma walks_Cons:
  assumes i: "walks H ent P0 tbl M L Nm U R nm b [i] [t]" and r: "walks H ent P0 tbl M L Nm U R nm b is ts" and o: "orig P0 (length tbl) i t"
  shows "walks H ent P0 tbl M L Nm U R nm b (i # is) (t # ts)"
proof (rule walksI)
  fix st P x c q A strs
  assume s: "expanding H ent P0 tbl M L Nm U q A strs P x" "affordable (length (nodes P0)) P c q R" "id_index nm < length strs" "strs ! id_index nm = b" "list_all (harmless tbl) (t # ts)"
  obtain P1 x1 c1 q1 A1 B1 where one: "expand_loop H nm (Visit i # map Visit is @ st) (P, x, c) = expand_loop H nm (map Visit is @ st) (P1, x1, c1)"
    "expanding H ent P0 tbl M L Nm U q1 A1 (strs @ B1) P1 x1" "affordable (length (nodes P0)) P1 c1 q1 R" "evolves (length (nodes P0)) P P1" "cleaned P1 i"
    "\<forall>k < length (nodes P0). node P1 k \<noteq> node P k \<longrightarrow> (\<exists>s. rep P0 k s \<and> tsize s \<le> tsize t)"
    using walksD(1) [OF i s(1-4), of "map Visit is @ st"] s(5) by auto
  have b1: "id_index nm < length (strs @ B1)" "(strs @ B1) ! id_index nm = b" using s(3,4) by (simp_all add: nth_append)
  obtain P2 x2 c2 q2 A2 B2 where two: "expand_loop H nm (map Visit is @ st) (P1, x1, c1) = expand_loop H nm st (P2, x2, c2)"
    "expanding H ent P0 tbl M L Nm U q2 A2 ((strs @ B1) @ B2) P2 x2" "affordable (length (nodes P0)) P2 c2 q2 R" "evolves (length (nodes P0)) P1 P2" "list_all (cleaned P2) is"
    "\<forall>k < length (nodes P0). node P2 k \<noteq> node P1 k \<longrightarrow> (\<exists>s. rep P0 k s \<and> tsize s \<le> sum_list (map tsize ts))"
    using walksD(1) [OF r one(2,3) b1, of st] s(5) by auto
  obtain t2 where "rep P2 i t2" using keepsD [OF expandingD(2) [OF two(2)] o] by blast
  then have "cleaned P2 i" using cleaned_evolves [OF one(5) two(4)] unfolding cleaned_def by blast
  moreover have "\<forall>k < length (nodes P0). node P2 k \<noteq> node P k \<longrightarrow> (\<exists>s. rep P0 k s \<and> tsize s \<le> sum_list (map tsize (t # ts)))"
    using one(6) two(6) by (simp, metis le_trans le_add1 le_add2)
  ultimately show "\<exists>P' x' c' q' A' B. expand_loop H nm (map Visit (i # is) @ st) (P, x, c) = expand_loop H nm st (P', x', c') \<and>
        expanding H ent P0 tbl M L Nm U q' A' (strs @ B) P' x' \<and> affordable (length (nodes P0)) P' c' q' R \<and> evolves (length (nodes P0)) P P' \<and> list_all (cleaned P') (i # is) \<and>
        (\<forall>k < length (nodes P0). node P' k \<noteq> node P k \<longrightarrow> (\<exists>s. rep P0 k s \<and> tsize s \<le> sum_list (map tsize (t # ts))))"
    using one(1) two(1-3,5) evolves_trans [OF one(4) two(4)]
    by (intro exI [of _ P2] exI [of _ x2] exI [of _ c2] exI [of _ q2] exI [of _ A2] exI [of _ "B1 @ B2"]) simp
next
  fix st P x c q A strs
  assume s: "expanding H ent P0 tbl M L Nm U q A strs P x" "affordable (length (nodes P0)) P c q R" "id_index nm < length strs" "strs ! id_index nm = b" "\<not> list_all (harmless tbl) (t # ts)"
  show "expand_loop H nm (map Visit (i # is) @ st) (P, x, c) = Some (Inl b)"
  proof (cases "harmless tbl t")
    case True
    obtain P1 x1 c1 q1 A1 B1 where one: "expand_loop H nm (Visit i # map Visit is @ st) (P, x, c) = expand_loop H nm (map Visit is @ st) (P1, x1, c1)"
      "expanding H ent P0 tbl M L Nm U q1 A1 (strs @ B1) P1 x1" "affordable (length (nodes P0)) P1 c1 q1 R"
      using walksD(1) [OF i s(1-4), of "map Visit is @ st"] True by auto
    have b1: "id_index nm < length (strs @ B1)" "(strs @ B1) ! id_index nm = b" using s(3,4) by (simp_all add: nth_append)
    show ?thesis using one(1) walksD(2) [OF r one(2,3) b1, of st] True s(5) by simp
  next
    case False
    then show ?thesis using walksD(2) [OF i s(1-4), of "map Visit is @ st"] by simp
  qed
qed

lemma walks_list:
  "list_all2 (\<lambda>i t. orig P0 (length tbl) i t \<and> walks H ent P0 tbl M L Nm U R nm b [i] [t]) is ts \<Longrightarrow> walks H ent P0 tbl M L Nm U R nm b is ts"
proof (induction rule: list_all2_induct)
  case Nil
  show ?case
  proof (rule walksI, goal_cases)
    case (1 st P x c q A strs)
    then show ?case by (intro exI [of _ P] exI [of _ x] exI [of _ c] exI [of _ q] exI [of _ A] exI [of _ "[]"]) simp
  qed simp
next
  case (Cons i "is" t ts)
  then show ?case using walks_Cons by blast
qed

lemma harmless_simps [simp]:
  "harmless tbl (TSeq ts) \<longleftrightarrow> list_all (harmless tbl) ts" "harmless tbl (TChoice ts) \<longleftrightarrow> list_all (harmless tbl) ts" "harmless tbl (TMeta p t) \<longleftrightarrow> harmless tbl t"
  "harmless tbl (TReserved t r)" "harmless tbl TBlank" "harmless tbl (TString s)" "harmless tbl (TPattern s f)" "harmless tbl (TNamed s)" "harmless tbl (TSym k m)" "harmless tbl TEof"
  "harmless tbl (TRepeat t) \<longleftrightarrow> \<not> eof_nullable (twidth tbl t) \<and> harmless tbl t"
  by (auto simp: harmless_def list_all_iff)

text \<open>A node that only passes the visit on to other nodes.\<close>

lemma walks_through:
  assumes w: "walks H ent P0 tbl M L Nm U R nm b is ts" and o: "orig P0 (length tbl) i t"
    and step: "\<And>P st s. evolves (length (nodes P0)) P0 P \<Longrightarrow> fst s = P \<Longrightarrow> expand_loop H nm (Visit i # st) s = expand_loop H nm (map Visit is @ st) s"
    and t: "harmless tbl t = list_all (harmless tbl) ts" "sum_list (map tsize ts) \<le> tsize t"
    and clean: "\<And>P t'. evolves (length (nodes P0)) P0 P \<Longrightarrow> rep P i t' \<Longrightarrow> list_all (cleaned P) is \<Longrightarrow> repeated t' = []"
  shows "walks H ent P0 tbl M L Nm U R nm b [i] [t]"
proof (rule walksI)
  fix st P x c q A strs
  assume s: "expanding H ent P0 tbl M L Nm U q A strs P x" "affordable (length (nodes P0)) P c q R" "id_index nm < length strs" "strs ! id_index nm = b" "list_all (harmless tbl) [t]"
  obtain P1 x1 c1 q1 A1 B1 where one: "expand_loop H nm (map Visit is @ st) (P, x, c) = expand_loop H nm st (P1, x1, c1)"
    "expanding H ent P0 tbl M L Nm U q1 A1 (strs @ B1) P1 x1" "affordable (length (nodes P0)) P1 c1 q1 R" "evolves (length (nodes P0)) P P1" "list_all (cleaned P1) is"
    "\<forall>k < length (nodes P0). node P1 k \<noteq> node P k \<longrightarrow> (\<exists>s. rep P0 k s \<and> tsize s \<le> sum_list (map tsize ts))"
    using walksD(1) [OF w s(1-4), of st] s(5) t(1) by auto
  obtain t1 where t1: "rep P1 i t1" using keepsD [OF expandingD(2) [OF one(2)] o] by blast
  then have "cleaned P1 i" using clean [OF expandingD(1) [OF one(2)] t1 one(5)] unfolding cleaned_def by blast
  moreover have "\<forall>k < length (nodes P0). node P1 k \<noteq> node P k \<longrightarrow> (\<exists>s. rep P0 k s \<and> tsize s \<le> sum_list (map tsize [t]))"
    using one(6) t(2) by (auto, meson le_trans)
  ultimately show "\<exists>P' x' c' q' A' B. expand_loop H nm (map Visit [i] @ st) (P, x, c) = expand_loop H nm st (P', x', c') \<and>
        expanding H ent P0 tbl M L Nm U q' A' (strs @ B) P' x' \<and> affordable (length (nodes P0)) P' c' q' R \<and> evolves (length (nodes P0)) P P' \<and> list_all (cleaned P') [i] \<and>
        (\<forall>k < length (nodes P0). node P' k \<noteq> node P k \<longrightarrow> (\<exists>s. rep P0 k s \<and> tsize s \<le> sum_list (map tsize [t])))"
    using one(1-4) step [OF expandingD(1) [OF s(1)], of "(P, x, c)" st]
    by (intro exI [of _ P1] exI [of _ x1] exI [of _ c1] exI [of _ q1] exI [of _ A1] exI [of _ B1]) simp
next
  fix st P x c q A strs
  assume s: "expanding H ent P0 tbl M L Nm U q A strs P x" "affordable (length (nodes P0)) P c q R" "id_index nm < length strs" "strs ! id_index nm = b" "\<not> list_all (harmless tbl) [t]"
  then show "expand_loop H nm (map Visit [i] @ st) (P, x, c) = Some (Inl b)"
    using walksD(2) [OF w s(1-4), of st] t(1) step [OF expandingD(1) [OF s(1)], of "(P, x, c)" st] by simp
qed

lemma cleaned_list: "list_all2 (rep P) cs ts \<Longrightarrow> list_all (cleaned P) cs \<Longrightarrow> concat (map repeated ts) = []"
  using cleaned_list_iff by blast

lemma walks_nil: "walks H ent P0 tbl M L Nm U R nm b [] []"
  by (rule walks_list) simp

lemma walks_repeat:
  assumes w: "walks H ent P0 tbl M L Nm U R nm b [ct] [u]" and b: "bounded H ent P0 (length tbl) M L Nm" "b \<in> Nm"
    and n: "node P0 i = Some (Repeat ct)" and u: "orig P0 (length tbl) ct u" "u \<in> U"
  shows "walks H ent P0 tbl M L Nm U R nm b [i] [TRepeat u]"
proof -
  let ?n = "length tbl" and ?N = "length (nodes P0)"
  have o: "orig P0 ?n i (TRepeat u)" using u(1) rep_Repeat [OF n] by (auto simp: orig_def)
  have iN: "i < ?N" by (rule node_less [OF n])
  have known: "harmless tbl (TRepeat u)" "cleaned P i"
    if s: "expanding H ent P0 tbl M L Nm U q A strs P x" and y: "node P i = Some (Sym k m)" for q A strs P x k m
  proof -
    have r: "rep P i (TSym k m)" by (rule rep_Sym [OF y])
    then have "expanded ?n A (TRepeat u) (TSym k m)" using keepsD [OF expandingD(2) [OF s] o] rep_functional by blast
    then have "u \<in> set A" by (auto simp: expanded_from)
    then show "harmless tbl (TRepeat u)" using expandingD(9) [OF s] by blast
    show "cleaned P i" using r unfolding cleaned_def by (intro exI [of _ "TSym k m"]) simp
  qed
  have stay: "expand_loop H nm (Visit i # st) (P, x, c) = expand_loop H nm st (P, x, c)" if "node P i = Some (Sym k m)" for P k m st x c
    using that by (subst expand_loop.simps) simp
  have go: "expand_loop H nm (Visit i # st) (P, x, c) = expand_loop H nm (Visit ct # Expand i ct # st) (P, x, c)" if "node P i = Some (Repeat ct)" for P st x c
    using that by (subst expand_loop.simps) simp
  show ?thesis
  proof (rule walksI)
    fix st P x c q A strs
    assume s: "expanding H ent P0 tbl M L Nm U q A strs P x" "affordable ?N P c q R" "id_index nm < length strs" "strs ! id_index nm = b" "list_all (harmless tbl) [TRepeat u]"
    consider k m where "node P i = Some (Sym k m)" | "node P i = Some (Repeat ct)" using evolves_repeat [OF expandingD(1) [OF s(1)] n] by blast
    then show "\<exists>P' x' c' q' A' B. expand_loop H nm (map Visit [i] @ st) (P, x, c) = expand_loop H nm st (P', x', c') \<and>
        expanding H ent P0 tbl M L Nm U q' A' (strs @ B) P' x' \<and> affordable ?N P' c' q' R \<and> evolves ?N P P' \<and> list_all (cleaned P') [i] \<and>
        (\<forall>k < ?N. node P' k \<noteq> node P k \<longrightarrow> (\<exists>s. rep P0 k s \<and> tsize s \<le> sum_list (map tsize [TRepeat u])))"
    proof cases
      case 1
      then show ?thesis using s stay [OF 1] known(2) [OF s(1) 1]
        by (intro exI [of _ P] exI [of _ x] exI [of _ c] exI [of _ q] exI [of _ A] exI [of _ "[]"]) simp
    next
      case 2
      obtain P1 x1 c1 q1 A1 B1 where one: "expand_loop H nm (Visit ct # Expand i ct # st) (P, x, c) = expand_loop H nm (Expand i ct # st) (P1, x1, c1)"
        "expanding H ent P0 tbl M L Nm U q1 A1 (strs @ B1) P1 x1" "affordable ?N P1 c1 q1 R" "evolves ?N P P1" "cleaned P1 ct"
        "\<forall>k < ?N. node P1 k \<noteq> node P k \<longrightarrow> (\<exists>s. rep P0 k s \<and> tsize s \<le> tsize u)"
        using walksD(1) [OF w s(1-4), of "Expand i ct # st"] s(5) by auto
      have "\<not> (\<exists>s. rep P0 i s \<and> tsize s \<le> tsize u)" using o rep_functional unfolding orig_def by (metis Suc_n_not_le_n tsize.simps(3))
      then have i1: "node P1 i = Some (Repeat ct)" using one(6) iN 2 by auto
      have b1: "id_index nm < length (strs @ B1)" "(strs @ B1) ! id_index nm \<in> Nm" using s(3,4) b(2) by (simp_all add: nth_append)
      obtain P2 x2 c2 q2 A2 B2 where two: "expand_node H nm i ct (P1, x1, c1) = Some (Inr (P2, x2, c2))" "expanding H ent P0 tbl M L Nm U q2 A2 ((strs @ B1) @ B2) P2 x2"
        "affordable ?N P2 c2 q2 R" "evolves ?N P1 P2" "\<exists>k m. node P2 i = Some (Sym k m)" "\<forall>k < ?N. k \<noteq> i \<longrightarrow> node P2 k = node P1 k"
        using expand_node_ok [OF one(2) b(1) b1 one(3) u(1) _ one(5) u(2) o i1 iN] s(5) by auto
      have "expand_loop H nm (Visit i # st) (P, x, c) = expand_loop H nm st (P2, x2, c2)"
        using go [OF 2] one(1) two(1) by (simp add: expand_loop.simps [of _ _ "Expand i ct # st"])
      moreover have "cleaned P2 i" using two(5) known(2) [OF two(2)] by blast
      moreover have "\<exists>s. rep P0 k s \<and> tsize s \<le> Suc (tsize u)" if k: "k < ?N" "node P2 k \<noteq> node P k" for k
      proof (cases "k = i")
        case True
        then show ?thesis using o unfolding orig_def by (intro exI [of _ "TRepeat u"]) simp
      next
        case False
        then show ?thesis using k one(6) two(6) by (metis le_SucI)
      qed
      ultimately show ?thesis using two(2,3) evolves_trans [OF one(4) two(4)]
        by (intro exI [of _ P2] exI [of _ x2] exI [of _ c2] exI [of _ q2] exI [of _ A2] exI [of _ "B1 @ B2"]) simp
    qed
  next
    fix st P x c q A strs
    assume s: "expanding H ent P0 tbl M L Nm U q A strs P x" "affordable ?N P c q R" "id_index nm < length strs" "strs ! id_index nm = b" "\<not> list_all (harmless tbl) [TRepeat u]"
    have i: "node P i = Some (Repeat ct)" using evolves_repeat [OF expandingD(1) [OF s(1)] n] known(1) [OF s(1)] s(5) by fastforce
    show "expand_loop H nm (map Visit [i] @ st) (P, x, c) = Some (Inl b)"
    proof (cases "harmless tbl u")
      case True
      obtain P1 x1 c1 q1 A1 B1 where one: "expand_loop H nm (Visit ct # Expand i ct # st) (P, x, c) = expand_loop H nm (Expand i ct # st) (P1, x1, c1)"
        "expanding H ent P0 tbl M L Nm U q1 A1 (strs @ B1) P1 x1"
        using walksD(1) [OF w s(1-4), of "Expand i ct # st"] True by auto
      have "expand_node H nm i ct (P1, x1, c1) = Some (Inl b)"
        using expand_node_bad [OF one(2) u(1), of nm i c1] True s(3-5) by (simp add: nth_append)
      then show ?thesis using go [OF i] one(1) by (simp add: expand_loop.simps [of _ _ "Expand i ct # st"])
    next
      case False
      then show ?thesis using go [OF i] walksD(2) [OF w s(1-4), of "Expand i ct # st"] by simp
    qed
  qed
qed

definition is_leaf :: "Rule \<Rightarrow> bool" where
  "is_leaf n = (case n of Seq _ \<Rightarrow> False | Choice _ \<Rightarrow> False | Repeat _ \<Rightarrow> False | Metadata _ _ \<Rightarrow> False | _ \<Rightarrow> True)"

lemma walks_leaf:
  assumes n: "node P0 i = Some nd" "is_leaf nd" and o: "orig P0 (length tbl) i t"
  shows "walks H ent P0 tbl M L Nm U R nm b [i] [t]"
proof (rule walks_through [OF walks_nil o])
  have nP: "node P i = Some nd" if "evolves (length (nodes P0)) P0 P" for P
    using evolves_node [OF that n(1)] n(2) by (simp add: is_repeat_def is_leaf_def split: Rule.splits)
  show "expand_loop H nm (Visit i # st) s = expand_loop H nm (map Visit [] @ st) s" if "evolves (length (nodes P0)) P0 P" "fst s = P" for P st s
    using nP [OF that(1)] that(2) n(2) by (subst expand_loop.simps) (simp add: is_leaf_def split: Rule.splits)
  show "repeated t' = []" if "evolves (length (nodes P0)) P0 P" "rep P i t'" for P t'
    using rep_node [OF that(2)] nP [OF that(1)] n(2) by (auto simp: is_leaf_def split: Rule.splits)
  show "harmless tbl t = list_all (harmless tbl) []" using rep_node [of P0 i t] o n by (auto simp: orig_def is_leaf_def split: Rule.splits)
qed simp

lemma walks_tree:
  assumes b: "bounded H ent P0 (length tbl) M L Nm" "b \<in> Nm"
  shows "rep P0 i t \<Longrightarrow> refs_below (length tbl) t \<Longrightarrow> syntactic t \<Longrightarrow> set (repeated t) \<subseteq> U \<Longrightarrow> walks H ent P0 tbl M L Nm U R nm b [i] [t]"
proof (induction rule: rep.induct)
  case (rep_Repeat i ct u)
  then show ?case using walks_repeat [OF _ b rep_Repeat(1), of U R nm u] by (simp add: orig_def)
next
  case (rep_Seq i r cs ts)
  have "list_all2 (rep P0) cs ts" by (rule list_all2_mono [OF rep_Seq(3)]) blast
  then have o: "orig P0 (length tbl) i (TSeq ts)" using rep_Seq rep.rep_Seq [OF rep_Seq(1,2)] by (simp add: orig_def)
  have "list_all2 (\<lambda>i t. orig P0 (length tbl) i t \<and> walks H ent P0 tbl M L Nm U R nm b [i] [t]) cs ts"
    using rep_Seq(3) rep_Seq.prems by (auto simp: list_all2_conv_all_nth orig_def SUP_le_iff)
  then have w: "walks H ent P0 tbl M L Nm U R nm b cs ts" by (rule walks_list)
  have n: "node P i = Some (Seq r)" "child_slice P r = Some cs" if "evolves (length (nodes P0)) P0 P" for P
    using evolves_node [OF that rep_Seq(1)] evolves_child_slice [OF that rep_Seq(2)] by (simp_all add: is_repeat_def)
  show ?case
  proof (rule walks_through [OF w o])
    show "expand_loop H nm (Visit i # st) s = expand_loop H nm (map Visit cs @ st) s" if "evolves (length (nodes P0)) P0 P" "fst s = P" for P st s
      using n [OF that(1)] that(2) by (subst expand_loop.simps) simp
    show "repeated t' = []" if "evolves (length (nodes P0)) P0 P" "rep P i t'" "list_all (cleaned P) cs" for P t'
      using rep_node [OF that(2)] n [OF that(1)] cleaned_list [OF _ that(3)] by auto
  qed simp_all
next
  case (rep_Choice i r cs ts)
  have "list_all2 (rep P0) cs ts" by (rule list_all2_mono [OF rep_Choice(3)]) blast
  then have o: "orig P0 (length tbl) i (TChoice ts)" using rep_Choice rep.rep_Choice [OF rep_Choice(1,2)] by (simp add: orig_def)
  have "list_all2 (\<lambda>i t. orig P0 (length tbl) i t \<and> walks H ent P0 tbl M L Nm U R nm b [i] [t]) cs ts"
    using rep_Choice(3) rep_Choice.prems by (auto simp: list_all2_conv_all_nth orig_def SUP_le_iff)
  then have w: "walks H ent P0 tbl M L Nm U R nm b cs ts" by (rule walks_list)
  have n: "node P i = Some (Choice r)" "child_slice P r = Some cs" if "evolves (length (nodes P0)) P0 P" for P
    using evolves_node [OF that rep_Choice(1)] evolves_child_slice [OF that rep_Choice(2)] by (simp_all add: is_repeat_def)
  show ?case
  proof (rule walks_through [OF w o])
    show "expand_loop H nm (Visit i # st) s = expand_loop H nm (map Visit cs @ st) s" if "evolves (length (nodes P0)) P0 P" "fst s = P" for P st s
      using n [OF that(1)] that(2) by (subst expand_loop.simps) simp
    show "repeated t' = []" if "evolves (length (nodes P0)) P0 P" "rep P i t'" "list_all (cleaned P) cs" for P t'
      using rep_node [OF that(2)] n [OF that(1)] cleaned_list [OF _ that(3)] by auto
  qed simp_all
next
  case (rep_Meta i pid ct p u)
  then have o: "orig P0 (length tbl) i (TMeta p u)" using rep.rep_Meta [OF rep_Meta(1-3)] by (simp add: orig_def)
  have w: "walks H ent P0 tbl M L Nm U R nm b [ct] [u]" using rep_Meta by simp
  have n: "node P i = Some (Metadata pid ct)" if "evolves (length (nodes P0)) P0 P" for P
    using evolves_node [OF that rep_Meta(1)] by (simp add: is_repeat_def)
  show ?case
  proof (rule walks_through [OF w o])
    show "expand_loop H nm (Visit i # st) s = expand_loop H nm (map Visit [ct] @ st) s" if "evolves (length (nodes P0)) P0 P" "fst s = P" for P st s
      using n [OF that(1)] that(2) by (subst expand_loop.simps) simp
    show "repeated t' = []" if h: "evolves (length (nodes P0)) P0 P" "rep P i t'" "list_all (cleaned P) [ct]" for P t'
    proof -
      obtain q v where v: "t' = TMeta q v" "rep P ct v" using rep_node [OF h(2)] n [OF h(1)] by auto
      obtain w where w: "rep P ct w" "repeated w = []" using h(3) by (auto simp: cleaned_def)
      show ?thesis using v(1) w(2) rep_functional [OF v(2) w(1)] by simp
    qed
  qed simp_all
qed (rule walks_leaf, assumption, simp_all add: orig_def rep.intros is_leaf_def)+

lemma expand_root_correct:
  assumes b: "bounded H ent P0 (length tbl) M L Nm" "strs ! id_index nm \<in> Nm" and o: "orig P0 (length tbl) i t" "set (repeated t) \<subseteq> U"
    and s: "expanding H ent P0 tbl M L Nm U q A strs P x" "affordable (length (nodes P0)) P 0 q R" "id_index nm < length strs"
  shows "if harmless tbl t then \<exists>P' x' c' q' A' B. expand_root H nm i (P, x, 0) = Some (Inr (P', x', c')) \<and> expanding H ent P0 tbl M L Nm U q' A' (strs @ B) P' x' \<and>
      affordable (length (nodes P0)) P' 0 q' R \<and> evolves (length (nodes P0)) P P' \<and> cleaned P' i
    else expand_root H nm i (P, x, 0) = Some (Inl (strs ! id_index nm))"
proof -
  have w: "walks H ent P0 tbl M L Nm U R nm (strs ! id_index nm) [i] [t]" using walks_tree [OF b, of i t U R nm] o by (simp add: orig_def)
  have nil: "expand_loop H nm [] s' = Some (Inr s')" for s' by (subst expand_loop.simps) simp
  show ?thesis
  proof (cases "harmless tbl t")
    case True
    then obtain P' x' c' q' A' B where "expand_loop H nm [Visit i] (P, x, 0) = expand_loop H nm [] (P', x', c')" "expanding H ent P0 tbl M L Nm U q' A' (strs @ B) P' x'"
      "affordable (length (nodes P0)) P' c' q' R" "evolves (length (nodes P0)) P P'" "cleaned P' i"
      using walksD(1) [OF w s refl, of "[]"] by auto
    then show ?thesis using True nil by (simp add: expand_root_def affordable_def) (metis add_lessD1 add.commute)
  next
    case False
    then show ?thesis using walksD(2) [OF w s refl, of "[]"] by (simp add: expand_root_def)
  qed
qed

lemma wrap_expanding:
  assumes e: "expanding H ent P0 tbl M L Nm U (Suc q) A strs P x" and b: "bounded H ent P0 (length tbl) M L Nm"
    and u: "orig P0 (length tbl) ct u" "cleaned P ct" and m: "m < length tbl"
  shows "\<exists>P' root. wrap_in_binary_tree P (non_terminal m) ct = Some (P', root) \<and> expanding H ent P0 tbl M L Nm U q A strs P' x \<and> wraps P0 (length tbl) P' m root u \<and>
    evolves (length (nodes P0)) P P' \<and> pending (length (nodes P0)) P' = pending (length (nodes P0)) P"
proof -
  let ?n = "length tbl" and ?N = "length (nodes P0)"
  note d = expandingD [OF e]
  have fl: "length (flat u) \<le> M" using b u(1) by (auto simp: bounded_def)
  have "\<exists>P' root. wrap_in_binary_tree P (non_terminal m) ct = Some (P', root) \<and> grows P P' \<and> params_vec P' = params_vec P \<and> scratch P' = scratch P \<and>
    wraps P0 ?n P' m root u \<and> length (nodes P') \<le> length (nodes P) + 4 \<and> length (children P') \<le> length (children P) + length (flat u) + 3"
    by (rule wrap_correct [OF d(2,1) _ u]) (use d(10) m fl in \<open>simp_all add: room_def\<close>)
  then obtain P' root where w: "wrap_in_binary_tree P (non_terminal m) ct = Some (P', root)" "grows P P'" "params_vec P' = params_vec P"
    "wraps P0 ?n P' m root u" "length (nodes P') \<le> length (nodes P) + 4" "length (children P') \<le> length (children P) + length (flat u) + 3" by blast
  have ev: "evolves ?N P P'" by (rule evolves_grows [OF w(2,3)])
  have kp: "keeps P0 ?n A P'" by (rule keeps_grows [OF d(2) w(2)])
  have "expanding H ent P0 tbl M L Nm U q A strs P' x"
  proof (rule expandingI)
    show "holds ent (hash_str H) (str_pool P') strs" using d(3) w(2) by (simp add: grows_def)
    show "room (?n + length A) M L P' strs q" by (rule room_step [OF d(10)]) (use w(5,6) fl in simp_all)
    show "wraps P0 ?n P' (?n + j) (v_root (aux x ! j)) (A ! j) \<and> aux_name Nm strs (v_name (aux x ! j))" if "j < length A" for j
      using d(8) [OF that] wraps_evolves [OF _ ev kp] by blast
  qed (use d kp evolves_trans [OF d(1) ev] in auto)
  moreover have "?N \<le> length (nodes P)" using d(1) by (simp add: evolves_def)
  ultimately show ?thesis using w(1,4) ev pending_same [OF w(2)] by blast
qed

section \<open>The variables\<close>

text \<open>A variable after its turn: a hidden one with a repetition at the top is a binary tree of itself, any other one keeps its root.\<close>

definition finished :: "'t RulePool \<Rightarrow> nat \<Rightarrow> 't RulePool \<Rightarrow> nat \<Rightarrow> rtree \<Rightarrow> Variable \<times> VariableType \<Rightarrow> Variable \<times> VariableType \<Rightarrow> bool" where
  "finished P0 n P i t old now \<longleftrightarrow> v_name (fst now) = v_name (fst old) \<and>
     ((\<exists>u. snd old = Hidden \<and> t = TRepeat u \<and> wraps P0 n P i (v_root (fst now)) u \<and> snd now = Auxiliary) \<or>
      (v_root (fst now) = v_root (fst old) \<and> cleaned P (v_root (fst old)) \<and> snd now = snd old))"

lemma finished_evolves:
  assumes "finished P0 n P i t old y" "evolves (length (nodes P0)) P P'" "keeps P0 n A P'" "orig P0 n (v_root (fst old)) t"
  shows "finished P0 n P' i t old y"
proof -
  obtain t' where "rep P' (v_root (fst old)) t'" using keepsD [OF assms(3,4)] by blast
  then have "cleaned P (v_root (fst old)) \<Longrightarrow> cleaned P' (v_root (fst old))" using cleaned_evolves [OF _ assms(2)] unfolding cleaned_def by blast
  then show ?thesis using assms(1) wraps_evolves [OF _ assms(2,3)] unfolding finished_def by blast
qed

definition variables_ok :: "'t hashing \<Rightarrow> ('t \<Rightarrow> (u64 \<times> nat) set) \<Rightarrow> 't InputGrammar \<Rightarrow> ExtractedGrammarMeta \<Rightarrow> Width list \<Rightarrow> nat \<Rightarrow> nat \<Rightarrow> string set \<Rightarrow> rtree set \<Rightarrow>
    rtree list \<Rightarrow> string list \<Rightarrow> nat \<Rightarrow> 't InputGrammar \<times> ExtractedGrammarMeta \<times> Expander \<Rightarrow> bool" where
  "variables_ok H ent g0 m0 tbl M L Nm U ts strs i s \<longleftrightarrow> (case s of (g, m, x) \<Rightarrow>
     \<exists>q A B vars kinds. expanding H ent (g_pool g0) tbl M L Nm U q A (strs @ B) (g_pool g) x \<and> affordable (length (nodes (g_pool g0))) (g_pool g) 0 q (length tbl - i) \<and>
       g = g0\<lparr>g_pool := g_pool g, g_variables := vars\<rparr> \<and> length vars = length tbl \<and> length kinds = length tbl \<and>
       m = m0\<lparr>m_kinds := kinds, m_inline := filter (\<lambda>y. \<not> (\<exists>k < i. y = non_terminal k \<and> kinds ! k \<noteq> m_kinds m0 ! k)) (m_inline m0)\<rparr> \<and>
       (\<forall>k < i. finished (g_pool g0) (length tbl) (g_pool g) k (ts ! k) (g_variables g0 ! k, m_kinds m0 ! k) (vars ! k, kinds ! k)) \<and>
       (\<forall>k < length tbl. i \<le> k \<longrightarrow> vars ! k = g_variables g0 ! k \<and> kinds ! k = m_kinds m0 ! k))"

lemma variables_okI:
  assumes "expanding H ent (g_pool g0) tbl M L Nm U q A (strs @ B) P x" "affordable (length (nodes (g_pool g0))) P 0 q (length tbl - i)"
    "length vars = length tbl" "length kinds = length tbl"
    "inl = filter (\<lambda>y. \<not> (\<exists>k < i. y = non_terminal k \<and> kinds ! k \<noteq> m_kinds m0 ! k)) (m_inline m0)"
    "\<And>k. k < i \<Longrightarrow> finished (g_pool g0) (length tbl) P k (ts ! k) (g_variables g0 ! k, m_kinds m0 ! k) (vars ! k, kinds ! k)"
    "\<And>k. k < length tbl \<Longrightarrow> i \<le> k \<Longrightarrow> vars ! k = g_variables g0 ! k \<and> kinds ! k = m_kinds m0 ! k"
  shows "variables_ok H ent g0 m0 tbl M L Nm U ts strs i (g0\<lparr>g_pool := P, g_variables := vars\<rparr>, m0\<lparr>m_kinds := kinds, m_inline := inl\<rparr>, x)"
  unfolding variables_ok_def prod.case using assms
  by (intro exI [of _ q] exI [of _ A] exI [of _ B] exI [of _ vars] exI [of _ kinds]) simp

lemma variables_okE:
  assumes "variables_ok H ent g0 m0 tbl M L Nm U ts strs i s"
  obtains q A B vars kinds P x where "s = (g0\<lparr>g_pool := P, g_variables := vars\<rparr>,
      m0\<lparr>m_kinds := kinds, m_inline := filter (\<lambda>y. \<not> (\<exists>k < i. y = non_terminal k \<and> kinds ! k \<noteq> m_kinds m0 ! k)) (m_inline m0)\<rparr>, x)"
    "expanding H ent (g_pool g0) tbl M L Nm U q A (strs @ B) P x" "affordable (length (nodes (g_pool g0))) P 0 q (length tbl - i)"
    "length vars = length tbl" "length kinds = length tbl"
    "\<And>k. k < i \<Longrightarrow> finished (g_pool g0) (length tbl) P k (ts ! k) (g_variables g0 ! k, m_kinds m0 ! k) (vars ! k, kinds ! k)"
    "\<And>k. k < length tbl \<Longrightarrow> i \<le> k \<Longrightarrow> vars ! k = g_variables g0 ! k \<and> kinds ! k = m_kinds m0 ! k"
proof -
  obtain g m x where s: "s = (g, m, x)" by (cases s)
  show ?thesis using assms that unfolding s variables_ok_def prod.case by blast
qed

lemma grammar_update: "g\<lparr>g_variables := vars, g_pool := P\<rparr> = g\<lparr>g_pool := P, g_variables := vars\<rparr>"
  by (cases g) simp

lemma expand_variable_correct:
  assumes b: "bounded H ent (g_pool g0) (length tbl) M L Nm" and s: "variables_ok H ent g0 m0 tbl M L Nm U ts strs i s" and i: "i < length tbl"
    and os: "\<And>k. k < length tbl \<Longrightarrow> orig (g_pool g0) (length tbl) (v_root (g_variables g0 ! k)) (ts ! k)"
    and U: "set (repeated (ts ! i)) \<subseteq> U" and nm: "id_index (v_name (g_variables g0 ! i)) < length strs" "strs ! id_index (v_name (g_variables g0 ! i)) \<in> Nm"
  shows "if harmless tbl (ts ! i) then \<exists>s'. expand_variable H i s = Some (Inr s') \<and> variables_ok H ent g0 m0 tbl M L Nm U ts strs (Suc i) s'
    else expand_variable H i s = Some (Inl (strs ! id_index (v_name (g_variables g0 ! i))))"
proof -
  let ?n = "length tbl" and ?P0 = "g_pool g0" and ?N = "length (nodes (g_pool g0))" and ?v = "g_variables g0 ! i" and ?k = "m_kinds m0 ! i"
  let ?inl = "\<lambda>j kinds. filter (\<lambda>y. \<not> (\<exists>k < j. y = non_terminal k \<and> kinds ! k \<noteq> m_kinds m0 ! k)) (m_inline m0)"
  let ?b = "strs ! id_index (v_name ?v)"
  obtain q A B vars kinds P x where st: "s = (g0\<lparr>g_pool := P, g_variables := vars\<rparr>, m0\<lparr>m_kinds := kinds, m_inline := ?inl i kinds\<rparr>, x)"
    and e: "expanding H ent ?P0 tbl M L Nm U q A (strs @ B) P x" "affordable ?N P 0 q (?n - i)" and len: "length vars = ?n" "length kinds = ?n"
    and fin: "\<And>k. k < i \<Longrightarrow> finished ?P0 ?n P k (ts ! k) (g_variables g0 ! k, m_kinds m0 ! k) (vars ! k, kinds ! k)"
    and rest: "\<And>k. k < ?n \<Longrightarrow> i \<le> k \<Longrightarrow> vars ! k = g_variables g0 ! k \<and> kinds ! k = m_kinds m0 ! k"
    by (rule variables_okE [OF s]) (rule that; assumption)
  note o = os [OF i]
  have v: "vars ! i = ?v" "kinds ! i = ?k" "i < length vars" "i < length kinds" using rest [OF i] i len by simp_all
  have nmB: "id_index (v_name ?v) < length (strs @ B)" "(strs @ B) ! id_index (v_name ?v) = ?b" "(strs @ B) ! id_index (v_name ?v) \<in> Nm" using nm by (simp_all add: nth_append)
  have later: "finished ?P0 ?n P' k (ts ! k) (g_variables g0 ! k, m_kinds m0 ! k) (vars ! k, kinds ! k)" if "k < i" "evolves ?N P P'" "keeps ?P0 ?n A' P'" for k P' A'
    using finished_evolves [OF fin [OF that(1)] that(2,3)] os [of k] that(1) i by simp
  show ?thesis
  proof (cases "?k = Hidden \<and> (\<exists>ct. node P (v_root ?v) = Some (Repeat ct))")
    case True
    then obtain ct where ct: "node P (v_root ?v) = Some (Repeat ct)" by blast
    have n0: "node ?P0 (v_root ?v) = Some (Repeat ct)"
    proof -
      obtain nd where nd: "node ?P0 (v_root ?v) = Some nd" using o rep_node unfolding orig_def by blast
      show ?thesis
      proof (cases "is_repeat nd")
        case True
        then obtain ct' where "nd = Repeat ct'" by (cases nd) (simp_all add: is_repeat_def)
        then show ?thesis using nd evolves_repeat [OF expandingD(1) [OF e(1)], of "v_root ?v" ct'] ct by auto
      next
        case False
        then show ?thesis using evolves_node [OF expandingD(1) [OF e(1)] nd] ct nd by simp
      qed
    qed
    obtain u where u: "ts ! i = TRepeat u" "orig ?P0 ?n ct u" using o rep_node [of ?P0 "v_root ?v" "ts ! i"] n0 by (auto simp: orig_def)
    have width: "eval_width P (zero_width x) ct = Some (twidth tbl u)" by (rule expand_width [OF e(1) u(2)])
    have start: "expand_variable H i s = (if eof_nullable (twidth tbl u) then do { nm \<leftarrow> resolve (str_pool P) (v_name ?v); Some (Inl nm) }
      else and_then (expand_root H (v_name ?v) ct (P, x, 0)) (\<lambda>(pool, x, _). do {
           (pool, root) \<leftarrow> wrap_in_binary_tree pool (non_terminal i) ct;
           Some (Inr (g0\<lparr>g_pool := pool, g_variables := vars[i := ?v\<lparr>v_root := root\<rparr>]\<rparr>,
             m0\<lparr>m_kinds := kinds[i := Auxiliary], m_inline := filter (\<lambda>s. s \<noteq> non_terminal i) (?inl i kinds)\<rparr>, x))
         }))"
      using v True ct width unfolding st expand_variable_def by (simp add: vec_get_def grammar_update)
    have "set (repeated u) \<subseteq> U" using U u(1) by simp
    note root = expand_root_correct [OF b nmB(3) u(2) this e nmB(1)]
    show ?thesis
    proof (cases "eof_nullable (twidth tbl u)")
      case bad: True
      then show ?thesis using start u(1) resolve_holds [OF expandingD(3) [OF e(1)], of "v_name ?v"] nmB by simp
    next
      case ok: False
      show ?thesis
      proof (cases "harmless tbl u")
        case False
        then show ?thesis using start ok u(1) root nmB(2) by simp
      next
        case h: True
        then obtain P1 x1 c1 q1 A1 B1 where one: "expand_root H (v_name ?v) ct (P, x, 0) = Some (Inr (P1, x1, c1))" "expanding H ent ?P0 tbl M L Nm U q1 A1 ((strs @ B) @ B1) P1 x1"
          "affordable ?N P1 0 q1 (?n - i)" "evolves ?N P P1" "cleaned P1 ct" using root by auto
        obtain q2 where q2: "q1 = Suc q2" using one(3) i by (cases q1) (auto simp: affordable_def)
        obtain P2 root where two: "wrap_in_binary_tree P1 (non_terminal i) ct = Some (P2, root)" "expanding H ent ?P0 tbl M L Nm U q2 A1 ((strs @ B) @ B1) P2 x1"
          "wraps ?P0 ?n P2 i root u" "evolves ?N P1 P2" "pending ?N P2 = pending ?N P1"
          using wrap_expanding [OF one(2) [unfolded q2] b u(2) one(5) i] by blast
        let ?vars = "vars[i := ?v\<lparr>v_root := root\<rparr>]" and ?kinds = "kinds[i := Auxiliary]"
        have inl: "filter (\<lambda>s. s \<noteq> non_terminal i) (?inl i kinds) = ?inl (Suc i) ?kinds" using True i len
          by (auto simp: less_Suc_eq intro!: filter_cong)
        have "variables_ok H ent g0 m0 tbl M L Nm U ts strs (Suc i) (g0\<lparr>g_pool := P2, g_variables := ?vars\<rparr>,
            m0\<lparr>m_kinds := ?kinds, m_inline := filter (\<lambda>s. s \<noteq> non_terminal i) (?inl i kinds)\<rparr>, x1)"
        proof (rule variables_okI [where B = "B @ B1"])
          show "affordable ?N P2 0 q2 (?n - Suc i)" using one(3) q2 two(5) i by (auto simp: affordable_def)
          show "finished ?P0 ?n P2 k (ts ! k) (g_variables g0 ! k, m_kinds m0 ! k) (?vars ! k, ?kinds ! k)" if "k < Suc i" for k
          proof (cases "k = i")
            case True
            then show ?thesis using two(3) u(1) i len \<open>?k = Hidden \<and> _\<close> by (simp add: finished_def)
          next
            case False
            then show ?thesis using later [OF _ evolves_trans [OF one(4) two(4)] expandingD(2) [OF two(2)], of k] that by simp
          qed
        qed (use two(2) len rest inl in auto)
        then show ?thesis using start ok one(1) two(1) u(1) h by simp
      qed
    qed
  next
    case False
    have start: "expand_variable H i s = and_then (expand_root H (v_name ?v) (v_root ?v) (P, x, 0)) (\<lambda>(pool, x, _). Some (Inr (g0\<lparr>g_pool := pool, g_variables := vars\<rparr>,
        m0\<lparr>m_kinds := kinds, m_inline := ?inl i kinds\<rparr>, x)))"
    proof -
      obtain t' where "rep P (v_root ?v) t'" using keepsD [OF expandingD(2) [OF e(1)] o] by blast
      then obtain nd where nd: "node P (v_root ?v) = Some nd" using rep_node by blast
      then show ?thesis using v False unfolding st expand_variable_def by (cases nd) (auto simp: vec_get_def grammar_update)
    qed
    note root = expand_root_correct [OF b nmB(3) o U e nmB(1)]
    show ?thesis
    proof (cases "harmless tbl (ts ! i)")
      case bad: False
      then show ?thesis using start root nmB(2) by simp
    next
      case h: True
      then obtain P1 x1 c1 q1 A1 B1 where one: "expand_root H (v_name ?v) (v_root ?v) (P, x, 0) = Some (Inr (P1, x1, c1))" "expanding H ent ?P0 tbl M L Nm U q1 A1 ((strs @ B) @ B1) P1 x1"
        "affordable ?N P1 0 q1 (?n - i)" "evolves ?N P P1" "cleaned P1 (v_root ?v)" using root by auto
      have inl: "?inl i kinds = ?inl (Suc i) kinds" using rest [OF i] by (auto simp: less_Suc_eq intro!: filter_cong)
      have "variables_ok H ent g0 m0 tbl M L Nm U ts strs (Suc i) (g0\<lparr>g_pool := P1, g_variables := vars\<rparr>, m0\<lparr>m_kinds := kinds, m_inline := ?inl i kinds\<rparr>, x1)"
      proof (rule variables_okI [where B = "B @ B1"])
        show "affordable ?N P1 0 q1 (?n - Suc i)" using one(3) by (auto simp: affordable_def)
        show "finished ?P0 ?n P1 k (ts ! k) (g_variables g0 ! k, m_kinds m0 ! k) (vars ! k, kinds ! k)" if "k < Suc i" for k
        proof (cases "k = i")
          case True
          then show ?thesis using one(5) rest [OF i] by (simp add: finished_def)
        next
          case False
          then show ?thesis using later [OF _ one(4) expandingD(2) [OF one(2)], of k] that by simp
        qed
      qed (use one(2) len rest inl in auto)
      then show ?thesis using start one(1) h by simp
    qed
  qed
qed

lemma expand_variables_correct:
  assumes b: "bounded H ent (g_pool g0) (length tbl) M L Nm"
    and os: "\<And>k. k < length tbl \<Longrightarrow> orig (g_pool g0) (length tbl) (v_root (g_variables g0 ! k)) (ts ! k)"
    and nm: "\<And>k. k < length tbl \<Longrightarrow> id_index (v_name (g_variables g0 ! k)) < length strs \<and> strs ! id_index (v_name (g_variables g0 ! k)) \<in> Nm"
    and U: "\<And>k. k < length tbl \<Longrightarrow> set (repeated (ts ! k)) \<subseteq> U"
  shows "variables_ok H ent g0 m0 tbl M L Nm U ts strs i s \<Longrightarrow> i \<le> length tbl \<Longrightarrow>
    if \<forall>k. i \<le> k \<and> k < length tbl \<longrightarrow> harmless tbl (ts ! k)
    then \<exists>s'. expand_variables H [i ..< length tbl] s = Some (Inr s') \<and> variables_ok H ent g0 m0 tbl M L Nm U ts strs (length tbl) s'
    else \<exists>k. i \<le> k \<and> k < length tbl \<and> \<not> harmless tbl (ts ! k) \<and> (\<forall>j. i \<le> j \<and> j < k \<longrightarrow> harmless tbl (ts ! j)) \<and>
      expand_variables H [i ..< length tbl] s = Some (Inl (strs ! id_index (v_name (g_variables g0 ! k))))"
proof (induction "length tbl - i" arbitrary: i s)
  case 0
  then have "i = length tbl" by simp
  then show ?case using 0 by simp
next
  case (Suc d)
  then have i: "i < length tbl" by simp
  have list: "[i ..< length tbl] = i # [Suc i ..< length tbl]" using i by (rule upt_conv_Cons)
  note one = expand_variable_correct [OF b Suc.prems(1) i os U [OF i] conjunct1 [OF nm [OF i]] conjunct2 [OF nm [OF i]]]
  show ?case
  proof (cases "harmless tbl (ts ! i)")
    case False
    have "expand_variables H [i ..< length tbl] s = Some (Inl (strs ! id_index (v_name (g_variables g0 ! i))))" using one False by (simp add: list)
    moreover have "\<not> (\<forall>k. i \<le> k \<and> k < length tbl \<longrightarrow> harmless tbl (ts ! k))" using False i by blast
    ultimately show ?thesis using False i by (simp only: if_False) (intro exI [of _ i], auto)
  next
    case True
    then obtain s' where s': "expand_variable H i s = Some (Inr s')" "variables_ok H ent g0 m0 tbl M L Nm U ts strs (Suc i) s'" using one by auto
    have rest: "(\<forall>k. i \<le> k \<and> k < length tbl \<longrightarrow> harmless tbl (ts ! k)) \<longleftrightarrow> (\<forall>k. Suc i \<le> k \<and> k < length tbl \<longrightarrow> harmless tbl (ts ! k))"
      using True by (metis Suc_leD Suc_leI le_neq_implies_less)
    have eq: "expand_variables H [i ..< length tbl] s = expand_variables H [Suc i ..< length tbl] s'" using s'(1) by (simp add: list)
    have IH: "if \<forall>k. Suc i \<le> k \<and> k < length tbl \<longrightarrow> harmless tbl (ts ! k)
      then \<exists>s''. expand_variables H [Suc i ..< length tbl] s' = Some (Inr s'') \<and> variables_ok H ent g0 m0 tbl M L Nm U ts strs (length tbl) s''
      else \<exists>k. Suc i \<le> k \<and> k < length tbl \<and> \<not> harmless tbl (ts ! k) \<and> (\<forall>j. Suc i \<le> j \<and> j < k \<longrightarrow> harmless tbl (ts ! j)) \<and>
        expand_variables H [Suc i ..< length tbl] s' = Some (Inl (strs ! id_index (v_name (g_variables g0 ! k))))"
      by (rule Suc.hyps(1)) (use Suc.hyps(2) s'(2) i in simp_all)
    show ?thesis
    proof (cases "\<forall>k. Suc i \<le> k \<and> k < length tbl \<longrightarrow> harmless tbl (ts ! k)")
      case ok: True
      then show ?thesis using IH unfolding rest eq by simp
    next
      case bad: False
      then obtain k where k: "Suc i \<le> k" "k < length tbl" "\<not> harmless tbl (ts ! k)" "\<forall>j. Suc i \<le> j \<and> j < k \<longrightarrow> harmless tbl (ts ! j)"
        "expand_variables H [Suc i ..< length tbl] s' = Some (Inl (strs ! id_index (v_name (g_variables g0 ! k))))" using IH unfolding if_not_P [OF bad] by blast
      have "\<forall>j. i \<le> j \<and> j < k \<longrightarrow> harmless tbl (ts ! j)" using k(4) True by (metis Suc_leI le_neq_implies_less)
      then show ?thesis using bad k unfolding rest eq if_not_P [OF bad] by (intro exI [of _ k]) simp
    qed
  qed
qed

text \<open>The trees of all variables at the end.\<close>

lemma expanded_variables:
  assumes e: "expanding H ent P0 tbl M L Nm U q A strs P x" and len: "length vars = length tbl" "length ts = length tbl"
    and fin: "\<And>k. k < length tbl \<Longrightarrow> finished P0 (length tbl) P k (ts ! k) (vars0 ! k, kinds0 ! k) (vars ! k, kinds ! k)"
    and os: "\<And>k. k < length tbl \<Longrightarrow> orig P0 (length tbl) (v_root (vars0 ! k)) (ts ! k)"
  shows "\<exists>ts'. expansion ts A ts' \<and> list_all2 (\<lambda>v t. rep P (v_root v) t \<and> repeated t = []) (vars @ aux x) ts' \<and>
    (\<forall>k < length ts. kinds ! k = kinds0 ! k \<or> kinds0 ! k = Hidden \<and> kinds ! k = Auxiliary \<and> (\<exists>u. ts ! k = TRepeat u \<and> binary_tree (length ts) A k u (ts' ! k)))"
proof -
  let ?n = "length tbl"
  note d = expandingD [OF e]
  have "\<exists>t'. rep P (v_root (vars ! k)) t' \<and> repeated t' = [] \<and> (expanded ?n A (ts ! k) t' \<and> kinds ! k = kinds0 ! k \<or>
      kinds0 ! k = Hidden \<and> kinds ! k = Auxiliary \<and> (\<exists>u. ts ! k = TRepeat u \<and> binary_tree ?n A k u t'))"
    if k: "k < ?n" for k
  proof -
    consider u where "ts ! k = TRepeat u" "wraps P0 ?n P k (v_root (vars ! k)) u" "kinds0 ! k = Hidden" "kinds ! k = Auxiliary"
      | "v_root (vars ! k) = v_root (vars0 ! k)" "cleaned P (v_root (vars0 ! k))" "kinds ! k = kinds0 ! k"
      using fin [OF k] by (auto simp: finished_def)
    then show ?thesis
    proof cases
      case 1
      then show ?thesis using wraps_tree [OF 1(2) d(2)] by blast
    next
      case 2
      obtain t' where t': "rep P (v_root (vars0 ! k)) t'" "expanded ?n A (ts ! k) t'" using keepsD [OF d(2) os [OF k]] by blast
      then have "repeated t' = []" using 2(2) rep_functional unfolding cleaned_def by blast
      then show ?thesis using t' 2(1,3) by (intro exI [of _ t']) simp
    qed
  qed
  then obtain f where f: "\<And>k. k < ?n \<Longrightarrow> rep P (v_root (vars ! k)) (f k) \<and> repeated (f k) = [] \<and>
      (expanded ?n A (ts ! k) (f k) \<and> kinds ! k = kinds0 ! k \<or> kinds0 ! k = Hidden \<and> kinds ! k = Auxiliary \<and> (\<exists>u. ts ! k = TRepeat u \<and> binary_tree ?n A k u (f k)))" by metis
  have "\<exists>t'. rep P (v_root (aux x ! j)) t' \<and> binary_tree ?n A (?n + j) (A ! j) t' \<and> repeated t' = []" if "j < length A" for j
    using d(8) [OF that] wraps_tree [OF _ d(2)] by blast
  then obtain h where h: "\<And>j. j < length A \<Longrightarrow> rep P (v_root (aux x ! j)) (h j) \<and> binary_tree ?n A (?n + j) (A ! j) (h j) \<and> repeated (h j) = []" by metis
  let ?ts = "map f [0 ..< ?n] @ map h [0 ..< length A]"
  have at: "?ts ! k = f k" if "k < ?n" for k using that by (simp add: nth_append)
  have "expansion ts A ?ts" using f h len by (auto simp: expansion_def nth_append)
  moreover have "list_all2 (\<lambda>v t. rep P (v_root v) t \<and> repeated t = []) (vars @ aux x) ?ts"
    by (rule list_all2_appendI) (use f h len d(7) in \<open>auto simp: list_all2_conv_all_nth\<close>)
  moreover have "kinds ! k = kinds0 ! k \<or> kinds0 ! k = Hidden \<and> kinds ! k = Auxiliary \<and> (\<exists>u. ts ! k = TRepeat u \<and> binary_tree (length ts) A k u (?ts ! k))" if "k < length ts" for k
    using f [of k] that len at [of k] by auto
  ultimately show ?thesis by (intro exI [of _ ?ts]) blast
qed

section \<open>The whole pass\<close>

definition eof_repeat :: "rtree list \<Rightarrow> nat \<Rightarrow> bool" where
  "eof_repeat ts k \<longleftrightarrow> (\<exists>u \<in> set (repeated (ts ! k)). zero ts u True)"

lemma expand_repeats_outcome:
  assumes laws: "hash_table_laws (table_ops H) ent" and strs: "holds ent (hash_str H) (str_pool (g_pool g)) strs"
    and ts: "list_all2 (\<lambda>v t. rep (g_pool g) (v_root v) t \<and> syntactic t \<and> refs_below (length (g_variables g)) t) (g_variables g) ts"
    and names: "\<forall>v \<in> set (g_variables g). id_index (v_name v) < length strs \<and> length (strs ! id_index (v_name v)) \<le> L"
    and kinds: "length (m_kinds m) = length (g_variables g)"
    and flat: "\<forall>i t. rep (g_pool g) i t \<longrightarrow> length (flat t) \<le> M"
    and room: "room (length (g_variables g)) M L (g_pool g) strs (length (filter is_repeat (nodes (g_pool g))) + length (g_variables g))"
  shows "if \<forall>k < length ts. \<not> eof_repeat ts k then
      \<exists>vars ks x P q A B tbl Nm U. expand_repeats H g m = Some (Inr (g\<lparr>g_pool := P, g_variables := vars @ aux x\<rparr>, m\<lparr>m_kinds := ks @ map (\<lambda>_. Auxiliary) (aux x),
          m_inline := filter (\<lambda>y. \<not> (\<exists>k < length ts. y = non_terminal k \<and> ks ! k \<noteq> m_kinds m ! k)) (m_inline m)\<rparr>)) \<and>
        length tbl = length ts \<and> expanding H ent (g_pool g) tbl M L Nm U q A (strs @ B) P x \<and> length vars = length ts \<and> length ks = length ts \<and>
        Nm = (\<lambda>v. strs ! id_index (v_name v)) ` set (g_variables g) \<and> U = (\<Union>t \<in> set ts. set (repeated t)) \<and>
        (\<forall>k < length ts. finished (g_pool g) (length ts) P k (ts ! k) (g_variables g ! k, m_kinds m ! k) (vars ! k, ks ! k))
    else \<exists>k < length ts. eof_repeat ts k \<and> (\<forall>j < k. \<not> eof_repeat ts j) \<and> expand_repeats H g m = Some (Inl (strs ! id_index (v_name (g_variables g ! k))))"
proof -
  let ?P0 = "g_pool g" and ?Nm = "(\<lambda>v. strs ! id_index (v_name v)) ` set (g_variables g)" and ?U = "\<Union>t \<in> set ts. set (repeated t)"
  have len: "length ts = length (g_variables g)" using list_all2_lengthD [OF ts] by simp
  have "list_all2 (\<lambda>v t. rep ?P0 (v_root v) t \<and> syntactic t) (g_variables g) ts" by (rule list_all2_mono [OF ts]) blast
  then obtain tbl where tbl: "zero_width_new ?P0 (g_variables g) = Some tbl" "length tbl = length ts" "\<forall>t. twidth tbl t = \<lparr>nullable = zero ts t False, eof_nullable = zero ts t True\<rparr>"
    using zero_width_table by blast
  have bad: "harmless tbl (ts ! k) \<longleftrightarrow> \<not> eof_repeat ts k" for k by (simp add: harmless_def eof_repeat_def tbl(3))
  have n: "length (g_variables g) = length tbl" using len tbl(2) by simp
  have b: "bounded H ent ?P0 (length tbl) M L ?Nm" using laws flat names by (auto simp: bounded_def orig_def)
  have os: "orig ?P0 (length tbl) (v_root (g_variables g ! k)) (ts ! k)" if "k < length tbl" for k
    using ts that unfolding n by (auto simp: list_all2_conv_all_nth orig_def n)
  have nm: "id_index (v_name (g_variables g ! k)) < length strs \<and> strs ! id_index (v_name (g_variables g ! k)) \<in> ?Nm" if "k < length tbl" for k
    using names that n nth_mem [of k "g_variables g"] by auto
  let ?x = "\<lparr>preceding = length (g_variables g), aux = [], memo = (\<lambda>_. []), zero_width = tbl\<rparr>"
  let ?q = "length (filter is_repeat (nodes ?P0)) + length (g_variables g)"
  have "expanding H ent ?P0 tbl M L ?Nm ?U ?q [] (strs @ []) ?P0 ?x"
    by (rule expandingI) (use keeps_start strs room n in \<open>simp_all add: memo_ok_def\<close>)
  moreover have "affordable (length (nodes ?P0)) ?P0 0 ?q (length tbl - 0)" using room length_filter_le [of is_repeat "nodes ?P0"] n
    by (auto simp: affordable_def pending_def room_def)
  ultimately have "variables_ok H ent g m tbl M L ?Nm ?U ts strs 0 (g\<lparr>g_pool := ?P0, g_variables := g_variables g\<rparr>,
      m\<lparr>m_kinds := m_kinds m, m_inline := m_inline m\<rparr>, ?x)"
    by (rule variables_okI) (use n kinds in simp_all)
  then have start: "variables_ok H ent g m tbl M L ?Nm ?U ts strs 0 (g, m, ?x)" by simp
  have "set (repeated (ts ! k)) \<subseteq> ?U" if "k < length tbl" for k by (rule UN_upper) (use that tbl(2) in simp)
  note loop = expand_variables_correct [OF b os nm this start le0]
  have er: "expand_repeats H g m = and_then (expand_variables H [0 ..< length tbl] (g, m, ?x)) (\<lambda>(g, meta, x).
       Some (Inr (g\<lparr>g_variables := g_variables g @ aux x\<rparr>, meta\<lparr>m_kinds := m_kinds meta @ map (\<lambda>_. Auxiliary) (aux x)\<rparr>)))"
    using tbl(1) n by (simp add: expand_repeats_def)
  show ?thesis
  proof (cases "\<forall>k < length ts. \<not> eof_repeat ts k")
    case True
    then obtain s' where s': "expand_variables H [0 ..< length tbl] (g, m, ?x) = Some (Inr s')" "variables_ok H ent g m tbl M L ?Nm ?U ts strs (length tbl) s'"
      using loop bad tbl(2) by auto
    obtain q A B vars ks P x where e: "s' = (g\<lparr>g_pool := P, g_variables := vars\<rparr>,
        m\<lparr>m_kinds := ks, m_inline := filter (\<lambda>y. \<not> (\<exists>k < length tbl. y = non_terminal k \<and> ks ! k \<noteq> m_kinds m ! k)) (m_inline m)\<rparr>, x)"
      "expanding H ent ?P0 tbl M L ?Nm ?U q A (strs @ B) P x" "length vars = length tbl" "length ks = length tbl"
      "\<And>k. k < length tbl \<Longrightarrow> finished ?P0 (length tbl) P k (ts ! k) (g_variables g ! k, m_kinds m ! k) (vars ! k, ks ! k)"
      by (rule variables_okE [OF s'(2)]) (rule that; assumption)
    have "expand_repeats H g m = Some (Inr (g\<lparr>g_pool := P, g_variables := vars @ aux x\<rparr>, m\<lparr>m_kinds := ks @ map (\<lambda>_. Auxiliary) (aux x),
          m_inline := filter (\<lambda>y. \<not> (\<exists>k < length ts. y = non_terminal k \<and> ks ! k \<noteq> m_kinds m ! k)) (m_inline m)\<rparr>))"
      unfolding er [unfolded s'(1) and_then_simps e(1) prod.case] tbl(2) by (cases m) simp
    then show ?thesis using True e tbl(2) unfolding if_P [OF True]
      by (intro exI [of _ vars] exI [of _ ks] exI [of _ x] exI [of _ P] exI [of _ q] exI [of _ A] exI [of _ B] exI [of _ tbl] exI [of _ ?Nm] exI [of _ ?U]) simp
  next
    case False
    have nb: "\<not> (\<forall>k. 0 \<le> k \<and> k < length tbl \<longrightarrow> harmless tbl (ts ! k))" using False bad tbl(2) by simp
    obtain k where "k < length tbl" "\<not> harmless tbl (ts ! k)" "\<forall>j. 0 \<le> j \<and> j < k \<longrightarrow> harmless tbl (ts ! j)"
      "expand_variables H [0 ..< length tbl] (g, m, ?x) = Some (Inl (strs ! id_index (v_name (g_variables g ! k))))" using loop unfolding if_not_P [OF nb] by blast
    then show ?thesis using bad tbl(2) unfolding if_not_P [OF False] er by (intro exI [of _ k]) simp
  qed
qed

lemma expand_repeats_success:
  assumes "hash_table_laws (table_ops H) ent" "holds ent (hash_str H) (str_pool (g_pool g)) strs"
    and "list_all2 (\<lambda>v t. rep (g_pool g) (v_root v) t \<and> syntactic t \<and> refs_below (length (g_variables g)) t) (g_variables g) ts"
    and "\<forall>v \<in> set (g_variables g). id_index (v_name v) < length strs \<and> length (strs ! id_index (v_name v)) \<le> L"
    and "length (m_kinds m) = length (g_variables g)"
    and "\<forall>i t. rep (g_pool g) i t \<longrightarrow> length (flat t) \<le> M"
    and "room (length (g_variables g)) M L (g_pool g) strs (length (filter is_repeat (nodes (g_pool g))) + length (g_variables g))"
    and "\<forall>k < length ts. \<not> eof_repeat ts k"
  shows "\<exists>g' m' A ts'. expand_repeats H g m = Some (Inr (g', m')) \<and> expansion ts A ts' \<and> (\<forall>u \<in> set A. refs_below (length ts) u \<and> (\<exists>t \<in> set ts. u \<in> set (repeated t))) \<and>
        list_all2 (\<lambda>v t. rep (g_pool g') (v_root v) t \<and> repeated t = []) (g_variables g') ts' \<and>
        map v_name (take (length ts) (g_variables g')) = map v_name (g_variables g) \<and>
        (\<forall>v \<in> set (drop (length ts) (g_variables g')). \<exists>w \<in> set (g_variables g). \<exists>k. resolve (str_pool (g_pool g')) (v_name v) = Some (strs ! id_index (v_name w) @ ''_repeat'' @ digits k)) \<and>
        length (m_kinds m') = length (g_variables g') \<and> (\<forall>j < length A. m_kinds m' ! (length ts + j) = Auxiliary) \<and>
        (\<forall>k < length ts. m_kinds m' ! k = m_kinds m ! k \<or> m_kinds m ! k = Hidden \<and> m_kinds m' ! k = Auxiliary \<and> (\<exists>u. ts ! k = TRepeat u \<and> binary_tree (length ts) A k u (ts' ! k))) \<and>
        m_inline m' = filter (\<lambda>y. \<not> (\<exists>k < length ts. y = non_terminal k \<and> m_kinds m' ! k \<noteq> m_kinds m ! k)) (m_inline m)"
proof -
  let ?n = "length ts"
  obtain vars ks x P q A B tbl Nm U where r: "expand_repeats H g m = Some (Inr (g\<lparr>g_pool := P, g_variables := vars @ aux x\<rparr>, m\<lparr>m_kinds := ks @ map (\<lambda>_. Auxiliary) (aux x),
        m_inline := filter (\<lambda>y. \<not> (\<exists>k < ?n. y = non_terminal k \<and> ks ! k \<noteq> m_kinds m ! k)) (m_inline m)\<rparr>))"
      "length tbl = ?n" "expanding H ent (g_pool g) tbl M L Nm U q A (strs @ B) P x" "length vars = ?n" "length ks = ?n"
      "Nm = (\<lambda>v. strs ! id_index (v_name v)) ` set (g_variables g)" "U = (\<Union>t \<in> set ts. set (repeated t))"
      "\<forall>k < ?n. finished (g_pool g) ?n P k (ts ! k) (g_variables g ! k, m_kinds m ! k) (vars ! k, ks ! k)"
    using expand_repeats_outcome [OF assms(1-7)] unfolding if_P [OF assms(8)] by blast
  note d = expandingD [OF r(3)]
  have n: "length (g_variables g) = ?n" using list_all2_lengthD [OF assms(3)] .
  have os: "orig (g_pool g) (length tbl) (v_root (g_variables g ! k)) (ts ! k)" if "k < length tbl" for k
    using assms(3) that unfolding n by (auto simp: list_all2_conv_all_nth orig_def n r(2))
  have len: "length vars = length tbl" "length ts = length tbl" using r(2,4) by simp_all
  have fin: "finished (g_pool g) (length tbl) P k (ts ! k) (g_variables g ! k, m_kinds m ! k) (vars ! k, ks ! k)" if "k < length tbl" for k using r(2,8) that by simp
  obtain ts' where ts': "expansion ts A ts'" "list_all2 (\<lambda>v t. rep P (v_root v) t \<and> repeated t = []) (vars @ aux x) ts'"
    "\<forall>k < ?n. ks ! k = m_kinds m ! k \<or> m_kinds m ! k = Hidden \<and> ks ! k = Auxiliary \<and> (\<exists>u. ts ! k = TRepeat u \<and> binary_tree ?n A k u (ts' ! k))"
    using expanded_variables [OF r(3) len fin os] by blast
  have nm: "map v_name vars = map v_name (g_variables g)" by (rule nth_equalityI) (use r(4,8) n in \<open>auto simp: finished_def\<close>)
  have aux_names: "\<exists>w \<in> set (g_variables g). \<exists>k. resolve (str_pool P) (v_name v) = Some (strs ! id_index (v_name w) @ ''_repeat'' @ digits k)" if v: "v \<in> set (aux x)" for v
  proof -
    obtain j where j: "j < length A" "v = aux x ! j" using v d(7) by (metis in_set_conv_nth)
    then show ?thesis using d(8) [OF j(1)] resolve_holds [OF d(3), of "v_name v"] r(6) by (auto simp: aux_name_def)
  qed
  let ?g = "g\<lparr>g_pool := P, g_variables := vars @ aux x\<rparr>" and ?m = "m\<lparr>m_kinds := ks @ map (\<lambda>_. Auxiliary) (aux x),
        m_inline := filter (\<lambda>y. \<not> (\<exists>k < ?n. y = non_terminal k \<and> ks ! k \<noteq> m_kinds m ! k)) (m_inline m)\<rparr>"
  have kinds: "m_kinds ?m ! k = ks ! k" if "k < ?n" for k using that r(5) by (simp add: nth_append)
  show ?thesis
  proof (rule exI [of _ ?g], rule exI [of _ ?m], rule exI [of _ A], rule exI [of _ ts'], intro conjI)
    show "m_inline ?m = filter (\<lambda>y. \<not> (\<exists>k < ?n. y = non_terminal k \<and> m_kinds ?m ! k \<noteq> m_kinds m ! k)) (m_inline m)"
      using kinds by (auto intro!: filter_cong)
    show "\<forall>k < ?n. m_kinds ?m ! k = m_kinds m ! k \<or> m_kinds m ! k = Hidden \<and> m_kinds ?m ! k = Auxiliary \<and> (\<exists>u. ts ! k = TRepeat u \<and> binary_tree ?n A k u (ts' ! k))"
      using ts'(3) r(5) by (simp add: nth_append)
  qed (use r(1,2,4,5,7) ts'(1,2) nm aux_names d(7,9) in \<open>simp_all add: nth_append\<close>)
qed

section \<open>Properties\<close>

text \<open>C2. Expanding repetitions returns. It fails exactly when some repetition can match the empty string at the end of the
  input, and names the first variable that has one. Otherwise every variable is its old tree without
  repetitions outside of \<open>reserved\<close>, where a repetition of \<open>u\<close> is a reference to an auxiliary variable whose rule is
  a pair of references to itself or an alternative of \<open>u\<close>; a hidden variable with a repetition at the
  top may become such a tree itself, which makes it auxiliary and no longer inlined. Kinds, names and inlined symbols
  of all other variables are unchanged, and the auxiliary variables are named after a variable.\<close>

theorem expand_repeats_correct:
  assumes "hash_table_laws (table_ops H) ent" "holds ent (hash_str H) (str_pool (g_pool g)) strs"
    and "list_all2 (\<lambda>v t. rep (g_pool g) (v_root v) t \<and> syntactic t \<and> refs_below (length (g_variables g)) t) (g_variables g) ts"
    and "\<forall>v \<in> set (g_variables g). id_index (v_name v) < length strs \<and> length (strs ! id_index (v_name v)) \<le> L"
    and "length (m_kinds m) = length (g_variables g)"
    and "\<forall>i t. rep (g_pool g) i t \<longrightarrow> length (flat t) \<le> M"
    and "room (length (g_variables g)) M L (g_pool g) strs (length (filter is_repeat (nodes (g_pool g))) + length (g_variables g))"
  shows "if \<forall>k < length ts. \<not> eof_repeat ts k then
      \<exists>g' m' A ts'. expand_repeats H g m = Some (Inr (g', m')) \<and> expansion ts A ts' \<and> (\<forall>u \<in> set A. \<exists>t \<in> set ts. u \<in> set (repeated t)) \<and>
        list_all2 (\<lambda>v t. rep (g_pool g') (v_root v) t \<and> repeated t = []) (g_variables g') ts' \<and>
        map v_name (take (length ts) (g_variables g')) = map v_name (g_variables g) \<and>
        (\<forall>v \<in> set (drop (length ts) (g_variables g')). \<exists>w \<in> set (g_variables g). \<exists>k. resolve (str_pool (g_pool g')) (v_name v) = Some (strs ! id_index (v_name w) @ ''_repeat'' @ digits k)) \<and>
        length (m_kinds m') = length (g_variables g') \<and> (\<forall>j < length A. m_kinds m' ! (length ts + j) = Auxiliary) \<and>
        (\<forall>k < length ts. m_kinds m' ! k = m_kinds m ! k \<or> m_kinds m ! k = Hidden \<and> m_kinds m' ! k = Auxiliary \<and> (\<exists>u. ts ! k = TRepeat u \<and> binary_tree (length ts) A k u (ts' ! k))) \<and>
        m_inline m' = filter (\<lambda>y. \<not> (\<exists>k < length ts. y = non_terminal k \<and> m_kinds m' ! k \<noteq> m_kinds m ! k)) (m_inline m)
    else \<exists>k < length ts. eof_repeat ts k \<and> (\<forall>j < k. \<not> eof_repeat ts j) \<and> expand_repeats H g m = Some (Inl (strs ! id_index (v_name (g_variables g ! k))))"
proof (cases "\<forall>k < length ts. \<not> eof_repeat ts k")
  case False
  then show ?thesis using expand_repeats_outcome [OF assms] unfolding if_not_P [OF False] by blast
next
  case True
  show ?thesis unfolding if_P [OF True] using expand_repeats_success [OF assms True] by blast
qed

text \<open>C39. The expansion preserves the language: every variable derives the same words of leaves before and after it.\<close>

theorem expand_repeats_language:
  assumes "hash_table_laws (table_ops H) ent" "holds ent (hash_str H) (str_pool (g_pool g)) strs"
    and "list_all2 (\<lambda>v t. rep (g_pool g) (v_root v) t \<and> syntactic t \<and> refs_below (length (g_variables g)) t) (g_variables g) ts"
    and "\<forall>v \<in> set (g_variables g). id_index (v_name v) < length strs \<and> length (strs ! id_index (v_name v)) \<le> L"
    and "length (m_kinds m) = length (g_variables g)"
    and "\<forall>i t. rep (g_pool g) i t \<longrightarrow> length (flat t) \<le> M"
    and "room (length (g_variables g)) M L (g_pool g) strs (length (filter is_repeat (nodes (g_pool g))) + length (g_variables g))"
    and "expand_repeats H g m = Some (Inr (g', m'))" "list_all2 (\<lambda>v t. rep (g_pool g') (v_root v) t) (g_variables g') ts'" "k < length ts"
  shows "derives ts' (ts' ! k) w \<longleftrightarrow> derives ts (ts ! k) w"
proof -
  let ?n = "length ts"
  have ok: "\<forall>k < length ts. \<not> eof_repeat ts k" using expand_repeats_outcome [OF assms(1-7)] assms(8) by (auto split: if_splits)
  obtain g2 m2 A us where us: "expand_repeats H g m = Some (Inr (g2, m2))" "expansion ts A us" "\<forall>u \<in> set A. refs_below ?n u \<and> (\<exists>t \<in> set ts. u \<in> set (repeated t))"
      "list_all2 (\<lambda>v t. rep (g_pool g2) (v_root v) t \<and> repeated t = []) (g_variables g2) us"
    using expand_repeats_success [OF assms(1-7) ok] by blast
  have "us = ts'" using us(1,4) assms(8,9) by (auto simp: list_all2_conv_all_nth intro!: nth_equalityI rep_functional)
  moreover have "expanded ?n A (TSym NonTerminal k) (TSym NonTerminal k)" using assms(10) by (simp add: ex_sym)
  moreover have "\<forall>t \<in> set ts. refs_below ?n t" using assms(3) by (auto simp: list_all2_conv_all_nth in_set_conv_nth)
  ultimately have "derives ts' (TSym NonTerminal k) w \<longleftrightarrow> derives ts (TSym NonTerminal k) w" using expansion_language [OF us(2)] us(3) by blast
  moreover have "k < length ts'" using us(2) \<open>us = ts'\<close> assms(10) by (simp add: expansion_def)
  ultimately show ?thesis using assms(10) by (simp add: derives_variable_iff)
qed

section \<open>A concrete grammar\<close>

text \<open>One variable \<open>a\<close> whose rule is a repetition of a terminal.\<close>

definition list_hashing :: "(u64 \<times> nat) list hashing" where
  "list_hashing = \<lparr>table_ops = list_table, hash_str = (\<lambda>_. 0), hash_tree = (\<lambda>_. 0)\<rparr>"

definition small_strings :: "string list" where
  "small_strings = ['''', ''end'', ''a'']"

definition small_grammar :: "(u64 \<times> nat) list InputGrammar" where
  "small_grammar = \<lparr>g_pool = \<lparr>nodes = [Sym Terminal 0, Repeat 0], children = [], params_vec = [],
      str_pool = \<lparr>buf = concat small_strings, spans = spans_from 0 small_strings, ids = map (\<lambda>i. (0, Suc i)) [0 ..< 3]\<rparr>, scratch = []\<rparr>,
    g_name = 3, g_variables = [\<lparr>v_name = 3, v_root = 1\<rparr>], g_external_roots = [], g_extra_roots = [], g_reserved_sets = [],
    g_supertype_names = [], g_conflict_names = [], g_inline_names = [], g_word_name = None, g_precedence_orderings = []\<rparr>"

definition small_meta :: ExtractedGrammarMeta where
  "small_meta = \<lparr>m_kinds = [Named], m_extra_symbols = [], m_external_tokens = [], m_reserved_sets = [], m_supertypes = [], m_conflicts = [], m_inline = [], m_word = None\<rparr>"

definition small_trees :: "rtree list" where
  "small_trees = [TRepeat (TSym Terminal 0)]"

lemma small_node: "node (g_pool small_grammar) i = Some n \<longleftrightarrow> i = 0 \<and> n = Sym Terminal 0 \<or> i = 1 \<and> n = Repeat 0"
  by (auto simp: node_def vec_get_def small_grammar_def less_Suc_eq)

lemma small_rep: "rep (g_pool small_grammar) i t \<longleftrightarrow> i = 0 \<and> t = TSym Terminal 0 \<or> i = 1 \<and> t = TRepeat (TSym Terminal 0)"
proof -
  have "rep (g_pool small_grammar) 0 (TSym Terminal 0)" by (rule rep_Sym) (simp add: small_node)
  moreover from this have "rep (g_pool small_grammar) 1 (TRepeat (TSym Terminal 0))" by (intro rep_Repeat [of _ _ 0]) (simp_all add: small_node)
  moreover have "i = 0 \<or> i = 1" if "rep (g_pool small_grammar) i t" using rep_node [OF that] by (auto simp: small_node)
  ultimately show ?thesis using rep_functional by blast
qed

lemma small_ok:
  "hash_table_laws (table_ops list_hashing) set" "holds set (hash_str list_hashing) (str_pool (g_pool small_grammar)) small_strings"
  "list_all2 (\<lambda>v t. rep (g_pool small_grammar) (v_root v) t \<and> syntactic t \<and> refs_below (length (g_variables small_grammar)) t) (g_variables small_grammar) small_trees"
  "\<forall>v \<in> set (g_variables small_grammar). id_index (v_name v) < length small_strings \<and> length (small_strings ! id_index (v_name v)) \<le> 1"
  "length (m_kinds small_meta) = length (g_variables small_grammar)"
  "\<forall>i t. rep (g_pool small_grammar) i t \<longrightarrow> length (flat t) \<le> 1"
  "room (length (g_variables small_grammar)) 1 1 (g_pool small_grammar) small_strings (length (filter is_repeat (nodes (g_pool small_grammar))) + length (g_variables small_grammar))"
  "\<forall>k < length small_trees. \<not> eof_repeat small_trees k"
proof -
  show "hash_table_laws (table_ops list_hashing) set" using list_table_laws by (simp add: list_hashing_def)
  show "holds set (hash_str list_hashing) (str_pool (g_pool small_grammar)) small_strings"
    by (auto simp: holds_def list_hashing_def small_grammar_def small_strings_def lessThan_Suc)
  have "\<not> zero small_trees (TSym Terminal 0) True" by (auto elim: zero.cases)
  then show "\<forall>k < length small_trees. \<not> eof_repeat small_trees k" by (simp add: eof_repeat_def small_trees_def)
  show "list_all2 (\<lambda>v t. rep (g_pool small_grammar) (v_root v) t \<and> syntactic t \<and> refs_below (length (g_variables small_grammar)) t) (g_variables small_grammar) small_trees"
    unfolding small_rep by (simp add: small_grammar_def small_trees_def)
  show "\<forall>i t. rep (g_pool small_grammar) i t \<longrightarrow> length (flat t) \<le> 1" by (auto simp: small_rep)
qed (auto simp: small_meta_def small_grammar_def small_strings_def id_index_def room_def is_repeat_def)

theorem expand_repeats_correct_witness:
  "\<exists>g' m' A ts'. expand_repeats list_hashing small_grammar small_meta = Some (Inr (g', m')) \<and> expansion small_trees A ts' \<and>
     list_all2 (\<lambda>v t. rep (g_pool g') (v_root v) t \<and> repeated t = []) (g_variables g') ts'"
  using expand_repeats_correct [OF small_ok(1-7)] unfolding if_P [OF small_ok(8)] by blast

theorem expand_repeats_language_witness:
  "\<exists>g' m' ts'. expand_repeats list_hashing small_grammar small_meta = Some (Inr (g', m')) \<and> list_all2 (\<lambda>v t. rep (g_pool g') (v_root v) t) (g_variables g') ts' \<and>
     derives ts' (ts' ! 0) [TSym Terminal 0, TSym Terminal 0]"
proof -
  obtain g' m' ts' where r: "expand_repeats list_hashing small_grammar small_meta = Some (Inr (g', m'))"
    "list_all2 (\<lambda>v t. rep (g_pool g') (v_root v) t \<and> repeated t = []) (g_variables g') ts'" using expand_repeats_success [OF small_ok] by blast
  have l: "list_all2 (\<lambda>v t. rep (g_pool g') (v_root v) t) (g_variables g') ts'" by (rule list_all2_mono [OF r(2)]) blast
  have "derives small_trees (TRepeat (TSym Terminal 0)) (concat [[TSym Terminal 0], [TSym Terminal 0]])" by (rule de_repeat) (auto intro: de_sym)
  then have "derives small_trees (small_trees ! 0) [TSym Terminal 0, TSym Terminal 0]" by (simp add: small_trees_def)
  then have "derives ts' (ts' ! 0) [TSym Terminal 0, TSym Terminal 0]"
    using expand_repeats_language [OF small_ok(1-7) r(1) l, of 0] by (simp add: small_trees_def)
  then show ?thesis using r(1) l by blast
qed

end
