(* ===== verification/Prepare_Syntax.thy ===== *)
theory Prepare_Syntax
  imports Flatten_Grammar Expand_Repeats
begin

text \<open>
  \<^verbatim>\<open>crates/generate/src/prepare_grammar.rs\<close>: the part of \<open>prepare_grammar\<close> that expands repetitions and flattens the rules into
  productions, and what the productions of a store generate.
\<close>

section \<open>Definitions\<close>

datatype prepare_error = ExpandRepeats string | FlattenGrammar FlattenGrammarError

definition expand_and_flatten :: "'t hashing \<Rightarrow> 't InputGrammar \<Rightarrow> ExtractedGrammarMeta \<Rightarrow>
    (prepare_error + 't InputGrammar \<times> ExtractedGrammarMeta \<times> ProductionStore) option" where
  "expand_and_flatten H g meta = do {
     r \<leftarrow> expand_repeats H g meta;
     case r of
       Inl e \<Rightarrow> Some (Inl (ExpandRepeats e))
     | Inr (g, meta) \<Rightarrow> do {
         r \<leftarrow> flatten_grammar g meta default_state empty_store;
         case r of
           Inl e \<Rightarrow> Some (Inl (FlattenGrammar e))
         | Inr (st, out) \<Rightarrow> Some (Inr (g, meta, out))
       }
   }"

text \<open>Rules of symbols only, with no \<open>eof()\<close> and no repetition inside of \<open>reserved\<close>.\<close>

fun unrepeated :: "rtree \<Rightarrow> bool" where
  "unrepeated (TSeq ts) \<longleftrightarrow> (\<forall>t \<in> set ts. unrepeated t)"
| "unrepeated (TChoice ts) \<longleftrightarrow> (\<forall>t \<in> set ts. unrepeated t)"
| "unrepeated (TRepeat t) \<longleftrightarrow> False"
| "unrepeated (TMeta p t) \<longleftrightarrow> unrepeated t"
| "unrepeated (TReserved t c) \<longleftrightarrow> unrepeated t"
| "unrepeated _ \<longleftrightarrow> True"

fun symbols_only :: "rtree \<Rightarrow> bool" where
  "symbols_only TBlank \<longleftrightarrow> True"
| "symbols_only (TSym k n) \<longleftrightarrow> k \<noteq> End"
| "symbols_only (TSeq ts) \<longleftrightarrow> (\<forall>t \<in> set ts. symbols_only t)"
| "symbols_only (TChoice ts) \<longleftrightarrow> (\<forall>t \<in> set ts. symbols_only t)"
| "symbols_only (TRepeat t) \<longleftrightarrow> symbols_only t"
| "symbols_only (TMeta p t) \<longleftrightarrow> symbols_only t"
| "symbols_only (TReserved t c) \<longleftrightarrow> symbols_only t \<and> unrepeated t"
| "symbols_only _ \<longleftrightarrow> False"

text \<open>The words a symbol generates by the productions of a store.\<close>

inductive generates :: "ProductionStore \<Rightarrow> Symbol \<Rightarrow> rtree list \<Rightarrow> bool" for out where
  gen_token: "k \<noteq> NonTerminal \<Longrightarrow> generates out (Symbol k i) [TSym k i]"
| gen_production: "productions_at out i = Some ps \<Longrightarrow> p \<in> set ps \<Longrightarrow> list_all2 (generates out) (production_symbols p) ws \<Longrightarrow>
    generates out (Symbol NonTerminal i) (concat ws)"

abbreviation sym_tree :: "Symbol \<Rightarrow> rtree" where
  "sym_tree s \<equiv> TSym (kind s) (index s)"

lemma unrepeated_expanded: "expanded n A t t' \<Longrightarrow> unrepeated t \<Longrightarrow> t' = t"
proof (induction rule: expanded.induct)
  case (ex_seq ts us)
  then show ?case by (auto simp: list_all2_conv_all_nth intro: nth_equalityI)
next
  case (ex_choice ts us)
  then show ?case by (auto simp: list_all2_conv_all_nth intro: nth_equalityI)
qed simp_all

lemma symbols_expanded: "expanded n A t t' \<Longrightarrow> symbols_only t \<Longrightarrow> repeated t' = [] \<Longrightarrow> symbols_only t' \<and> unrepeated t'"
proof (induction rule: expanded.induct)
  case (ex_reserved t u c)
  then have "u = t" using unrepeated_expanded by simp
  then show ?case using ex_reserved.prems by simp
next
  case (ex_seq ts us)
  show ?case using ex_seq.prems list_all2_partner(2) [OF ex_seq.IH] by fastforce
next
  case (ex_choice ts us)
  show ?case using ex_choice.prems list_all2_partner(2) [OF ex_choice.IH] by fastforce
qed simp_all

lemma symbols_binary:
  assumes "binary_tree n A m u v" "symbols_only u" "repeated v = []"
  shows "symbols_only v \<and> unrepeated v"
proof -
  obtain ss ss' where b: "list_all2 (expanded n A) ss ss'" "set ss \<subseteq> set (flat u)" "v = (if ss = [] then pair m else TChoice (pair m # ss'))"
    using assms(1) by (auto simp: binary_tree_def)
  have flat: "symbols_only s" if "s \<in> set (flat t)" "symbols_only t" for s t using that by (induction t) auto
  have "symbols_only x \<and> unrepeated x" if x: "x \<in> set ss'" "ss \<noteq> []" for x
  proof -
    obtain s where s: "s \<in> set ss" "expanded n A s x" using list_all2_partner(2) [OF b(1) x(1)] by blast
    moreover have "repeated x = []" using assms(3) b(3) x by simp
    ultimately show ?thesis using symbols_expanded flat b(2) assms(2) by blast
  qed
  then show ?thesis using b(3) by simp
qed

lemma yields_derives:
  "symbols_only t \<Longrightarrow> unrepeated t \<Longrightarrow> ss \<in> yields t \<Longrightarrow> list_all2 (\<lambda>s w. derives vs (sym_tree s) w) ss ws \<Longrightarrow> derives vs t (concat ws)"
  "\<forall>t \<in> set ts. symbols_only t \<and> unrepeated t \<Longrightarrow> ss \<in> yields_seq ts \<Longrightarrow> list_all2 (\<lambda>s w. derives vs (sym_tree s) w) ss ws \<Longrightarrow>
    \<exists>us. list_all2 (derives vs) ts us \<and> concat us = concat ws"
proof (induction t and ts arbitrary: ss ws and ss ws rule: yields_yields_seq.induct)
  case (3 ts)
  then obtain us where "list_all2 (derives vs) ts us" "concat us = concat ws" by fastforce
  then show ?case by (metis de_seq)
next
  case (13 t ts)
  obtain u v where uv: "ss = u @ v" "u \<in> yields t" "v \<in> yields_seq ts" using "13.prems"(2) by auto
  obtain ws1 ws2 where ws: "ws = ws1 @ ws2" "list_all2 (\<lambda>s w. derives vs (sym_tree s) w) u ws1" "list_all2 (\<lambda>s w. derives vs (sym_tree s) w) v ws2"
    using "13.prems"(3) uv(1) by (auto simp: list_all2_append1)
  obtain us where "list_all2 (derives vs) ts us" "concat us = concat ws2" using "13.IH"(2) [OF _ uv(3) ws(3)] "13.prems"(1) by auto
  moreover have "derives vs t (concat ws1)" using "13.IH"(1) [OF _ _ uv(2) ws(2)] "13.prems"(1) by simp
  ultimately show ?case using ws(1) by (intro exI [of _ "concat ws1 # us"]) simp
qed (auto simp: list_all2_Cons1 intro: derives.intros)

lemma symbols_flattenable: "symbols_only t \<Longrightarrow> unrepeated t \<Longrightarrow> flattenable t"
  by (induction t) auto

lemma symbols_yields:
  "symbols_only t \<Longrightarrow> ss \<in> yields t \<Longrightarrow> end_sym \<notin> set ss"
  "\<forall>t \<in> set ts. symbols_only t \<Longrightarrow> ss \<in> yields_seq ts \<Longrightarrow> end_sym \<notin> set ss"
  by (induction t and ts arbitrary: ss and ss rule: yields_yields_seq.induct) (auto simp: end_sym_def subset_iff)

lemma generates_derives:
  assumes prods: "\<And>i. productions_at out i = (if i < length vs then Some (f i) else None)"
    and f: "\<And>i. i < length vs \<Longrightarrow> production_symbols ` set (f i) = yields (vs ! i)" and ok: "\<forall>t \<in> set vs. symbols_only t \<and> unrepeated t"
  shows "generates out s w \<Longrightarrow> derives vs (sym_tree s) w"
proof (induction rule: generates.induct)
  case (gen_production i ps p ws)
  have i: "i < length vs" "ps = f i" using gen_production(1) prods [of i] by (auto split: if_splits)
  have "production_symbols p \<in> yields (vs ! i)" using f [OF i(1)] gen_production(2) i(2) by blast
  moreover have "list_all2 (\<lambda>s w. derives vs (sym_tree s) w) (production_symbols p) ws" by (rule list_all2_mono [OF gen_production(3)]) blast
  ultimately have "derives vs (vs ! i) (concat ws)" using yields_derives(1) ok i(1) nth_mem by blast
  then show ?case using i(1) by (simp add: de_variable)
qed (simp add: de_sym)

lemma derives_generates:
  assumes prods: "\<And>i. i < length vs \<Longrightarrow> productions_at out i = Some (f i)"
    and f: "\<And>i. i < length vs \<Longrightarrow> production_symbols ` set (f i) = yields (vs ! i)" and ok: "\<forall>t \<in> set vs. symbols_only t \<and> unrepeated t"
  shows "derives vs t w \<Longrightarrow> symbols_only t \<Longrightarrow> unrepeated t \<Longrightarrow> \<exists>ss ws. ss \<in> yields t \<and> list_all2 (generates out) ss ws \<and> w = concat ws"
proof (induction rule: derives.induct)
  case (de_sym k m)
  then show ?case using gen_token [of k out m] by (intro exI [of _ "[Symbol k m]"] exI [of _ "[[TSym k m]]"]) simp
next
  case (de_variable m w)
  then obtain ss ws where s: "ss \<in> yields (vs ! m)" "list_all2 (generates out) ss ws" "w = concat ws" using ok nth_mem by blast
  then obtain p where "p \<in> set (f m)" "ss = production_symbols p" using f [OF de_variable(1)] by blast
  then have "generates out (Symbol NonTerminal m) w" using gen_production [OF prods [OF de_variable(1)]] s by blast
  then show ?case by (intro exI [of _ "[Symbol NonTerminal m]"] exI [of _ "[w]"]) simp
next
  case (de_seq ts ws)
  have "list_all2 (\<lambda>t w. \<exists>ss ws. ss \<in> yields t \<and> list_all2 (generates out) ss ws \<and> w = concat ws) ts ws"
    using de_seq by (auto simp: list_all2_conv_all_nth)
  then have "\<exists>ss us. ss \<in> yields_seq ts \<and> list_all2 (generates out) ss us \<and> concat ws = concat us"
  proof (induction rule: list_all2_induct)
    case (Cons t ts w ws)
    then obtain s1 w1 s2 w2 where "s1 \<in> yields t" "list_all2 (generates out) s1 w1" "w = concat w1"
      "s2 \<in> yields_seq ts" "list_all2 (generates out) s2 w2" "concat ws = concat w2" by blast
    then show ?case by (intro exI [of _ "s1 @ s2"] exI [of _ "w1 @ w2"]) (auto intro: list_all2_appendI)
  qed simp
  then show ?case by simp
next
  case (de_choice t ts w)
  then show ?case by auto
qed auto

lemma generates_iff:
  assumes "length (st_var_prods out) = length vs" "\<And>i. i < length vs \<Longrightarrow> \<exists>ps. productions_at out i = Some ps \<and> production_symbols ` set ps = yields (vs ! i)"
    and ok: "\<forall>t \<in> set vs. symbols_only t \<and> unrepeated t" and i: "i < length vs"
  shows "generates out (Symbol NonTerminal i) w \<longleftrightarrow> derives vs (vs ! i) w"
proof -
  define f where "f i = the (productions_at out i)" for i
  have prods: "productions_at out k = (if k < length vs then Some (f k) else None)" for k
    using assms(1) assms(2) [of k] by (cases "k < length vs") (auto simp: f_def productions_at_def vec_get_def)
  have prods': "productions_at out k = Some (f k)" if "k < length vs" for k using prods that by simp
  have f: "production_symbols ` set (f k) = yields (vs ! k)" if "k < length vs" for k using assms(2) [OF that] by (auto simp: f_def)
  have "derives vs (vs ! i) w" if "generates out (Symbol NonTerminal i) w"
    using generates_derives [OF prods f ok that] by (simp add: derives_variable_iff)
  moreover have "generates out (Symbol NonTerminal i) w" if d: "derives vs (vs ! i) w"
  proof -
    have "symbols_only (vs ! i)" "unrepeated (vs ! i)" using ok i by auto
    then obtain ss ws where s: "ss \<in> yields (vs ! i)" "list_all2 (generates out) ss ws" "w = concat ws"
      using derives_generates [OF prods' f ok d] by blast
    then obtain p where "p \<in> set (f i)" "ss = production_symbols p" using f [OF i] by blast
    then show ?thesis using gen_production [of out i "f i" p ws] prods [of i] i s by simp
  qed
  ultimately show ?thesis by blast
qed

lemma expand_and_flatten_runs:
  assumes run: "expand_and_flatten H g m = Some (Inr (g', m', out))"
  shows "\<exists>st. expand_repeats H g m = Some (Inr (g', m')) \<and> flatten_grammar g' m' default_state empty_store = Some (Inr (st, out))"
proof -
  obtain r where r: "expand_repeats H g m = Some r" using run by (cases "expand_repeats H g m") (auto simp: expand_and_flatten_def)
  then obtain g1 m1 where e: "r = Inr (g1, m1)" using run by (cases r) (auto simp: expand_and_flatten_def)
  then obtain q where q: "flatten_grammar g1 m1 default_state empty_store = Some q"
    using run r by (cases "flatten_grammar g1 m1 default_state empty_store") (auto simp: expand_and_flatten_def)
  then show ?thesis using run r e by (cases q) (auto simp: expand_and_flatten_def)
qed

lemma expansion_symbols:
  assumes ex: "expansion ts A ts'" and A: "\<forall>u \<in> set A. \<exists>t \<in> set ts. u \<in> set (repeated t)" and ok: "\<forall>t \<in> set ts. symbols_only t" and clean: "\<forall>t \<in> set ts'. repeated t = []"
  shows "\<forall>t \<in> set ts'. symbols_only t \<and> unrepeated t"
proof
  fix t' assume "t' \<in> set ts'"
  then obtain k where k: "k < length ts'" "t' = ts' ! k" "repeated (ts' ! k) = []" using clean by (metis in_set_conv_nth)
  have inner: "symbols_only u" if "u \<in> set (repeated t)" "symbols_only t" for u t using that by (induction t) auto
  show "symbols_only t' \<and> unrepeated t'"
  proof (cases "k < length ts")
    case True
    then have t: "symbols_only (ts ! k)" using ok by simp
    consider "expanded (length ts) A (ts ! k) (ts' ! k)" | u where "ts ! k = TRepeat u" "binary_tree (length ts) A k u (ts' ! k)"
      using ex True by (auto simp: expansion_def)
    then show ?thesis
    proof cases
      case 1
      then show ?thesis using symbols_expanded t k by blast
    next
      case 2
      then show ?thesis using symbols_binary [OF 2(2)] t k by simp
    qed
  next
    case False
    then have j: "k - length ts < length A" "length ts + (k - length ts) = k" using k(1) ex by (auto simp: expansion_def)
    then have "binary_tree (length ts) A k (A ! (k - length ts)) (ts' ! k)" using ex by (metis expansion_def)
    moreover have "symbols_only (A ! (k - length ts))" using A nth_mem [OF j(1)] inner ok by blast
    ultimately show ?thesis using symbols_binary k by blast
  qed
qed

section \<open>Concrete grammars\<close>

lemma expand_steps:
  "expand_loop H nm [] s = Some (Inr s)"
  "node (fst s) i = Some (Sym k n) \<Longrightarrow> expand_loop H nm (Visit i # st) s = expand_loop H nm st s"
  "node (fst s) i = Some (Reserved c x) \<Longrightarrow> expand_loop H nm (Visit i # st) s = expand_loop H nm st s"
  "node (fst s) i = Some (Seq r) \<Longrightarrow> child_slice (fst s) r = Some cs \<Longrightarrow> expand_loop H nm (Visit i # st) s = expand_loop H nm (map Visit cs @ st) s"
  by (subst expand_loop.simps, simp)+

lemma small_u32: "as_u32 0 = 0" "as_u32 (Suc 0) = 1" "as_u32 (Suc (Suc 0)) = 2" "as_u32 (Suc (Suc (Suc 0))) = 3" "as_u32 (Suc (Suc (Suc (Suc 0)))) = 4"
    "as_u32 (Suc (Suc (Suc (Suc (Suc 0))))) = 5"
  by (simp_all add: as_u32_def)

text \<open>The small grammar with a hidden variable, which becomes a binary tree of itself.\<close>

definition hidden_meta :: ExtractedGrammarMeta where
  "hidden_meta = small_meta\<lparr>m_kinds := [Hidden]\<rparr>"

definition wrapped_grammar :: "(u64 \<times> nat) list InputGrammar" where
  "wrapped_grammar = small_grammar\<lparr>g_pool := (g_pool small_grammar)\<lparr>nodes := [Sym Terminal 0, Repeat 0, Sym NonTerminal 0, Sym NonTerminal 0, Seq (RuleIdRange 0 2), Choice (RuleIdRange 2 2)],
     children := [2, 3, 4, 0]\<rparr>, g_variables := [\<lparr>v_name = 3, v_root = 5\<rparr>]\<rparr>"

lemma hidden_expands: "expand_repeats list_hashing small_grammar hidden_meta = Some (Inr (wrapped_grammar, hidden_meta\<lparr>m_kinds := [Auxiliary]\<rparr>))"
proof -
  let ?P = "g_pool small_grammar"
  have "list_all2 (\<lambda>v t. rep ?P (v_root v) t \<and> syntactic t) (g_variables small_grammar) small_trees" by (rule list_all2_mono [OF small_ok(3)]) blast
  then obtain tbl where tbl: "zero_width_new ?P (g_variables small_grammar) = Some tbl" using zero_width_table by blast
  have w: "eval_width ?P tbl 0 = Some default_width" using eval_width_rep [of ?P 0 "TSym Terminal 0" tbl] by (simp add: small_rep symbol_width_def)
  let ?x = "\<lparr>preceding = 1, aux = [], memo = (\<lambda>_. []), zero_width = tbl\<rparr>"
  have r: "expand_root list_hashing 3 0 (?P, ?x, 0) = Some (Inr (?P, ?x, 0))"
    by (simp add: expand_root_def expand_steps small_node)
  define Q where "Q = ?P\<lparr>nodes := [Sym Terminal 0, Repeat 0, Sym NonTerminal 0, Sym NonTerminal 0, Seq (RuleIdRange 0 2)], children := [2, 3]\<rparr>"
  have n: "node Q 0 = Some (Sym Terminal 0)" "rep Q 0 (TSym Terminal 0)" by (auto intro!: rep_Sym simp: Q_def node_def vec_get_def)
  have "rep Q 4 (pair 0)" by (rule pair_rep [of _ 2 _ 3 _ "RuleIdRange 0 2"]) (simp_all add: Q_def node_def vec_get_def child_slice_def vec_slice_def)
  then have "any_eq Q [4] 0 = Some False" using any_eq_rep [of Q "[4]" "[pair 0]" 0 "TSym Terminal 0"] n(2) by simp
  then have loop: "wrap_loop Q [0] [4] = Some [4, 0]" using n(1) by (subst wrap_loop.simps) (simp add: wrap_loop.simps [of _ "[]"])
  have wrap: "wrap_in_binary_tree ?P (non_terminal 0) 0 = Some (g_pool wrapped_grammar, 5)"
    using loop [unfolded Q_def]
    by (simp add: wrap_in_binary_tree_def push_node_def push_children_def non_terminal_def rule_of_symbol_def small_grammar_def wrapped_grammar_def small_u32 cong: if_cong)
  have vars: "g_variables small_grammar = [\<lparr>v_name = 3, v_root = 1\<rparr>]" by (simp add: small_grammar_def)
  have wg: "small_grammar\<lparr>g_pool := g_pool wrapped_grammar, g_variables := [\<lparr>v_name = 3, v_root = 5\<rparr>]\<rparr> = wrapped_grammar" by (simp add: wrapped_grammar_def)
  have n1: "node ?P 1 = Some (Repeat 0)" by (simp add: small_node)
  have e: "expand_variable list_hashing 0 (small_grammar, hidden_meta, ?x) = Some (Inr (wrapped_grammar, hidden_meta\<lparr>m_kinds := [Auxiliary]\<rparr>, ?x))"
    using w r wrap n1 by (simp add: expand_variable_def vec_get_def vars wg hidden_meta_def small_meta_def default_width_def)
  show ?thesis using tbl e by (simp add: expand_repeats_def vars wrapped_grammar_def hidden_meta_def)
qed

abbreviation wrapped_tree :: rtree where
  "wrapped_tree \<equiv> TChoice [pair 0, TSym Terminal 0]"

lemma wrapped_rep: "list_all2 (\<lambda>v t. rep (g_pool wrapped_grammar) (v_root v) t) (g_variables wrapped_grammar) [wrapped_tree]"
proof -
  have "rep (g_pool wrapped_grammar) 4 (pair 0)" by (rule pair_rep [of _ 2 _ 3 _ "RuleIdRange 0 2"])
      (simp_all add: wrapped_grammar_def node_def vec_get_def child_slice_def vec_slice_def)
  moreover have "rep (g_pool wrapped_grammar) 0 (TSym Terminal 0)" by (rule rep_Sym) (simp add: wrapped_grammar_def node_def vec_get_def)
  ultimately have "rep (g_pool wrapped_grammar) 5 wrapped_tree"
    by (intro rep_Choice [of _ _ "RuleIdRange 2 2" "[4, 0]"]) (simp_all add: wrapped_grammar_def node_def vec_get_def child_slice_def vec_slice_def)
  then show ?thesis by (simp add: wrapped_grammar_def)
qed

lemma wrapped_prods: "flat_prods R wrapped_tree = [([step_of (Symbol NonTerminal 0) default_ctx, step_of (Symbol NonTerminal 0) default_ctx], 0, False), ([step_of (Symbol Terminal 0) default_ctx], 0, False)]"
  by (simp add: flat_prods_def produced_def map_filter_simps end_sym_def add_new_def is_dead_def join_def)

lemma small_resolve: "g_variables g' = [\<lparr>v_name = 3, v_root = r\<rparr>] \<Longrightarrow> str_pool (g_pool g') = str_pool (g_pool small_grammar) \<Longrightarrow>
    \<forall>v \<in> set (g_variables g'). resolve (str_pool (g_pool g')) (v_name v) \<noteq> None"
  using resolve_holds [OF small_ok(2), of 3] by (simp add: id_index_def small_strings_def)

abbreviation done_meta :: ExtractedGrammarMeta where
  "done_meta \<equiv> hidden_meta\<lparr>m_kinds := [Auxiliary]\<rparr>"

lemma wrapped_ok:
  "\<forall>t \<in> set [wrapped_tree]. reserved_names t \<subseteq> dom (reserved_ids_of done_meta)" "length (m_reserved_sets done_meta) \<le> 65535"
  "\<forall>v \<in> set (g_variables wrapped_grammar). resolve (str_pool (g_pool wrapped_grammar)) (v_name v) \<noteq> None"
  "(\<Sum>t \<leftarrow> [wrapped_tree]. length (paths (reserved_ids_of done_meta) t default_ctx True)) < 2 ^ 32"
  "(\<Sum>t \<leftarrow> [wrapped_tree]. total_steps (paths (reserved_ids_of done_meta) t default_ctx True)) < 2 ^ 32"
proof -
  show "\<forall>v \<in> set (g_variables wrapped_grammar). resolve (str_pool (g_pool wrapped_grammar)) (v_name v) \<noteq> None"
    by (rule small_resolve [of _ 5]) (simp_all add: wrapped_grammar_def)
qed (simp_all add: hidden_meta_def small_meta_def total_steps_def is_dead_def join_def)

lemma wrapped_runs: "\<exists>out. expand_and_flatten list_hashing small_grammar hidden_meta = Some (Inr (wrapped_grammar, done_meta, out))"
proof -
  have "\<not> unreachable R wrapped_tree" for R unfolding unreachable_def wrapped_prods by simp
  moreover have "\<not> ill_formed fs done_meta 0 (flat_prods R wrapped_tree)" for fs R
    unfolding ill_formed_def wrapped_prods by (simp add: bad_production_def hidden_meta_def small_meta_def)
  ultimately have "\<exists>st out. flatten_grammar wrapped_grammar done_meta default_state empty_store = Some (Inr (st, out))"
    using flatten_grammar_outcome [OF wrapped_rep wrapped_ok, of default_state] by auto
  then show ?thesis using hidden_expands by (auto simp: expand_and_flatten_def)
qed

text \<open>A rule \<open>seq(y, reserved('r', repeat1(x)))\<close> with the terminals \<open>x\<close> and \<open>y\<close>.\<close>

definition reserved_grammar :: "(u64 \<times> nat) list InputGrammar" where
  "reserved_grammar = small_grammar\<lparr>g_pool := (g_pool small_grammar)\<lparr>nodes := [Sym Terminal 0, Repeat 0, Reserved 1 2, Sym Terminal 1, Seq (RuleIdRange 0 2)],
     children := [3, 2]\<rparr>, g_variables := [\<lparr>v_name = 3, v_root = 4\<rparr>]\<rparr>"

definition reserved_meta :: ExtractedGrammarMeta where
  "reserved_meta = small_meta\<lparr>m_reserved_sets := [(2, [])]\<rparr>"

abbreviation reserved_tree :: rtree where
  "reserved_tree \<equiv> TSeq [TSym Terminal 1, TReserved (TRepeat (TSym Terminal 0)) 2]"

lemma reserved_rep: "list_all2 (\<lambda>v t. rep (g_pool reserved_grammar) (v_root v) t) (g_variables reserved_grammar) [reserved_tree]"
proof -
  let ?P = "g_pool reserved_grammar"
  have n: "node ?P 0 = Some (Sym Terminal 0)" "node ?P 1 = Some (Repeat 0)" "node ?P 2 = Some (Reserved 1 2)" "node ?P 3 = Some (Sym Terminal 1)"
      "node ?P 4 = Some (Seq (RuleIdRange 0 2))" "child_slice ?P (RuleIdRange 0 2) = Some [3, 2]"
    by (simp_all add: reserved_grammar_def node_def vec_get_def child_slice_def vec_slice_def)
  have "rep ?P 2 (TReserved (TRepeat (TSym Terminal 0)) 2)" by (intro rep_Reserved [OF n(3)] rep_Repeat [OF n(2)] rep_Sym [OF n(1)])
  then have "rep ?P 4 reserved_tree" using rep_Sym [OF n(4)] by (intro rep_Seq [OF n(5,6)]) simp
  then show ?thesis by (simp add: reserved_grammar_def)
qed

lemma reserved_expands: "expand_repeats list_hashing reserved_grammar reserved_meta = Some (Inr (reserved_grammar, reserved_meta))"
proof -
  let ?P = "g_pool reserved_grammar"
  have "list_all2 (\<lambda>v t. rep ?P (v_root v) t \<and> syntactic t) (g_variables reserved_grammar) [reserved_tree]"
    using reserved_rep by (simp add: reserved_grammar_def)
  then obtain tbl where tbl: "zero_width_new ?P (g_variables reserved_grammar) = Some tbl" using zero_width_table by blast
  have n: "node ?P 2 = Some (Reserved 1 2)" "node ?P 3 = Some (Sym Terminal 1)"
      "node ?P 4 = Some (Seq (RuleIdRange 0 2))" "child_slice ?P (RuleIdRange 0 2) = Some [3, 2]"
    by (simp_all add: reserved_grammar_def node_def vec_get_def child_slice_def vec_slice_def)
  have vars: "g_variables reserved_grammar = [\<lparr>v_name = 3, v_root = 4\<rparr>]" by (simp add: reserved_grammar_def)
  have "expand_root list_hashing 3 4 (?P, x, 0) = Some (Inr (?P, x, 0))" for x
    using n by (simp add: expand_root_def expand_steps)
  then have "expand_variable list_hashing 0 (reserved_grammar, reserved_meta, x) = Some (Inr (reserved_grammar, reserved_meta, x))" for x
    by (simp add: expand_variable_def vec_get_def vars reserved_meta_def small_meta_def)
  then show ?thesis using tbl by (simp add: expand_repeats_def vars reserved_grammar_def reserved_meta_def)
qed

lemma reserved_needs_more: "\<not> derives vs reserved_tree [TSym Terminal 1]"
proof
  assume "derives vs reserved_tree [TSym Terminal 1]"
  then obtain ws where ws: "list_all2 (derives vs) [TSym Terminal 1, TReserved (TRepeat (TSym Terminal 0)) 2] ws" "concat ws = [TSym Terminal 1]" by cases auto
  have token: "derives vs (TSym Terminal k) w \<Longrightarrow> w = [TSym Terminal k]" for k w by (erule derives.cases) simp_all
  obtain x y where xy: "ws = [x, y]" "derives vs (TSym Terminal 1) x" "derives vs (TReserved (TRepeat (TSym Terminal 0)) 2) y" using ws(1) by (auto simp: list_all2_Cons1)
  from xy(3) have "derives vs (TRepeat (TSym Terminal 0)) y" by cases
  then obtain us where us: "y = concat us" "us \<noteq> []" "list_all (derives vs (TSym Terminal 0)) us" by (rule derives_repeat)
  then have "y \<noteq> []" using token [of 0 "hd us"] by (cases us) auto
  then show False using ws(2) xy(1) token [OF xy(2)] by simp
qed

end
