(* ===== verification/Spec2Isabelle.thy ===== *)
theory Spec2Isabelle
  imports Char_Set Token_Set Rule_Pool Nfa_Cursor Grammars Tables Dedup Coincident_Tokens Token_Conflicts Lex_Table Indirect_Recursion Intern_Symbols Flatten_Grammar Default_Aliases Process_Inlines Prepare_Syntax
begin

text \<open>
  A verification library for the parser generator of tree-sitter, the crate \<^verbatim>\<open>crates/generate\<close> of the
  repository. The generator reads a grammar, prepares it by a series of passes over a rule arena, and
  builds a parse table and a lex table that the C runtime interprets. Paths below are relative to
  \<^verbatim>\<open>src/crates/generate/src\<close>.

  \<^bold>\<open>How the program's parts interact.\<close> Names are interned in a \<open>StrPool\<close> (\<^verbatim>\<open>strpool.rs\<close>). Rules live in the
  arena \<open>RulePool\<close> (\<^verbatim>\<open>rules.rs\<close>) and are rewritten in place by the preparation passes
  (\<^verbatim>\<open>prepare_grammar/\<close>); \<open>flatten_grammar\<close> turns every rule tree into productions with packed steps
  (\<^verbatim>\<open>grammars.rs\<close>). Tokens become states of one NFA (\<^verbatim>\<open>nfa.rs\<close>), whose edges carry character sets. The table
  builder (\<^verbatim>\<open>build_tables/\<close>) works with token sets (\<^verbatim>\<open>rules.rs\<close>) on bit vectors (\<^verbatim>\<open>bitvec.rs\<close>). The lex table is
  the determinised NFA, one set of start tokens per group of parse states that may share a lexer;
  which groups may is decided by the conflict map (\<^verbatim>\<open>token_conflicts.rs\<close>) and by the index of tokens valid
  in one state (\<^verbatim>\<open>coincident_tokens.rs\<close>); it is then minimized by partition refinement (\<^verbatim>\<open>dedup.rs\<close>) and sorted.
  The parse table's action lists are pooled (\<^verbatim>\<open>tables.rs\<close>).

  \<^bold>\<open>The theories.\<close>
  \<^item> \<open>Prelude\<close>: Rust's casts, vectors with partial indexing, three-way comparison, binary search, and the two
    interfaces: \<open>comparison\<close> (what a \<open>cmp\<close> function owes a sort) and \<open>set_builder\<close> (a collection filled by
    insertions represents the collected set). They are interpreted by the orders of character sets' bit
    vectors and token sets, and by \<open>CharacterSet\<close> and \<open>TokenSet\<close>.
  \<^item> \<open>Char_Set\<close>: \<open>CharacterSet\<close> of \<^verbatim>\<open>nfa.rs\<close>, sorted ranges of code points. The canonical form is kept by every
    operation; union, complement, membership, the simultaneous in-place difference and intersection,
    the simplification modulo ruled-out characters and the order agree with sets of code points.
  \<^item> \<open>Bit_Vec\<close>, \<open>Bit_Rows\<close>: \<open>BitVec\<close> of \<^verbatim>\<open>bitvec.rs\<close> at the width of its words, and flat bit matrices. Word-level
    union, comparison, hashing and iteration depend on the set bits only; the exact effect of a change of length shows when the
    invariant is lost.
  \<^item> \<open>Symbols\<close>, \<open>Token_Set\<close>: the symbols of \<^verbatim>\<open>rules.rs\<close> with their derived order, and \<open>TokenSet\<close> as a refinement of
    sets of symbols.
  \<^item> \<open>Str_Pool\<close>: the interner; the hash table and hasher are parameters with the laws they document.
  \<^item> \<open>Rule_Pool\<close>: the arena. \<open>rep\<close> relates a node to the tree it stands for; structural equality, hashing,
    flattening of choices, the reference walks and the metadata builders are shown against trees.
  \<^item> \<open>Nfa_Cursor\<close>, \<open>Lexical_Wf\<close>: the NFA, its cursor and the grouping of overlapping transitions into disjoint
    ones; well-formed lexical grammars.
  \<^item> \<open>Grammars\<close>, \<open>Production_Store\<close>: the records of \<^verbatim>\<open>grammars.rs\<close>, the packed production step at its bit level, and
    stores of productions.
  \<^item> \<open>Flatten_Grammar\<close>: \<^verbatim>\<open>prepare_grammar/flatten_grammar.rs\<close>. The walk, the choice cursor and the checks. The cursor
    enumerates exactly the paths of the rule tree, each once; the productions derive the tree's
    language, once repetitions and tokens are gone from it; every error of the pass is characterised.
  \<^item> \<open>Intern_Symbols\<close>: \<^verbatim>\<open>prepare_grammar/intern_symbols.rs\<close>. Names become symbols in place; which symbol a name stands
    for is stated on the grammar, the pass returns, every error is the first undefined name in the order of the checks, and
    on success every root stands for its old tree with the names replaced, and warnings and metadata are given exactly.
  \<^item> \<open>Validate_Precedences\<close>, \<open>Indirect_Recursion\<close>: the two checks of \<^verbatim>\<open>prepare_grammar.rs\<close>. Reported precedences are
    contradictory or undeclared; a concrete pair of contradictory lists is accepted, because the swap in
    the pair loop overwrites the outer entry. The depth-first search for cycles of single references
    is exact.
  \<^item> \<open>Zero_Width\<close>, \<open>Repeat_Language\<close>, \<open>Expand_Repeats\<close>: \<^verbatim>\<open>prepare_grammar/expand_repeats.rs\<close>. The analysis of rules that can match zero
    characters terminates and is exact; expanding returns, reports exactly the repetitions that can match
    nothing at the end of the input, replaces every other one by an auxiliary variable and preserves
    the language, although nodes are rewritten in place, shared and memoized.
  \<^item> \<open>Prepare_Syntax\<close>: the part of \<open>prepare_grammar\<close> in \<^verbatim>\<open>prepare_grammar.rs\<close> that runs the expansion and the flattening one after the other,
    and the words that productions generate. The two theorems at the end of this theory span both passes:
    the productions generate what the rules derive, and a repetition inside of \<open>reserved\<close> is lost.
  \<^item> \<open>Default_Aliases\<close>: \<^verbatim>\<open>prepare_grammar/extract_default_aliases.rs\<close>. The default is the most frequent alias of a symbol that is
    never used without one; clearing the redundant aliases keeps the child type of every step.
  \<^item> \<open>Process_Inlines\<close>: \<^verbatim>\<open>prepare_grammar/process_inlines.rs\<close>. The expansion of inlined steps returns when inlined variables do
    not refer to each other in a cycle, and goes on forever where they do at the start of their productions; the map it builds lists exactly
    the expansions of every reachable inlined step.
  \<^item> \<open>Tables\<close>: \<^verbatim>\<open>tables.rs\<close>, action lists and their pool; interning, canonicalising and remapping keep the meaning
    of every entry.
  \<^item> \<open>Dedup\<close>: \<^verbatim>\<open>dedup.rs\<close>, partition refinement: repeated as by its callers it terminates, in a partition that no split separates and
    that is no finer than it must be.
  \<^item> \<open>Coincident_Tokens\<close>, \<open>Token_Conflicts\<close>: the two indexes over pairs of tokens; their bit rows agree with the
    pairwise queries, and the search over pairs of NFA state sets terminates.
  \<^item> \<open>Lex_Table\<close>: \<^verbatim>\<open>build_tables/build_lex_table.rs\<close>. The worklist performs the subset construction; minimization and
    sorting preserve what every lex state accepts; merging of token sets equals the pairwise test.

  \<^bold>\<open>Conventions.\<close> A panic, an index out of bounds or a walk that does not end is \<^term>\<open>None\<close>; a \<open>Result\<close> is a sum.
  Loops whose bound is not structural are \<open>partial_function (option)\<close> and shown to return. \<open>usize\<close> is \<^typ>\<open>nat\<close>; a cast
  to \<open>u32\<close> truncates, and the theorems ask that counts fit in 32 bits. No fuel is used. Vectors are lists,
  the top of a stack is the head of a list; a hash map is a partial function, or an association list where
  the source iterates over it. Third-party code (\<open>hashbrown\<close>, \<open>FxHasher\<close>) is a parameter.

  \<^bold>\<open>Not modelled.\<close> The arena allocator behind \<open>BitVec\<close> (its words are zeroed on allocation, which is modelled);
  \<open>Debug\<close> output and logging; debug assertions; token extraction and token expansion with its regular
  expressions, and the part of the preparation driver that calls them; the LR item sets, parse table
  construction and minimization; node types, JSON input, the rendering of C code and the generator's
  driver; the command line, loader, configuration, highlighting, tags and language bindings, which
  wrap the C runtime or do I/O.
\<close>

section \<open>Properties of the passes together\<close>

text \<open>C1. Repetitions expanded and rules flattened, the productions of the store generate for every variable exactly the
  words its rule derives in the grammar before, for rules without \<open>eof()\<close> and without repetitions inside of \<open>reserved\<close>.\<close>

theorem prepared_language:
  assumes "hash_table_laws (table_ops H) ent" "holds ent (hash_str H) (str_pool (g_pool g)) strs"
    and ts: "list_all2 (\<lambda>v t. rep (g_pool g) (v_root v) t \<and> syntactic t \<and> refs_below (length (g_variables g)) t) (g_variables g) ts"
    and "\<forall>v \<in> set (g_variables g). id_index (v_name v) < length strs \<and> length (strs ! id_index (v_name v)) \<le> L"
    and "length (m_kinds m) = length (g_variables g)" "\<forall>i t. rep (g_pool g) i t \<longrightarrow> length (flat t) \<le> M"
    and "room (length (g_variables g)) M L (g_pool g) strs (length (filter is_repeat (nodes (g_pool g))) + length (g_variables g))"
    and run: "expand_and_flatten H g m = Some (Inr (g', m', out))" and ts': "list_all2 (\<lambda>v t. rep (g_pool g') (v_root v) t) (g_variables g') ts'"
    and fl: "\<forall>t \<in> set ts'. reserved_names t \<subseteq> dom (reserved_ids_of m')" "length (m_reserved_sets m') \<le> 65535"
      "\<forall>v \<in> set (g_variables g'). resolve (str_pool (g_pool g')) (v_name v) \<noteq> None"
      "(\<Sum>t \<leftarrow> ts'. length (paths (reserved_ids_of m') t default_ctx True)) < 2 ^ 32"
      "(\<Sum>t \<leftarrow> ts'. total_steps (paths (reserved_ids_of m') t default_ctx True)) < 2 ^ 32"
    and ok: "\<forall>t \<in> set ts. symbols_only t" and i: "i < length ts"
  shows "generates out (Symbol NonTerminal i) w \<longleftrightarrow> derives ts (ts ! i) w"
proof -
  note as = assms(1-7)
  obtain st where r: "expand_repeats H g m = Some (Inr (g', m'))" "flatten_grammar g' m' default_state empty_store = Some (Inr (st, out))"
    using expand_and_flatten_runs [OF run] by blast
  have "\<forall>k < length ts. \<not> eof_repeat ts k" using expand_repeats_outcome [OF as] r(1) by (auto split: if_splits)
  then obtain A us where us: "expansion ts A us" "\<forall>u \<in> set A. refs_below (length ts) u \<and> (\<exists>t \<in> set ts. u \<in> set (repeated t))"
      "list_all2 (\<lambda>v t. rep (g_pool g') (v_root v) t \<and> repeated t = []) (g_variables g') us"
    using expand_repeats_success [OF as] r(1) by auto
  have eq: "us = ts'" using us(3) ts' by (auto simp: list_all2_conv_all_nth intro!: nth_equalityI rep_functional)
  have plain: "\<forall>t \<in> set ts'. symbols_only t \<and> unrepeated t"
    using expansion_symbols [OF us(1) _ ok] us(2) list_all2_partner(2) [OF us(3)] unfolding eq by blast
  have out: "length (st_var_prods out) = length ts' \<and> (\<forall>k < length ts'. productions_at out k = Some (flat_prods (reserved_ids_of m') (ts' ! k)))"
    using flatten_grammar_outcome [OF ts' fl, of default_state] r(2) by (auto split: if_splits)
  have "\<exists>ps. productions_at out k = Some ps \<and> production_symbols ` set ps = yields (ts' ! k)" if k: "k < length ts'" for k
  proof -
    have "end_sym \<notin> set ss" if "ss \<in> yields (ts' ! k)" for ss using symbols_yields(1) [OF _ that] plain k by simp
    then have "{ss \<in> yields (ts' ! k). end_sym \<notin> set (butlast ss)} = yields (ts' ! k)" by (auto dest: in_set_butlastD)
    moreover have "flattenable (ts' ! k)" using symbols_flattenable plain k by simp
    ultimately show ?thesis using out k flat_prods_language [of "ts' ! k" "reserved_ids_of m'"] by auto
  qed
  moreover have i': "i < length ts'" using us(1) eq i by (simp add: expansion_def)
  ultimately have "generates out (Symbol NonTerminal i) w \<longleftrightarrow> derives ts' (ts' ! i) w" using generates_iff out plain by blast
  also have "\<dots> \<longleftrightarrow> derives ts' (TSym NonTerminal i) w" using i' by (simp add: derives_variable_iff)
  also have "\<dots> \<longleftrightarrow> derives ts (TSym NonTerminal i) w"
  proof (rule expansion_language)
    show "expansion ts A ts'" using us(1) eq by simp
    show "\<forall>u \<in> set A. refs_below (length ts) u" using us(2) by blast
    show "\<forall>t \<in> set ts. refs_below (length ts) t" using ts by (auto simp: list_all2_conv_all_nth in_set_conv_nth)
    show "expanded (length ts) A (TSym NonTerminal i) (TSym NonTerminal i)" using i by (simp add: ex_sym)
  qed
  also have "\<dots> \<longleftrightarrow> derives ts (ts ! i) w" using i by (simp add: derives_variable_iff)
  finally show ?thesis .
qed

theorem prepared_language_witness:
  "\<exists>out. expand_and_flatten list_hashing small_grammar hidden_meta = Some (Inr (wrapped_grammar, done_meta, out)) \<and>
     generates out (Symbol NonTerminal 0) [TSym Terminal 0, TSym Terminal 0]"
proof -
  obtain out where run: "expand_and_flatten list_hashing small_grammar hidden_meta = Some (Inr (wrapped_grammar, done_meta, out))" using wrapped_runs by blast
  have "length (m_kinds hidden_meta) = length (g_variables small_grammar)" using small_ok(5) by (simp add: hidden_meta_def small_meta_def)
  then have iff: "generates out (Symbol NonTerminal 0) w \<longleftrightarrow> derives small_trees (small_trees ! 0) w" for w
    using prepared_language [OF small_ok(1-4) _ small_ok(6,7) run wrapped_rep wrapped_ok, of 0 w] by (simp add: small_trees_def)
  have "derives small_trees (TRepeat (TSym Terminal 0)) (concat [[TSym Terminal 0], [TSym Terminal 0]])" by (rule de_repeat) (auto intro: de_sym)
  then show ?thesis using run iff by (simp add: small_trees_def)
qed

text \<open>C40. A repetition inside of \<open>reserved\<close> is lost without an error: expanding leaves it alone, flattening skips it, and the
  variable of the rule \<open>seq(y, reserved('r', repeat1(x)))\<close> has the single production \<open>y\<close>, although the rule derives only words that go on with \<open>x\<close>.\<close>

theorem reserved_repeat_lost:
  "\<exists>out. expand_and_flatten list_hashing reserved_grammar reserved_meta = Some (Inr (reserved_grammar, reserved_meta, out)) \<and>
     map_option (map production_symbols) (productions_at out 0) = Some [[Symbol Terminal 1]] \<and>
     derives [reserved_tree] reserved_tree [TSym Terminal 1, TSym Terminal 0] \<and> \<not> derives [reserved_tree] reserved_tree [TSym Terminal 1]"
proof -
  have prods: "flat_prods R reserved_tree = [([step_of (Symbol Terminal 1) default_ctx], 0, False)]" for R
    by (simp add: flat_prods_def produced_def map_filter_simps end_sym_def add_new_def is_dead_def join_def)
  have "\<not> unreachable R reserved_tree" for R unfolding unreachable_def prods by simp
  moreover have "\<not> ill_formed fs reserved_meta 0 (flat_prods R reserved_tree)" for fs R
    unfolding ill_formed_def prods by (simp add: bad_production_def reserved_meta_def small_meta_def)
  moreover have "\<forall>v \<in> set (g_variables reserved_grammar). resolve (str_pool (g_pool reserved_grammar)) (v_name v) \<noteq> None"
    by (rule small_resolve [of _ 4]) (simp_all add: reserved_grammar_def)
  ultimately have "\<exists>st out. flatten_grammar reserved_grammar reserved_meta default_state empty_store = Some (Inr (st, out)) \<and>
      productions_at out 0 = Some (flat_prods (reserved_ids_of reserved_meta) reserved_tree)"
    using flatten_grammar_outcome [OF reserved_rep, of reserved_meta default_state]
    by (auto simp: reserved_ids_of_def reserved_meta_def total_steps_def is_dead_def join_def)
  moreover have "derives [reserved_tree] (TRepeat (TSym Terminal 0)) [TSym Terminal 0]" by (intro derives_once de_sym) simp
  then have "derives [reserved_tree] reserved_tree (concat [[TSym Terminal 1], [TSym Terminal 0]])" by (intro de_seq) (simp add: de_sym de_reserved)
  moreover have "\<not> derives [reserved_tree] reserved_tree [TSym Terminal 1]" by (rule reserved_needs_more)
  ultimately show ?thesis using reserved_expands unfolding prods by (auto simp: expand_and_flatten_def production_symbols_def)
qed

end
